(* ===== verification/Prelude.thy ===== *)
theory Prelude
  imports Main "HOL-Library.Word" "HOL-Library.Multiset"
begin

text \<open>
  Shared vocabulary of the development: the result type of every fallible
  operation, its sequencing, and the generic facts on lists, natural-number
  masks and powers of two that the component theories use.

  A METL operation either returns, stops the program at a failed check, or
  (in code with a defect) leaves the defined behaviour of C++. The model keeps
  the three apart: \<open>Inr\<close> is a return, \<open>Inl Check_failed\<close> is the abort of
  \<^verbatim>\<open>detail::assertion_failed\<close>, and the other failures are the ways the
  library itself could go wrong: touching a slot that holds no object (or
  building over one that does), indexing outside an array, and looping without
  bound.
\<close>

unbundle bit_operations_syntax

named_theorems outcome_simps \<open>facts that reduce an outcome to its cases\<close>
named_theorems mask_simps \<open>power-of-two masks as remainders\<close>

section \<open>Outcomes\<close>

datatype failure =
    Check_failed
  | Lifetime_violation
  | Out_of_bounds
  | Diverged

type_synonym 'a outcome = "failure + 'a"

fun bnd :: "'a outcome \<Rightarrow> ('a \<Rightarrow> 'b outcome) \<Rightarrow> 'b outcome" where
  "bnd (Inl e) k = Inl e"
| "bnd (Inr v) k = k v"

text \<open>
  An outcome is safe when the operation either returned or was stopped by one
  of the library's own checks.
\<close>

definition safe :: "'a outcome \<Rightarrow> bool" where
  "safe m \<longleftrightarrow> (\<forall>e. m = Inl e \<longrightarrow> e = Check_failed)"

lemma bnd_cong [fundef_cong]:
  assumes "m = m'" and "\<And>v. m' = Inr v \<Longrightarrow> k v = k' v"
  shows "bnd m k = bnd m' k'"
  using assms by (cases m') auto

lemma bnd_eq_Inr [outcome_simps]:
  "bnd m k = Inr w \<longleftrightarrow> (\<exists>v. m = Inr v \<and> k v = Inr w)"
  by (cases m) auto

lemma bnd_eq_Inl [outcome_simps]:
  "bnd m k = Inl e \<longleftrightarrow> m = Inl e \<or> (\<exists>v. m = Inr v \<and> k v = Inl e)"
  by (cases m) auto

lemma bnd_assoc: "bnd (bnd m k) l = bnd m (\<lambda>v. bnd (k v) l)"
  by (cases m) auto

lemma safe_Inr [simp]: "safe (Inr v)"
  by (simp add: safe_def)

lemma safe_Inl [simp]: "safe (Inl e) \<longleftrightarrow> e = Check_failed"
  by (simp add: safe_def)

lemma safe_bnd: "safe m \<Longrightarrow> (\<And>v. m = Inr v \<Longrightarrow> safe (k v)) \<Longrightarrow> safe (bnd m k)"
  by (cases m) auto

text \<open>The result of a loop that might not end.\<close>

definition of_loop :: "'a option \<Rightarrow> 'a outcome" where
  "of_loop m = (case m of None \<Rightarrow> Inl Diverged | Some v \<Rightarrow> Inr v)"

lemma of_loop_simps [simp]: "of_loop None = Inl Diverged" "of_loop (Some v) = Inr v"
  by (simp_all add: of_loop_def)

section \<open>Arrays and counted loops\<close>

definition arr_get :: "'a list \<Rightarrow> nat \<Rightarrow> 'a outcome" where
  "arr_get xs i = (if i < length xs then Inr (xs ! i) else Inl Out_of_bounds)"

definition arr_set :: "'a list \<Rightarrow> nat \<Rightarrow> 'a \<Rightarrow> 'a list outcome" where
  "arr_set xs i v = (if i < length xs then Inr (xs[i := v]) else Inl Out_of_bounds)"

lemma arr_get_in [simp]: "i < length xs \<Longrightarrow> arr_get xs i = Inr (xs ! i)"
  by (simp add: arr_get_def)

lemma arr_set_in [simp]: "i < length xs \<Longrightarrow> arr_set xs i v = Inr (xs[i := v])"
  by (simp add: arr_set_def)

text \<open>
  \<open>for_upto i n body\<close> is \<^verbatim>\<open>for (k = i; k < n; ++k) body\<close>, and \<open>for_downto n body\<close> is
  \<^verbatim>\<open>for (k = n; k-- > 0;) body\<close>; the body does not assign the counter.
\<close>

function for_upto :: "nat \<Rightarrow> nat \<Rightarrow> (nat \<Rightarrow> 's \<Rightarrow> 's outcome) \<Rightarrow> 's \<Rightarrow> 's outcome" where
  "for_upto i n body s = (if i < n then bnd (body i s) (\<lambda>s1. for_upto (i + 1) n body s1) else Inr s)"
  by pat_completeness auto
termination
  by (relation "measure (\<lambda>(i, n, body, s). n - i)") auto

declare for_upto.simps [simp del]

primrec for_downto :: "nat \<Rightarrow> (nat \<Rightarrow> 's \<Rightarrow> 's outcome) \<Rightarrow> 's \<Rightarrow> 's outcome" where
  "for_downto 0 body s = Inr s"
| "for_downto (Suc k) body s = bnd (body k s) (\<lambda>s1. for_downto k body s1)"

lemma for_upto_done [simp]: "n \<le> i \<Longrightarrow> for_upto i n body s = Inr s"
  by (subst for_upto.simps) simp

lemma for_upto_step: "i < n \<Longrightarrow> for_upto i n body s = bnd (body i s) (for_upto (i + 1) n body)"
  by (subst for_upto.simps) simp

lemma for_upto_inv:
  assumes "\<And>k s. i \<le> k \<Longrightarrow> k < n \<Longrightarrow> Q k s \<Longrightarrow> \<exists>s'. body k s = Inr s' \<and> Q (Suc k) s'"
    and "Q i s" "i \<le> n"
  shows "\<exists>s'. for_upto i n body s = Inr s' \<and> Q n s'"
  using assms
proof (induction "n - i" arbitrary: i s)
  case (Suc d)
  then obtain s' where s': "body i s = Inr s'" "Q (Suc i) s'" by fastforce
  have "\<exists>t. for_upto (Suc i) n body s' = Inr t \<and> Q n t"
    by (rule Suc.hyps(1)) (use Suc s' in auto)
  then show ?case
    using Suc.hyps(2) s'(1) by (subst for_upto_step) auto
qed auto

lemma for_upto_split:
  "i \<le> m \<Longrightarrow> m \<le> n \<Longrightarrow> for_upto i n body s = bnd (for_upto i m body s) (for_upto m n body)"
proof (induction "m - i" arbitrary: i s)
  case (Suc d)
  then have "i < m" by simp
  moreover have "for_upto (i + 1) n body t = bnd (for_upto (i + 1) m body t) (for_upto m n body)" for t
    using Suc by (intro Suc.hyps(1)) auto
  ultimately show ?case
    using Suc.prems by (cases "body i s") (simp_all add: for_upto_step)
qed simp

text \<open>A loop whose rounds compute a known sequence of states, for as long as they succeed.\<close>

lemma for_upto_states:
  assumes "\<And>k. i \<le> k \<Longrightarrow> k < n \<Longrightarrow> body k (f k) = Inr (f (Suc k))" "i \<le> n"
  shows "for_upto i n body (f i) = Inr (f n)"
  using for_upto_inv [where Q = "\<lambda>k s. s = f k" and i = i and n = n and body = body and s = "f i"] assms
  by auto

lemma for_upto_stops:
  assumes "\<And>k. i \<le> k \<Longrightarrow> k < m \<Longrightarrow> body k (f k) = Inr (f (Suc k))" "i \<le> m" "m < n"
    and "body m (f m) = Inl e"
  shows "for_upto i n body (f i) = Inl e"
  using for_upto_split [of i m n body "f i"] for_upto_states [of i m body f] assms
  by (simp add: for_upto_step)

lemma for_downto_inv:
  assumes "\<And>k s. k < n \<Longrightarrow> Q (Suc k) s \<Longrightarrow> \<exists>s'. body k s = Inr s' \<and> Q k s'"
    and "Q n s"
  shows "\<exists>s'. for_downto n body s = Inr s' \<and> Q 0 s'"
  using assms
proof (induction n arbitrary: s)
  case (Suc n)
  then obtain s' where s': "body n s = Inr s'" "Q n s'" by blast
  have "\<exists>t. for_downto n body s' = Inr t \<and> Q 0 t"
    by (rule Suc.IH) (use Suc.prems(1) s'(2) in auto)
  then show ?case using s'(1) by simp
qed auto

section \<open>Element construction\<close>

text \<open>
  What running an element's constructor does: it builds a value, or it throws.
  Element constructors are the caller's code, so they are a parameter of the
  operations that run them.
\<close>

datatype 'a ctor = Builds 'a | Throws

datatype 'r call = Returned 'r | Threw

section \<open>Masks and powers of two\<close>

definition power_of_two :: "nat \<Rightarrow> bool" where
  "power_of_two n \<longleftrightarrow> n \<noteq> 0 \<and> n AND (n - 1) = 0"

lemma nat_and_mask [mask_simps]: "(x :: nat) AND (2 ^ k - 1) = x mod 2 ^ k"
proof -
  have "x AND mask k = take_bit k x"
    by (simp add: take_bit_eq_mask)
  then show ?thesis
    by (simp only: mask_eq_exp_minus_1 take_bit_eq_mod)
qed

lemma power_of_two_exp: "power_of_two (2 ^ k)"
  unfolding power_of_two_def by (simp only: nat_and_mask) simp

lemma power_of_twoD: "power_of_two n \<Longrightarrow> \<exists>k. n = 2 ^ k"
  unfolding power_of_two_def
proof (induction n rule: less_induct)
  case (less n)
  show ?case
  proof (cases "even n")
    case True
    then obtain m where m: "n = 2 * m" by blast
    with less.prems have m0: "m \<noteq> 0" by simp
    have "n - 1 = 2 * (m - 1) + 1" using m m0 by simp
    then have "n AND (n - 1) = 2 * (m AND (m - 1))"
      using m by (simp add: and_nat_rec [of "2 * m"])
    then have "m AND (m - 1) = 0" using less.prems by simp
    then obtain k where "m = 2 ^ k" using less.IH [of m] m m0 by auto
    then show ?thesis using m by (intro exI [of _ "Suc k"]) simp
  next
    case False
    then obtain m where m: "n = 2 * m + 1" by (rule oddE)
    then have "n AND (n - 1) = 2 * m"
      by (simp add: and_nat_rec [of "Suc (2 * m)"])
    then have "n = 1" using less.prems m by simp
    then show ?thesis by (intro exI [of _ 0]) simp
  qed
qed

lemma power_of_two_iff: "power_of_two n \<longleftrightarrow> (\<exists>k. n = 2 ^ k)"
  using power_of_twoD power_of_two_exp by blast

lemma and_power_of_two [mask_simps]: "power_of_two n \<Longrightarrow> x AND (n - 1) = x mod n"
  using power_of_twoD nat_and_mask by fastforce

lemma and_power_of_two_Suc [mask_simps]: "power_of_two n \<Longrightarrow> x AND (n - Suc 0) = x mod n"
  using and_power_of_two by simp

lemma power_of_two_pos: "power_of_two n \<Longrightarrow> 0 < n"
  by (simp add: power_of_two_def)

section \<open>Lists\<close>

lemma nth_take_drop_update:
  "i < length xs \<Longrightarrow> xs[i := v] = take i xs @ v # drop (Suc i) xs"
  by (rule upd_conv_take_nth_drop)

lemma map_upt_snoc: "map f [0..<Suc n] = map f [0..<n] @ [f n]"
  by simp

lemma map_upt_Cons: "map f [0..<Suc n] = f 0 # map (\<lambda>i. f (Suc i)) [0..<n]"
  by (simp add: upt_conv_Cons map_Suc_upt [symmetric] del: upt_Suc)

end
