(* ===== verification/Config.thy ===== *)
theory Config
  imports Prelude
begin

text \<open>
  The check macros of \<^verbatim>\<open>config.hpp\<close>. \<^verbatim>\<open>METL_HARDENING\<close> chooses which checks a
  build keeps: \<^verbatim>\<open>METL_ASSERT\<close> is active from level FAST on, \<^verbatim>\<open>METL_DASSERT\<close> at
  level DEBUG only, and \<^verbatim>\<open>METL_HARDEN\<close> always. A check that is active and fails
  ends the program in \<^verbatim>\<open>detail::assertion_failed\<close>; a check that is stripped lets
  the code after it run. Each macro takes that code as its last argument.
\<close>

datatype hardening =
    METL_HARDENING_NONE
  | METL_HARDENING_FAST
  | METL_HARDENING_DEBUG

primrec hardening_level :: "hardening \<Rightarrow> nat" where
  "hardening_level METL_HARDENING_NONE = 0"
| "hardening_level METL_HARDENING_FAST = 1"
| "hardening_level METL_HARDENING_DEBUG = 2"

instantiation hardening :: linorder
begin

definition less_eq_hardening :: "hardening \<Rightarrow> hardening \<Rightarrow> bool" where
  "less_eq_hardening a b \<longleftrightarrow> hardening_level a \<le> hardening_level b"

definition less_hardening :: "hardening \<Rightarrow> hardening \<Rightarrow> bool" where
  "less_hardening a b \<longleftrightarrow> hardening_level a < hardening_level b"

instance
proof
  fix x y z :: hardening
  show "x < y \<longleftrightarrow> x \<le> y \<and> \<not> y \<le> x"
    by (auto simp: less_eq_hardening_def less_hardening_def)
  show "x \<le> x"
    by (simp add: less_eq_hardening_def)
  show "x \<le> y \<Longrightarrow> y \<le> z \<Longrightarrow> x \<le> z"
    by (simp add: less_eq_hardening_def)
  show "x \<le> y \<Longrightarrow> y \<le> x \<Longrightarrow> x = y"
    by (cases x; cases y) (simp_all add: less_eq_hardening_def)
  show "x \<le> y \<or> y \<le> x"
    by (auto simp: less_eq_hardening_def)
qed

end

definition METL_ASSERT :: "hardening \<Rightarrow> bool \<Rightarrow> 'a outcome \<Rightarrow> 'a outcome" where
  "METL_ASSERT level expr rest =
     (if level \<ge> METL_HARDENING_FAST \<and> \<not> expr then Inl Check_failed else rest)"

definition METL_HARDEN :: "bool \<Rightarrow> 'a outcome \<Rightarrow> 'a outcome" where
  "METL_HARDEN expr rest = (if \<not> expr then Inl Check_failed else rest)"

definition METL_DASSERT :: "hardening \<Rightarrow> bool \<Rightarrow> 'a outcome \<Rightarrow> 'a outcome" where
  "METL_DASSERT level expr rest =
     (if level \<ge> METL_HARDENING_DEBUG then METL_ASSERT level expr rest else rest)"

lemma METL_ASSERT_True [simp]: "METL_ASSERT level True rest = rest"
  by (simp add: METL_ASSERT_def)

lemma METL_HARDEN_simps [simp]:
  "METL_HARDEN True rest = rest" "METL_HARDEN False rest = Inl Check_failed"
  by (simp_all add: METL_HARDEN_def)

lemma METL_DASSERT_True [simp]: "METL_DASSERT level True rest = rest"
  by (simp add: METL_DASSERT_def)

lemma METL_ASSERT_active:
  "level \<noteq> METL_HARDENING_NONE \<Longrightarrow> METL_ASSERT level False rest = Inl Check_failed"
  by (cases level) (simp_all add: METL_ASSERT_def less_eq_hardening_def)

lemma METL_ASSERT_stripped: "METL_ASSERT METL_HARDENING_NONE expr rest = rest"
  by (simp add: METL_ASSERT_def less_eq_hardening_def)

lemma METL_ASSERT_bnd: "bnd (METL_ASSERT level expr m) k = METL_ASSERT level expr (bnd m k)"
  by (simp add: METL_ASSERT_def)

lemma METL_ASSERT_cong [fundef_cong]:
  "expr = expr' \<Longrightarrow> rest = rest' \<Longrightarrow> METL_ASSERT level expr rest = METL_ASSERT level expr' rest'"
  by simp

lemma METL_HARDEN_cong [fundef_cong]:
  "expr = expr' \<Longrightarrow> (expr' \<Longrightarrow> rest = rest') \<Longrightarrow> METL_HARDEN expr rest = METL_HARDEN expr' rest'"
  by (simp add: METL_HARDEN_def)

lemma METL_HARDEN_eq_Inr [outcome_simps]:
  "METL_HARDEN expr rest = Inr v \<longleftrightarrow> expr \<and> rest = Inr v"
  by (simp add: METL_HARDEN_def)

end
