(* ===== verification/Slots.thy ===== *)
theory Slots
  imports Config
begin

text \<open>
  Raw element storage: the arrays of \<^verbatim>\<open>storage_for<T>\<close> (\<^verbatim>\<open>type_traits.hpp\<close>) and
  \<^verbatim>\<open>array_storage<T, N>\<close> (\<^verbatim>\<open>detail/array_storage.hpp\<close>) that every fixed-capacity
  container keeps its elements in. A slot holds an object or it does not, and
  only four things are done to it: read the object, build one by placement new,
  assign to the object, and destroy it. Each is defined where C++ (and an owner
  that leaks nothing) allows it: reading, assigning and destroying need a live
  object, building needs a slot without one.
\<close>

type_synonym 'a slots = "'a option list"

definition slot_get :: "'a slots \<Rightarrow> nat \<Rightarrow> 'a outcome" where
  "slot_get s i =
     (if i < length s
      then (case s ! i of None \<Rightarrow> Inl Lifetime_violation | Some v \<Rightarrow> Inr v)
      else Inl Out_of_bounds)"

definition slot_new :: "'a slots \<Rightarrow> nat \<Rightarrow> 'a \<Rightarrow> 'a slots outcome" where
  "slot_new s i v =
     (if i < length s
      then (if s ! i = None then Inr (s[i := Some v]) else Inl Lifetime_violation)
      else Inl Out_of_bounds)"

definition slot_assign :: "'a slots \<Rightarrow> nat \<Rightarrow> 'a \<Rightarrow> 'a slots outcome" where
  "slot_assign s i v =
     (if i < length s
      then (if s ! i \<noteq> None then Inr (s[i := Some v]) else Inl Lifetime_violation)
      else Inl Out_of_bounds)"

definition slot_destroy :: "'a slots \<Rightarrow> nat \<Rightarrow> 'a slots outcome" where
  "slot_destroy s i =
     (if i < length s
      then (if s ! i \<noteq> None then Inr (s[i := None]) else Inl Lifetime_violation)
      else Inl Out_of_bounds)"

text \<open>The indices at which an object lives.\<close>

definition live :: "'a slots \<Rightarrow> nat set" where
  "live s = {i. i < length s \<and> s ! i \<noteq> None}"

lemma live_replicate_None [simp]: "live (replicate n None) = {}"
  by (auto simp: live_def)

lemma live_code [code]: "live s = set (filter (\<lambda>i. s ! i \<noteq> None) [0..<length s])"
  by (auto simp: live_def)

lemma live_bound: "i \<in> live s \<Longrightarrow> i < length s"
  by (simp add: live_def)

lemma finite_live [simp]: "finite (live s)"
  by (rule finite_subset [of _ "{..<length s}"]) (auto simp: live_def)

lemma slot_get_live: "i \<in> live s \<Longrightarrow> slot_get s i = Inr (the (s ! i))"
  by (auto simp: live_def slot_get_def)

lemma slot_new_dead: "i < length s \<Longrightarrow> i \<notin> live s \<Longrightarrow> slot_new s i v = Inr (s[i := Some v])"
  by (auto simp: live_def slot_new_def)

lemma slot_assign_live: "i \<in> live s \<Longrightarrow> slot_assign s i v = Inr (s[i := Some v])"
  by (auto simp: live_def slot_assign_def)

lemma slot_destroy_live: "i \<in> live s \<Longrightarrow> slot_destroy s i = Inr (s[i := None])"
  by (auto simp: live_def slot_destroy_def)

lemma live_update_Some [simp]: "i < length s \<Longrightarrow> live (s[i := Some v]) = insert i (live s)"
  by (auto simp: live_def nth_list_update)

lemma live_update_None [simp]: "live (s[i := None]) = live s - {i}"
  by (cases "i < length s")
    (auto simp: live_def nth_list_update list_update_beyond split: if_splits)

lemmas slot_ops = slot_get_live slot_new_dead slot_assign_live slot_destroy_live

end
