(* ===== verification/Fifo.thy ===== *)
theory Fifo
  imports Slots
begin

text \<open>
  The contract of a bounded first-in first-out container, as its clients use
  it: \<^verbatim>\<open>try_push\<close> appends unless \<open>cap\<close> elements are stored, \<^verbatim>\<open>front\<close> and \<^verbatim>\<open>pop\<close>
  look at and remove the oldest element, and both end in a failed check when
  there is none. A client program is a list of calls; its observations are the
  results it gets. The locale shows once that a container with these laws
  answers every program as the list specification does.
\<close>

datatype 'v fifo_call = Try_push 'v | Front | Pop

datatype 'v fifo_result = Pushed bool | Saw 'v | Popped

fun fifo_run ::
  "('v \<Rightarrow> 's \<Rightarrow> (bool call \<times> 's) outcome) \<Rightarrow> ('s \<Rightarrow> 'v outcome) \<Rightarrow> ('s \<Rightarrow> 's outcome)
     \<Rightarrow> 'v fifo_call list \<Rightarrow> 's \<Rightarrow> ('v fifo_result list \<times> 's) outcome" where
  "fifo_run push front pop [] s = Inr ([], s)"
| "fifo_run push front pop (Try_push v # calls) s =
     bnd (push v s) (\<lambda>(res, s1). case res of
         Threw \<Rightarrow> fifo_run push front pop calls s1
       | Returned b \<Rightarrow> bnd (fifo_run push front pop calls s1) (\<lambda>(obs, s2). Inr (Pushed b # obs, s2)))"
| "fifo_run push front pop (Front # calls) s =
     bnd (front s) (\<lambda>v. bnd (fifo_run push front pop calls s) (\<lambda>(obs, s2). Inr (Saw v # obs, s2)))"
| "fifo_run push front pop (Pop # calls) s =
     bnd (pop s) (\<lambda>s1. bnd (fifo_run push front pop calls s1) (\<lambda>(obs, s2). Inr (Popped # obs, s2)))"

fun fifo_spec :: "nat \<Rightarrow> 'v fifo_call list \<Rightarrow> 'v list \<Rightarrow> ('v fifo_result list \<times> 'v list) outcome" where
  "fifo_spec cap [] xs = Inr ([], xs)"
| "fifo_spec cap (Try_push v # calls) xs =
     (if length xs < cap
      then bnd (fifo_spec cap calls (xs @ [v])) (\<lambda>(obs, ys). Inr (Pushed True # obs, ys))
      else bnd (fifo_spec cap calls xs) (\<lambda>(obs, ys). Inr (Pushed False # obs, ys)))"
| "fifo_spec cap (Front # calls) xs =
     (case xs of [] \<Rightarrow> Inl Check_failed
      | x # _ \<Rightarrow> bnd (fifo_spec cap calls xs) (\<lambda>(obs, ys). Inr (Saw x # obs, ys)))"
| "fifo_spec cap (Pop # calls) xs =
     (case xs of [] \<Rightarrow> Inl Check_failed
      | _ # rest \<Rightarrow> bnd (fifo_spec cap calls rest) (\<lambda>(obs, ys). Inr (Popped # obs, ys)))"

locale bounded_fifo =
  fixes push :: "'v \<Rightarrow> 's \<Rightarrow> (bool call \<times> 's) outcome"
    and front :: "'s \<Rightarrow> 'v outcome"
    and pop :: "'s \<Rightarrow> 's outcome"
    and repr :: "'s \<Rightarrow> 'v list \<Rightarrow> bool"
    and cap :: nat
  assumes repr_bound: "repr s xs \<Longrightarrow> length xs \<le> cap"
    and push_room: "repr s xs \<Longrightarrow> length xs < cap \<Longrightarrow>
          \<exists>s'. push v s = Inr (Returned True, s') \<and> repr s' (xs @ [v])"
    and push_full: "repr s xs \<Longrightarrow> length xs = cap \<Longrightarrow> push v s = Inr (Returned False, s)"
    and front_law: "repr s (x # xs) \<Longrightarrow> front s = Inr x"
    and front_empty: "repr s [] \<Longrightarrow> front s = Inl Check_failed"
    and pop_law: "repr s (x # xs) \<Longrightarrow> \<exists>s'. pop s = Inr s' \<and> repr s' xs"
    and pop_empty: "repr s [] \<Longrightarrow> pop s = Inl Check_failed"
begin

definition agrees :: "('v fifo_result list \<times> 's) outcome \<Rightarrow> ('v fifo_result list \<times> 'v list) outcome \<Rightarrow> bool" where
  "agrees m n \<longleftrightarrow> (case n of
       Inl e \<Rightarrow> m = Inl e
     | Inr (obs, ys) \<Rightarrow> (\<exists>s'. m = Inr (obs, s') \<and> repr s' ys))"

lemma agrees_cons:
  "agrees m n \<Longrightarrow> agrees (bnd m (\<lambda>(obs, s2). Inr (r # obs, s2))) (bnd n (\<lambda>(obs, ys). Inr (r # obs, ys)))"
  by (cases n) (auto simp: agrees_def)

lemma run_refines_spec:
  "repr s xs \<Longrightarrow> agrees (fifo_run push front pop calls s) (fifo_spec cap calls xs)"
proof (induction calls arbitrary: s xs)
  case Nil
  then show ?case by (simp add: agrees_def)
next
  case (Cons c calls)
  show ?case
  proof (cases c)
    case (Try_push v)
    show ?thesis
    proof (cases "length xs < cap")
      case True
      then obtain s' where "push v s = Inr (Returned True, s')" "repr s' (xs @ [v])"
        using push_room [OF Cons.prems] by blast
      then show ?thesis
        using Try_push True agrees_cons [OF Cons.IH] by simp
    next
      case False
      then have "push v s = Inr (Returned False, s)"
        using push_full repr_bound Cons.prems by (simp add: le_antisym not_less)
      then show ?thesis
        using Try_push False agrees_cons [OF Cons.IH [OF Cons.prems]] by simp
    qed
  next
    case Front
    then show ?thesis
      using Cons.prems agrees_cons [OF Cons.IH [OF Cons.prems]] front_law front_empty
      by (cases xs) (auto simp: agrees_def)
  next
    case Pop
    show ?thesis
    proof (cases xs)
      case Nil
      then show ?thesis using Pop Cons.prems pop_empty by (simp add: agrees_def)
    next
      case (Cons x rest)
      then obtain s' where "pop s = Inr s'" "repr s' rest"
        using pop_law \<open>repr s xs\<close> by blast
      then show ?thesis
        using Pop Cons agrees_cons [OF Cons.IH] by simp
    qed
  qed
qed

text \<open>The observations alone: a container is indistinguishable from the list.\<close>

lemma run_observations:
  assumes "repr s xs"
  shows "bnd (fifo_run push front pop calls s) (\<lambda>p. Inr (fst p))
           = bnd (fifo_spec cap calls xs) (\<lambda>p. Inr (fst p))"
  using run_refines_spec [OF assms, of calls]
  by (cases "fifo_spec cap calls xs") (auto simp: agrees_def)

end

end
