(* ===== verification/Ring.thy ===== *)
theory Ring
  imports Fifo
begin

text \<open>
  The circular buffer of \<^verbatim>\<open>detail/ring_core.hpp\<close> and the three containers over
  it: \<^verbatim>\<open>ring_buffer\<close>, \<^verbatim>\<open>fixed_deque\<close> and \<^verbatim>\<open>fixed_queue\<close>. The template parameter
  \<^verbatim>\<open>Capacity\<close> is the argument \<open>cap\<close>; a \<^verbatim>\<open>size_t\<close> index is a \<open>nat\<close>, since every
  index is below twice the length of an array that exists in memory.
\<close>

section \<open>State and index arithmetic\<close>

record 'a ring_core =
  rc_storage :: "'a slots"
  rc_head :: nat
  rc_size :: nat

definition ring_core_empty :: "nat \<Rightarrow> 'a ring_core" where
  "ring_core_empty cap =
     \<lparr>rc_storage = replicate (if cap = 0 then 1 else cap) None, rc_head = 0, rc_size = 0\<rparr>"

definition advance :: "nat \<Rightarrow> nat \<Rightarrow> nat" where
  "advance cap index =
     (if cap = 0 then 0
      else if power_of_two cap then (index + 1) AND (cap - 1)
      else if index + 1 = cap then 0 else index + 1)"

definition retreat :: "nat \<Rightarrow> nat \<Rightarrow> nat" where
  "retreat cap index =
     (if cap = 0 then 0 else if index = 0 then cap - 1 else index - 1)"

definition physical_index :: "nat \<Rightarrow> 'a ring_core \<Rightarrow> nat \<Rightarrow> nat" where
  "physical_index cap r logical_index =
     (if cap = 0 then 0
      else if power_of_two cap then (rc_head r + logical_index) AND (cap - 1)
      else let sum = rc_head r + logical_index in if sum \<ge> cap then sum - cap else sum)"

definition ring_full :: "nat \<Rightarrow> 'a ring_core \<Rightarrow> bool" where
  "ring_full cap r \<longleftrightarrow> rc_size r = cap"

section \<open>Operations of the core\<close>

definition ring_front :: "hardening \<Rightarrow> 'a ring_core \<Rightarrow> 'a outcome" where
  "ring_front h r = METL_ASSERT h (rc_size r > 0) (slot_get (rc_storage r) (rc_head r))"

definition ring_back :: "hardening \<Rightarrow> nat \<Rightarrow> 'a ring_core \<Rightarrow> 'a outcome" where
  "ring_back h cap r =
     METL_ASSERT h (rc_size r > 0) (slot_get (rc_storage r) (physical_index cap r (rc_size r - 1)))"

definition ring_at :: "hardening \<Rightarrow> nat \<Rightarrow> 'a ring_core \<Rightarrow> nat \<Rightarrow> 'a outcome" where
  "ring_at h cap r index =
     METL_ASSERT h (index < rc_size r) (slot_get (rc_storage r) (physical_index cap r index))"

text \<open>
  The slot is claimed before the constructor runs and the claim is undone when
  it throws (\<^verbatim>\<open>undo\<close>, a scope guard).
\<close>

definition try_emplace_back ::
  "nat \<Rightarrow> 'a ctor \<Rightarrow> 'a ring_core \<Rightarrow> (bool call \<times> 'a ring_core) outcome" where
  "try_emplace_back cap c r =
     (if rc_size r = cap then Inr (Returned False, r)
      else let claimed = rc_size r + 1;
               r1 = r\<lparr>rc_size := claimed\<rparr>;
               slot = physical_index cap r1 (claimed - 1)
           in case c of
                Throws \<Rightarrow> METL_HARDEN (rc_size r1 = claimed) (Inr (Threw, r1\<lparr>rc_size := rc_size r1 - 1\<rparr>))
              | Builds v \<Rightarrow> bnd (slot_new (rc_storage r1) slot v)
                             (\<lambda>st. Inr (Returned True, r1\<lparr>rc_storage := st\<rparr>)))"

text \<open>Returns the reference as the value found in the slot it designates.\<close>

definition emplace_back ::
  "hardening \<Rightarrow> nat \<Rightarrow> 'a ctor \<Rightarrow> 'a ring_core \<Rightarrow> ('a call \<times> 'a ring_core) outcome" where
  "emplace_back h cap c r =
     (let slot = physical_index cap r (rc_size r) in
      bnd (try_emplace_back cap c r) (\<lambda>(res, r1).
        case res of
          Threw \<Rightarrow> Inr (Threw, r1)
        | Returned inserted \<Rightarrow>
            METL_ASSERT h inserted
              (if \<not> inserted
               then METL_HARDEN (rc_size r1 > 0)
                      (bnd (ring_back h cap r1) (\<lambda>v. Inr (Returned v, r1)))
               else bnd (slot_get (rc_storage r1) slot) (\<lambda>v. Inr (Returned v, r1)))))"

definition pop_front :: "nat \<Rightarrow> 'a ring_core \<Rightarrow> 'a ring_core outcome" where
  "pop_front cap r =
     METL_HARDEN (rc_size r > 0)
       (let leaving = rc_head r; r1 = r\<lparr>rc_head := advance cap (rc_head r), rc_size := rc_size r - 1\<rparr> in
        bnd (slot_destroy (rc_storage r1) leaving) (\<lambda>st. Inr (r1\<lparr>rc_storage := st\<rparr>)))"

lemma pop_front_size: "pop_front cap r = Inr r' \<Longrightarrow> 0 < rc_size r \<and> rc_size r' = rc_size r - 1"
  by (auto simp: pop_front_def Let_def outcome_simps)

function ring_clear :: "nat \<Rightarrow> 'a ring_core \<Rightarrow> 'a ring_core outcome" where
  "ring_clear cap r =
     (if rc_size r \<noteq> 0 then bnd (pop_front cap r) (\<lambda>r1. ring_clear cap r1) else Inr r)"
  by pat_completeness auto
termination
  by (relation "measure (\<lambda>(cap, r). rc_size r)") (auto dest: pop_front_size)

declare ring_clear.simps [simp del]

text \<open>
  Copying appends the elements of \<open>other\<close> from logical index \<open>i\<close> on. The loop
  bound is fixed, and \<open>other\<close> is not changed by it.
\<close>

function ring_append_from ::
  "hardening \<Rightarrow> nat \<Rightarrow> nat \<Rightarrow> nat \<Rightarrow> 'a ring_core \<Rightarrow> 'a ring_core \<Rightarrow> 'a ring_core outcome" where
  "ring_append_from h cap i n other r =
     (if i < n
      then bnd (ring_at h cap other i) (\<lambda>v.
           bnd (emplace_back h cap (Builds v) r) (\<lambda>(_, r1).
             ring_append_from h cap (i + 1) n other r1))
      else Inr r)"
  by pat_completeness auto
termination
  by (relation "measure (\<lambda>(h, cap, i, n, other, r). n - i)") auto

declare ring_append_from.simps [simp del]

definition ring_copy :: "hardening \<Rightarrow> nat \<Rightarrow> 'a ring_core \<Rightarrow> 'a ring_core outcome" where
  "ring_copy h cap other = ring_append_from h cap 0 (rc_size other) other (ring_core_empty cap)"

text \<open>The move constructor: the new ring and the emptied source.\<close>

definition ring_move ::
  "hardening \<Rightarrow> nat \<Rightarrow> 'a ring_core \<Rightarrow> ('a ring_core \<times> 'a ring_core) outcome" where
  "ring_move h cap other =
     bnd (ring_append_from h cap 0 (rc_size other) other (ring_core_empty cap)) (\<lambda>r.
     bnd (ring_clear cap other) (\<lambda>other1. Inr (r, other1)))"

text \<open>\<open>self\<close> is the test \<^verbatim>\<open>this == &other\<close>.\<close>

definition ring_assign ::
  "hardening \<Rightarrow> nat \<Rightarrow> bool \<Rightarrow> 'a ring_core \<Rightarrow> 'a ring_core \<Rightarrow> 'a ring_core outcome" where
  "ring_assign h cap self r other =
     (if self then Inr r
      else bnd (ring_clear cap r) (\<lambda>r1. ring_append_from h cap 0 (rc_size other) other r1))"

definition ring_move_assign ::
  "hardening \<Rightarrow> nat \<Rightarrow> bool \<Rightarrow> 'a ring_core \<Rightarrow> 'a ring_core \<Rightarrow> ('a ring_core \<times> 'a ring_core) outcome" where
  "ring_move_assign h cap self r other =
     (if self then Inr (r, other)
      else bnd (ring_clear cap r) (\<lambda>r1.
           bnd (ring_append_from h cap 0 (rc_size other) other r1) (\<lambda>r2.
           bnd (ring_clear cap other) (\<lambda>other1. Inr (r2, other1)))))"

text \<open>
  \<^verbatim>\<open>swap_core\<close>: swap the common prefix element by element, append the longer
  ring's tail to the shorter one, and destroy that tail from the back.
\<close>

function ring_swap_common ::
  "hardening \<Rightarrow> nat \<Rightarrow> nat \<Rightarrow> nat \<Rightarrow> 'a ring_core \<Rightarrow> 'a ring_core
     \<Rightarrow> ('a ring_core \<times> 'a ring_core) outcome" where
  "ring_swap_common h cap i common a b =
     (if i < common
      then bnd (ring_at h cap a i) (\<lambda>x.
           bnd (ring_at h cap b i) (\<lambda>y.
           bnd (slot_assign (rc_storage a) (physical_index cap a i) y) (\<lambda>sa.
           bnd (slot_assign (rc_storage b) (physical_index cap b i) x) (\<lambda>sb.
             ring_swap_common h cap (i + 1) common (a\<lparr>rc_storage := sa\<rparr>) (b\<lparr>rc_storage := sb\<rparr>)))))
      else Inr (a, b))"
  by pat_completeness auto
termination
  by (relation "measure (\<lambda>(h, cap, i, common, a, b). common - i)") auto

declare ring_swap_common.simps [simp del]

function ring_shrink_to :: "nat \<Rightarrow> nat \<Rightarrow> 'a ring_core \<Rightarrow> 'a ring_core outcome" where
  "ring_shrink_to cap common longer =
     (if rc_size longer > common
      then let l1 = longer\<lparr>rc_size := rc_size longer - 1\<rparr> in
           bnd (slot_destroy (rc_storage l1) (physical_index cap l1 (rc_size l1))) (\<lambda>st.
             ring_shrink_to cap common (l1\<lparr>rc_storage := st\<rparr>))
      else Inr longer)"
  by pat_completeness auto
termination
  by (relation "measure (\<lambda>(cap, common, r). rc_size r)") auto

declare ring_shrink_to.simps [simp del]

definition swap_core ::
  "hardening \<Rightarrow> nat \<Rightarrow> 'a ring_core \<Rightarrow> 'a ring_core \<Rightarrow> ('a ring_core \<times> 'a ring_core) outcome" where
  "swap_core h cap a b =
     (let common = (if rc_size a < rc_size b then rc_size a else rc_size b) in
      bnd (ring_swap_common h cap 0 common a b) (\<lambda>(a1, b1).
        if rc_size a1 \<noteq> rc_size b1 then
          (if rc_size a1 < rc_size b1
           then bnd (ring_append_from h cap common (rc_size b1) b1 a1) (\<lambda>a2.
                bnd (ring_shrink_to cap common b1) (\<lambda>b2. Inr (a2, b2)))
           else bnd (ring_append_from h cap common (rc_size a1) a1 b1) (\<lambda>b2.
                bnd (ring_shrink_to cap common a1) (\<lambda>a2. Inr (a2, b2))))
        else Inr (a1, b1)))"

section \<open>The containers over the core\<close>

text \<open>
  \<^verbatim>\<open>ring_buffer::push_overwrite\<close>. A full buffer of move-constructible elements builds the
  new value aside, evicts the oldest element and then move-constructs the value into
  the ring: two constructions, each of which may throw. An element that cannot be
  moved is constructed in place after the eviction. \<open>move_ctor\<close> says whether the element
  has a move constructor, \<^verbatim>\<open>std::is_move_constructible_v<T>\<close>, and whether its call here throws.
\<close>

datatype move_ctor = Not_movable | Moves | Move_throws

definition move_built :: "move_ctor \<Rightarrow> 'a \<Rightarrow> 'a ctor" where
  "move_built move v = (if move = Move_throws then Throws else Builds v)"

definition push_overwrite ::
  "hardening \<Rightarrow> nat \<Rightarrow> move_ctor \<Rightarrow> 'a ctor \<Rightarrow> 'a ring_core \<Rightarrow> ('a call \<times> 'a ring_core) outcome" where
  "push_overwrite h cap move c r =
     (if ring_full cap r
      then if move \<noteq> Not_movable
           then (case c of
                   Throws \<Rightarrow> Inr (Threw, r)
                 | Builds v \<Rightarrow> bnd (pop_front cap r) (\<lambda>r1. emplace_back h cap (move_built move v) r1))
           else bnd (pop_front cap r) (\<lambda>r1. emplace_back h cap c r1)
      else emplace_back h cap c r)"

definition try_emplace_front ::
  "nat \<Rightarrow> 'a ctor \<Rightarrow> 'a ring_core \<Rightarrow> (bool call \<times> 'a ring_core) outcome" where
  "try_emplace_front cap c r =
     (if ring_full cap r then Inr (Returned False, r)
      else let previous_head = rc_head r;
               slot = retreat cap (rc_head r);
               claimed = rc_size r + 1;
               r1 = r\<lparr>rc_head := slot, rc_size := claimed\<rparr>
           in case c of
                Throws \<Rightarrow> METL_HARDEN (rc_head r1 = slot \<and> rc_size r1 = claimed)
                            (Inr (Threw, r1\<lparr>rc_head := previous_head, rc_size := rc_size r1 - 1\<rparr>))
              | Builds v \<Rightarrow> bnd (slot_new (rc_storage r1) slot v)
                             (\<lambda>st. Inr (Returned True, r1\<lparr>rc_storage := st\<rparr>)))"

definition emplace_front ::
  "hardening \<Rightarrow> nat \<Rightarrow> 'a ctor \<Rightarrow> 'a ring_core \<Rightarrow> ('a call \<times> 'a ring_core) outcome" where
  "emplace_front h cap c r =
     (let slot = retreat cap (rc_head r) in
      bnd (try_emplace_front cap c r) (\<lambda>(res, r1).
        case res of
          Threw \<Rightarrow> Inr (Threw, r1)
        | Returned inserted \<Rightarrow>
            METL_ASSERT h inserted
              (if \<not> inserted
               then METL_HARDEN (rc_size r1 > 0)
                      (bnd (ring_front h r1) (\<lambda>v. Inr (Returned v, r1)))
               else bnd (slot_get (rc_storage r1) slot) (\<lambda>v. Inr (Returned v, r1)))))"

definition pop_back :: "nat \<Rightarrow> 'a ring_core \<Rightarrow> 'a ring_core outcome" where
  "pop_back cap r =
     METL_HARDEN (rc_size r > 0)
       (let r1 = r\<lparr>rc_size := rc_size r - 1\<rparr> in
        bnd (slot_destroy (rc_storage r1) (physical_index cap r1 (rc_size r1)))
          (\<lambda>st. Inr (r1\<lparr>rc_storage := st\<rparr>)))"

text \<open>\<^verbatim>\<open>fixed_queue\<close> holds a \<^verbatim>\<open>ring_buffer\<close> and forwards to it.\<close>

definition queue_try_push :: "nat \<Rightarrow> 'a \<Rightarrow> 'a ring_core \<Rightarrow> (bool call \<times> 'a ring_core) outcome" where
  "queue_try_push cap v q = try_emplace_back cap (Builds v) q"

definition queue_front :: "hardening \<Rightarrow> 'a ring_core \<Rightarrow> 'a outcome" where
  "queue_front h q = ring_front h q"

definition queue_pop :: "nat \<Rightarrow> 'a ring_core \<Rightarrow> 'a ring_core outcome" where
  "queue_pop cap q = pop_front cap q"

section \<open>Index lemmas\<close>

lemma physical_index_update [simp]:
  "physical_index cap (r\<lparr>rc_size := n\<rparr>) = physical_index cap r"
  "physical_index cap (r\<lparr>rc_storage := s\<rparr>) = physical_index cap r"
  by (simp_all add: physical_index_def fun_eq_iff)

text \<open>Below the capacity both forms of the index map wrap once.\<close>

lemma physical_index_wrap:
  assumes "0 < cap" "rc_head r < cap" "i \<le> cap"
  shows "physical_index cap r i =
    (if rc_head r + i \<ge> cap then rc_head r + i - cap else rc_head r + i)"
proof -
  have "(rc_head r + i) mod cap =
      (if rc_head r + i \<ge> cap then rc_head r + i - cap else rc_head r + i)"
    using assms by (auto simp: le_mod_geq)
  then show ?thesis
    using assms by (simp add: physical_index_def Let_def mask_simps)
qed

lemma advance_wrap: "0 < cap \<Longrightarrow> i < cap \<Longrightarrow> advance cap i = (if i + 1 = cap then 0 else i + 1)"
proof -
  assume "0 < cap" "i < cap"
  then have "(i + 1) mod cap = (if i + 1 = cap then 0 else i + 1)"
    by (simp add: mod_Suc)
  with \<open>0 < cap\<close> show ?thesis
    by (simp add: advance_def mask_simps)
qed

lemma advance_bound: "i < cap \<Longrightarrow> advance cap i < cap"
  by (simp add: advance_wrap)

lemma retreat_bound: "0 < cap \<Longrightarrow> i < cap \<Longrightarrow> retreat cap i < cap"
  by (auto simp: retreat_def)

section \<open>Representation\<close>

text \<open>
  A ring represents the list of its elements, front first: element \<open>i\<close> lives in
  the slot \<^verbatim>\<open>physical_index(i)\<close>, and no other slot holds an object.
\<close>

definition ring_repr :: "nat \<Rightarrow> 'a ring_core \<Rightarrow> 'a list \<Rightarrow> bool" where
  "ring_repr cap r xs \<longleftrightarrow>
     length (rc_storage r) = (if cap = 0 then 1 else cap) \<and>
     rc_head r < length (rc_storage r) \<and>
     rc_size r = length xs \<and> length xs \<le> cap \<and>
     (\<forall>i < length xs. rc_storage r ! physical_index cap r i = Some (xs ! i)) \<and>
     live (rc_storage r) = physical_index cap r ` {..<length xs}"

definition ring_list :: "nat \<Rightarrow> 'a ring_core \<Rightarrow> 'a list" where
  "ring_list cap r = map (\<lambda>i. the (rc_storage r ! physical_index cap r i)) [0..<rc_size r]"

definition ring_inv :: "nat \<Rightarrow> 'a ring_core \<Rightarrow> bool" where
  "ring_inv cap r \<longleftrightarrow> ring_repr cap r (ring_list cap r)"

lemma ring_reprI:
  assumes "length (rc_storage r) = (if cap = 0 then 1 else cap)"
    and "rc_head r < length (rc_storage r)"
    and "rc_size r = length xs" and "length xs \<le> cap"
    and "\<And>i. i < length xs \<Longrightarrow> rc_storage r ! physical_index cap r i = Some (xs ! i)"
    and "live (rc_storage r) = physical_index cap r ` {..<length xs}"
  shows "ring_repr cap r xs"
  using assms by (simp add: ring_repr_def)

lemma ring_repr_code [code]:
  "ring_repr cap r xs \<longleftrightarrow>
     length (rc_storage r) = (if cap = 0 then 1 else cap) \<and>
     rc_head r < length (rc_storage r) \<and>
     rc_size r = length xs \<and> length xs \<le> cap \<and>
     (\<forall>i \<in> set [0..<length xs]. rc_storage r ! physical_index cap r i = Some (xs ! i)) \<and>
     live (rc_storage r) = set (map (physical_index cap r) [0..<length xs])"
  by (simp add: ring_repr_def atLeast0LessThan [symmetric] Ball_def)

lemma ring_repr_list: "ring_repr cap r xs \<Longrightarrow> ring_list cap r = xs"
  by (auto simp: ring_repr_def ring_list_def intro!: nth_equalityI)

lemma ring_repr_iff: "ring_repr cap r xs \<longleftrightarrow> ring_inv cap r \<and> ring_list cap r = xs"
  using ring_repr_list ring_inv_def by metis

lemma ring_repr_size: "ring_repr cap r xs \<Longrightarrow> rc_size r = length xs \<and> length xs \<le> cap"
  by (simp add: ring_repr_def)

lemma ring_repr_pos: "ring_repr cap r xs \<Longrightarrow> xs \<noteq> [] \<Longrightarrow> 0 < cap"
  by (cases xs) (auto dest: ring_repr_size)

lemma ring_repr_empty: "ring_repr cap (ring_core_empty cap) []"
  by (simp add: ring_repr_def ring_core_empty_def)

lemma ring_repr_wrap:
  "ring_repr cap r xs \<Longrightarrow> 0 < cap \<Longrightarrow> i \<le> cap \<Longrightarrow> physical_index cap r i =
    (if rc_head r + i \<ge> cap then rc_head r + i - cap else rc_head r + i)"
  by (rule physical_index_wrap) (auto simp: ring_repr_def)

lemma ring_repr_slot:
  assumes "ring_repr cap r xs" "0 < cap" "i < cap"
  shows "physical_index cap r i < length (rc_storage r)"
    and "j < cap \<Longrightarrow> physical_index cap r i = physical_index cap r j \<longleftrightarrow> i = j"
proof -
  have h: "rc_head r < cap" and l: "length (rc_storage r) = cap"
    using assms by (auto simp: ring_repr_def)
  show "physical_index cap r i < length (rc_storage r)"
    using assms h l by (auto simp: ring_repr_wrap)
  show "physical_index cap r i = physical_index cap r j \<longleftrightarrow> i = j" if "j < cap"
    using that assms h by (auto simp: ring_repr_wrap)
qed

lemma ring_repr_live:
  assumes "ring_repr cap r xs" "i < cap"
  shows "physical_index cap r i \<in> live (rc_storage r) \<longleftrightarrow> i < length xs"
proof -
  have "physical_index cap r i \<in> physical_index cap r ` {..<length xs} \<longleftrightarrow> i < length xs"
    using ring_repr_slot(2) [OF assms(1)] assms ring_repr_size [OF assms(1)]
    by (auto simp: image_iff)
  then show ?thesis
    using assms by (simp add: ring_repr_def)
qed

lemma ring_repr_nth:
  "ring_repr cap r xs \<Longrightarrow> i < length xs \<Longrightarrow> rc_storage r ! physical_index cap r i = Some (xs ! i)"
  by (simp add: ring_repr_def)

lemma ring_repr_get:
  assumes "ring_repr cap r xs" "i < length xs"
  shows "slot_get (rc_storage r) (physical_index cap r i) = Inr (xs ! i)"
proof -
  have "i < cap"
    using assms ring_repr_size by fastforce
  then have "physical_index cap r i \<in> live (rc_storage r)"
    using assms ring_repr_live by blast
  then show ?thesis
    using ring_repr_nth [OF assms] by (simp add: slot_get_live)
qed

lemma physical_index_0: "ring_repr cap r xs \<Longrightarrow> 0 < cap \<Longrightarrow> physical_index cap r 0 = rc_head r"
  by (subst ring_repr_wrap) (auto simp: ring_repr_def)

section \<open>The core refines list operations\<close>

lemma ring_at_repr [outcome_simps]:
  "ring_repr cap r xs \<Longrightarrow> i < length xs \<Longrightarrow> ring_at h cap r i = Inr (xs ! i)"
  by (simp add: ring_at_def ring_repr_get ring_repr_size)

lemma ring_front_repr:
  assumes "ring_repr cap r xs" "xs \<noteq> []"
  shows "ring_front h r = Inr (hd xs)"
proof -
  have c: "0 < cap" "0 < length xs"
    using assms ring_repr_pos by auto
  have "slot_get (rc_storage r) (rc_head r) = Inr (xs ! 0)"
    using ring_repr_get [OF assms(1) c(2)] physical_index_0 [OF assms(1) c(1)] by simp
  then show ?thesis
    using assms ring_repr_size [of cap r xs] by (simp add: ring_front_def hd_conv_nth)
qed

lemma ring_back_repr:
  "ring_repr cap r xs \<Longrightarrow> xs \<noteq> [] \<Longrightarrow> ring_back h cap r = Inr (last xs)"
  using ring_repr_get [of cap r xs "length xs - 1"]
  by (simp add: ring_back_def ring_repr_size last_conv_nth)

lemma ring_repr_push_back:
  assumes "ring_repr cap r xs" "length xs < cap"
  shows "slot_new (rc_storage r) (physical_index cap r (length xs)) v
           = Inr ((rc_storage r)[physical_index cap r (length xs) := Some v])"
    and "ring_repr cap (r\<lparr>rc_size := Suc (length xs),
           rc_storage := (rc_storage r)[physical_index cap r (length xs) := Some v]\<rparr>) (xs @ [v])"
proof -
  let ?p = "physical_index cap r"
  have cap: "0 < cap" using assms by auto
  note slot = ring_repr_slot [OF assms(1) cap]
  have dead: "?p (length xs) \<notin> live (rc_storage r)"
    using ring_repr_live [OF assms] by simp
  show "slot_new (rc_storage r) (?p (length xs)) v = Inr ((rc_storage r)[?p (length xs) := Some v])"
    using slot(1) [OF assms(2)] dead by (rule slot_new_dead)
  have neq: "?p (length xs) \<noteq> ?p i" if "i < length xs" for i
    using slot(2) [of i "length xs"] that assms by simp
  show "ring_repr cap (r\<lparr>rc_size := Suc (length xs),
           rc_storage := (rc_storage r)[?p (length xs) := Some v]\<rparr>) (xs @ [v])" (is "ring_repr cap ?r _")
  proof (rule ring_reprI)
    show "live (rc_storage ?r) = physical_index cap ?r ` {..<length (xs @ [v])}"
      using slot(1) [OF assms(2)] assms(1) by (simp add: ring_repr_def lessThan_Suc)
    show "rc_storage ?r ! physical_index cap ?r i = Some ((xs @ [v]) ! i)"
      if "i < length (xs @ [v])" for i
      using that neq slot(1) [OF assms(2)] ring_repr_nth [OF assms(1)]
      by (cases "i = length xs") (auto simp: nth_append)
  qed (use assms in \<open>auto simp: ring_repr_def\<close>)
qed

lemma try_emplace_back_repr:
  assumes "ring_repr cap r xs" "length xs < cap"
  shows "\<exists>r'. try_emplace_back cap (Builds v) r = Inr (Returned True, r') \<and> ring_repr cap r' (xs @ [v])
           \<and> slot_get (rc_storage r') (physical_index cap r (rc_size r)) = Inr v"
proof -
  let ?r = "r\<lparr>rc_size := Suc (length xs),
    rc_storage := (rc_storage r)[physical_index cap r (length xs) := Some v]\<rparr>"
  have "ring_repr cap ?r (xs @ [v])"
    using ring_repr_push_back(2) [OF assms] .
  moreover have "try_emplace_back cap (Builds v) r = Inr (Returned True, ?r)"
    using assms ring_repr_push_back(1) [OF assms] ring_repr_size [OF assms(1)]
    by (simp add: try_emplace_back_def)
  moreover have "slot_get (rc_storage ?r) (physical_index cap r (rc_size r)) = Inr v"
    using ring_repr_get [OF ring_repr_push_back(2) [OF assms], of "length xs"]
      ring_repr_size [OF assms(1)] by simp
  ultimately show ?thesis by blast
qed

lemma try_emplace_back_full:
  "ring_repr cap r xs \<Longrightarrow> length xs = cap \<Longrightarrow> try_emplace_back cap c r = Inr (Returned False, r)"
  by (simp add: try_emplace_back_def ring_repr_size)

lemma try_emplace_back_throws:
  "ring_repr cap r xs \<Longrightarrow> length xs < cap \<Longrightarrow> try_emplace_back cap Throws r = Inr (Threw, r)"
  by (simp add: try_emplace_back_def ring_repr_size)

lemma emplace_back_repr:
  assumes "ring_repr cap r xs" "length xs < cap"
  shows "\<exists>r'. emplace_back h cap (Builds v) r = Inr (Returned v, r') \<and> ring_repr cap r' (xs @ [v])"
  using try_emplace_back_repr [OF assms, of v] by (auto simp: emplace_back_def)

lemma pop_front_repr:
  assumes "ring_repr cap r (x # xs)"
  shows "\<exists>r'. pop_front cap r = Inr r' \<and> ring_repr cap r' xs"
proof -
  let ?r = "r\<lparr>rc_head := advance cap (rc_head r), rc_size := length xs,
              rc_storage := (rc_storage r)[rc_head r := None]\<rparr>"
  have n: "length xs < cap" "0 < cap" and hd: "rc_head r < cap"
    and len: "length (rc_storage r) = cap"
    using assms ring_repr_size [OF assms] by (auto simp: ring_repr_def)
  have step: "physical_index cap ?r i = physical_index cap r (Suc i)" if "i < length xs" for i
    using that n hd by (auto simp: physical_index_wrap advance_wrap split: if_splits)
  have p0: "physical_index cap r 0 = rc_head r"
    using physical_index_0 [OF assms n(2)] .
  have neq: "rc_head r \<noteq> physical_index cap r (Suc i)" if "i < length xs" for i
    using ring_repr_slot(2) [OF assms n(2), of 0 "Suc i"] that n p0 by simp
  have "live (rc_storage r) = insert (rc_head r) (physical_index cap r ` Suc ` {..<length xs})"
    using assms p0 by (simp add: ring_repr_def lessThan_Suc_eq_insert_0)
  moreover have "rc_head r \<notin> physical_index cap r ` Suc ` {..<length xs}"
    using neq by auto
  moreover have "physical_index cap ?r ` {..<length xs} = physical_index cap r ` Suc ` {..<length xs}"
    using step by (auto simp: image_iff Bex_def)
  ultimately have live: "live (rc_storage ?r) = physical_index cap ?r ` {..<length xs}"
    by simp
  have "ring_repr cap ?r xs"
  proof (rule ring_reprI)
    show "rc_storage ?r ! physical_index cap ?r i = Some (xs ! i)" if "i < length xs" for i
      using that step [OF that] neq [OF that] ring_repr_nth [OF assms, of "Suc i"] by simp
  qed (use n hd len advance_bound [OF hd] live in auto)
  moreover have "rc_head r \<in> live (rc_storage r)"
    using assms p0 by (force simp: ring_repr_def)
  then have "pop_front cap r = Inr ?r"
    using ring_repr_size [OF assms] by (simp add: pop_front_def slot_destroy_live)
  ultimately show ?thesis by blast
qed

lemma pop_front_empty: "ring_repr cap r [] \<Longrightarrow> pop_front cap r = Inl Check_failed"
  by (simp add: pop_front_def ring_repr_def)

lemma ring_clear_repr: "ring_repr cap r xs \<Longrightarrow> \<exists>r'. ring_clear cap r = Inr r' \<and> ring_repr cap r' []"
proof (induction xs arbitrary: r)
  case Nil
  then have "ring_clear cap r = Inr r"
    using ring_repr_size [OF Nil] by (subst ring_clear.simps) simp
  with Nil show ?case by blast
next
  case (Cons x xs)
  obtain r' where r': "pop_front cap r = Inr r'" "ring_repr cap r' xs"
    using pop_front_repr [OF Cons.prems] by blast
  have "rc_size r \<noteq> 0"
    using ring_repr_size [OF Cons.prems] by simp
  then have "ring_clear cap r = ring_clear cap r'"
    using r'(1) by (subst ring_clear.simps) simp
  then show ?case
    using Cons.IH [OF r'(2)] by simp
qed

text \<open>Appending a range of another ring, the loop of every copy and move.\<close>

lemma ring_append_from_repr:
  assumes "ring_repr cap other ys" "n \<le> length ys" "ring_repr cap r xs"
    and "length xs + (n - i) \<le> cap"
  shows "\<exists>r'. ring_append_from h cap i n other r = Inr r' \<and>
           ring_repr cap r' (xs @ drop i (take n ys))"
  using assms(2-)
proof (induction "n - i" arbitrary: i r xs)
  case 0
  then show ?case by (subst ring_append_from.simps) simp
next
  case (Suc d)
  then have i: "i < n" "i < length ys" by auto
  have room: "length xs < cap" using Suc by linarith
  obtain r1 where r1: "emplace_back h cap (Builds (ys ! i)) r = Inr (Returned (ys ! i), r1)"
    "ring_repr cap r1 (xs @ [ys ! i])"
    using emplace_back_repr [OF Suc.prems(2) room] by blast
  have "ring_append_from h cap i n other r = ring_append_from h cap (i + 1) n other r1"
    using i(1) r1(1) ring_at_repr [OF assms(1) i(2)]
    by (subst ring_append_from.simps) simp
  moreover have "drop i (take n ys) = ys ! i # drop (i + 1) (take n ys)"
    using i Suc.prems(1) by (simp add: Cons_nth_drop_Suc flip: Cons_nth_drop_Suc)
  ultimately show ?case
    using Suc.hyps(1) [of "i + 1" r1 "xs @ [ys ! i]"] Suc.hyps(2) Suc.prems r1(2) by simp
qed

lemma ring_copy_repr:
  assumes "ring_repr cap other ys"
  shows "\<exists>r'. ring_copy h cap other = Inr r' \<and> ring_repr cap r' ys"
  using ring_append_from_repr [OF assms _ ring_repr_empty, of "length ys" 0 h]
    ring_repr_size [OF assms] by (simp add: ring_copy_def)

lemma ring_move_repr:
  assumes "ring_repr cap other ys"
  shows "\<exists>r' o'. ring_move h cap other = Inr (r', o') \<and> ring_repr cap r' ys \<and> ring_repr cap o' []"
  using ring_append_from_repr [OF assms _ ring_repr_empty, of "length ys" 0 h]
    ring_repr_size [OF assms] ring_clear_repr [OF assms] by (auto simp: ring_move_def)

lemma ring_assign_repr:
  assumes "ring_repr cap r xs" "ring_repr cap other ys"
  shows "\<exists>r'. ring_assign h cap False r other = Inr r' \<and> ring_repr cap r' ys"
  using ring_clear_repr [OF assms(1)] ring_append_from_repr [OF assms(2), of "length ys" _ "[]" 0 h]
    ring_repr_size [OF assms(2)] by (auto simp: ring_assign_def)

lemma ring_move_assign_repr:
  assumes "ring_repr cap r xs" "ring_repr cap other ys"
  shows "\<exists>r' o'. ring_move_assign h cap False r other = Inr (r', o') \<and>
           ring_repr cap r' ys \<and> ring_repr cap o' []"
  using ring_clear_repr [OF assms(1)] ring_append_from_repr [OF assms(2), of "length ys" _ "[]" 0 h]
    ring_repr_size [OF assms(2)] ring_clear_repr [OF assms(2)] by (fastforce simp: ring_move_assign_def)


subsection \<open>Removing the last element and swapping\<close>

lemma ring_repr_drop_last:
  assumes "ring_repr cap r (xs @ [x])"
  shows "slot_destroy (rc_storage r) (physical_index cap r (length xs))
           = Inr ((rc_storage r)[physical_index cap r (length xs) := None])"
    and "ring_repr cap (r\<lparr>rc_size := length xs,
           rc_storage := (rc_storage r)[physical_index cap r (length xs) := None]\<rparr>) xs"
proof -
  let ?p = "physical_index cap r"
  have n: "length xs < cap" "0 < cap" using ring_repr_size [OF assms] by auto
  note slot = ring_repr_slot [OF assms n(2)]
  have neq: "?p (length xs) \<noteq> ?p i" if "i < length xs" for i
    using slot(2) [of i "length xs"] that n by simp
  have "?p (length xs) \<in> live (rc_storage r)"
    using ring_repr_live [OF assms n(1)] by simp
  then show "slot_destroy (rc_storage r) (?p (length xs)) = Inr ((rc_storage r)[?p (length xs) := None])"
    by (rule slot_destroy_live)
  have live: "live (rc_storage r) = insert (?p (length xs)) (?p ` {..<length xs})"
    using assms by (simp add: ring_repr_def lessThan_Suc)
  show "ring_repr cap (r\<lparr>rc_size := length xs,
          rc_storage := (rc_storage r)[?p (length xs) := None]\<rparr>) xs" (is "ring_repr cap ?r _")
  proof (rule ring_reprI)
    show "live (rc_storage ?r) = physical_index cap ?r ` {..<length xs}"
      using live neq neq [symmetric] by auto
    show "rc_storage ?r ! physical_index cap ?r i = Some (xs ! i)" if "i < length xs" for i
      using that neq [OF that] ring_repr_nth [OF assms, of i] by (simp add: nth_append)
  qed (use assms n in \<open>auto simp: ring_repr_def\<close>)
qed

lemma pop_back_repr:
  assumes "ring_repr cap r (xs @ [x])"
  shows "\<exists>r'. pop_back cap r = Inr r' \<and> ring_repr cap r' xs"
  using ring_repr_drop_last [OF assms] ring_repr_size [OF assms]
  by (simp add: pop_back_def)

lemma pop_back_empty: "ring_repr cap r [] \<Longrightarrow> pop_back cap r = Inl Check_failed"
  by (simp add: pop_back_def ring_repr_def)

lemma ring_shrink_to_repr:
  "ring_repr cap r xs \<Longrightarrow> n \<le> length xs \<Longrightarrow>
    \<exists>r'. ring_shrink_to cap n r = Inr r' \<and> ring_repr cap r' (take n xs)"
proof (induction xs arbitrary: r rule: rev_induct)
  case Nil
  then have "ring_shrink_to cap n r = Inr r"
    using ring_repr_size [OF Nil(1)] by (subst ring_shrink_to.simps) simp
  with Nil show ?case by simp
next
  case (snoc x xs)
  have size: "rc_size r = Suc (length xs)"
    using ring_repr_size [OF snoc.prems(1)] by simp
  show ?case
  proof (cases "n \<le> length xs")
    case True
    let ?r = "r\<lparr>rc_size := length xs,
           rc_storage := (rc_storage r)[physical_index cap r (length xs) := None]\<rparr>"
    have "ring_shrink_to cap n r = ring_shrink_to cap n ?r"
      using True size ring_repr_drop_last(1) [OF snoc.prems(1)]
      by (subst ring_shrink_to.simps) (simp add: Let_def)
    then show ?thesis
      using snoc.IH [OF ring_repr_drop_last(2) [OF snoc.prems(1)] True] True by simp
  next
    case False
    then have "n = Suc (length xs)" using snoc.prems(2) by simp
    moreover from this have "ring_shrink_to cap n r = Inr r"
      using size by (subst ring_shrink_to.simps) simp
    ultimately show ?thesis using snoc.prems(1) by simp
  qed
qed

lemma ring_repr_assign:
  assumes "ring_repr cap r xs" "i < length xs"
  shows "slot_assign (rc_storage r) (physical_index cap r i) y
           = Inr ((rc_storage r)[physical_index cap r i := Some y])"
    and "ring_repr cap (r\<lparr>rc_storage := (rc_storage r)[physical_index cap r i := Some y]\<rparr>) (xs[i := y])"
proof -
  let ?p = "physical_index cap r"
  have n: "i < cap" "0 < cap" "length xs \<le> cap" using ring_repr_size [OF assms(1)] assms(2) by auto
  note slot = ring_repr_slot [OF assms(1) n(2)]
  have inl: "?p i \<in> live (rc_storage r)"
    using ring_repr_live [OF assms(1) n(1)] assms(2) by simp
  then show "slot_assign (rc_storage r) (?p i) y = Inr ((rc_storage r)[?p i := Some y])"
    by (rule slot_assign_live)
  show "ring_repr cap (r\<lparr>rc_storage := (rc_storage r)[?p i := Some y]\<rparr>) (xs[i := y])"
    (is "ring_repr cap ?r _")
  proof (rule ring_reprI)
    show "live (rc_storage ?r) = physical_index cap ?r ` {..<length (xs[i := y])}"
      using assms(1) inl slot(1) [OF n(1)] by (auto simp: ring_repr_def insert_absorb)
    show "rc_storage ?r ! physical_index cap ?r j = Some (xs[i := y] ! j)"
      if "j < length (xs[i := y])" for j
      using that slot(1) [OF n(1)] slot(2) [of i j] n ring_repr_nth [OF assms(1), of j]
      by (cases "i = j") auto
  qed (use assms in \<open>auto simp: ring_repr_def\<close>)
qed

lemma ring_swap_common_repr:
  assumes "ring_repr cap a xs" "ring_repr cap b ys"
    and "i \<le> n" "n \<le> length xs" "n \<le> length ys"
  shows "\<exists>a' b'. ring_swap_common h cap i n a b = Inr (a', b') \<and>
     ring_repr cap a' (take i xs @ drop i (take n ys) @ drop n xs) \<and>
     ring_repr cap b' (take i ys @ drop i (take n xs) @ drop n ys)"
  using assms
proof (induction "n - i" arbitrary: i a b xs ys)
  case 0
  then have "i = n" by simp
  moreover from this have "ring_swap_common h cap i n a b = Inr (a, b)"
    by (subst ring_swap_common.simps) simp
  ultimately show ?case using "0.prems" by simp
next
  case (Suc d)
  then have i: "i < n" "i < length xs" "i < length ys" by auto
  let ?a = "a\<lparr>rc_storage := (rc_storage a)[physical_index cap a i := Some (ys ! i)]\<rparr>"
  let ?b = "b\<lparr>rc_storage := (rc_storage b)[physical_index cap b i := Some (xs ! i)]\<rparr>"
  note ra = ring_repr_assign [OF Suc.prems(1) i(2), of "ys ! i"]
  note rb = ring_repr_assign [OF Suc.prems(2) i(3), of "xs ! i"]
  have step: "ring_swap_common h cap i n a b = ring_swap_common h cap (i + 1) n ?a ?b"
    using i(1) ring_at_repr [OF Suc.prems(1) i(2)] ring_at_repr [OF Suc.prems(2) i(3)] ra(1) rb(1)
    by (subst ring_swap_common.simps) simp
  have part: "take (i + 1) (us[i := vs ! i]) @ drop (i + 1) (take n vs) @ drop n (us[i := vs ! i])
      = take i us @ drop i (take n vs) @ drop n us"
    if "i < length us" "i < length vs" for us vs :: "'a list"
    using that i(1) by (simp add: take_Suc_conv_app_nth Cons_nth_drop_Suc [symmetric])
  have arg: "take (i + 1) (us[i := vs ! i]) @ drop (i + 1) (take n (vs[i := us ! i])) @ drop n (us[i := vs ! i])
      = take i us @ drop i (take n vs) @ drop n us"
    if "i < length us" "i < length vs" for us vs :: "'a list"
    using part [OF that] by (simp add: take_update_swap)
  have "d = n - (i + 1)" "i + 1 \<le> n" "n \<le> length (xs[i := ys ! i])" "n \<le> length (ys[i := xs ! i])"
    using Suc.hyps(2) Suc.prems i by auto
  from Suc.hyps(1) [OF this(1) ra(2) rb(2) this(2-4)] show ?case
    unfolding step arg [OF i(2,3)] arg [OF i(3,2)] .
qed

lemma swap_core_repr:
  assumes a: "ring_repr cap a xs" and b: "ring_repr cap b ys"
  shows "\<exists>a' b'. swap_core h cap a b = Inr (a', b') \<and> ring_repr cap a' ys \<and> ring_repr cap b' xs"
proof -
  define n where "n = min (length xs) (length ys)"
  have le: "n \<le> length xs" "n \<le> length ys" by (simp_all add: n_def)
  have common: "(if rc_size a < rc_size b then rc_size a else rc_size b) = n"
    using ring_repr_size [OF a] ring_repr_size [OF b] by (simp add: n_def)
  obtain a1 b1 where s: "ring_swap_common h cap 0 n a b = Inr (a1, b1)"
    and a1: "ring_repr cap a1 (take n ys @ drop n xs)"
    and b1: "ring_repr cap b1 (take n xs @ drop n ys)"
    using ring_swap_common_repr [OF a b, of 0 n h] le by auto
  have sz: "rc_size a1 = length xs" "rc_size b1 = length ys"
    using ring_repr_size [OF a1] ring_repr_size [OF b1] le by auto
  note cap = ring_repr_size [OF a] ring_repr_size [OF b]
  consider "length xs = length ys" | "length xs < length ys" | "length ys < length xs" by linarith
  then show ?thesis
  proof cases
    case 1
    then show ?thesis
      using s a1 b1 sz common by (auto simp: swap_core_def n_def)
  next
    case 2
    then have n: "n = length xs" by (simp add: n_def)
    obtain a2 where a2: "ring_append_from h cap n (rc_size b1) b1 a1 = Inr a2" "ring_repr cap a2 ys"
      using ring_append_from_repr [OF b1 _ a1, of "length ys" n h] sz cap n 2 by auto
    obtain b2 where b2: "ring_shrink_to cap n b1 = Inr b2" "ring_repr cap b2 xs"
      using ring_shrink_to_repr [OF b1, of n] n 2 by auto
    show ?thesis
      using s a2 b2 sz common 2 by (simp add: swap_core_def Let_def)
  next
    case 3
    then have n: "n = length ys" by (simp add: n_def)
    obtain b2 where b2: "ring_append_from h cap n (rc_size a1) a1 b1 = Inr b2" "ring_repr cap b2 xs"
      using ring_append_from_repr [OF a1 _ b1, of "length xs" n h] sz cap n 3 by auto
    obtain a2 where a2: "ring_shrink_to cap n a1 = Inr a2" "ring_repr cap a2 ys"
      using ring_shrink_to_repr [OF a1, of n] n 3 by auto
    show ?thesis
      using s a2 b2 sz common 3 by (simp add: swap_core_def Let_def)
  qed
qed


subsection \<open>The operations at the front\<close>

lemma retreat_last_slot:
  "ring_repr cap r xs \<Longrightarrow> 0 < cap \<Longrightarrow> retreat cap (rc_head r) = physical_index cap r (cap - 1)"
  using ring_repr_wrap [of cap r xs "cap - 1"] by (auto simp: ring_repr_def retreat_def)

lemma ring_repr_push_front:
  assumes "ring_repr cap r xs" "length xs < cap"
  defines "p \<equiv> retreat cap (rc_head r)"
  shows "slot_new (rc_storage r) p v = Inr ((rc_storage r)[p := Some v])"
    and "ring_repr cap (r\<lparr>rc_head := p, rc_size := Suc (length xs),
           rc_storage := (rc_storage r)[p := Some v]\<rparr>) (v # xs)"
proof -
  have cap: "0 < cap" "cap - 1 < cap" using assms(2) by auto
  have p: "p = physical_index cap r (cap - 1)"
    using retreat_last_slot [OF assms(1) cap(1)] by (simp add: p_def)
  have len: "p < length (rc_storage r)" "length (rc_storage r) = cap"
    using ring_repr_slot(1) [OF assms(1) cap] p assms(1) cap by (auto simp: ring_repr_def)
  have neq: "p \<noteq> physical_index cap r i" if "i < length xs" for i
    using ring_repr_slot(2) [OF assms(1) cap(1), of i "cap - 1"] that assms(2) p by auto
  have "p \<notin> live (rc_storage r)"
    using ring_repr_live [OF assms(1) cap(2)] assms(2) p by simp
  with len(1) show "slot_new (rc_storage r) p v = Inr ((rc_storage r)[p := Some v])"
    by (rule slot_new_dead)
  let ?r = "r\<lparr>rc_head := p, rc_size := Suc (length xs), rc_storage := (rc_storage r)[p := Some v]\<rparr>"
  have pi: "physical_index cap ?r 0 = p"
    using len cap by (subst physical_index_wrap) auto
  have hd: "rc_head r < cap" using assms(1) cap by (auto simp: ring_repr_def)
  have ps: "physical_index cap ?r (Suc i) = physical_index cap r i" if "i < length xs" for i
    using that assms(2) hd len cap unfolding p_def retreat_def
    by (subst (1 2) physical_index_wrap) auto
  have "physical_index cap ?r ` {..<Suc (length xs)}
      = insert (physical_index cap ?r 0) (physical_index cap ?r ` Suc ` {..<length xs})"
    by (simp add: lessThan_Suc_eq_insert_0)
  also have "\<dots> = insert p (live (rc_storage r))"
    using assms(1) pi ps by (force simp: ring_repr_def image_iff)
  finally have live: "live (rc_storage ?r) = physical_index cap ?r ` {..<length (v # xs)}"
    using len(1) by simp
  show "ring_repr cap ?r (v # xs)"
  proof (rule ring_reprI)
    show "rc_storage ?r ! physical_index cap ?r i = Some ((v # xs) ! i)" if "i < length (v # xs)" for i
      using that pi ps len(1) neq ring_repr_nth [OF assms(1)] by (cases i) auto
  qed (use live len assms(2) in auto)
qed

lemma try_emplace_front_repr:
  assumes "ring_repr cap r xs" "length xs < cap"
  shows "\<exists>r'. try_emplace_front cap (Builds v) r = Inr (Returned True, r') \<and> ring_repr cap r' (v # xs)"
  using ring_repr_push_front [OF assms] assms(2) ring_repr_size [OF assms(1)]
  by (simp add: try_emplace_front_def ring_full_def Let_def)

lemma try_emplace_front_full:
  "ring_repr cap r xs \<Longrightarrow> length xs = cap \<Longrightarrow> try_emplace_front cap c r = Inr (Returned False, r)"
  by (simp add: try_emplace_front_def ring_full_def ring_repr_size)

lemma try_emplace_front_throws:
  "ring_repr cap r xs \<Longrightarrow> length xs < cap \<Longrightarrow> try_emplace_front cap Throws r = Inr (Threw, r)"
  by (simp add: try_emplace_front_def ring_full_def ring_repr_size)

lemma emplace_front_repr:
  assumes "ring_repr cap r xs" "length xs < cap"
  shows "\<exists>r'. emplace_front h cap (Builds v) r = Inr (Returned v, r') \<and> ring_repr cap r' (v # xs)"
proof -
  have "retreat cap (rc_head r) < length (rc_storage r)"
    using assms retreat_bound [of cap "rc_head r"] by (auto simp: ring_repr_def)
  then show ?thesis
    using ring_repr_push_front [OF assms] assms(2) ring_repr_size [OF assms(1)]
    by (simp add: emplace_front_def try_emplace_front_def ring_full_def slot_get_def Let_def)
qed

subsection \<open>Overwriting\<close>

lemma push_overwrite_repr:
  assumes "ring_repr cap r xs" "0 < cap" "move \<noteq> Move_throws"
  shows "\<exists>r'. push_overwrite h cap move (Builds v) r = Inr (Returned v, r') \<and>
           ring_repr cap r' (drop (Suc (length xs) - cap) (xs @ [v]))"
proof (cases "length xs = cap")
  case True
  then obtain x ys where xs: "xs = x # ys" using assms(2) by (cases xs) auto
  obtain r1 where r1: "pop_front cap r = Inr r1" "ring_repr cap r1 ys"
    using pop_front_repr [OF assms(1) [unfolded xs]] by blast
  have "length ys < cap" using True xs by simp
  with emplace_back_repr [OF r1(2) this, of h v] True xs r1(1) ring_repr_size [OF assms(1)] assms(3) show ?thesis
    by (auto simp: push_overwrite_def move_built_def ring_full_def)
next
  case False
  then have "length xs < cap" using ring_repr_size [OF assms(1)] by simp
  with emplace_back_repr [OF assms(1) this, of h v] False ring_repr_size [OF assms(1)] show ?thesis
    by (auto simp: push_overwrite_def move_built_def ring_full_def)
qed

lemma drop_last_drop:
  "d \<le> length zs - cap \<Longrightarrow> drop (length (drop d zs) - cap) (drop d zs) = drop (length zs - cap) zs"
  by (simp, rule arg_cong [of _ _ "\<lambda>n. drop n zs"], arith)

text \<open>A caller that logs a sequence of values, whose moves do not throw.\<close>

fun push_overwrite_all ::
  "hardening \<Rightarrow> nat \<Rightarrow> bool \<Rightarrow> 'a list \<Rightarrow> 'a ring_core \<Rightarrow> 'a ring_core outcome" where
  "push_overwrite_all h cap movable [] r = Inr r"
| "push_overwrite_all h cap movable (v # vs) r =
     bnd (push_overwrite h cap (if movable then Moves else Not_movable) (Builds v) r) (\<lambda>(_, r1). push_overwrite_all h cap movable vs r1)"

lemma push_overwrite_all_repr:
  "ring_repr cap r xs \<Longrightarrow> 0 < cap \<Longrightarrow>
    \<exists>r'. push_overwrite_all h cap movable vs r = Inr r' \<and>
         ring_repr cap r' (drop (length (xs @ vs) - cap) (xs @ vs))"
proof (induction vs arbitrary: r xs)
  case Nil
  then show ?case using ring_repr_size [OF Nil(1)] by simp
next
  case (Cons v vs)
  let ?d = "Suc (length xs) - cap"
  have "(if movable then Moves else Not_movable) \<noteq> Move_throws" by simp
  then obtain r1 where r1: "push_overwrite h cap (if movable then Moves else Not_movable) (Builds v) r = Inr (Returned v, r1)"
    "ring_repr cap r1 (drop ?d (xs @ [v]))"
    using push_overwrite_repr [OF Cons.prems] by blast
  have "?d \<le> length xs" using Cons.prems(2) by simp
  then have "drop ?d (xs @ [v]) @ vs = drop ?d (xs @ v # vs)" by simp
  then have "drop (length (drop ?d (xs @ [v]) @ vs) - cap) (drop ?d (xs @ [v]) @ vs)
      = drop (length (xs @ v # vs) - cap) (xs @ v # vs)"
    by (simp only:) (rule drop_last_drop, simp)
  then show ?case
    using Cons.IH [OF r1(2) Cons.prems(2)] r1(1) by simp
qed

end
