(* ===== verification/Ring_spec.thy ===== *)
theory Ring_spec
  imports Ring
begin

text \<open>
  What \<^verbatim>\<open>ring_buffer\<close>, \<^verbatim>\<open>fixed_deque\<close> and \<^verbatim>\<open>fixed_queue\<close> promise, stated against
  lists: every call of the interface on every branch, whole client programs
  through the \<open>bounded_fifo\<close> contract, logging with \<^verbatim>\<open>push_overwrite\<close>, and swap.
\<close>

section \<open>The whole interface against lists\<close>

text \<open>
  One call of \<^verbatim>\<open>ring_buffer\<close> or \<^verbatim>\<open>fixed_deque\<close>, its result, and what it does to the
  list of elements. \<open>ring_op_pre\<close> is the documented precondition of the reads,
  which is all a build without \<^verbatim>\<open>METL_ASSERT\<close> has to rely on.
\<close>

datatype 'a ring_op =
    Op_try_emplace_back "'a ctor" | Op_emplace_back "'a ctor" | Op_push_overwrite move_ctor "'a ctor"
  | Op_try_emplace_front "'a ctor" | Op_emplace_front "'a ctor"
  | Op_pop_front | Op_pop_back | Op_clear
  | Op_front | Op_back | Op_at nat

datatype 'a ring_result = Flag "bool call" | Element "'a call" | Nothing

definition ring_do ::
  "hardening \<Rightarrow> nat \<Rightarrow> 'a ring_op \<Rightarrow> 'a ring_core \<Rightarrow> ('a ring_result \<times> 'a ring_core) outcome" where
  "ring_do h cap op r = (case op of
       Op_try_emplace_back c \<Rightarrow> bnd (try_emplace_back cap c r) (\<lambda>(b, r1). Inr (Flag b, r1))
     | Op_emplace_back c \<Rightarrow> bnd (emplace_back h cap c r) (\<lambda>(v, r1). Inr (Element v, r1))
     | Op_push_overwrite move c \<Rightarrow> bnd (push_overwrite h cap move c r) (\<lambda>(v, r1). Inr (Element v, r1))
     | Op_try_emplace_front c \<Rightarrow> bnd (try_emplace_front cap c r) (\<lambda>(b, r1). Inr (Flag b, r1))
     | Op_emplace_front c \<Rightarrow> bnd (emplace_front h cap c r) (\<lambda>(v, r1). Inr (Element v, r1))
     | Op_pop_front \<Rightarrow> bnd (pop_front cap r) (\<lambda>r1. Inr (Nothing, r1))
     | Op_pop_back \<Rightarrow> bnd (pop_back cap r) (\<lambda>r1. Inr (Nothing, r1))
     | Op_clear \<Rightarrow> bnd (ring_clear cap r) (\<lambda>r1. Inr (Nothing, r1))
     | Op_front \<Rightarrow> bnd (ring_front h r) (\<lambda>v. Inr (Element (Returned v), r))
     | Op_back \<Rightarrow> bnd (ring_back h cap r) (\<lambda>v. Inr (Element (Returned v), r))
     | Op_at i \<Rightarrow> bnd (ring_at h cap r i) (\<lambda>v. Inr (Element (Returned v), r)))"

fun ring_op_pre :: "'a ring_op \<Rightarrow> nat \<Rightarrow> bool" where
  "ring_op_pre Op_front n \<longleftrightarrow> 0 < n"
| "ring_op_pre Op_back n \<longleftrightarrow> 0 < n"
| "ring_op_pre (Op_at i) n \<longleftrightarrow> i < n"
| "ring_op_pre _ n \<longleftrightarrow> True"

definition spec_emplace ::
  "('a list \<Rightarrow> 'a \<Rightarrow> 'a list) \<Rightarrow> 'a ctor \<Rightarrow> 'a list \<Rightarrow> 'a call \<times> 'a list" where
  "spec_emplace add c xs = (case c of Throws \<Rightarrow> (Threw, xs) | Builds v \<Rightarrow> (Returned v, add xs v))"

definition spec_try ::
  "nat \<Rightarrow> ('a list \<Rightarrow> 'a \<Rightarrow> 'a list) \<Rightarrow> 'a ctor \<Rightarrow> 'a list \<Rightarrow> ('a ring_result \<times> 'a list) outcome" where
  "spec_try cap add c xs =
     (if length xs = cap then Inr (Flag (Returned False), xs)
      else case c of Throws \<Rightarrow> Inr (Flag Threw, xs) | Builds v \<Rightarrow> Inr (Flag (Returned True), add xs v))"

definition spec_must ::
  "hardening \<Rightarrow> nat \<Rightarrow> ('a list \<Rightarrow> 'a \<Rightarrow> 'a list) \<Rightarrow> ('a list \<Rightarrow> 'a) \<Rightarrow> 'a ctor \<Rightarrow> 'a list
     \<Rightarrow> ('a ring_result \<times> 'a list) outcome" where
  "spec_must h cap add fallback c xs =
     (if length xs = cap
      then if h = METL_HARDENING_NONE \<and> cap \<noteq> 0 then Inr (Element (Returned (fallback xs)), xs)
           else Inl Check_failed
      else Inr (map_prod Element id (spec_emplace add c xs)))"

text \<open>The construction that happens after the oldest element is gone.\<close>

definition after_eviction :: "move_ctor \<Rightarrow> 'a ctor \<Rightarrow> 'a ctor" where
  "after_eviction move c = (if move = Move_throws then Throws else c)"

definition ring_spec ::
  "hardening \<Rightarrow> nat \<Rightarrow> 'a ring_op \<Rightarrow> 'a list \<Rightarrow> ('a ring_result \<times> 'a list) outcome" where
  "ring_spec h cap op xs = (case op of
       Op_try_emplace_back c \<Rightarrow> spec_try cap (\<lambda>xs v. xs @ [v]) c xs
     | Op_emplace_back c \<Rightarrow> spec_must h cap (\<lambda>xs v. xs @ [v]) last c xs
     | Op_push_overwrite move c \<Rightarrow>
         if length xs = cap
         then if move \<noteq> Not_movable \<and> c = Throws then Inr (Element Threw, xs)
              else if cap = 0 then Inl Check_failed
              else Inr (map_prod Element id (spec_emplace (\<lambda>xs v. xs @ [v]) (after_eviction move c) (tl xs)))
         else Inr (map_prod Element id (spec_emplace (\<lambda>xs v. xs @ [v]) c xs))
     | Op_try_emplace_front c \<Rightarrow> spec_try cap (\<lambda>xs v. v # xs) c xs
     | Op_emplace_front c \<Rightarrow> spec_must h cap (\<lambda>xs v. v # xs) hd c xs
     | Op_pop_front \<Rightarrow> if xs = [] then Inl Check_failed else Inr (Nothing, tl xs)
     | Op_pop_back \<Rightarrow> if xs = [] then Inl Check_failed else Inr (Nothing, butlast xs)
     | Op_clear \<Rightarrow> Inr (Nothing, [])
     | Op_front \<Rightarrow> if xs = [] then Inl Check_failed else Inr (Element (Returned (hd xs)), xs)
     | Op_back \<Rightarrow> if xs = [] then Inl Check_failed else Inr (Element (Returned (last xs)), xs)
     | Op_at i \<Rightarrow> if i < length xs then Inr (Element (Returned (xs ! i)), xs) else Inl Check_failed)"

text \<open>
  \<open>ring_matches\<close>: the call fails as the specification does, or returns its
  result in a state that represents its list.
\<close>

definition ring_matches ::
  "nat \<Rightarrow> ('b \<times> 'a ring_core) outcome \<Rightarrow> ('b \<times> 'a list) outcome \<Rightarrow> bool" where
  "ring_matches cap m n \<longleftrightarrow> (case n of
       Inl e \<Rightarrow> m = Inl e
     | Inr (res, ys) \<Rightarrow> (\<exists>r'. m = Inr (res, r') \<and> ring_repr cap r' ys))"

lemma ring_matches_simps [simp]:
  "ring_matches cap m (Inl e) \<longleftrightarrow> m = Inl e"
  "ring_matches cap m (Inr (res, ys)) \<longleftrightarrow> (\<exists>r'. m = Inr (res, r') \<and> ring_repr cap r' ys)"
  by (simp_all add: ring_matches_def)

lemma ring_reads_fail:
  assumes "ring_repr cap r xs" "h \<noteq> METL_HARDENING_NONE"
  shows "xs = [] \<Longrightarrow> ring_front h r = Inl Check_failed"
    and "xs = [] \<Longrightarrow> ring_back h cap r = Inl Check_failed"
    and "\<not> i < length xs \<Longrightarrow> ring_at h cap r i = Inl Check_failed"
  using assms(2) ring_repr_size [OF assms(1)]
  by (simp_all add: ring_front_def ring_back_def ring_at_def METL_ASSERT_active)


lemma ring_emplace_back_matches:
  assumes "ring_repr cap r xs"
  shows "ring_matches cap (emplace_back h cap c r)
           (if length xs = cap
            then if h = METL_HARDENING_NONE \<and> cap \<noteq> 0 then Inr (Returned (last xs), xs) else Inl Check_failed
            else Inr (spec_emplace (\<lambda>xs v. xs @ [v]) c xs))"
proof (cases "length xs = cap")
  case True
  have "ring_back h cap r = Inr (last xs)" if "cap \<noteq> 0"
    using ring_back_repr [OF assms, of h] True that by auto
  then show ?thesis
    using True assms try_emplace_back_full [OF assms True] ring_repr_size [OF assms]
    by (cases h) (auto simp: emplace_back_def METL_ASSERT_active METL_ASSERT_stripped)
next
  case False
  then have room: "length xs < cap" using ring_repr_size [OF assms] by simp
  show ?thesis
  proof (cases c)
    case (Builds v)
    then show ?thesis
      using emplace_back_repr [OF assms room, of h v] False by (auto simp: spec_emplace_def)
  next
    case Throws
    then show ?thesis
      using try_emplace_back_throws [OF assms room] False assms
      by (simp add: emplace_back_def spec_emplace_def)
  qed
qed

lemma ring_emplace_front_matches:
  assumes "ring_repr cap r xs"
  shows "ring_matches cap (emplace_front h cap c r)
           (if length xs = cap
            then if h = METL_HARDENING_NONE \<and> cap \<noteq> 0 then Inr (Returned (hd xs), xs) else Inl Check_failed
            else Inr (spec_emplace (\<lambda>xs v. v # xs) c xs))"
proof (cases "length xs = cap")
  case True
  have "ring_front h r = Inr (hd xs)" if "cap \<noteq> 0"
    using ring_front_repr [OF assms, of h] True that by auto
  then show ?thesis
    using True assms try_emplace_front_full [OF assms True] ring_repr_size [OF assms]
    by (cases h) (auto simp: emplace_front_def METL_ASSERT_active METL_ASSERT_stripped)
next
  case False
  then have room: "length xs < cap" using ring_repr_size [OF assms] by simp
  show ?thesis
  proof (cases c)
    case (Builds v)
    then show ?thesis
      using emplace_front_repr [OF assms room, of h v] False by (auto simp: spec_emplace_def)
  next
    case Throws
    then show ?thesis
      using try_emplace_front_throws [OF assms room] False assms
      by (simp add: emplace_front_def spec_emplace_def Let_def)
  qed
qed

lemma spec_try_matches:
  assumes repr: "ring_repr cap r xs"
    and full: "\<And>c. length xs = cap \<Longrightarrow> f c = Inr (Returned False, r)"
    and throws: "length xs < cap \<Longrightarrow> f Throws = Inr (Threw, r)"
    and room: "\<And>v. length xs < cap \<Longrightarrow> \<exists>r'. f (Builds v) = Inr (Returned True, r') \<and> ring_repr cap r' (add xs v)"
  shows "ring_matches cap (bnd (f c) (\<lambda>(b, r1). Inr (Flag b, r1))) (spec_try cap add c xs)"
proof (cases "length xs = cap")
  case True
  then show ?thesis using full repr by (simp add: spec_try_def)
next
  case False
  then have lt: "length xs < cap" using ring_repr_size [OF repr] by simp
  show ?thesis
  proof (cases c)
    case (Builds v)
    obtain r' where "f (Builds v) = Inr (Returned True, r')" "ring_repr cap r' (add xs v)"
      using room [OF lt] by blast
    then show ?thesis using Builds False by (simp add: spec_try_def)
  next
    case Throws
    then show ?thesis using throws [OF lt] repr False by (simp add: spec_try_def)
  qed
qed

lemma ring_try_matches:
  assumes "ring_repr cap r xs"
  shows "ring_matches cap (bnd (try_emplace_back cap c r) (\<lambda>(b, r1). Inr (Flag b, r1)))
           (spec_try cap (\<lambda>xs v. xs @ [v]) c xs)"
    and "ring_matches cap (bnd (try_emplace_front cap c r) (\<lambda>(b, r1). Inr (Flag b, r1)))
           (spec_try cap (\<lambda>xs v. v # xs) c xs)"
proof -
  show "ring_matches cap (bnd (try_emplace_back cap c r) (\<lambda>(b, r1). Inr (Flag b, r1)))
          (spec_try cap (\<lambda>xs v. xs @ [v]) c xs)"
    by (rule spec_try_matches [OF assms])
      (use try_emplace_back_full [OF assms] try_emplace_back_throws [OF assms]
        try_emplace_back_repr [OF assms] in blast)+
  show "ring_matches cap (bnd (try_emplace_front cap c r) (\<lambda>(b, r1). Inr (Flag b, r1)))
          (spec_try cap (\<lambda>xs v. v # xs) c xs)"
    by (rule spec_try_matches [OF assms])
      (use try_emplace_front_full [OF assms] try_emplace_front_throws [OF assms]
        try_emplace_front_repr [OF assms] in blast)+
qed

lemma ring_push_overwrite_matches:
  assumes "ring_repr cap r xs"
  shows "ring_matches cap (push_overwrite h cap move c r)
     (if length xs = cap
      then if move \<noteq> Not_movable \<and> c = Throws then Inr (Threw, xs)
           else if cap = 0 then Inl Check_failed
           else Inr (spec_emplace (\<lambda>xs v. xs @ [v]) (after_eviction move c) (tl xs))
      else Inr (spec_emplace (\<lambda>xs v. xs @ [v]) c xs))"
proof (cases "length xs = cap \<and> \<not> (move \<noteq> Not_movable \<and> c = Throws)")
  case True
  then have full: "ring_full cap r" using ring_repr_size [OF assms] by (simp add: ring_full_def)
  have over: "push_overwrite h cap move c r = bnd (pop_front cap r) (emplace_back h cap (after_eviction move c))"
    using True full by (cases c) (auto simp: push_overwrite_def move_built_def after_eviction_def)
  show ?thesis
  proof (cases xs)
    case Nil
    then show ?thesis using True over pop_front_empty [of cap r] assms by auto
  next
    case (Cons x ys)
    obtain r1 where r1: "pop_front cap r = Inr r1" "ring_repr cap r1 ys"
      using pop_front_repr [OF assms [unfolded Cons]] by blast
    have "length ys \<noteq> cap" "cap \<noteq> 0" using True Cons by auto
    then show ?thesis
      using True Cons over r1(1) ring_emplace_back_matches [OF r1(2), of h "after_eviction move c"] by auto
  qed
next
  case False
  then show ?thesis
    using ring_emplace_back_matches [OF assms, of h c] ring_repr_size [OF assms] assms
    by (auto simp: push_overwrite_def ring_full_def)
qed

lemma ring_matches_map:
  "ring_matches cap m n \<Longrightarrow>
     ring_matches cap (bnd m (\<lambda>(v, r1). Inr (f v, r1))) (bnd n (\<lambda>(v, ys). Inr (f v, ys)))"
  by (cases n) (auto simp: ring_matches_def)

lemma ring_do_matches:
  assumes "ring_repr cap r xs" "h \<noteq> METL_HARDENING_NONE \<or> ring_op_pre op (length xs)"
  shows "ring_matches cap (ring_do h cap op r) (ring_spec h cap op xs)"
proof (cases op)
  case (Op_emplace_back c)
  then show ?thesis
    using ring_matches_map [OF ring_emplace_back_matches [OF assms(1), of h c], of Element]
    by (auto simp: ring_do_def ring_spec_def spec_must_def map_prod_def split_beta split: if_splits)
next
  case (Op_emplace_front c)
  then show ?thesis
    using ring_matches_map [OF ring_emplace_front_matches [OF assms(1), of h c], of Element]
    by (auto simp: ring_do_def ring_spec_def spec_must_def map_prod_def split_beta split: if_splits)
next
  case (Op_push_overwrite move c)
  then show ?thesis
    using ring_matches_map [OF ring_push_overwrite_matches [OF assms(1), of h move c], of Element]
    by (auto simp: ring_do_def ring_spec_def map_prod_def split_beta split: if_splits)
next
  case Op_pop_front
  then show ?thesis
    using pop_front_repr [of cap r "hd xs" "tl xs"] pop_front_empty [of cap r] assms(1)
    by (cases xs) (auto simp: ring_do_def ring_spec_def)
next
  case Op_pop_back
  then show ?thesis
    using pop_back_repr [of cap r "butlast xs" "last xs"] pop_back_empty [of cap r] assms(1)
    by (cases "xs = []") (auto simp: ring_do_def ring_spec_def)
next
  case Op_clear
  then show ?thesis
    using ring_clear_repr [OF assms(1)] by (auto simp: ring_do_def ring_spec_def)
next
  case Op_front
  then show ?thesis
    using ring_front_repr [OF assms(1), of h] ring_reads_fail(1) [OF assms(1), of h] assms
    by (auto simp: ring_do_def ring_spec_def)
next
  case Op_back
  then show ?thesis
    using ring_back_repr [OF assms(1), of h] ring_reads_fail(2) [OF assms(1), of h] assms
    by (auto simp: ring_do_def ring_spec_def)
next
  case (Op_at i)
  then show ?thesis
    using ring_at_repr [OF assms(1), of i h] ring_reads_fail(3) [OF assms(1), of h i] assms
    by (auto simp: ring_do_def ring_spec_def)
qed (simp_all add: ring_do_def ring_spec_def ring_try_matches [OF assms(1)])


text \<open>
  C1: Every call of the ring interface (\<^verbatim>\<open>ring_buffer\<close>, \<^verbatim>\<open>fixed_deque\<close>), at every
  hardening level and capacity, does to the ring what its specification does to
  the list of elements: same result, same failed check, and never an access to a
  slot without an object. A constructor that throws leaves the list as it was, but
  for \<^verbatim>\<open>push_overwrite\<close> on a full ring: there a throw after the eviction, from the
  move of the finished value or from the construction of an element that cannot be
  moved, has lost the oldest element and added none. For a build without
  \<^verbatim>\<open>METL_ASSERT\<close> the reads need their documented precondition.
\<close>

theorem ring_interface_refines_lists:
  assumes "ring_repr cap r xs"
    and "h = METL_HARDENING_NONE \<Longrightarrow> ring_op_pre op (length xs)"
  shows "ring_matches cap (ring_do h cap op r) (ring_spec h cap op xs)"
  using assms ring_do_matches by blast

theorem ring_interface_refines_lists_witness:
  "ring_matches 3
     (ring_do METL_HARDENING_NONE 3 (Op_push_overwrite Moves (Builds 9))
       \<lparr>rc_storage = [Some 6, Some 7, Some 5], rc_head = 2, rc_size = 3\<rparr>)
     (Inr (Element (Returned 9), [6, 7, 9 :: nat]))"
proof -
  have "ring_repr 3 \<lparr>rc_storage = [Some 6, Some 7, Some 5], rc_head = 2, rc_size = 3\<rparr> [5, 6, 7 :: nat]"
    by code_simp
  from ring_interface_refines_lists [OF this, of METL_HARDENING_NONE "Op_push_overwrite Moves (Builds 9)"]
  show ?thesis by (simp add: ring_spec_def spec_emplace_def after_eviction_def)
qed

text \<open>
  A throwing \<^verbatim>\<open>push_overwrite\<close> neither leaves the ring unchanged nor empties it: the oldest
  of three elements is gone, the other two remain.
\<close>

lemma push_overwrite_throw_evicts:
  "push_overwrite METL_HARDENING_FAST 3 Move_throws (Builds 9) \<lparr>rc_storage = [Some 5, Some 6, Some 7], rc_head = 0, rc_size = 3\<rparr>
     = Inr (Threw, \<lparr>rc_storage = [None, Some 6, Some (7 :: nat)], rc_head = 1, rc_size = 2\<rparr>)"
  "push_overwrite METL_HARDENING_FAST 3 Not_movable Throws \<lparr>rc_storage = [Some 5, Some 6, Some 7], rc_head = 0, rc_size = 3\<rparr>
     = Inr (Threw, \<lparr>rc_storage = [None, Some 6, Some (7 :: nat)], rc_head = 1, rc_size = 2\<rparr>)"
  by code_simp+

section \<open>Client programs\<close>

text \<open>
  \<^verbatim>\<open>fixed_queue\<close>, the core used from the back to the front, and the deque used
  from the front to the back are bounded queues at every level that keeps
  \<^verbatim>\<open>METL_ASSERT\<close>.
\<close>

lemma fixed_queue_fifo:
  assumes "h \<noteq> METL_HARDENING_NONE"
  shows "bounded_fifo (queue_try_push cap) (queue_front h) (queue_pop cap) (ring_repr cap) cap"
proof
  fix s :: "'a ring_core" and xs :: "'a list" and x v :: 'a
  show "ring_repr cap s xs \<Longrightarrow> length xs \<le> cap"
    by (simp add: ring_repr_size)
  show "ring_repr cap s xs \<Longrightarrow> length xs < cap \<Longrightarrow>
      \<exists>s'. queue_try_push cap v s = Inr (Returned True, s') \<and> ring_repr cap s' (xs @ [v])"
    using try_emplace_back_repr [of cap s xs v] by (auto simp: queue_try_push_def)
  show "ring_repr cap s xs \<Longrightarrow> length xs = cap \<Longrightarrow> queue_try_push cap v s = Inr (Returned False, s)"
    by (simp add: queue_try_push_def try_emplace_back_full)
  show "ring_repr cap s (x # xs) \<Longrightarrow> queue_front h s = Inr x"
    by (simp add: queue_front_def ring_front_repr)
  show "ring_repr cap s [] \<Longrightarrow> queue_front h s = Inl Check_failed"
    using ring_reads_fail(1) [OF _ assms, of cap s "[]"] by (simp add: queue_front_def)
  show "ring_repr cap s (x # xs) \<Longrightarrow> \<exists>s'. queue_pop cap s = Inr s' \<and> ring_repr cap s' xs"
    by (simp add: queue_pop_def pop_front_repr)
  show "ring_repr cap s [] \<Longrightarrow> queue_pop cap s = Inl Check_failed"
    by (simp add: queue_pop_def pop_front_empty)
qed

interpretation queue_fast: bounded_fifo "queue_try_push cap" "queue_front METL_HARDENING_FAST"
  "queue_pop cap" "ring_repr cap" cap
  by (rule fixed_queue_fifo) simp

interpretation queue_debug: bounded_fifo "queue_try_push cap" "queue_front METL_HARDENING_DEBUG"
  "queue_pop cap" "ring_repr cap" cap
  by (rule fixed_queue_fifo) simp


lemma deque_front_fifo:
  assumes "h \<noteq> METL_HARDENING_NONE"
  shows "bounded_fifo (\<lambda>v. try_emplace_front cap (Builds v)) (ring_back h cap) (pop_back cap)
           (\<lambda>r xs. ring_repr cap r (rev xs)) cap"
proof
  fix s :: "'a ring_core" and xs :: "'a list" and x v :: 'a
  show "ring_repr cap s (rev xs) \<Longrightarrow> length xs \<le> cap"
    using ring_repr_size [of cap s "rev xs"] by simp
  show "ring_repr cap s (rev xs) \<Longrightarrow> length xs < cap \<Longrightarrow>
      \<exists>s'. try_emplace_front cap (Builds v) s = Inr (Returned True, s') \<and> ring_repr cap s' (rev (xs @ [v]))"
    using try_emplace_front_repr [of cap s "rev xs" v] by simp
  show "ring_repr cap s (rev xs) \<Longrightarrow> length xs = cap \<Longrightarrow>
      try_emplace_front cap (Builds v) s = Inr (Returned False, s)"
    using try_emplace_front_full [of cap s "rev xs"] by simp
  show "ring_repr cap s (rev (x # xs)) \<Longrightarrow> ring_back h cap s = Inr x"
    using ring_back_repr [of cap s "rev (x # xs)" h] by simp
  show "ring_repr cap s (rev []) \<Longrightarrow> ring_back h cap s = Inl Check_failed"
    using ring_reads_fail(2) [OF _ assms, of cap s "[]"] by simp
  show "ring_repr cap s (rev (x # xs)) \<Longrightarrow> \<exists>s'. pop_back cap s = Inr s' \<and> ring_repr cap s' (rev xs)"
    using pop_back_repr [of cap s "rev xs" x] by simp
  show "ring_repr cap s (rev []) \<Longrightarrow> pop_back cap s = Inl Check_failed"
    by (simp add: pop_back_empty)
qed

interpretation deque_fast: bounded_fifo "\<lambda>v. try_emplace_front cap (Builds v)"
  "ring_back METL_HARDENING_FAST cap" "pop_back cap" "\<lambda>r xs. ring_repr cap r (rev xs)" cap
  by (rule deque_front_fifo) simp

interpretation deque_debug: bounded_fifo "\<lambda>v. try_emplace_front cap (Builds v)"
  "ring_back METL_HARDENING_DEBUG cap" "pop_back cap" "\<lambda>r xs. ring_repr cap r (rev xs)" cap
  by (rule deque_front_fifo) simp

text \<open>
  C2: A client of \<^verbatim>\<open>fixed_queue\<close> cannot tell it from a bounded list: for every
  program of \<^verbatim>\<open>try_push\<close>, \<^verbatim>\<open>front\<close> and \<^verbatim>\<open>pop\<close> calls the observations are those of
  the list, the failed check of an empty \<^verbatim>\<open>front\<close> or \<^verbatim>\<open>pop\<close> included. The same
  holds of a deque filled at the front and drained at the back.
\<close>

theorem queue_programs_observe_fifo:
  assumes "h \<noteq> METL_HARDENING_NONE"
  shows "bnd (fifo_run (queue_try_push cap) (queue_front h) (queue_pop cap) calls (ring_core_empty cap))
             (\<lambda>p. Inr (fst p))
           = bnd (fifo_spec cap calls []) (\<lambda>p. Inr (fst p)) \<and>
         bnd (fifo_run (\<lambda>v. try_emplace_front cap (Builds v)) (ring_back h cap) (pop_back cap) calls
               (ring_core_empty cap)) (\<lambda>p. Inr (fst p))
           = bnd (fifo_spec cap calls []) (\<lambda>p. Inr (fst p))"
proof (cases h)
  case METL_HARDENING_FAST
  have "ring_repr cap (ring_core_empty cap) (rev [])" by (simp add: ring_repr_empty)
  then show ?thesis
    unfolding METL_HARDENING_FAST
    using queue_fast.run_observations [OF ring_repr_empty] deque_fast.run_observations by blast
next
  case METL_HARDENING_DEBUG
  have "ring_repr cap (ring_core_empty cap) (rev [])" by (simp add: ring_repr_empty)
  then show ?thesis
    unfolding METL_HARDENING_DEBUG
    using queue_debug.run_observations [OF ring_repr_empty] deque_debug.run_observations by blast
qed (use assms in simp)

theorem queue_programs_observe_fifo_witness:
  "bnd (fifo_run (queue_try_push 2) (queue_front METL_HARDENING_FAST) (queue_pop 2)
          [Try_push 1, Try_push 2, Try_push (3 :: nat), Pop, Try_push 4, Pop, Front] (ring_core_empty 2))
     (\<lambda>p. Inr (fst p))
   = Inr [Pushed True, Pushed True, Pushed False, Popped, Pushed True, Popped, Saw 4]"
  using queue_programs_observe_fifo [of METL_HARDENING_FAST 2
      "[Try_push 1, Try_push 2, Try_push (3 :: nat), Pop, Try_push 4, Pop, Front]"]
  by simp

text \<open>
  C3: Logging a sequence of values with \<^verbatim>\<open>push_overwrite\<close> always succeeds and keeps
  exactly the newest \<^verbatim>\<open>Capacity\<close> of all values, in order, for any start content
  and hardening level, whether or not the element type can be moved.
\<close>

theorem push_overwrite_keeps_newest:
  assumes "ring_inv cap r" "0 < cap"
  shows "\<exists>r'. push_overwrite_all h cap movable vs r = Inr r' \<and> ring_inv cap r' \<and>
           ring_list cap r' = drop (length (ring_list cap r @ vs) - cap) (ring_list cap r @ vs)"
  using push_overwrite_all_repr [of cap r "ring_list cap r" h movable vs] assms
  by (auto simp: ring_repr_iff)

theorem push_overwrite_keeps_newest_witness:
  "\<exists>r'. push_overwrite_all METL_HARDENING_NONE 3 True [1, 2, 3, 4, 5] (ring_core_empty 3) = Inr r' \<and>
     ring_inv 3 r' \<and> ring_list 3 r' = [3, 4, 5 :: nat]"
  using push_overwrite_keeps_newest [of 3 "ring_core_empty 3" METL_HARDENING_NONE True "[1, 2, 3, 4, 5 :: nat]"]
    ring_repr_empty [of 3, where 'a = nat] by (simp add: ring_repr_iff)

text \<open>
  C4: \<^verbatim>\<open>swap\<close> exchanges the contents of two rings of any two lengths, copying and
  assigning reproduce the source, and a moved-from ring is empty, but assigning or
  moving a ring to itself changes nothing; all of them
  end in states that represent lists again, so nothing is leaked or destroyed
  twice.
\<close>

theorem ring_swap_copy_move:
  assumes "ring_repr cap a xs" "ring_repr cap b ys"
  shows "(\<exists>a' b'. swap_core h cap a b = Inr (a', b') \<and> ring_repr cap a' ys \<and> ring_repr cap b' xs) \<and>
     (\<exists>c. ring_copy h cap a = Inr c \<and> ring_repr cap c xs) \<and>
     (\<exists>c. ring_assign h cap False b a = Inr c \<and> ring_repr cap c xs) \<and>
     (\<exists>c a'. ring_move h cap a = Inr (c, a') \<and> ring_repr cap c xs \<and> ring_repr cap a' []) \<and>
     (\<exists>c a'. ring_move_assign h cap False b a = Inr (c, a') \<and> ring_repr cap c xs \<and> ring_repr cap a' []) \<and>
     ring_assign h cap True a a = Inr a \<and> ring_move_assign h cap True a a = Inr (a, a)"
  by (intro conjI swap_core_repr [OF assms] ring_copy_repr [OF assms(1)] ring_assign_repr [OF assms(2,1)]
      ring_move_repr [OF assms(1)] ring_move_assign_repr [OF assms(2,1)])
    (simp_all add: ring_assign_def ring_move_assign_def)

theorem ring_swap_copy_move_witness:
  "\<exists>a' b'. swap_core METL_HARDENING_NONE 3 \<lparr>rc_storage = [Some 2, None, Some 1], rc_head = 2, rc_size = 2\<rparr>
      \<lparr>rc_storage = [Some 7, Some 8, Some 9], rc_head = 0, rc_size = 3\<rparr> = Inr (a', b') \<and>
     ring_repr 3 a' [7, 8, 9] \<and> ring_repr 3 b' [1, 2 :: nat]"
proof -
  have "ring_repr 3 \<lparr>rc_storage = [Some 2, None, Some 1], rc_head = 2, rc_size = 2\<rparr> [1, 2 :: nat]"
    "ring_repr 3 \<lparr>rc_storage = [Some 7, Some 8, Some 9], rc_head = 0, rc_size = 3\<rparr> [7, 8, 9 :: nat]"
    by code_simp+
  then show ?thesis by (rule ring_swap_copy_move [THEN conjunct1])
qed

end
