(* ===== verification/Bits.thy ===== *)
theory Bits
  imports Config
begin

text \<open>
  The bit operations of \<^verbatim>\<open>bit.hpp\<close> (the portable loops, which the compiler
  intrinsics stand in for), \<^verbatim>\<open>detail/low_bits.hpp\<close>, and \<^verbatim>\<open>compute_bucket_count\<close> of
  \<^verbatim>\<open>detail/transparent.hpp\<close>. An unsigned type of \<open>w\<close> bits is a \<open>'w word\<close>; a count
  (an \<^verbatim>\<open>int\<close> between 0 and 64) is a \<open>nat\<close>. The two zero-counting loops do not
  end for 0, so they return an option; the public functions test for 0 first.
\<close>

section \<open>Operations\<close>

function popcount_impl :: "'w::len word \<Rightarrow> nat \<Rightarrow> nat" where
  "popcount_impl v n = (if v \<noteq> 0 then popcount_impl (drop_bit 1 v) (n + unat (v AND 1)) else n)"
  by pat_completeness auto
termination
proof (relation "measure (\<lambda>(v, n). unat v)")
  fix v :: "'w::len word" and n :: nat
  assume "v \<noteq> 0"
  then have "unat v div 2 < unat v"
    by (simp add: unat_gt_0)
  then have "unat (drop_bit 1 v) < unat v"
    by (simp only: unat_drop_bit_eq) (simp add: drop_bit_eq_div)
  then show "((drop_bit 1 v, n + unat (v AND 1)), v, n) \<in> measure (\<lambda>(v, n). unat v)"
    by simp
qed simp

declare popcount_impl.simps [simp del]

partial_function (option) countl_zero_impl :: "'w::len word \<Rightarrow> 'w word \<Rightarrow> nat \<Rightarrow> nat option" where
  "countl_zero_impl v m n =
     (if v AND m = 0 then countl_zero_impl v (drop_bit 1 m) (n + 1) else Some n)"

partial_function (option) countr_zero_impl :: "'w::len word \<Rightarrow> nat \<Rightarrow> nat option" where
  "countr_zero_impl v n =
     (if v AND 1 = 0 then countr_zero_impl (drop_bit 1 v) (n + 1) else Some n)"

definition popcount :: "'w::len word \<Rightarrow> nat" where
  "popcount v = popcount_impl v 0"

definition has_single_bit :: "'w::len word \<Rightarrow> bool" where
  "has_single_bit v \<longleftrightarrow> v \<noteq> 0 \<and> v AND (v - 1) = 0"

definition countl_zero :: "'w::len word \<Rightarrow> nat option" where
  "countl_zero v =
     (if v = 0 then Some LENGTH('w) else countl_zero_impl v (push_bit (LENGTH('w) - 1) 1) 0)"

definition countr_zero :: "'w::len word \<Rightarrow> nat option" where
  "countr_zero v = (if v = 0 then Some LENGTH('w) else countr_zero_impl v 0)"

definition bit_width :: "'w::len word \<Rightarrow> nat option" where
  "bit_width v =
     (if v = 0 then Some 0 else map_option (\<lambda>n. LENGTH('w) - n) (countl_zero v))"

definition bit_floor :: "'w::len word \<Rightarrow> 'w word option" where
  "bit_floor v =
     (if v = 0 then Some 0 else map_option (\<lambda>n. push_bit (n - 1) 1) (bit_width v))"

definition bit_ceil :: "'w::len word \<Rightarrow> 'w word option" where
  "bit_ceil v =
     (if v \<le> 1 then Some 1
      else map_option (\<lambda>width. if width \<ge> LENGTH('w) then 0 else push_bit width 1) (bit_width (v - 1)))"

definition low_bits :: "nat \<Rightarrow> 'w::len word" where
  "low_bits n = (if n \<ge> LENGTH('w) then NOT 0 else push_bit n 1 - 1)"

definition compute_bucket_count :: "'w::len word \<Rightarrow> 'w word option" where
  "compute_bucket_count capacity = (if capacity = 0 then Some 1 else bit_ceil (capacity * 2))"

section \<open>Counting\<close>

lemma and_1_bit: "v AND 1 = (if bit v 0 then 1 else 0)" for v :: "'w::len word"
  by (simp add: and_one_eq bit_0 mod2_eq_if)

lemma bits_finite [simp]: "finite {i. bit v i}" for v :: "'w::len word"
  by (rule finite_subset [of _ "{..<LENGTH('w)}"]) (auto dest: bit_imp_le_length)

lemma bit_set_step:
  "{i. bit v i} = (if bit v 0 then {0} else {}) \<union> Suc ` {i. bit (drop_bit 1 v) i}" for v :: "'w::len word"
proof (rule set_eqI)
  fix i show "i \<in> {i. bit v i} \<longleftrightarrow> i \<in> (if bit v 0 then {0} else {}) \<union> Suc ` {i. bit (drop_bit 1 v) i}"
    by (cases i) (auto simp: bit_drop_bit_eq)
qed

lemma popcount_impl_card: "popcount_impl v n = n + card {i. bit v i}"
proof (induction v n rule: popcount_impl.induct)
  case (1 v n)
  show ?case
  proof (cases "v = 0")
    case False
    have "card {i. bit v i} = (if bit v 0 then 1 else 0) + card {i. bit (drop_bit 1 v) i}"
      by (subst bit_set_step) (auto simp: card_Un_disjoint card_image)
    then show ?thesis
      using 1 False by (subst popcount_impl.simps) (simp add: and_1_bit)
  qed (subst popcount_impl.simps, simp add: bot_fun_def)
qed

lemma popcount_card: "popcount v = card {i. bit v i}"
  by (simp add: popcount_def popcount_impl_card)

lemma countr_zero_impl_lowest:
  assumes "bit v k" "\<And>i. i < k \<Longrightarrow> \<not> bit v i"
  shows "countr_zero_impl v n = Some (n + k)"
  using assms
proof (induction k arbitrary: v n)
  case 0
  then show ?case by (subst countr_zero_impl.simps) (simp add: and_1_bit)
next
  case (Suc k)
  have "countr_zero_impl (drop_bit 1 v) (n + 1) = Some (n + 1 + k)"
    using Suc.prems by (intro Suc.IH) (auto simp: bit_drop_bit_eq)
  then show ?case
    using Suc.prems(2) [of 0] by (subst countr_zero_impl.simps) (simp add: and_1_bit)
qed

lemma word_lowest_bit:
  fixes v :: "'w::len word"
  assumes "v \<noteq> 0"
  obtains k where "bit v k" "\<And>i. i < k \<Longrightarrow> \<not> bit v i"
proof -
  have "\<exists>k. bit v k" using assms by (auto simp: bit_eq_iff)
  then show thesis
    using that [of "LEAST k. bit v k"] LeastI_ex not_less_Least by blast
qed

lemma countr_zero_lowest:
  assumes "bit v k" "\<And>i. i < k \<Longrightarrow> \<not> bit v i"
  shows "countr_zero v = Some k"
  using assms countr_zero_impl_lowest [OF assms] by (auto simp: countr_zero_def)

lemma countl_zero_impl_highest:
  fixes v :: "'w::len word"
  assumes "bit v k" "\<And>i. k < i \<Longrightarrow> \<not> bit v i" "k + d < LENGTH('w)"
  shows "countl_zero_impl v (push_bit (k + d) 1) n = Some (n + d)"
  using assms(3)
proof (induction d arbitrary: n)
  case 0
  then show ?case
    using assms(1) by (subst countl_zero_impl.simps) (simp add: and_exp_eq_0_iff_not_bit)
next
  case (Suc d)
  have "drop_bit 1 (push_bit (k + Suc d) 1) = (push_bit (k + d) 1 :: 'w word)"
    using Suc.prems by (intro bit_eqI) (auto simp: bit_simps)
  then show ?case
    using Suc assms(2) [of "k + Suc d"] and_exp_eq_0_iff_not_bit [of v "k + Suc d"]
    by (subst countl_zero_impl.simps) (simp add: and_exp_eq_0_iff_not_bit)
qed

lemma word_highest_bit:
  fixes v :: "'w::len word"
  assumes "v \<noteq> 0"
  obtains k where "bit v k" "\<And>i. k < i \<Longrightarrow> \<not> bit v i" "k < LENGTH('w)"
proof -
  have "{i. bit v i} \<noteq> {}" using assms by (auto simp: bit_eq_iff)
  then have "bit v (Max {i. bit v i})" using Max_in [OF bits_finite] by blast
  then show thesis
    using that [of "Max {i. bit v i}"] Max_ge [OF bits_finite, of _ v] bit_imp_le_length by fastforce
qed

lemma bit_width_highest:
  fixes v :: "'w::len word"
  assumes "bit v k" "\<And>i. k < i \<Longrightarrow> \<not> bit v i"
  shows "bit_width v = Some (Suc k)"
proof -
  have k: "k < LENGTH('w)" "v \<noteq> 0" using assms(1) bit_imp_le_length by auto
  then have "countl_zero v = Some (LENGTH('w) - 1 - k)"
    using countl_zero_impl_highest [OF assms, of "LENGTH('w) - 1 - k" 0] by (simp add: countl_zero_def)
  with k show ?thesis by (simp add: bit_width_def)
qed


section \<open>Rounding to powers of two\<close>

lemma nat_highest_bit:
  fixes n :: nat
  assumes "bit n k" "\<And>i. k < i \<Longrightarrow> \<not> bit n i"
  shows "2 ^ k \<le> n" "n < 2 ^ Suc k"
proof -
  show "2 ^ k \<le> n"
  proof (rule ccontr)
    assume "\<not> 2 ^ k \<le> n"
    then have "take_bit k n = n" by (simp add: take_bit_nat_eq_self)
    then have "bit (take_bit k n) k" using assms(1) by simp
    then show False by (simp add: bit_take_bit_iff)
  qed
  have "take_bit (Suc k) n = n"
    using assms(2) by (intro bit_eqI) (metis bit_take_bit_iff not_less_eq)
  then show "n < 2 ^ Suc k"
    by (metis take_bit_nat_less_exp)
qed

lemma unat_highest_bit:
  fixes v :: "'w::len word"
  assumes "bit v k" "\<And>i. k < i \<Longrightarrow> \<not> bit v i"
  shows "2 ^ k \<le> unat v" "unat v < 2 ^ Suc k"
  using nat_highest_bit [of "unat v" k] assms by (auto simp: bit_unsigned_iff dest: bit_imp_le_length)

lemma unat_push_bit_1: "k < LENGTH('w) \<Longrightarrow> unat (push_bit k 1 :: 'w::len word) = 2 ^ k"
  using unat_of_nat [of "2 ^ k", where 'a = 'w] by (simp add: take_bit_nat_eq_self)

lemma bit_width_bounds:
  fixes v :: "'w::len word"
  assumes "v \<noteq> 0"
  obtains k where "bit_width v = Some (Suc k)" "k < LENGTH('w)" "2 ^ k \<le> unat v" "unat v < 2 ^ Suc k"
proof -
  obtain k where k: "bit v k" "\<And>i. k < i \<Longrightarrow> \<not> bit v i" "k < LENGTH('w)"
    using word_highest_bit [OF assms] by blast
  show thesis
    by (rule that [OF bit_width_highest [OF k(1,2)] k(3) unat_highest_bit [OF k(1,2)]])
qed

lemma bit_ceil_least:
  fixes v :: "'w::len word"
  assumes "unat v \<le> 2 ^ (LENGTH('w) - 1)" "1 < v"
  obtains k where "bit_ceil v = Some (push_bit k 1)" "k < LENGTH('w)" "unat v \<le> 2 ^ k" "2 ^ k < 2 * unat v"
proof -
  have u: "unat v > 1" using assms(2) by (simp add: word_less_nat_alt)
  have p: "unat (v - 1) = unat v - 1"
    using u by (simp add: unat_sub word_le_nat_alt)
  have "v - 1 \<noteq> 0" using u p by (metis One_nat_def unat_0 zero_less_diff less_irrefl)
  then obtain k where k: "bit_width (v - 1) = Some (Suc k)" "2 ^ k \<le> unat (v - 1)" "unat (v - 1) < 2 ^ Suc k"
    using bit_width_bounds by blast
  have "(2 :: nat) ^ k < 2 ^ (LENGTH('w) - 1)"
    using k(2) p u assms(1) by linarith
  then have len: "Suc k < LENGTH('w)"
    using power_less_imp_less_exp [of "2 :: nat" k "LENGTH('w) - 1"] by simp
  show thesis
    by (rule that [of "Suc k"]) (use k len p u assms(2) in \<open>auto simp: bit_ceil_def\<close>)
qed

lemma compute_bucket_count_bounds:
  fixes c :: "'w::len word"
  assumes "0 < unat c" "4 * unat c \<le> 2 ^ LENGTH('w)"
  obtains k where "compute_bucket_count c = Some (push_bit k 1)" "k < LENGTH('w)"
    "2 * unat c \<le> 2 ^ k" "2 ^ k < 4 * unat c"
proof -
  obtain n where n: "LENGTH('w) = Suc n" by (cases "LENGTH('w)") auto
  have "2 * unat c < 2 ^ LENGTH('w)" using assms by linarith
  then have d: "unat (c * 2) = 2 * unat c"
    by (auto simp: unat_word_ariths mult.commute)
  then have "unat (c * 2) \<le> 2 ^ (LENGTH('w) - 1)" "1 < c * 2"
    using assms n by (auto simp: word_less_nat_alt)
  from bit_ceil_least [OF this] obtain k where k: "bit_ceil (c * 2) = Some (push_bit k 1)"
    "k < LENGTH('w)" "unat (c * 2) \<le> 2 ^ k" "2 ^ k < 2 * unat (c * 2)" by blast
  show thesis
    by (rule that [of k]) (use k d assms(1) in \<open>auto simp: compute_bucket_count_def\<close>)
qed

end
