(* ===== verification/Bitset.thy ===== *)
theory Bitset
  imports Bits
begin

text \<open>
  \<^verbatim>\<open>bitset<N>\<close> (\<^verbatim>\<open>bitset.hpp\<close>, \<^verbatim>\<open>detail/bitset.hpp\<close>): N bits packed into 32-bit words.
  The template parameter is the argument \<open>N\<close>, the member \<^verbatim>\<open>words_\<close> is a list of
  \<open>32 word\<close>. The bits past \<open>N - 1\<close> of the last word stay zero, and two of the
  operations rely on it.
\<close>

type_synonym bitset = "32 word list"

definition word_count :: "nat \<Rightarrow> nat" where
  "word_count N = (N + 32 - 1) div 32"

definition bitset_new :: "nat \<Rightarrow> bitset" where
  "bitset_new N = replicate (word_count N) 0"

definition bitset_bit :: "nat \<Rightarrow> 32 word" where
  "bitset_bit index = push_bit (index mod 32) 1"

definition bitset_test :: "nat \<Rightarrow> bitset \<Rightarrow> nat \<Rightarrow> bool outcome" where
  "bitset_test N ws index =
     METL_HARDEN (index < N)
       (bnd (arr_get ws (index div 32)) (\<lambda>w. Inr (drop_bit (index mod 32) w AND 1 \<noteq> 0)))"

definition bitset_set :: "nat \<Rightarrow> nat \<Rightarrow> bitset \<Rightarrow> bitset outcome" where
  "bitset_set N index ws =
     METL_HARDEN (index < N)
       (bnd (arr_get ws (index div 32)) (\<lambda>w. arr_set ws (index div 32) (w OR bitset_bit index)))"

definition bitset_reset :: "nat \<Rightarrow> nat \<Rightarrow> bitset \<Rightarrow> bitset outcome" where
  "bitset_reset N index ws =
     METL_HARDEN (index < N)
       (bnd (arr_get ws (index div 32)) (\<lambda>w. arr_set ws (index div 32) (w AND NOT (bitset_bit index))))"

definition bitset_reset_all :: "nat \<Rightarrow> bitset \<Rightarrow> bitset outcome" where
  "bitset_reset_all N ws = for_upto 0 (word_count N) (\<lambda>k ws. arr_set ws k 0) ws"

definition bitset_count :: "nat \<Rightarrow> bitset \<Rightarrow> nat outcome" where
  "bitset_count N ws =
     for_upto 0 (word_count N) (\<lambda>k total. bnd (arr_get ws k) (\<lambda>w. Inr (total + popcount w))) 0"

function bitset_any_from :: "nat \<Rightarrow> bitset \<Rightarrow> nat \<Rightarrow> bool outcome" where
  "bitset_any_from N ws k =
     (if k < word_count N
      then bnd (arr_get ws k) (\<lambda>w. if w \<noteq> 0 then Inr True else bitset_any_from N ws (k + 1))
      else Inr False)"
  by pat_completeness auto
termination
  by (relation "measure (\<lambda>(N, ws, k). word_count N - k)") auto

definition bitset_any :: "nat \<Rightarrow> bitset \<Rightarrow> bool outcome" where
  "bitset_any N ws = bitset_any_from N ws 0"

definition bitset_none :: "nat \<Rightarrow> bitset \<Rightarrow> bool outcome" where
  "bitset_none N ws = bnd (bitset_any N ws) (\<lambda>b. Inr (\<not> b))"

definition bitset_all :: "nat \<Rightarrow> bitset \<Rightarrow> bool outcome" where
  "bitset_all N ws = bnd (bitset_count N ws) (\<lambda>c. Inr (c = N))"

function first_set_from :: "nat \<Rightarrow> bitset \<Rightarrow> nat \<Rightarrow> nat outcome" where
  "first_set_from N ws k =
     (if k < word_count N
      then bnd (arr_get ws k) (\<lambda>w.
             if w \<noteq> 0 then bnd (of_loop (countr_zero w)) (\<lambda>z. Inr (k * 32 + z))
             else first_set_from N ws (k + 1))
      else Inr N)"
  by pat_completeness auto
termination
  by (relation "measure (\<lambda>(N, ws, k). word_count N - k)") auto

definition find_first_set :: "nat \<Rightarrow> bitset \<Rightarrow> nat outcome" where
  "find_first_set N ws = first_set_from N ws 0"

text \<open>
  The endless loop of \<^verbatim>\<open>find_next_set\<close> leaves when \<open>k\<close> reaches the last word; here
  it runs on the words left.
\<close>

function next_set_from :: "nat \<Rightarrow> bitset \<Rightarrow> nat \<Rightarrow> 32 word \<Rightarrow> nat outcome" where
  "next_set_from N ws k word =
     (if word \<noteq> 0 then bnd (of_loop (countr_zero word)) (\<lambda>z. Inr (k * 32 + z))
      else if k + 1 = word_count N then Inr N
      else if k + 1 < word_count N then bnd (arr_get ws (k + 1)) (\<lambda>w. next_set_from N ws (k + 1) w)
      else Inl Diverged)"
  by pat_completeness auto
termination
  by (relation "measure (\<lambda>(N, ws, k, word). word_count N - k)") auto

definition find_next_set :: "nat \<Rightarrow> bitset \<Rightarrow> nat \<Rightarrow> nat outcome" where
  "find_next_set N ws from =
     (if from \<ge> N then Inr N
      else let k = from div 32 in
           bnd (arr_get ws k) (\<lambda>w. next_set_from N ws k (w AND push_bit (from mod 32) (NOT 0))))"

function first_clear_from :: "nat \<Rightarrow> bitset \<Rightarrow> nat \<Rightarrow> nat outcome" where
  "first_clear_from N ws k =
     (if k < word_count N
      then bnd (arr_get ws k) (\<lambda>w. let clear = NOT w in
             if clear \<noteq> 0 then bnd (of_loop (countr_zero clear)) (\<lambda>z. Inr (k * 32 + z))
             else first_clear_from N ws (k + 1))
      else Inr N)"
  by pat_completeness auto
termination
  by (relation "measure (\<lambda>(N, ws, k). word_count N - k)") auto

definition find_first_clear :: "nat \<Rightarrow> bitset \<Rightarrow> nat outcome" where
  "find_first_clear N ws = first_clear_from N ws 0"

definition last_word_mask :: "nat \<Rightarrow> 32 word" where
  "last_word_mask N = (let tail = N mod 32 in if tail = 0 then NOT 0 else push_bit tail 1 - 1)"

definition bitset_shl :: "nat \<Rightarrow> nat \<Rightarrow> bitset \<Rightarrow> bitset outcome" where
  "bitset_shl N distance ws =
     (if distance \<ge> N then bitset_reset_all N ws
      else let words = distance div 32; bits = distance mod 32 in
        bnd (for_downto (word_count N) (\<lambda>k ws.
               bnd (if k \<ge> words
                    then bnd (arr_get ws (k - words)) (\<lambda>w.
                         if bits \<noteq> 0 \<and> k > words
                         then bnd (arr_get ws (k - words - 1)) (\<lambda>v.
                                Inr (push_bit bits w OR drop_bit (32 - bits) v))
                         else Inr (push_bit bits w))
                    else Inr 0)
                 (\<lambda>value. arr_set ws k value)) ws)
          (\<lambda>ws. bnd (arr_get ws (word_count N - 1)) (\<lambda>w.
                  arr_set ws (word_count N - 1) (w AND last_word_mask N))))"

definition bitset_shr :: "nat \<Rightarrow> nat \<Rightarrow> bitset \<Rightarrow> bitset outcome" where
  "bitset_shr N distance ws =
     (if distance \<ge> N then bitset_reset_all N ws
      else let words = distance div 32; bits = distance mod 32 in
        for_upto 0 (word_count N) (\<lambda>k ws.
          bnd (if k + words < word_count N
               then bnd (arr_get ws (k + words)) (\<lambda>w.
                    if bits \<noteq> 0 \<and> k + words + 1 < word_count N
                    then bnd (arr_get ws (k + words + 1)) (\<lambda>v.
                           Inr (drop_bit bits w OR push_bit (32 - bits) v))
                    else Inr (drop_bit bits w))
               else Inr 0)
            (\<lambda>value. arr_set ws k value)) ws)"

function bitset_eq_from :: "nat \<Rightarrow> bitset \<Rightarrow> bitset \<Rightarrow> nat \<Rightarrow> bool outcome" where
  "bitset_eq_from N lhs rhs k =
     (if k < word_count N
      then bnd (arr_get lhs k) (\<lambda>a. bnd (arr_get rhs k) (\<lambda>b.
             if a \<noteq> b then Inr False else bitset_eq_from N lhs rhs (k + 1)))
      else Inr True)"
  by pat_completeness auto
termination
  by (relation "measure (\<lambda>(N, lhs, rhs, k). word_count N - k)") auto

definition bitset_eq :: "nat \<Rightarrow> bitset \<Rightarrow> bitset \<Rightarrow> bool outcome" where
  "bitset_eq N lhs rhs = bitset_eq_from N lhs rhs 0"

declare bitset_any_from.simps [simp del] first_set_from.simps [simp del] next_set_from.simps [simp del]
  first_clear_from.simps [simp del] bitset_eq_from.simps [simp del]


section \<open>Representation\<close>

definition word_bit :: "bitset \<Rightarrow> nat \<Rightarrow> bool" where
  "word_bit ws i \<longleftrightarrow> bit (ws ! (i div 32)) (i mod 32)"

text \<open>The set \<open>S\<close> of indices is stored in \<open>ws\<close>, and the tail is clear.\<close>

definition bitset_repr :: "nat \<Rightarrow> bitset \<Rightarrow> nat set \<Rightarrow> bool" where
  "bitset_repr N ws S \<longleftrightarrow>
     0 < N \<and> length ws = word_count N \<and> S \<subseteq> {..<N} \<and>
     (\<forall>i < 32 * word_count N. word_bit ws i \<longleftrightarrow> i \<in> S)"

lemma word_count_bounds: "N \<le> 32 * word_count N" "0 < N \<Longrightarrow> 32 * word_count N < N + 32"
  by (auto simp: word_count_def)

lemma index_word: "i < N \<Longrightarrow> i div 32 < word_count N"
  using word_count_bounds(1) [of N] by (simp add: less_mult_imp_div_less)

lemma index_split: "j < 32 \<Longrightarrow> (32 * k + j) div 32 = k" "j < 32 \<Longrightarrow> (32 * k + j) mod 32 = (j :: nat)"
  by auto

lemma bitset_repr_length: "bitset_repr N ws S \<Longrightarrow> length ws = word_count N"
  by (simp add: bitset_repr_def)

lemma bitset_repr_bit:
  "bitset_repr N ws S \<Longrightarrow> k < word_count N \<Longrightarrow> j < 32 \<Longrightarrow> bit (ws ! k) j \<longleftrightarrow> 32 * k + j \<in> S"
proof -
  assume *: "bitset_repr N ws S" "k < word_count N" "j < 32"
  then have "32 * k + j < 32 * word_count N" by linarith
  with * have "word_bit ws (32 * k + j) \<longleftrightarrow> 32 * k + j \<in> S" by (simp add: bitset_repr_def)
  with *(3) show ?thesis by (simp only: word_bit_def index_split)
qed

lemma bitset_repr_bounds: "bitset_repr N ws S \<Longrightarrow> 0 < N \<and> S \<subseteq> {..<N}"
  by (simp add: bitset_repr_def)

lemma bitset_reprI:
  assumes "0 < N" "length ws = word_count N" "S \<subseteq> {..<N}"
    and "\<And>k j. k < word_count N \<Longrightarrow> j < 32 \<Longrightarrow> bit (ws ! k) j \<longleftrightarrow> 32 * k + j \<in> S"
  shows "bitset_repr N ws S"
proof -
  have "word_bit ws i \<longleftrightarrow> i \<in> S" if "i < 32 * word_count N" for i
    using assms(4) [of "i div 32" "i mod 32"] that by (simp add: word_bit_def less_mult_imp_div_less)
  then show ?thesis using assms by (simp add: bitset_repr_def)
qed

lemma bitset_new_repr: "0 < N \<Longrightarrow> bitset_repr N (bitset_new N) {}"
  by (rule bitset_reprI) (auto simp: bitset_new_def)

section \<open>Single bits\<close>

lemma bitset_test_repr:
  "bitset_repr N ws S \<Longrightarrow> i < N \<Longrightarrow> bitset_test N ws i = Inr (i \<in> S)"
  using bitset_repr_bit [of N ws S "i div 32" "i mod 32"]
  by (simp add: bitset_test_def bitset_repr_length index_word and_1_bit bit_drop_bit_eq)

lemma bit_bitset_bit: "j < 32 \<Longrightarrow> bit (bitset_bit i) j \<longleftrightarrow> j = i mod 32"
  by (auto simp: bitset_bit_def bit_simps)

lemma index_eq_iff: "j < 32 \<Longrightarrow> 32 * k + j = i \<longleftrightarrow> k = i div 32 \<and> j = i mod (32 :: nat)"
  by auto

lemma bitset_set_repr:
  assumes "bitset_repr N ws S" "i < N"
  shows "\<exists>ws'. bitset_set N i ws = Inr ws' \<and> bitset_repr N ws' (insert i S)"
proof -
  let ?ws = "ws[i div 32 := ws ! (i div 32) OR bitset_bit i]"
  have "bitset_repr N ?ws (insert i S)"
    using assms(2) bitset_repr_bit [OF assms(1)] bitset_repr_bounds [OF assms(1)]
      bitset_repr_length [OF assms(1)] index_word [OF assms(2)]
    by (intro bitset_reprI)
      (auto simp: index_eq_iff nth_list_update bit_or_iff bit_bitset_bit)
  then show ?thesis
    using assms by (simp add: bitset_set_def bitset_repr_length index_word)
qed

lemma bitset_reset_repr:
  assumes "bitset_repr N ws S" "i < N"
  shows "\<exists>ws'. bitset_reset N i ws = Inr ws' \<and> bitset_repr N ws' (S - {i})"
proof -
  let ?ws = "ws[i div 32 := ws ! (i div 32) AND NOT (bitset_bit i)]"
  have "bitset_repr N ?ws (S - {i})"
    using assms(2) bitset_repr_bit [OF assms(1)] bitset_repr_bounds [OF assms(1)]
      bitset_repr_length [OF assms(1)] index_word [OF assms(2)]
    by (intro bitset_reprI)
      (auto simp: index_eq_iff nth_list_update bit_and_iff bit_not_iff bit_bitset_bit)
  then show ?thesis
    using assms by (simp add: bitset_reset_def bitset_repr_length index_word)
qed

lemma bitset_bounds_checked:
  "\<not> i < N \<Longrightarrow> bitset_test N ws i = Inl Check_failed"
  "\<not> i < N \<Longrightarrow> bitset_set N i ws = Inl Check_failed"
  "\<not> i < N \<Longrightarrow> bitset_reset N i ws = Inl Check_failed"
  by (simp_all add: bitset_test_def bitset_set_def bitset_reset_def)

lemma bitset_reset_all_repr:
  assumes "bitset_repr N ws S"
  shows "\<exists>ws'. bitset_reset_all N ws = Inr ws' \<and> bitset_repr N ws' {}"
proof -
  have "\<exists>ws'. bitset_reset_all N ws = Inr ws' \<and>
      (length ws' = word_count N \<and> (\<forall>j < word_count N. ws' ! j = 0))"
    unfolding bitset_reset_all_def
    by (rule for_upto_inv [where Q = "\<lambda>k ws. length ws = word_count N \<and> (\<forall>j < k. ws ! j = 0)"])
      (use assms in \<open>auto simp: bitset_repr_length nth_list_update less_Suc_eq\<close>)
  then obtain ws' where "bitset_reset_all N ws = Inr ws'" "length ws' = word_count N"
    "\<forall>j < word_count N. ws' ! j = 0" by blast
  moreover from this have "bitset_repr N ws' {}"
    using bitset_repr_bounds [OF assms] by (intro bitset_reprI) auto
  ultimately show ?thesis by blast
qed


section \<open>Counting and searching\<close>

lemma popcount_word_card:
  assumes "bitset_repr N ws S" "k < word_count N"
  shows "popcount (ws ! k) = card {i \<in> S. 32 * k \<le> i \<and> i < 32 * Suc k}"
proof -
  have "{i \<in> S. 32 * k \<le> i \<and> i < 32 * Suc k} = (\<lambda>j. 32 * k + j) ` {j. bit (ws ! k) j}" (is "?A = ?B")
  proof (rule set_eqI)
    fix i show "i \<in> ?A \<longleftrightarrow> i \<in> ?B"
      using bitset_repr_bit [OF assms, of "i - 32 * k"] bitset_repr_bit [OF assms]
        bit_imp_le_length [of "ws ! k"]
      by (auto simp: image_iff intro!: exI [of _ "i - 32 * k"])
  qed
  then show ?thesis
    by (simp add: popcount_card card_image)
qed

lemma bitset_count_repr:
  assumes "bitset_repr N ws S"
  shows "bitset_count N ws = Inr (card S)"
proof -
  have fin: "finite S" using bitset_repr_bounds [OF assms] finite_subset by blast
  have "\<exists>t. bitset_count N ws = Inr t \<and> t = card {i \<in> S. i < 32 * word_count N}"
    unfolding bitset_count_def
  proof (rule for_upto_inv [where Q = "\<lambda>k t. t = card {i \<in> S. i < 32 * k}"])
    fix k t assume *: "k < word_count N" "t = card {i \<in> S. i < 32 * k}"
    let ?A = "{i \<in> S. i < 32 * k}" and ?B = "{i \<in> S. 32 * k \<le> i \<and> i < 32 * Suc k}"
    have "{i \<in> S. i < 32 * Suc k} = ?A \<union> ?B" by auto
    moreover have "card (?A \<union> ?B) = card ?A + card ?B"
      by (rule card_Un_disjoint) (use fin in auto)
    ultimately have "card {i \<in> S. i < 32 * Suc k} = t + popcount (ws ! k)"
      by (simp only: *(2) popcount_word_card [OF assms *(1)])
    then show "\<exists>s'. bnd (arr_get ws k) (\<lambda>w. Inr (t + popcount w)) = Inr s' \<and>
        s' = card {i \<in> S. i < 32 * Suc k}"
      using * assms by (simp add: bitset_repr_length)
  qed auto
  moreover have "{i \<in> S. i < 32 * word_count N} = S"
    using bitset_repr_bounds [OF assms] word_count_bounds(1) [of N] by fastforce
  ultimately show ?thesis by simp
qed

lemma bitset_all_repr: "bitset_repr N ws S \<Longrightarrow> bitset_all N ws = Inr (S = {..<N})"
  using card_subset_eq [of "{..<N}" S] bitset_repr_bounds [of N ws S]
  by (auto simp: bitset_all_def bitset_count_repr)

text \<open>The least element of \<open>T\<close>, or \<open>N\<close> for the empty set.\<close>

definition min_or :: "nat \<Rightarrow> nat set \<Rightarrow> nat" where
  "min_or N T = (if T = {} then N else Min T)"

lemma min_or_eqI: "finite T \<Longrightarrow> r \<in> T \<Longrightarrow> (\<And>i. i \<in> T \<Longrightarrow> r \<le> i) \<Longrightarrow> min_or N T = r"
  by (auto simp: min_or_def intro: Min_eqI)

lemma min_or_interval: "min_or N {N..<M} = N"
proof (cases "N < M")
  case True
  then show ?thesis by (intro min_or_eqI) auto
qed (simp add: min_or_def)

text \<open>Words \<open>k\<close> and up hold the set \<open>T\<close>, whatever its relation to \<open>N\<close>.\<close>

definition words_hold :: "nat \<Rightarrow> bitset \<Rightarrow> nat \<Rightarrow> nat set \<Rightarrow> bool" where
  "words_hold N ws k T \<longleftrightarrow> length ws = word_count N \<and> T \<subseteq> {32 * k..<32 * word_count N} \<and>
     (\<forall>m j. k \<le> m \<and> m < word_count N \<and> j < 32 \<longrightarrow> (bit (ws ! m) j \<longleftrightarrow> 32 * m + j \<in> T))"

lemma words_hold_repr: "bitset_repr N ws S \<Longrightarrow> words_hold N ws 0 S"
  using bitset_repr_bit [of N ws S] bitset_repr_bounds [of N ws S] word_count_bounds(1) [of N]
  by (fastforce simp: words_hold_def bitset_repr_length)

lemma lowest_in_word:
  fixes w :: "32 word"
  assumes "\<And>j. j < 32 \<Longrightarrow> bit w j \<longleftrightarrow> 32 * k + j \<in> T" "w \<noteq> 0" "T \<subseteq> {32 * k..<n}"
  shows "bnd (of_loop (countr_zero w)) (\<lambda>z. Inr (k * 32 + z)) = Inr (min_or N T)"
proof -
  obtain j where j: "bit w j" "\<And>i. i < j \<Longrightarrow> \<not> bit w i"
    using word_lowest_bit [OF assms(2)] by blast
  then have j32: "j < 32" using bit_imp_le_length by fastforce
  have "min_or N T = 32 * k + j"
  proof (rule min_or_eqI)
    show "finite T" using assms(3) finite_subset by blast
    show "32 * k + j \<in> T" using assms(1) [OF j32] j(1) by simp
    show "32 * k + j \<le> i" if "i \<in> T" for i
    proof (rule ccontr)
      assume "\<not> 32 * k + j \<le> i"
      moreover have "32 * k \<le> i" using that assms(3) by auto
      ultimately have "i - 32 * k < j" "32 * k + (i - 32 * k) = i" by auto
      then show False using assms(1) [of "i - 32 * k"] j(2) [of "i - 32 * k"] j32 that by simp
    qed
  qed
  then show ?thesis
    using countr_zero_lowest [OF j] by (simp add: mult.commute)
qed

lemma zero_word_skip:
  assumes "words_hold N ws k T" "k < word_count N" "ws ! k = 0"
  shows "words_hold N ws (Suc k) T"
proof -
  have "32 * Suc k \<le> i" if "i \<in> T" for i
  proof (rule ccontr)
    assume "\<not> 32 * Suc k \<le> i"
    moreover have "32 * k \<le> i" using assms(1) that by (auto simp: words_hold_def)
    ultimately have "i - 32 * k < 32" "32 * k + (i - 32 * k) = i" by auto
    then have "bit (ws ! k) (i - 32 * k)"
      using assms(1,2) that by (auto simp: words_hold_def)
    then show False using assms(3) by simp
  qed
  then show ?thesis using assms(1) by (fastforce simp: words_hold_def)
qed

lemma first_set_from_min:
  "words_hold N ws k T \<Longrightarrow> first_set_from N ws k = Inr (min_or N T)"
proof (induction "word_count N - k" arbitrary: k)
  case 0
  then have "T = {}" by (auto simp: words_hold_def)
  with 0 show ?case by (subst first_set_from.simps) (simp add: min_or_def)
next
  case (Suc d)
  then have k: "k < word_count N" "length ws = word_count N" by (auto simp: words_hold_def)
  show ?case
  proof (cases "ws ! k = 0")
    case True
    then show ?thesis
      using Suc.hyps(1) [of "Suc k"] Suc.hyps(2) zero_word_skip [OF Suc.prems k(1)] k
      by (subst first_set_from.simps) simp
  next
    case False
    then have "bnd (of_loop (countr_zero (ws ! k))) (\<lambda>z. Inr (k * 32 + z)) = Inr (min_or N T)"
      using Suc.prems k(1) by (intro lowest_in_word) (auto simp: words_hold_def)
    then show ?thesis
      using False k by (subst first_set_from.simps) simp
  qed
qed

lemma find_first_set_repr: "bitset_repr N ws S \<Longrightarrow> find_first_set N ws = Inr (min_or N S)"
  by (simp add: find_first_set_def first_set_from_min words_hold_repr)


lemma any_from_hold: "words_hold N ws k T \<Longrightarrow> bitset_any_from N ws k = Inr (T \<noteq> {})"
proof (induction "word_count N - k" arbitrary: k)
  case 0
  then have "T = {}" by (auto simp: words_hold_def)
  with 0 show ?case by (subst bitset_any_from.simps) simp
next
  case (Suc d)
  then have k: "k < word_count N" "length ws = word_count N" by (auto simp: words_hold_def)
  show ?case
  proof (cases "ws ! k = 0")
    case True
    then show ?thesis
      using Suc.hyps(1) [of "Suc k"] Suc.hyps(2) zero_word_skip [OF Suc.prems k(1)] k
      by (subst bitset_any_from.simps) simp
  next
    case False
    then obtain j where "bit (ws ! k) j" using word_lowest_bit by blast
    then have "32 * k + j \<in> T"
      using Suc.prems k(1) bit_imp_le_length [of "ws ! k" j] by (auto simp: words_hold_def)
    then show ?thesis
      using False k by (subst bitset_any_from.simps) auto
  qed
qed

lemma bitset_any_repr:
  "bitset_repr N ws S \<Longrightarrow> bitset_any N ws = Inr (S \<noteq> {})"
  "bitset_repr N ws S \<Longrightarrow> bitset_none N ws = Inr (S = {})"
  by (simp_all add: bitset_any_def bitset_none_def any_from_hold [OF words_hold_repr])

text \<open>
  The other two searches are the first one on an adjusted array: the clear bits
  are the set bits of the complement, and the search from an index starts with
  the bits of its word below it masked out.
\<close>

lemma first_clear_from_not:
  "length ws = word_count N \<Longrightarrow> first_clear_from N ws k = first_set_from N (map NOT ws) k"
proof (induction "word_count N - k" arbitrary: k)
  case 0
  then show ?case by (subst first_clear_from.simps, subst first_set_from.simps) simp
next
  case (Suc d)
  then show ?case
    by (subst first_clear_from.simps, subst first_set_from.simps) (simp add: Let_def)
qed

lemma find_first_clear_repr:
  assumes "bitset_repr N ws S"
  shows "find_first_clear N ws = Inr (min_or N ({..<N} - S))"
proof -
  let ?T = "{..<32 * word_count N} - S"
  have "words_hold N (map NOT ws) 0 ?T"
    using bitset_repr_bit [OF assms] bitset_repr_length [OF assms]
    by (auto simp: words_hold_def bit_not_iff)
  then have *: "find_first_clear N ws = Inr (min_or N ?T)"
    using bitset_repr_length [OF assms]
    by (simp add: find_first_clear_def first_clear_from_not first_set_from_min)
  have le: "N \<le> 32 * word_count N" and S: "S \<subseteq> {..<N}"
    using word_count_bounds(1) bitset_repr_bounds [OF assms] by auto
  show ?thesis
  proof (cases "{..<N} - S = {}")
    case True
    then have "?T = {N..<32 * word_count N}" using S by auto
    then have "min_or N ?T = N" by (simp only: min_or_interval)
    with * True show ?thesis by (simp add: min_or_def)
  next
    case False
    let ?m = "Min ({..<N} - S)"
    have m: "?m \<in> {..<N} - S" using False by (intro Min_in) auto
    have "min_or N ?T = ?m"
    proof (rule min_or_eqI)
      show "?m \<le> i" if "i \<in> ?T" for i
        using that m by (cases "i < N") (auto intro: Min_le)
    qed (use m le in auto)
    with * False show ?thesis by (simp add: min_or_def)
  qed
qed

lemma first_set_from_update:
  "k < m \<Longrightarrow> first_set_from N (ws[k := w]) m = first_set_from N ws m"
proof (induction "word_count N - m" arbitrary: m)
  case 0
  then show ?case by (subst (1 2) first_set_from.simps) simp
next
  case (Suc d)
  then show ?case
    by (subst (1 2) first_set_from.simps) (simp add: arr_get_def)
qed

lemma next_set_from_first:
  "k < word_count N \<Longrightarrow> length ws = word_count N \<Longrightarrow>
     next_set_from N ws k w = first_set_from N (ws[k := w]) k"
proof (induction "word_count N - k" arbitrary: k w)
  case (Suc d)
  show ?case
  proof (cases "w \<noteq> 0 \<or> Suc k = word_count N")
    case True
    then show ?thesis
      using Suc.prems first_set_from.simps [of N ws "Suc k"] first_set_from_update [of k "Suc k" N ws w]
      by (subst next_set_from.simps, subst first_set_from.simps) auto
  next
    case False
    then have "Suc k < word_count N" using Suc.prems by simp
    then have "next_set_from N ws (Suc k) (ws ! Suc k) = first_set_from N ws (Suc k)"
      using Suc.hyps(1) [of "Suc k" "ws ! Suc k"] Suc.hyps(2) Suc.prems by simp
    then show ?thesis
      using False Suc.prems first_set_from_update [of k "Suc k" N ws w] \<open>Suc k < word_count N\<close>
      by (subst next_set_from.simps, subst first_set_from.simps) simp
  qed
qed simp

lemma find_next_set_repr:
  assumes "bitset_repr N ws S"
  shows "find_next_set N ws from = Inr (min_or N (S \<inter> {from..}))"
proof (cases "from < N")
  case True
  let ?k = "from div 32" and ?r = "from mod 32"
  have k: "?k < word_count N" using True by (rule index_word)
  have split: "from = 32 * ?k + ?r" by simp
  have "words_hold N (ws[?k := ws ! ?k AND push_bit ?r (NOT 0)]) ?k (S \<inter> {from..})"
    unfolding words_hold_def
  proof (intro conjI allI impI)
    show "S \<inter> {from..} \<subseteq> {32 * ?k..<32 * word_count N}"
      using bitset_repr_bounds [OF assms] word_count_bounds(1) [of N] by fastforce
    fix m j :: nat assume mj: "?k \<le> m \<and> m < word_count N \<and> j < 32"
    show "bit (ws[?k := ws ! ?k AND push_bit ?r (NOT 0)] ! m) j \<longleftrightarrow> 32 * m + j \<in> S \<inter> {from..}"
    proof (cases "m = ?k")
      case True
      have "from \<le> 32 * ?k + j \<longleftrightarrow> ?r \<le> j" using split by linarith
      then show ?thesis
        using True mj bitset_repr_bit [OF assms, of m j] bitset_repr_length [OF assms]
        by (auto simp: bit_and_iff bit_not_iff bit_mask_iff)
    next
      case False
      then have "32 * ?k + 32 \<le> 32 * m" using mj by linarith
      then have "from \<le> 32 * m + j" using mod_less_divisor [of 32 "from"] split by linarith
      then show ?thesis
        using mj False bitset_repr_bit [OF assms, of m j] by auto
    qed
  qed (simp add: bitset_repr_length [OF assms])
  then show ?thesis
    using True k bitset_repr_length [OF assms]
    by (simp add: find_next_set_def next_set_from_first first_set_from_min)
next
  case False
  then have "S \<inter> {from..} = {}" using bitset_repr_bounds [OF assms] by auto
  with False show ?thesis by (simp add: find_next_set_def min_or_def)
qed


section \<open>Shifts and comparison\<close>

lemma bitset_eq_from_nth:
  assumes "length a = word_count N" "length b = word_count N"
  shows "bitset_eq_from N a b k = Inr (\<forall>m. k \<le> m \<and> m < word_count N \<longrightarrow> a ! m = b ! m)"
proof (induction "word_count N - k" arbitrary: k)
  case 0
  then show ?case by (subst bitset_eq_from.simps) auto
next
  case (Suc d)
  then have k: "k < word_count N" by simp
  have "(\<forall>m. k \<le> m \<and> m < word_count N \<longrightarrow> a ! m = b ! m) \<longleftrightarrow>
      a ! k = b ! k \<and> (\<forall>m. Suc k \<le> m \<and> m < word_count N \<longrightarrow> a ! m = b ! m)"
    using k by (metis Suc_leD Suc_leI le_neq_implies_less order_refl)
  then show ?case
    using Suc.hyps(1) [of "Suc k"] Suc.hyps(2) k assms by (subst bitset_eq_from.simps) simp
qed

lemma bitset_eq_repr:
  assumes "bitset_repr N a S" "bitset_repr N b T"
  shows "bitset_eq N a b = Inr (S = T)"
proof -
  have len: "length a = word_count N" "length b = word_count N"
    using assms by (simp_all add: bitset_repr_length)
  have "S = T" if eq: "\<And>m. m < word_count N \<Longrightarrow> a ! m = b ! m"
  proof (rule set_eqI)
    fix i
    show "i \<in> S \<longleftrightarrow> i \<in> T"
    proof (cases "i < N")
      case True
      then show ?thesis
        using bitset_repr_bit [OF assms(1) index_word, of i "i mod 32"]
          bitset_repr_bit [OF assms(2) index_word, of i "i mod 32"] eq [OF index_word] by simp
    next
      case False
      then show ?thesis using assms [THEN bitset_repr_bounds] by auto
    qed
  qed
  moreover have "a ! m = b ! m" if "S = T" "m < word_count N" for m
    using that bitset_repr_bit [OF assms(1) that(2)] bitset_repr_bit [OF assms(2) that(2)]
    by (intro bit_eqI) auto
  ultimately have "(\<forall>m. m < word_count N \<longrightarrow> a ! m = b ! m) \<longleftrightarrow> S = T" by blast
  then show ?thesis
    by (simp add: bitset_eq_def bitset_eq_from_nth [OF len])
qed

text \<open>The word that a left shift writes at index \<open>k\<close>, as a function of the words before.\<close>

definition shl_word :: "nat \<Rightarrow> bitset \<Rightarrow> nat \<Rightarrow> 32 word" where
  "shl_word distance ws k = (let words = distance div 32; bits = distance mod 32 in
     if k \<ge> words
     then if bits \<noteq> 0 \<and> k > words
          then push_bit bits (ws ! (k - words)) OR drop_bit (32 - bits) (ws ! (k - words - 1))
          else push_bit bits (ws ! (k - words))
     else 0)"

definition shr_word :: "nat \<Rightarrow> bitset \<Rightarrow> nat \<Rightarrow> 32 word" where
  "shr_word distance ws k = (let words = distance div 32; bits = distance mod 32 in
     if k + words < length ws
     then if bits \<noteq> 0 \<and> k + words + 1 < length ws
          then drop_bit bits (ws ! (k + words)) OR push_bit (32 - bits) (ws ! (k + words + 1))
          else drop_bit bits (ws ! (k + words))
     else 0)"

lemma bit_shl_word:
  assumes hold: "\<And>m i. m < n \<Longrightarrow> i < 32 \<Longrightarrow> bit (ws ! m) i \<longleftrightarrow> 32 * m + i \<in> S"
    and k: "k < n" and j: "j < 32"
  shows "bit (shl_word distance ws k) j \<longleftrightarrow> distance \<le> 32 * k + j \<and> 32 * k + j - distance \<in> S"
proof -
  define q r where "q = distance div 32" and "r = distance mod 32"
  have d: "distance = 32 * q + r" and r: "r < 32" by (simp_all add: q_def r_def)
  consider "k < q" | "q \<le> k" "r \<le> j" | "q < k" "j < r" | "k = q" "j < r" by linarith
  then show ?thesis
  proof cases
    case 1
    then have "32 * k + 32 \<le> 32 * q" by linarith
    with 1 j d show ?thesis by (simp add: shl_word_def flip: q_def)
  next
    case 2
    then have "32 * k + j - distance = 32 * (k - q) + (j - r)" "distance \<le> 32 * k + j"
      using d by (auto simp: algebra_simps)
    moreover have "\<not> bit (ws ! m) (32 - r + j)" for m
      using 2 r bit_imp_le_length [of "ws ! m" "32 - r + j"] by auto
    ultimately show ?thesis
      using 2 j r hold [of "k - q" "j - r"] k
      by (auto simp: shl_word_def Let_def bit_or_iff bit_push_bit_iff bit_drop_bit_eq simp flip: q_def r_def)
  next
    case 3
    then have "32 * k + j - distance = 32 * (k - q - 1) + (32 - r + j)" "distance \<le> 32 * k + j"
      using d r by (auto simp: algebra_simps)
    then show ?thesis
      using 3 j r hold [of "k - q - 1" "32 - r + j"] k
      by (auto simp: shl_word_def Let_def bit_or_iff bit_push_bit_iff bit_drop_bit_eq simp flip: q_def r_def)
  next
    case 4
    then show ?thesis
      using d by (auto simp: shl_word_def Let_def bit_push_bit_iff simp flip: q_def r_def)
  qed
qed

lemma bit_shr_word:
  assumes hold: "\<And>m i. m < length ws \<Longrightarrow> i < 32 \<Longrightarrow> bit (ws ! m) i \<longleftrightarrow> 32 * m + i \<in> S"
    and S: "S \<subseteq> {..<32 * length ws}" and j: "j < 32"
  shows "bit (shr_word distance ws k) j \<longleftrightarrow> 32 * k + j + distance \<in> S"
proof -
  define q r where "q = distance div 32" and "r = distance mod 32"
  have d: "distance = 32 * q + r" and r: "r < 32" by (simp_all add: q_def r_def)
  have out: "32 * k + j + distance \<notin> S" if "length ws * 32 \<le> 32 * k + j + distance"
    using S that by auto
  consider "length ws \<le> k + q" | "k + q < length ws" "j + r < 32"
    | "k + q < length ws" "32 \<le> j + r" by linarith
  then show ?thesis
  proof cases
    case 1
    then show ?thesis using out d by (simp add: shr_word_def flip: q_def)
  next
    case 2
    have idx: "32 * k + j + distance = 32 * (k + q) + (j + r)" using d by simp
    have "bit (drop_bit r (ws ! (k + q))) j \<longleftrightarrow> 32 * (k + q) + (j + r) \<in> S"
      using hold [OF 2] by (simp add: bit_drop_bit_eq add.commute)
    moreover have "\<not> 32 - r \<le> j" using 2 r by linarith
    then have "\<not> bit (push_bit (32 - r) v) j" for v :: "32 word"
      by (simp add: bit_push_bit_iff)
    ultimately show ?thesis
      unfolding idx using 2 by (simp add: shr_word_def Let_def bit_or_iff flip: q_def r_def)
  next
    case 3
    have idx: "32 * k + j + distance = 32 * (k + q + 1) + (j + r - 32)" using d 3 by simp
    have "\<not> bit (drop_bit r v) j" for v :: "32 word"
      using 3 bit_imp_le_length [of v "r + j"] by (auto simp: bit_drop_bit_eq)
    moreover have "bit (push_bit (32 - r) (ws ! (k + q + 1))) j \<longleftrightarrow> 32 * (k + q + 1) + (j + r - 32) \<in> S"
      if "k + q + 1 < length ws"
      using 3 j r hold [OF that, of "j + r - 32"] by (auto simp: bit_push_bit_iff add.commute)
    ultimately show ?thesis
      unfolding idx using 3 j out [unfolded idx] by (auto simp: shr_word_def Let_def bit_or_iff simp flip: q_def r_def)
  qed
qed


lemma shl_loop:
  assumes "length ws = word_count N"
  shows "\<exists>ws'. for_downto (word_count N) (\<lambda>k ws.
               bnd (if k \<ge> distance div 32
                    then bnd (arr_get ws (k - distance div 32)) (\<lambda>w.
                         if distance mod 32 \<noteq> 0 \<and> k > distance div 32
                         then bnd (arr_get ws (k - distance div 32 - 1)) (\<lambda>v.
                                Inr (push_bit (distance mod 32) w OR drop_bit (32 - distance mod 32) v))
                         else Inr (push_bit (distance mod 32) w))
                    else Inr 0)
                 (\<lambda>value. arr_set ws k value)) ws = Inr ws' \<and>
     length ws' = word_count N \<and> (\<forall>m < word_count N. ws' ! m = shl_word distance ws m)"
    (is "\<exists>ws'. for_downto _ ?body ws = _ \<and> _")
proof -
  let ?Q = "\<lambda>k us. length us = word_count N \<and> (\<forall>m < k. us ! m = ws ! m) \<and>
      (\<forall>m. k \<le> m \<and> m < word_count N \<longrightarrow> us ! m = shl_word distance ws m)"
  have "\<exists>ws'. for_downto (word_count N) ?body ws = Inr ws' \<and> ?Q 0 ws'"
  proof (rule for_downto_inv [where Q = ?Q])
    fix k us assume k: "k < word_count N" and Q: "?Q (Suc k) us"
    have "?body k us = Inr (us[k := shl_word distance ws k])"
      using k Q by (auto simp: shl_word_def Let_def)
    moreover have "?Q k (us[k := shl_word distance ws k])"
      using k Q by (auto simp: nth_list_update)
    ultimately show "\<exists>us'. ?body k us = Inr us' \<and> ?Q k us'" by blast
  qed (use assms in auto)
  then show ?thesis by auto
qed

lemma word_count_tail:
  assumes "0 < N mod 32"
  shows "N = 32 * (word_count N - 1) + N mod 32"
proof -
  define q r where "q = N div 32" and "r = N mod 32"
  have N: "N = 32 * q + r" and r: "0 < r" "r < 32" using assms by (simp_all add: q_def r_def)
  then have "N + 32 - 1 = 32 * (q + 1) + (r - 1)" by simp
  then have "word_count N = q + 1"
    using index_split(1) [of "r - 1" "q + 1"] r unfolding word_count_def by (simp only:)
  with N r show ?thesis by simp
qed

lemma last_mask_bit:
  assumes "0 < N" "j < 32"
  shows "bit (last_word_mask N) j \<longleftrightarrow> 32 * (word_count N - 1) + j < N"
proof (cases "N mod 32 = 0")
  case True
  then have "N = 32 * word_count N"
    using word_count_bounds [of N] assms(1) by (auto simp: word_count_def)
  moreover have "0 < word_count N" using assms(1) index_word [of 0 N] by simp
  ultimately show ?thesis
    using True assms(2) by (simp add: last_word_mask_def bit_not_iff)
next
  case False
  have "last_word_mask N = mask (N mod 32)"
    using False by (simp add: last_word_mask_def Let_def mask_eq_exp_minus_1)
  moreover have "N = 32 * (word_count N - 1) + N mod 32"
    using False by (intro word_count_tail) simp
  ultimately show ?thesis
    using assms(2) by (simp add: bit_mask_iff) linarith
qed

lemma bitset_shl_repr:
  assumes "bitset_repr N ws S"
  shows "\<exists>ws'. bitset_shl N distance ws = Inr ws' \<and>
           bitset_repr N ws' {i. i < N \<and> distance \<le> i \<and> i - distance \<in> S}"
proof (cases "distance < N")
  case True
  let ?T = "{i. i < N \<and> distance \<le> i \<and> i - distance \<in> S}" and ?l = "word_count N - 1"
  have N: "0 < N" and l: "?l < word_count N"
    using bitset_repr_bounds [OF assms] index_word [of 0 N] by auto
  obtain us where us: "length us = word_count N"
      "\<And>m. m < word_count N \<Longrightarrow> us ! m = shl_word distance ws m"
    and run: "bitset_shl N distance ws = bnd (arr_get us ?l) (\<lambda>w. arr_set us ?l (w AND last_word_mask N))"
    using shl_loop [OF bitset_repr_length [OF assms], of distance] True
    by (auto simp: bitset_shl_def Let_def)
  have "bitset_repr N (us[?l := us ! ?l AND last_word_mask N]) ?T"
  proof (rule bitset_reprI)
    fix k j :: nat assume k: "k < word_count N" and j: "j < 32"
    have b: "bit (us ! k) j \<longleftrightarrow> distance \<le> 32 * k + j \<and> 32 * k + j - distance \<in> S"
      using bit_shl_word [OF bitset_repr_bit [OF assms] k j] us(2) [OF k] by simp
    have "32 * k + j < N" if "k < ?l"
      using that j word_count_bounds(2) [OF N] by linarith
    then show "bit (us[?l := us ! ?l AND last_word_mask N] ! k) j \<longleftrightarrow> 32 * k + j \<in> ?T"
      using b k l us(1) last_mask_bit [OF N j] by (cases "k = ?l") (auto simp: bit_and_iff)
  qed (use N us(1) in auto)
  then show ?thesis using run l us(1) by simp
next
  case False
  then have none: "{i. i < N \<and> distance \<le> i \<and> i - distance \<in> S} = {}" by auto
  show ?thesis
    unfolding none using bitset_reset_all_repr [OF assms] False by (simp add: bitset_shl_def)
qed

lemma shr_loop:
  assumes "length ws = word_count N"
  shows "\<exists>ws'. for_upto 0 (word_count N) (\<lambda>k ws.
          bnd (if k + distance div 32 < word_count N
               then bnd (arr_get ws (k + distance div 32)) (\<lambda>w.
                    if distance mod 32 \<noteq> 0 \<and> k + distance div 32 + 1 < word_count N
                    then bnd (arr_get ws (k + distance div 32 + 1)) (\<lambda>v.
                           Inr (drop_bit (distance mod 32) w OR push_bit (32 - distance mod 32) v))
                    else Inr (drop_bit (distance mod 32) w))
               else Inr 0)
            (\<lambda>value. arr_set ws k value)) ws = Inr ws' \<and>
     length ws' = word_count N \<and> (\<forall>m < word_count N. ws' ! m = shr_word distance ws m)"
    (is "\<exists>ws'. for_upto _ _ ?body ws = _ \<and> _")
proof -
  let ?Q = "\<lambda>k us. length us = word_count N \<and> (\<forall>m. k \<le> m \<and> m < word_count N \<longrightarrow> us ! m = ws ! m) \<and>
      (\<forall>m < k. us ! m = shr_word distance ws m)"
  have "\<exists>ws'. for_upto 0 (word_count N) ?body ws = Inr ws' \<and> ?Q (word_count N) ws'"
  proof (rule for_upto_inv [where Q = ?Q])
    fix k us assume k: "k < word_count N" and Q: "?Q k us"
    have "?body k us = Inr (us[k := shr_word distance ws k])"
      using k Q assms by (auto simp: shr_word_def Let_def)
    moreover have "?Q (Suc k) (us[k := shr_word distance ws k])"
      using k Q by (auto simp: nth_list_update less_Suc_eq)
    ultimately show "\<exists>us'. ?body k us = Inr us' \<and> ?Q (Suc k) us'" by blast
  qed (use assms in auto)
  then show ?thesis by auto
qed

lemma bitset_shr_repr:
  assumes "bitset_repr N ws S"
  shows "\<exists>ws'. bitset_shr N distance ws = Inr ws' \<and> bitset_repr N ws' {i. i + distance \<in> S}"
proof (cases "distance < N")
  case True
  have len: "length ws = word_count N" using assms by (rule bitset_repr_length)
  have "\<exists>us. bitset_shr N distance ws = Inr us \<and> length us = word_count N \<and>
      (\<forall>m < word_count N. us ! m = shr_word distance ws m)"
    using shr_loop [OF len, of distance] True by (simp add: bitset_shr_def Let_def)
  then obtain us where us: "bitset_shr N distance ws = Inr us" "length us = word_count N"
    "\<And>m. m < word_count N \<Longrightarrow> us ! m = shr_word distance ws m" by blast
  have S: "S \<subseteq> {..<N}" "0 < N" using bitset_repr_bounds [OF assms] by auto
  then have S': "S \<subseteq> {..<32 * length ws}" using word_count_bounds(1) [of N] len by auto
  have "bitset_repr N us {i. i + distance \<in> S}"
    using S us(2,3) bit_shr_word [OF _ S'] bitset_repr_bit [OF assms] len
    by (intro bitset_reprI) auto
  with us(1) show ?thesis by blast
next
  case False
  then have none: "{i. i + distance \<in> S} = {}" using bitset_repr_bounds [OF assms] by auto
  show ?thesis
    unfolding none using bitset_reset_all_repr [OF assms] False by (simp add: bitset_shr_def)
qed


section \<open>Properties\<close>

text \<open>
  C11: The queries of a bitset are exact for the set of indices it holds: single
  bits (an index past the end stops the program), the count and the emptiness
  tests, the lowest set bit at or above any index, the lowest clear bit (with the
  unused tail of the last word never reported), and equality.
\<close>

theorem bitset_queries_exact:
  assumes "bitset_repr N ws S" "bitset_repr N vs T"
  shows "bitset_test N ws i = (if i < N then Inr (i \<in> S) else Inl Check_failed) \<and>
     bitset_count N ws = Inr (card S) \<and> bitset_any N ws = Inr (S \<noteq> {}) \<and> bitset_none N ws = Inr (S = {}) \<and>
     bitset_all N ws = Inr (S = {..<N}) \<and>
     find_first_set N ws = Inr (if S = {} then N else Min S) \<and>
     find_next_set N ws i = Inr (if S \<inter> {i..} = {} then N else Min (S \<inter> {i..})) \<and>
     find_first_clear N ws = Inr (if S = {..<N} then N else Min ({..<N} - S)) \<and>
     bitset_eq N ws vs = Inr (S = T)"
proof -
  have "{..<N} - S = {} \<longleftrightarrow> S = {..<N}" using bitset_repr_bounds [OF assms(1)] by auto
  then show ?thesis
    using bitset_test_repr [OF assms(1), of i] bitset_bounds_checked(1) [of i N ws]
      bitset_count_repr [OF assms(1)] bitset_any_repr [OF assms(1)] bitset_all_repr [OF assms(1)]
      find_first_set_repr [OF assms(1)] find_next_set_repr [OF assms(1), of i]
      find_first_clear_repr [OF assms(1)] bitset_eq_repr [OF assms]
    by (simp add: min_or_def)
qed

theorem bitset_queries_exact_witness:
  "find_first_set 40 (bitset_new 40) = Inr 40 \<and> find_first_clear 40 (bitset_new 40) = Inr 0 \<and>
   bitset_test 40 (bitset_new 40) 40 = Inl Check_failed"
proof -
  have "bitset_repr 40 (bitset_new 40) {}" by (rule bitset_new_repr) simp
  moreover have "Min {..<40 :: nat} = 0" by (rule Min_eqI) auto
  moreover have "0 \<in> {..<40 :: nat}" by simp
  then have "{} \<noteq> {..<40 :: nat}" by (metis empty_iff)
  ultimately show ?thesis using bitset_queries_exact [of 40 "bitset_new 40" "{}" "bitset_new 40" "{}" 40] by simp
qed

text \<open>
  C12: The updates of a bitset act on the set it holds: \<^verbatim>\<open>set\<close> and \<^verbatim>\<open>reset\<close> change one
  index, a left shift moves every index up and drops those that reach \<open>N\<close>, a right
  shift moves them down and drops those below the distance, for every distance,
  across word boundaries, and the tail of the last word stays clear.
\<close>

theorem bitset_updates_exact:
  assumes "bitset_repr N ws S"
  shows "(i < N \<longrightarrow> (\<exists>us. bitset_set N i ws = Inr us \<and> bitset_repr N us (insert i S))) \<and>
     (i < N \<longrightarrow> (\<exists>us. bitset_reset N i ws = Inr us \<and> bitset_repr N us (S - {i}))) \<and>
     (\<not> i < N \<longrightarrow> bitset_set N i ws = Inl Check_failed \<and> bitset_reset N i ws = Inl Check_failed) \<and>
     (\<exists>us. bitset_reset_all N ws = Inr us \<and> bitset_repr N us {}) \<and>
     (\<exists>us. bitset_shl N n ws = Inr us \<and> bitset_repr N us {j + n | j. j \<in> S \<and> j + n < N}) \<and>
     (\<exists>us. bitset_shr N n ws = Inr us \<and> bitset_repr N us {j - n | j. j \<in> S \<and> n \<le> j})"
proof -
  have "{j + n | j. j \<in> S \<and> j + n < N} = {i. i < N \<and> n \<le> i \<and> i - n \<in> S}" by force
  moreover have "{j - n | j. j \<in> S \<and> n \<le> j} = {i. i + n \<in> S}" by force
  ultimately show ?thesis
    using bitset_set_repr [OF assms] bitset_reset_repr [OF assms] bitset_reset_all_repr [OF assms]
      bitset_shl_repr [OF assms, of n] bitset_shr_repr [OF assms, of n] bitset_bounds_checked(2,3) [of i N ws]
    by simp
qed

theorem bitset_updates_exact_witness:
  "\<exists>us. bitset_set 40 33 (bitset_new 40) = Inr us \<and> bitset_repr 40 us {33}"
proof -
  have "bitset_repr 40 (bitset_new 40) {}" by (rule bitset_new_repr) simp
  from bitset_updates_exact [OF this, of 33] show ?thesis by simp
qed

end
