(* ===== verification/Hash.thy ===== *)
theory Hash
  imports Config
begin

text \<open>
  The hash functions of \<^verbatim>\<open>hash.hpp\<close>. The constants are selected by the width of
  \<^verbatim>\<open>size_t\<close>; both selections are modelled, at \<open>64 word\<close> and (suffix 32) at
  \<open>32 word\<close>, over one body each. A byte buffer is a list of \<open>8 word\<close>.
\<close>

section \<open>Operations\<close>

definition hash_mix_by :: "nat \<Rightarrow> nat \<Rightarrow> nat \<Rightarrow> 'w::len word \<Rightarrow> 'w word \<Rightarrow> 'w word \<Rightarrow> 'w word" where
  "hash_mix_by s1 s2 s3 m1 m2 x =
     (let x = x XOR drop_bit s1 x;
          x = x * m1;
          x = x XOR drop_bit s2 x;
          x = x * m2
      in x XOR drop_bit s3 x)"

definition hash_mix :: "64 word \<Rightarrow> 64 word" where
  "hash_mix = hash_mix_by 30 27 31 0xbf58476d1ce4e5b9 0x94d049bb133111eb"

definition hash_mix32 :: "32 word \<Rightarrow> 32 word" where
  "hash_mix32 = hash_mix_by 16 13 16 0x85ebca6b 0xc2b2ae35"

text \<open>
  \<^verbatim>\<open>hash_key\<close>. No key is wider than a 64-bit \<^verbatim>\<open>size_t\<close>, so there the hasher is
  called as it is. On a 32-bit one, a 64-bit key under \<^verbatim>\<open>std::hash\<close> is folded
  word by word.
\<close>

definition hash_key :: "('k \<Rightarrow> 64 word) \<Rightarrow> 'k \<Rightarrow> 64 word" where
  "hash_key hasher key = hasher key"

primrec hash_key_fold :: "nat \<Rightarrow> 32 word \<Rightarrow> 64 word \<Rightarrow> 32 word" where
  "hash_key_fold 0 folded value = folded"
| "hash_key_fold (Suc words) folded value =
     hash_key_fold words (hash_mix32 (folded XOR ucast value)) (drop_bit 32 value)"

definition hash_key32 :: "64 word \<Rightarrow> 32 word" where
  "hash_key32 key = hash_key_fold (8 div 4) 0 key"

primrec fnv1a_from :: "'w::len word \<Rightarrow> 8 word list \<Rightarrow> 'w word \<Rightarrow> 'w word" where
  "fnv1a_from prime [] hash = hash"
| "fnv1a_from prime (b # bytes) hash = fnv1a_from prime bytes ((hash XOR ucast b) * prime)"

definition fnv1a :: "8 word list \<Rightarrow> 64 word" where
  "fnv1a data = fnv1a_from 0x100000001b3 data 0xcbf29ce484222325"

definition fnv1a32 :: "8 word list \<Rightarrow> 32 word" where
  "fnv1a32 data = fnv1a_from 0x01000193 data 0x811c9dc5"

definition hash_combine :: "64 word \<Rightarrow> 64 word \<Rightarrow> 64 word" where
  "hash_combine seed value =
     seed XOR (value + 0x9e3779b97f4a7c15 + push_bit 12 seed + drop_bit 4 seed)"

definition hash_combine32 :: "32 word \<Rightarrow> 32 word \<Rightarrow> 32 word" where
  "hash_combine32 seed value =
     seed XOR (value + 0x9e3779b9 + push_bit 6 seed + drop_bit 2 seed)"

text \<open>\<^verbatim>\<open>hash_combine_all\<close> on the \<^verbatim>\<open>std::hash\<close> values of its arguments.\<close>

definition hash_combine_all :: "64 word list \<Rightarrow> 64 word" where
  "hash_combine_all hashes = foldl hash_combine 0 hashes"

definition identity_hash :: "'k::len word \<Rightarrow> 64 word" where
  "identity_hash value = ucast value"

text \<open>
  \<^verbatim>\<open>fnv1a_hash\<close> by argument type. A character array is read up to its first NUL
  and never past its extent; a C string is read up to its NUL, and reading past
  the end of the buffer is out of bounds.
\<close>

fun char_array_length :: "8 word list \<Rightarrow> nat" where
  "char_array_length [] = 0"
| "char_array_length (c # cs) = (if c \<noteq> 0 then 1 + char_array_length cs else 0)"

definition fnv1a_char_array :: "8 word list \<Rightarrow> 64 word" where
  "fnv1a_char_array value = fnv1a (take (char_array_length value) value)"

fun c_string_length :: "8 word list \<Rightarrow> nat outcome" where
  "c_string_length [] = Inl Out_of_bounds"
| "c_string_length (c # cs) = (if c \<noteq> 0 then bnd (c_string_length cs) (\<lambda>n. Inr (1 + n)) else Inr 0)"

definition fnv1a_c_string :: "8 word list \<Rightarrow> 64 word outcome" where
  "fnv1a_c_string value = bnd (c_string_length value) (\<lambda>len. Inr (fnv1a (take len value)))"

definition fnv1a_char_range :: "8 word list \<Rightarrow> 64 word" where
  "fnv1a_char_range value = fnv1a value"

text \<open>An integral argument, already widened to 64 bits by value.\<close>

definition widen_unsigned :: "'k::len word \<Rightarrow> 64 word" where
  "widen_unsigned value = ucast value"

definition widen_signed :: "'k::len word \<Rightarrow> 64 word" where
  "widen_signed value = scast value"

definition fnv1a_integral :: "64 word \<Rightarrow> 64 word" where
  "fnv1a_integral wide =
     foldl (\<lambda>hash shift. (hash XOR (drop_bit shift wide AND 0xFF)) * 0x100000001b3) 0xcbf29ce484222325
       [0, 8, 16, 24, 32, 40, 48, 56]"

section \<open>Bijections\<close>

lemma xorshift_inj:
  fixes x y :: "'w::len word"
  assumes "0 < s" "x XOR drop_bit s x = y XOR drop_bit s y"
  shows "x = y"
proof (rule bit_eqI)
  have step: "(bit x i \<noteq> bit x (i + s)) = (bit y i \<noteq> bit y (i + s))" for i
    using arg_cong [OF assms(2), of "\<lambda>w. bit w i"]
    by (auto simp: bit_xor_iff bit_drop_bit_eq add.commute)
  have high: "bit x i = bit y i" if "LENGTH('w) \<le> i" for i
    using that bit_imp_le_length [of x i] bit_imp_le_length [of y i] by auto
  show "bit x i = bit y i" for i
  proof (induction "LENGTH('w) - i" arbitrary: i rule: less_induct)
    case less
    show ?case
    proof (cases "LENGTH('w) \<le> i")
      case False
      then have "bit x (i + s) = bit y (i + s)"
        using less [of "i + s"] assms(1) by simp
      with step [of i] show ?thesis by blast
    qed (use high in blast)
  qed
qed

lemma odd_factor_inj:
  fixes x y :: "'w::len word"
  assumes "m * n = 1" "x * m = y * m"
  shows "x = y"
proof -
  have "x * (m * n) = y * (m * n)"
    using assms(2) by (simp add: mult.assoc [symmetric])
  with assms(1) show ?thesis by simp
qed

lemma hash_mix_by_inj:
  assumes "0 < s1" "0 < s2" "0 < s3" "m1 * n1 = 1" "m2 * n2 = 1"
  shows "inj (hash_mix_by s1 s2 s3 m1 m2)"
  unfolding hash_mix_by_def Let_def
  by (rule injI)
    (drule xorshift_inj [OF assms(3)], drule odd_factor_inj [OF assms(5)],
     drule xorshift_inj [OF assms(2)], drule odd_factor_inj [OF assms(4)],
     erule xorshift_inj [OF assms(1)])

lemma hash_mix_inj: "inj hash_mix"
  unfolding hash_mix_def
  by (rule hash_mix_by_inj [where ?n1.0 = "0x96de1b173f119089" and ?n2.0 = "0x319642b2d24d8ec3"]) simp_all

lemma hash_mix32_inj: "inj hash_mix32"
  unfolding hash_mix32_def
  by (rule hash_mix_by_inj [where ?n1.0 = "0xa5cb9243" and ?n2.0 = "0x7ed1b41d"]) simp_all

lemma finite_inj_bij: "inj f \<Longrightarrow> bij f" for f :: "'w::len word \<Rightarrow> 'w word"
  by (simp add: bij_def finite_UNIV_inj_surj)


lemma xor_cancel: "a XOR b = a XOR c \<longleftrightarrow> b = c" for a b c :: "'w::len word"
  by (metis xor.left_commute xor_self_eq xor.right_neutral)

lemma hash_key32_high_word:
  assumes "ucast a = (ucast b :: 32 word)" "hash_key32 a = hash_key32 b"
  shows "a = b"
proof -
  have two: "hash_key32 x =
      hash_mix32 (hash_mix32 (ucast x) XOR ucast (drop_bit 32 x))" for x
    by (simp add: hash_key32_def numeral_2_eq_2)
  have high: "ucast (drop_bit 32 a) = (ucast (drop_bit 32 b) :: 32 word)"
    using assms hash_mix32_inj by (simp add: two inj_eq xor_cancel)
  show ?thesis
  proof (rule bit_word_eqI)
    fix i assume i: "i < LENGTH(64)"
    show "bit a i \<longleftrightarrow> bit b i"
    proof (cases "i < 32")
      case True
      then show ?thesis
        using arg_cong [OF assms(1), of "\<lambda>w. bit w i"] by (simp add: bit_ucast_iff)
    next
      case False
      then have "i - 32 < 32" using i by simp
      then show ?thesis
        using arg_cong [OF high, of "\<lambda>w. bit w (i - 32)"] False by (simp add: bit_ucast_iff bit_drop_bit_eq)
    qed
  qed
qed

lemma hash_combine_inj: "inj (hash_combine seed)" "inj (hash_combine32 seed32)"
  by (auto simp: inj_def hash_combine_def hash_combine32_def xor_cancel)

section \<open>Hashing by value\<close>

lemma fnv1a_from_append: "fnv1a_from p (a @ b) h = fnv1a_from p b (fnv1a_from p a h)"
  by (induction a arbitrary: h) simp_all

lemma char_array_length_append:
  "0 \<notin> set s \<Longrightarrow> char_array_length (s @ 0 # rest) = length s"
  "0 \<notin> set s \<Longrightarrow> char_array_length s = length s"
  by (induction s) auto

lemma c_string_length_append: "0 \<notin> set s \<Longrightarrow> c_string_length (s @ 0 # rest) = Inr (length s)"
  by (induction s) auto

lemma fnv1a_from_inj: "p * q = 1 \<Longrightarrow> fnv1a_from p bytes h = fnv1a_from p bytes h' \<longleftrightarrow> h = h'"
proof (induction bytes arbitrary: h h')
  case (Cons b bytes)
  have "(h XOR ucast b) * p = (h' XOR ucast b) * p \<longleftrightarrow> h = h'"
    using odd_factor_inj [OF Cons.prems] by (metis xor.commute xor_cancel)
  then show ?case using Cons.IH [OF Cons.prems] by simp
qed simp

lemma fnv1a_one_byte:
  assumes "fnv1a (pre @ a # post) = fnv1a (pre @ b # post)"
  shows "a = b"
proof -
  have inv: "0x100000001b3 * 0xce965057aff6957b = (1 :: 64 word)" by simp
  let ?h = "fnv1a_from 0x100000001b3 pre 0xcbf29ce484222325 :: 64 word"
  have "(?h XOR ucast a) * 0x100000001b3 = (?h XOR ucast b) * 0x100000001b3"
    using assms by (simp add: fnv1a_def fnv1a_from_append fnv1a_from_inj [OF inv])
  then have eq: "ucast a = (ucast b :: 64 word)"
    using odd_factor_inj [OF inv] xor_cancel by blast
  show ?thesis
  proof (rule bit_word_eqI)
    show "bit a i \<longleftrightarrow> bit b i" if "i < LENGTH(8)" for i
      using that arg_cong [OF eq, of "\<lambda>w. bit w i"] by (simp add: bit_ucast_iff)
  qed
qed


lemma byte_at_wide: "(drop_bit s w AND 0xFF :: 64 word) = ucast (ucast (drop_bit s w) :: 8 word)"
proof (rule bit_word_eqI)
  have ff: "(0xFF :: 64 word) = mask 8" by (simp add: mask_eq_exp_minus_1)
  show "bit (drop_bit s w AND 0xFF) i \<longleftrightarrow> bit (ucast (ucast (drop_bit s w) :: 8 word) :: 64 word) i"
    if "i < LENGTH(64)" for i
    unfolding ff using that by (auto simp: bit_and_iff bit_mask_iff bit_ucast_iff)
qed

text \<open>The little-endian bytes of a 64-bit value.\<close>

definition le_bytes :: "64 word \<Rightarrow> 8 word list" where
  "le_bytes w = map (\<lambda>s. ucast (drop_bit s w)) [0, 8, 16, 24, 32, 40, 48, 56]"

lemma fnv1a_integral_bytes: "fnv1a_integral w = fnv1a (le_bytes w)"
  unfolding fnv1a_integral_def fnv1a_def le_bytes_def by (simp only: byte_at_wide list.map foldl.simps fnv1a_from.simps)

text \<open>
  C9: \<^verbatim>\<open>hash_mix\<close> is a bijection at both widths of \<^verbatim>\<open>size_t\<close>, as its comment says, so
  mixing adds no collisions; and on a 32-bit target two 64-bit keys that differ
  only in the high word get different hashes from \<^verbatim>\<open>hash_key\<close>.
\<close>

theorem hash_mixing_loses_nothing:
  "bij hash_mix \<and> bij hash_mix32 \<and>
   (ucast a = (ucast b :: 32 word) \<longrightarrow> hash_key32 a = hash_key32 b \<longrightarrow> a = b)"
  using finite_inj_bij [OF hash_mix_inj] finite_inj_bij [OF hash_mix32_inj] hash_key32_high_word by blast

theorem hash_mixing_loses_nothing_witness:
  "hash_key32 0x0000000100000007 \<noteq> hash_key32 0x0000000200000007"
  using hash_mixing_loses_nothing [of "0x0000000100000007" "0x0000000200000007"] by auto

text \<open>
  C10: \<^verbatim>\<open>fnv1a_hash\<close> hashes by value: the same characters hash the same as a
  character range, as a NUL-terminated C string and as a larger character array;
  an integral value hashes as its eight little-endian bytes; and changing any
  single byte of a buffer changes the hash.
\<close>

theorem fnv1a_hash_by_value:
  assumes "0 \<notin> set s"
  shows "fnv1a_char_array (s @ 0 # rest) = fnv1a_char_range s \<and>
     fnv1a_char_array s = fnv1a_char_range s \<and>
     fnv1a_c_string (s @ 0 # rest) = Inr (fnv1a_char_range s) \<and>
     fnv1a_integral w = fnv1a (le_bytes w) \<and>
     (fnv1a (pre @ a # post) = fnv1a (pre @ b # post) \<longleftrightarrow> a = b)"
  using assms fnv1a_one_byte [of pre a post b]
  by (auto simp: fnv1a_char_array_def fnv1a_char_range_def fnv1a_c_string_def
      char_array_length_append c_string_length_append fnv1a_integral_bytes)

theorem fnv1a_hash_by_value_witness:
  "fnv1a_char_array [104, 105, 0, 99] = fnv1a_char_range [104, 105] \<and>
   fnv1a_c_string [104, 105, 0, 99] = Inr (fnv1a_char_range [104, 105])"
  using fnv1a_hash_by_value [of "[104, 105]" "[99]"] by simp

end
