(* ===== verification/Unordered_map.thy ===== *)
theory Unordered_map
  imports Slots Bitset Hash
begin

text \<open>
  \<^verbatim>\<open>static_unordered_map\<close> (\<^verbatim>\<open>static_unordered_map.hpp\<close>): open addressing with linear
  probing in a table of \<^verbatim>\<open>bucket_count\<close> slots, a power of two of at least twice
  the capacity. A slot is empty, occupied or a tombstone, encoded in two bit
  sets. Inserting a new key rebuilds the table in place when more than an eighth
  of it are tombstones.

  The member \<^verbatim>\<open>npos\<close> is \<open>None\<close>. An element \<^verbatim>\<open>value_type{key, value}\<close> is a pair.
  \<^verbatim>\<open>rebuild_cannot_throw\<close> is the argument \<open>rb\<close>; elements, hasher and key equality
  do not throw. The two unbounded loops of the rebuild carry a fuel argument and
  report \<open>Diverged\<close> when it runs out, which is shown never to happen.
\<close>

section \<open>State\<close>

datatype slot_state = Slot_empty | Slot_occupied | Slot_tombstone

record ('k, 'v) unordered_map =
  um_storage :: "('k \<times> 'v) slots"
  um_occupied :: bitset
  um_tombstone :: bitset
  um_size :: nat
  um_tombstones :: nat
  um_hasher :: "'k \<Rightarrow> 64 word"
  um_key_equal :: "'k \<Rightarrow> 'k \<Rightarrow> bool"

text \<open>\<^verbatim>\<open>static constexpr bucket_count\<close>, computed at the width of \<^verbatim>\<open>size_t\<close>.\<close>

definition bucket_count :: "nat \<Rightarrow> nat" where
  "bucket_count cap = (case compute_bucket_count (of_nat cap :: 64 word) of
      None \<Rightarrow> 0 | Some b \<Rightarrow> unat b)"

definition um_empty_with :: "nat \<Rightarrow> ('k \<Rightarrow> 64 word) \<Rightarrow> ('k \<Rightarrow> 'k \<Rightarrow> bool) \<Rightarrow> ('k, 'v) unordered_map" where
  "um_empty_with cap hasher key_equal =
     \<lparr>um_storage = replicate (bucket_count cap) None,
      um_occupied = bitset_new (bucket_count cap), um_tombstone = bitset_new (bucket_count cap),
      um_size = 0, um_tombstones = 0, um_hasher = hasher, um_key_equal = key_equal\<rparr>"

definition um_state :: "nat \<Rightarrow> ('k, 'v) unordered_map \<Rightarrow> nat \<Rightarrow> slot_state outcome" where
  "um_state cap m index =
     bnd (bitset_test (bucket_count cap) (um_occupied m) index) (\<lambda>occupied.
       if occupied then Inr Slot_occupied
       else bnd (bitset_test (bucket_count cap) (um_tombstone m) index) (\<lambda>tombstone.
              Inr (if tombstone then Slot_tombstone else Slot_empty)))"

definition um_set_state ::
  "nat \<Rightarrow> nat \<Rightarrow> slot_state \<Rightarrow> ('k, 'v) unordered_map \<Rightarrow> ('k, 'v) unordered_map outcome" where
  "um_set_state cap index next m =
     bnd (if next = Slot_occupied then bitset_set (bucket_count cap) index (um_occupied m)
          else bitset_reset (bucket_count cap) index (um_occupied m)) (\<lambda>occupied.
     bnd (if next = Slot_tombstone then bitset_set (bucket_count cap) index (um_tombstone m)
          else bitset_reset (bucket_count cap) index (um_tombstone m)) (\<lambda>tombstone.
       Inr (m\<lparr>um_occupied := occupied, um_tombstone := tombstone\<rparr>)))"

section \<open>Probing\<close>

definition bucket_index :: "nat \<Rightarrow> ('k, 'v) unordered_map \<Rightarrow> 'k \<Rightarrow> nat" where
  "bucket_index cap m key =
     unat (hash_mix (hash_key (um_hasher m) key) AND of_nat (bucket_count cap - 1))"

function find_existing_from ::
  "nat \<Rightarrow> ('k, 'v) unordered_map \<Rightarrow> 'k \<Rightarrow> nat \<Rightarrow> nat \<Rightarrow> nat option outcome" where
  "find_existing_from cap m key start probe =
     (if probe < bucket_count cap
      then let index = (start + probe) AND (bucket_count cap - 1) in
           bnd (um_state cap m index) (\<lambda>st.
             if st = Slot_empty then Inr None
             else if st = Slot_occupied
             then bnd (slot_get (um_storage m) index) (\<lambda>e.
                    if um_key_equal m (fst e) key then Inr (Some index)
                    else find_existing_from cap m key start (probe + 1))
             else find_existing_from cap m key start (probe + 1))
      else Inr None)"
  by pat_completeness auto
termination
  by (relation "measure (\<lambda>(cap, m, key, start, probe). bucket_count cap - probe)") auto

definition find_existing_index :: "nat \<Rightarrow> ('k, 'v) unordered_map \<Rightarrow> 'k \<Rightarrow> nat option outcome" where
  "find_existing_index cap m key =
     (if cap = 0 then Inr None else find_existing_from cap m key (bucket_index cap m key) 0)"

function locate_insert_from ::
  "nat \<Rightarrow> ('k, 'v) unordered_map \<Rightarrow> 'k \<Rightarrow> nat \<Rightarrow> nat option \<Rightarrow> nat \<Rightarrow> nat option outcome" where
  "locate_insert_from cap m key start first_tombstone probe =
     (if probe < bucket_count cap
      then let index = (start + probe) AND (bucket_count cap - 1) in
           bnd (um_state cap m index) (\<lambda>st.
             if st = Slot_empty
             then Inr (if first_tombstone \<noteq> None then first_tombstone else Some index)
             else if st = Slot_tombstone
             then locate_insert_from cap m key start
                    (if first_tombstone = None then Some index else first_tombstone) (probe + 1)
             else bnd (slot_get (um_storage m) index) (\<lambda>e.
                    if um_key_equal m (fst e) key then Inr (Some index)
                    else locate_insert_from cap m key start first_tombstone (probe + 1)))
      else Inr first_tombstone)"
  by pat_completeness auto
termination
  by (relation "measure (\<lambda>(cap, m, key, start, ft, probe). bucket_count cap - probe)") auto

text \<open>The result is \<open>None\<close> where the code returns false.\<close>

definition locate_insert_index :: "nat \<Rightarrow> ('k, 'v) unordered_map \<Rightarrow> 'k \<Rightarrow> nat option outcome" where
  "locate_insert_index cap m key =
     (if cap = 0 then Inr None else locate_insert_from cap m key (bucket_index cap m key) None 0)"

declare find_existing_from.simps [simp del] locate_insert_from.simps [simp del]

section \<open>Placing, removing and rebuilding\<close>

text \<open>\<^verbatim>\<open>index < bucket_count\<close> fails for \<^verbatim>\<open>npos\<close>, the largest \<^verbatim>\<open>size_t\<close>.\<close>

definition um_place_at ::
  "nat \<Rightarrow> nat option \<Rightarrow> 'k \<Rightarrow> 'v \<Rightarrow> ('k, 'v) unordered_map \<Rightarrow> ('k, 'v) unordered_map outcome" where
  "um_place_at cap index key v m = (case index of
       None \<Rightarrow> METL_HARDEN False (Inr m)
     | Some i \<Rightarrow> METL_HARDEN (i < bucket_count cap)
         (bnd (slot_new (um_storage m) i (key, v)) (\<lambda>st.
          let m1 = m\<lparr>um_storage := st\<rparr> in
          bnd (um_state cap m1 i) (\<lambda>s.
          let m2 = (if s = Slot_tombstone then m1\<lparr>um_tombstones := um_tombstones m1 - 1\<rparr> else m1) in
          bnd (um_set_state cap i Slot_occupied m2) (\<lambda>m3.
            Inr (m3\<lparr>um_size := um_size m3 + 1\<rparr>))))))"

definition um_destroy_at ::
  "nat \<Rightarrow> nat \<Rightarrow> slot_state \<Rightarrow> ('k, 'v) unordered_map \<Rightarrow> ('k, 'v) unordered_map outcome" where
  "um_destroy_at cap index next_state m =
     bnd (um_set_state cap index next_state m) (\<lambda>m1.
     let m2 = m1\<lparr>um_size := um_size m1 - 1\<rparr>;
         m3 = (if next_state = Slot_tombstone then m2\<lparr>um_tombstones := um_tombstones m2 + 1\<rparr> else m2) in
     bnd (slot_destroy (um_storage m3) index) (\<lambda>st. Inr (m3\<lparr>um_storage := st\<rparr>)))"

text \<open>\<^verbatim>\<open>while (state(target) == occupied) target = (target + 1) & (bucket_count - 1)\<close>\<close>

fun rebuild_target :: "nat \<Rightarrow> nat \<Rightarrow> ('k, 'v) unordered_map \<Rightarrow> nat \<Rightarrow> nat outcome" where
  "rebuild_target 0 cap m target = Inl Diverged"
| "rebuild_target (Suc fuel) cap m target =
     bnd (um_state cap m target) (\<lambda>s.
       if s = Slot_occupied
       then rebuild_target fuel cap m ((target + 1) AND (bucket_count cap - 1))
       else Inr target)"

text \<open>
  The endless loop of phase 2: \<open>carry\<close> is settled in the first slot of its probe
  run that holds no placed element, and the element it displaces, if any, is
  carried on.
\<close>

fun rebuild_carry ::
  "nat \<Rightarrow> nat \<Rightarrow> 'k \<times> 'v \<Rightarrow> ('k, 'v) unordered_map \<Rightarrow> ('k, 'v) unordered_map outcome" where
  "rebuild_carry 0 cap carry m = Inl Diverged"
| "rebuild_carry (Suc fuel) cap carry m =
     bnd (rebuild_target (bucket_count cap) cap m (bucket_index cap m (fst carry))) (\<lambda>target.
     bnd (um_state cap m target) (\<lambda>s.
       if s = Slot_empty
       then bnd (slot_new (um_storage m) target carry) (\<lambda>st.
            bnd (bitset_set (bucket_count cap) target (um_occupied m)) (\<lambda>occupied.
              Inr (m\<lparr>um_storage := st, um_occupied := occupied\<rparr>)))
       else bnd (slot_get (um_storage m) target) (\<lambda>displaced.
            bnd (slot_destroy (um_storage m) target) (\<lambda>st1.
            bnd (slot_new st1 target carry) (\<lambda>st2.
            bnd (bitset_reset (bucket_count cap) target (um_tombstone m)) (\<lambda>tombstone.
            bnd (bitset_set (bucket_count cap) target (um_occupied m)) (\<lambda>occupied.
              rebuild_carry fuel cap displaced
                (m\<lparr>um_storage := st2, um_tombstone := tombstone, um_occupied := occupied\<rparr>))))))))"

definition rebuild_slot ::
  "nat \<Rightarrow> nat \<Rightarrow> ('k, 'v) unordered_map \<Rightarrow> ('k, 'v) unordered_map outcome" where
  "rebuild_slot cap i m =
     bnd (bitset_test (bucket_count cap) (um_tombstone m) i) (\<lambda>unplaced.
       if \<not> unplaced then Inr m
       else bnd (slot_get (um_storage m) i) (\<lambda>carry.
            bnd (slot_destroy (um_storage m) i) (\<lambda>st.
            bnd (bitset_reset (bucket_count cap) i (um_tombstone m)) (\<lambda>tombstone.
              rebuild_carry (bucket_count cap + 1) cap carry
                (m\<lparr>um_storage := st, um_tombstone := tombstone\<rparr>)))))"

definition rehash_in_place :: "nat \<Rightarrow> ('k, 'v) unordered_map \<Rightarrow> ('k, 'v) unordered_map outcome" where
  "rehash_in_place cap m =
     (if cap = 0 then Inr m
      else bnd (bitset_reset_all (bucket_count cap) (um_occupied m)) (\<lambda>occupied.
           for_upto 0 (bucket_count cap) (rebuild_slot cap)
             (m\<lparr>um_tombstone := um_occupied m, um_occupied := occupied, um_tombstones := 0\<rparr>)))"

text \<open>The slot the new element ends up in, and the table.\<close>

definition um_construct_at ::
  "bool \<Rightarrow> nat \<Rightarrow> nat option \<Rightarrow> 'k \<Rightarrow> 'v \<Rightarrow> ('k, 'v) unordered_map
     \<Rightarrow> (nat option \<times> ('k, 'v) unordered_map) outcome" where
  "um_construct_at rb cap index key v m =
     (if rb \<and> um_tombstones m > bucket_count cap div 8
      then bnd (rehash_in_place cap m) (\<lambda>m1.
           bnd (locate_insert_index cap m1 key) (\<lambda>index1. case index1 of
               None \<Rightarrow> METL_HARDEN False (Inr (None, m1))
             | Some i \<Rightarrow> METL_HARDEN (i < bucket_count cap)
                 (bnd (slot_new (um_storage m1) i (key, v)) (\<lambda>st.
                  bnd (um_set_state cap i Slot_occupied (m1\<lparr>um_storage := st\<rparr>)) (\<lambda>m2.
                    Inr (Some i, m2\<lparr>um_size := um_size m2 + 1\<rparr>))))))
      else bnd (um_place_at cap index key v m) (\<lambda>m1. Inr (index, m1)))"


section \<open>Public operations\<close>

definition um_find :: "nat \<Rightarrow> ('k, 'v) unordered_map \<Rightarrow> 'k \<Rightarrow> 'v option outcome" where
  "um_find cap m key =
     bnd (find_existing_index cap m key) (\<lambda>index. case index of
         None \<Rightarrow> Inr None
       | Some i \<Rightarrow> bnd (slot_get (um_storage m) i) (\<lambda>e. Inr (Some (snd e))))"

definition um_contains :: "nat \<Rightarrow> ('k, 'v) unordered_map \<Rightarrow> 'k \<Rightarrow> bool outcome" where
  "um_contains cap m key = bnd (um_find cap m key) (\<lambda>r. Inr (r \<noteq> None))"

definition um_try_emplace ::
  "bool \<Rightarrow> nat \<Rightarrow> 'k \<Rightarrow> 'v \<Rightarrow> ('k, 'v) unordered_map \<Rightarrow> (bool \<times> ('k, 'v) unordered_map) outcome" where
  "um_try_emplace rb cap key v m =
     bnd (locate_insert_index cap m key) (\<lambda>index. case index of
         None \<Rightarrow> Inr (False, m)
       | Some i \<Rightarrow> bnd (um_state cap m i) (\<lambda>s.
           if s = Slot_occupied then Inr (False, m)
           else if um_size m \<ge> cap then Inr (False, m)
           else bnd (um_construct_at rb cap (Some i) key v m) (\<lambda>(_, m1). Inr (True, m1))))"

text \<open>
  The common part of \<^verbatim>\<open>emplace\<close> and \<^verbatim>\<open>operator[]\<close>: the slot of the existing or
  inserted element. A stripped \<^verbatim>\<open>METL_ASSERT\<close> does not evaluate its argument.
\<close>

definition um_obtain ::
  "hardening \<Rightarrow> bool \<Rightarrow> nat \<Rightarrow> 'k \<Rightarrow> 'v \<Rightarrow> ('k, 'v) unordered_map
     \<Rightarrow> (nat option \<times> ('k, 'v) unordered_map) outcome" where
  "um_obtain h rb cap key v m =
     bnd (find_existing_index cap m key) (\<lambda>existing. case existing of
         Some i \<Rightarrow> Inr (Some i, m)
       | None \<Rightarrow> METL_HARDEN (um_size m < cap)
           (bnd (locate_insert_index cap m key) (\<lambda>index. case index of
               None \<Rightarrow> METL_ASSERT h False (um_construct_at rb cap None key v m)
             | Some i \<Rightarrow> bnd (um_state cap m i) (\<lambda>s.
                 METL_ASSERT h (s \<noteq> Slot_occupied) (um_construct_at rb cap (Some i) key v m)))))"

definition um_slot_value :: "('k, 'v) unordered_map \<Rightarrow> nat option \<Rightarrow> ('k \<times> 'v) outcome" where
  "um_slot_value m index = (case index of None \<Rightarrow> Inl Out_of_bounds | Some i \<Rightarrow> slot_get (um_storage m) i)"

definition um_emplace ::
  "hardening \<Rightarrow> bool \<Rightarrow> nat \<Rightarrow> 'k \<Rightarrow> 'v \<Rightarrow> ('k, 'v) unordered_map
     \<Rightarrow> (('k \<times> 'v) \<times> ('k, 'v) unordered_map) outcome" where
  "um_emplace h rb cap key v m =
     bnd (um_obtain h rb cap key v m) (\<lambda>(index, m1).
     bnd (um_slot_value m1 index) (\<lambda>e. Inr (e, m1)))"

text \<open>\<^verbatim>\<open>operator[]\<close>; \<open>dflt\<close> is \<^verbatim>\<open>mapped_type{}\<close>.\<close>

definition um_subscript ::
  "hardening \<Rightarrow> bool \<Rightarrow> nat \<Rightarrow> 'v \<Rightarrow> 'k \<Rightarrow> ('k, 'v) unordered_map
     \<Rightarrow> ('v \<times> ('k, 'v) unordered_map) outcome" where
  "um_subscript h rb cap dflt key m =
     bnd (um_obtain h rb cap key dflt m) (\<lambda>(index, m1).
     bnd (um_slot_value m1 index) (\<lambda>e. Inr (snd e, m1)))"

definition um_insert_or_assign_impl ::
  "bool \<Rightarrow> nat \<Rightarrow> 'k \<Rightarrow> 'v \<Rightarrow> ('k, 'v) unordered_map \<Rightarrow> (nat option \<times> ('k, 'v) unordered_map) outcome" where
  "um_insert_or_assign_impl rb cap key v m =
     bnd (find_existing_index cap m key) (\<lambda>existing. case existing of
         Some i \<Rightarrow> bnd (slot_get (um_storage m) i) (\<lambda>e.
                   bnd (slot_assign (um_storage m) i (fst e, v)) (\<lambda>st. Inr (Some i, m\<lparr>um_storage := st\<rparr>)))
       | None \<Rightarrow>
           if um_size m \<ge> cap then Inr (None, m)
           else bnd (locate_insert_index cap m key) (\<lambda>index. case index of
                    None \<Rightarrow> Inr (None, m)
                  | Some i \<Rightarrow> um_construct_at rb cap (Some i) key v m))"

definition um_try_insert_or_assign ::
  "bool \<Rightarrow> nat \<Rightarrow> 'k \<Rightarrow> 'v \<Rightarrow> ('k, 'v) unordered_map \<Rightarrow> (bool \<times> ('k, 'v) unordered_map) outcome" where
  "um_try_insert_or_assign rb cap key v m =
     bnd (um_insert_or_assign_impl rb cap key v m) (\<lambda>(index, m1). Inr (index \<noteq> None, m1))"

definition um_insert_or_assign ::
  "hardening \<Rightarrow> bool \<Rightarrow> nat \<Rightarrow> 'k \<Rightarrow> 'v \<Rightarrow> ('k, 'v) unordered_map
     \<Rightarrow> (('k \<times> 'v) \<times> ('k, 'v) unordered_map) outcome" where
  "um_insert_or_assign h rb cap key v m =
     bnd (um_insert_or_assign_impl rb cap key v m) (\<lambda>(index, m1).
     METL_ASSERT h (index \<noteq> None)
       (METL_HARDEN (case index of None \<Rightarrow> False | Some i \<Rightarrow> i < bucket_count cap)
         (bnd (um_slot_value m1 index) (\<lambda>e. Inr (e, m1)))))"

definition um_erase ::
  "nat \<Rightarrow> 'k \<Rightarrow> ('k, 'v) unordered_map \<Rightarrow> (bool \<times> ('k, 'v) unordered_map) outcome" where
  "um_erase cap key m =
     bnd (find_existing_index cap m key) (\<lambda>index. case index of
         None \<Rightarrow> Inr (False, m)
       | Some i \<Rightarrow> bnd (um_destroy_at cap i Slot_tombstone m) (\<lambda>m1. Inr (True, m1)))"

text \<open>
  An iterator is its index; constructing one at \<open>i\<close> moves it to the first
  occupied slot at or after \<open>i\<close>.
\<close>

definition um_iterator :: "nat \<Rightarrow> ('k, 'v) unordered_map \<Rightarrow> nat \<Rightarrow> nat outcome" where
  "um_iterator cap m index = find_next_set (bucket_count cap) (um_occupied m) index"

definition um_erase_at ::
  "nat \<Rightarrow> nat \<Rightarrow> ('k, 'v) unordered_map \<Rightarrow> (nat \<times> ('k, 'v) unordered_map) outcome" where
  "um_erase_at cap pos m =
     METL_HARDEN (pos < bucket_count cap \<and> um_state cap m pos = Inr Slot_occupied)
       (bnd (um_destroy_at cap pos Slot_tombstone m) (\<lambda>m1.
        bnd (um_iterator cap m1 (pos + 1)) (\<lambda>it. Inr (it, m1))))"

definition um_clear :: "nat \<Rightarrow> ('k, 'v) unordered_map \<Rightarrow> ('k, 'v) unordered_map outcome" where
  "um_clear cap m =
     bnd (for_upto 0 (bucket_count cap) (\<lambda>i m.
            bnd (um_state cap m i) (\<lambda>s.
              if s = Slot_occupied then um_destroy_at cap i Slot_empty m
              else um_set_state cap i Slot_empty m)) m)
       (\<lambda>m1. Inr (m1\<lparr>um_tombstones := 0\<rparr>))"

text \<open>
  \<^verbatim>\<open>for (item : other) emplace(item.key, item.value)\<close>, the body of every copy and
  move. The iterator only moves forward; the second guard restates that for the
  termination proof.
\<close>

function um_emplace_from ::
  "hardening \<Rightarrow> bool \<Rightarrow> nat \<Rightarrow> nat \<Rightarrow> ('k, 'v) unordered_map \<Rightarrow> ('k, 'v) unordered_map
     \<Rightarrow> ('k, 'v) unordered_map outcome" where
  "um_emplace_from h rb cap index other m =
     bnd (um_iterator cap other index) (\<lambda>it.
       if it < bucket_count cap \<and> index \<le> it
       then bnd (slot_get (um_storage other) it) (\<lambda>e.
            bnd (um_emplace h rb cap (fst e) (snd e) m) (\<lambda>(_, m1).
              um_emplace_from h rb cap (it + 1) other m1))
       else Inr m)"
  by pat_completeness auto
termination
  by (relation "measure (\<lambda>(h, rb, cap, index, other, m). bucket_count cap - index)") auto

declare um_emplace_from.simps [simp del]

definition um_copy ::
  "hardening \<Rightarrow> bool \<Rightarrow> nat \<Rightarrow> ('k, 'v) unordered_map \<Rightarrow> ('k, 'v) unordered_map outcome" where
  "um_copy h rb cap other =
     um_emplace_from h rb cap 0 other (um_empty_with cap (um_hasher other) (um_key_equal other))"

text \<open>
  The moves take the hasher and the key equality out of \<open>other\<close>; \<open>gone_hash\<close> and \<open>gone_eq\<close> are
  what they leave behind. The assignments return at once when \<open>self\<close>, \<^verbatim>\<open>this == &other\<close>, holds.
\<close>

definition um_move ::
  "hardening \<Rightarrow> bool \<Rightarrow> nat \<Rightarrow> ('k \<Rightarrow> 64 word) \<Rightarrow> ('k \<Rightarrow> 'k \<Rightarrow> bool) \<Rightarrow> ('k, 'v) unordered_map
     \<Rightarrow> (('k, 'v) unordered_map \<times> ('k, 'v) unordered_map) outcome" where
  "um_move h rb cap gone_hash gone_eq other =
     (let m = um_empty_with cap (um_hasher other) (um_key_equal other);
          other1 = other\<lparr>um_hasher := gone_hash, um_key_equal := gone_eq\<rparr> in
      bnd (um_emplace_from h rb cap 0 other1 m) (\<lambda>m1.
      bnd (um_clear cap other1) (\<lambda>other2. Inr (m1, other2))))"

definition um_assign ::
  "hardening \<Rightarrow> bool \<Rightarrow> nat \<Rightarrow> bool \<Rightarrow> ('k, 'v) unordered_map \<Rightarrow> ('k, 'v) unordered_map
     \<Rightarrow> ('k, 'v) unordered_map outcome" where
  "um_assign h rb cap self m other =
     (if self then Inr m
      else bnd (um_clear cap m) (\<lambda>m1.
             um_emplace_from h rb cap 0 other
               (m1\<lparr>um_hasher := um_hasher other, um_key_equal := um_key_equal other\<rparr>)))"

definition um_move_assign ::
  "hardening \<Rightarrow> bool \<Rightarrow> nat \<Rightarrow> bool \<Rightarrow> ('k \<Rightarrow> 64 word) \<Rightarrow> ('k \<Rightarrow> 'k \<Rightarrow> bool) \<Rightarrow> ('k, 'v) unordered_map
     \<Rightarrow> ('k, 'v) unordered_map \<Rightarrow> (('k, 'v) unordered_map \<times> ('k, 'v) unordered_map) outcome" where
  "um_move_assign h rb cap self gone_hash gone_eq m other =
     (if self then Inr (m, other)
      else bnd (um_clear cap m) (\<lambda>m1.
           let m2 = m1\<lparr>um_hasher := um_hasher other, um_key_equal := um_key_equal other\<rparr>;
               other1 = other\<lparr>um_hasher := gone_hash, um_key_equal := gone_eq\<rparr> in
           bnd (um_emplace_from h rb cap 0 other1 m2) (\<lambda>m3.
           bnd (um_clear cap other1) (\<lambda>other2. Inr (m3, other2)))))"

definition um_swap_slot ::
  "nat \<Rightarrow> nat \<Rightarrow> ('k, 'v) unordered_map \<times> ('k, 'v) unordered_map
     \<Rightarrow> (('k, 'v) unordered_map \<times> ('k, 'v) unordered_map) outcome" where
  "um_swap_slot cap i p =
     (case p of (a, b) \<Rightarrow>
      bnd (um_state cap a i) (\<lambda>sa. bnd (um_state cap b i) (\<lambda>sb.
        let mine = (sa = Slot_occupied); theirs = (sb = Slot_occupied);
            relocate = (\<lambda>from to.
              bnd (slot_get (um_storage from) i) (\<lambda>e.
              bnd (slot_new (um_storage to) i e) (\<lambda>st.
              let to1 = to\<lparr>um_storage := st\<rparr> in
              bnd (um_state cap to1 i) (\<lambda>s.
              bnd (um_set_state cap i s from) (\<lambda>from1.
              bnd (um_set_state cap i Slot_occupied to1) (\<lambda>to2.
              bnd (slot_destroy (um_storage from1) i) (\<lambda>st1.
                Inr (from1\<lparr>um_storage := st1\<rparr>, to2))))))))
        in if mine \<and> theirs
           then bnd (slot_get (um_storage a) i) (\<lambda>ea. bnd (slot_get (um_storage b) i) (\<lambda>eb.
                bnd (slot_assign (um_storage a) i eb) (\<lambda>sta.
                bnd (slot_assign (um_storage b) i ea) (\<lambda>stb.
                  Inr (a\<lparr>um_storage := sta\<rparr>, b\<lparr>um_storage := stb\<rparr>)))))
           else if mine then relocate a b
           else if theirs then bnd (relocate b a) (\<lambda>(b1, a1). Inr (a1, b1))
           else bnd (um_set_state cap i sb a) (\<lambda>a1.
                bnd (um_set_state cap i sa b) (\<lambda>b1. Inr (a1, b1))))))"

definition um_swap ::
  "nat \<Rightarrow> ('k, 'v) unordered_map \<Rightarrow> ('k, 'v) unordered_map
     \<Rightarrow> (('k, 'v) unordered_map \<times> ('k, 'v) unordered_map) outcome" where
  "um_swap cap a b =
     bnd (for_upto 0 (bucket_count cap) (um_swap_slot cap)
            (a\<lparr>um_hasher := um_hasher b, um_key_equal := um_key_equal b\<rparr>,
             b\<lparr>um_hasher := um_hasher a, um_key_equal := um_key_equal a\<rparr>))
       (\<lambda>(a1, b1).
         Inr (a1\<lparr>um_size := um_size b1, um_tombstones := um_tombstones b1\<rparr>,
              b1\<lparr>um_size := um_size a1, um_tombstones := um_tombstones a1\<rparr>))"

function um_erase_if_from ::
  "nat \<Rightarrow> ('k \<times> 'v \<Rightarrow> bool) \<Rightarrow> nat \<Rightarrow> nat \<Rightarrow> ('k, 'v) unordered_map
     \<Rightarrow> (nat \<times> ('k, 'v) unordered_map) outcome" where
  "um_erase_if_from cap pred it erased m =
     (if it < bucket_count cap
      then bnd (slot_get (um_storage m) it) (\<lambda>e.
             bnd (if pred e then um_erase_at cap it m
                  else bnd (um_iterator cap m (it + 1)) (\<lambda>it1. Inr (it1, m))) (\<lambda>(it1, m1).
             if it < it1 then um_erase_if_from cap pred it1 (if pred e then erased + 1 else erased) m1
             else Inl Diverged))
      else Inr (erased, m))"
  by pat_completeness auto
termination
  by (relation "measure (\<lambda>(cap, pred, it, erased, m). bucket_count cap - it)") auto

declare um_erase_if_from.simps [simp del]

definition um_erase_if ::
  "nat \<Rightarrow> ('k \<times> 'v \<Rightarrow> bool) \<Rightarrow> ('k, 'v) unordered_map \<Rightarrow> (nat \<times> ('k, 'v) unordered_map) outcome" where
  "um_erase_if cap pred m =
     bnd (um_iterator cap m 0) (\<lambda>it. um_erase_if_from cap pred it 0 m)"

end
