(* ===== verification/Probing.thy ===== *)
theory Probing
  imports Unordered_map
begin

text \<open>
  The table of \<^verbatim>\<open>static_unordered_map\<close> as a list of cells, and the facts about
  probe runs its correctness rests on: a stored key is reachable from its bucket
  without crossing an empty cell, so a search may stop at the first empty one.
\<close>

section \<open>Cells\<close>

text \<open>
  \<open>Moving\<close> is a cell during a rebuild: an element that still has to be placed,
  marked with the tombstone bit.
\<close>

datatype 'e cell = Free | Grave | Held 'e | Moving 'e

fun is_held :: "'e cell \<Rightarrow> bool" where
  "is_held (Held e) = True" | "is_held _ = False"

fun is_marked :: "'e cell \<Rightarrow> bool" where
  "is_marked Grave = True" | "is_marked (Moving e) = True" | "is_marked _ = False"

fun cell_entry :: "'e cell \<Rightarrow> 'e option" where
  "cell_entry (Held e) = Some e" | "cell_entry (Moving e) = Some e" | "cell_entry _ = None"

fun cell_state :: "'e cell \<Rightarrow> slot_state" where
  "cell_state Free = Slot_empty" | "cell_state Grave = Slot_tombstone"
| "cell_state (Held e) = Slot_occupied" | "cell_state (Moving e) = Slot_tombstone"

definition where_cell :: "('e cell \<Rightarrow> bool) \<Rightarrow> 'e cell list \<Rightarrow> nat set" where
  "where_cell P c = {i. i < length c \<and> P (c ! i)}"

lemma where_cell_update:
  "i < length c \<Longrightarrow> where_cell P (c[i := x]) = (if P x then insert i (where_cell P c) else where_cell P c - {i})"
  by (auto simp: where_cell_def nth_list_update)

section \<open>The table as cells\<close>

definition um_repr :: "nat \<Rightarrow> ('k, 'v) unordered_map \<Rightarrow> ('k \<times> 'v) cell list \<Rightarrow> bool" where
  "um_repr cap m c \<longleftrightarrow>
     length c = bucket_count cap \<and> um_storage m = map cell_entry c \<and>
     bitset_repr (bucket_count cap) (um_occupied m) (where_cell is_held c) \<and>
     bitset_repr (bucket_count cap) (um_tombstone m) (where_cell is_marked c)"

lemma um_repr_fields [simp]:
  "um_repr cap (m\<lparr>um_size := n\<rparr>) c = um_repr cap m c"
  "um_repr cap (m\<lparr>um_tombstones := n\<rparr>) c = um_repr cap m c"
  "um_repr cap (m\<lparr>um_hasher := hash\<rparr>) c = um_repr cap m c"
  "um_repr cap (m\<lparr>um_key_equal := eq\<rparr>) c = um_repr cap m c"
  by (simp_all add: um_repr_def)

lemma um_state_fields [simp]:
  "um_state cap (m\<lparr>um_storage := st\<rparr>) i = um_state cap m i"
  "um_state cap (m\<lparr>um_size := n\<rparr>) i = um_state cap m i"
  "um_state cap (m\<lparr>um_tombstones := n\<rparr>) i = um_state cap m i"
  by (simp_all add: um_state_def cong: if_cong)

lemma um_repr_length:
  "um_repr cap m c \<Longrightarrow> length c = bucket_count cap"
  "um_repr cap m c \<Longrightarrow> length (um_storage m) = bucket_count cap"
  by (auto simp: um_repr_def)

lemma um_state_repr:
  assumes "um_repr cap m c" "i < bucket_count cap"
  shows "um_state cap m i = Inr (cell_state (c ! i))"
proof -
  have "bitset_test (bucket_count cap) (um_occupied m) i = Inr (is_held (c ! i))"
    "bitset_test (bucket_count cap) (um_tombstone m) i = Inr (is_marked (c ! i))"
    using assms by (auto simp: um_repr_def where_cell_def dest!: bitset_test_repr)
  then show ?thesis
    by (cases "c ! i") (simp_all add: um_state_def)
qed

lemma um_slot_repr:
  "um_repr cap m c \<Longrightarrow> i < bucket_count cap \<Longrightarrow> um_storage m ! i = cell_entry (c ! i)"
  by (auto simp: um_repr_def)

lemma um_slot_get_repr:
  "um_repr cap m c \<Longrightarrow> i < bucket_count cap \<Longrightarrow> cell_entry (c ! i) = Some e \<Longrightarrow>
     slot_get (um_storage m) i = Inr e"
  by (simp add: slot_get_def um_slot_repr um_repr_length)

text \<open>One rule for every update of a cell.\<close>

lemma um_repr_update:
  assumes "um_repr cap m c" "i < bucket_count cap"
    and "bitset_repr (bucket_count cap) occupied
           (if is_held x then insert i (where_cell is_held c) else where_cell is_held c - {i})"
    and "bitset_repr (bucket_count cap) tombstone
           (if is_marked x then insert i (where_cell is_marked c) else where_cell is_marked c - {i})"
    and "um_storage m' = (um_storage m)[i := cell_entry x]"
    and "um_occupied m' = occupied" "um_tombstone m' = tombstone"
  shows "um_repr cap m' (c[i := x])"
  using assms by (simp add: um_repr_def where_cell_update map_update)

lemma bitset_keep:
  "bitset_repr n ws S \<Longrightarrow> i \<in> S \<Longrightarrow> bitset_repr n ws (insert i S)"
  "bitset_repr n ws S \<Longrightarrow> i \<notin> S \<Longrightarrow> bitset_repr n ws (S - {i})"
  by (simp_all add: insert_absorb)

lemma um_repr_bits:
  assumes "um_repr cap m c"
  shows "bitset_repr (bucket_count cap) (um_occupied m) (where_cell is_held c)"
    and "bitset_repr (bucket_count cap) (um_tombstone m) (where_cell is_marked c)"
  using assms by (simp_all add: um_repr_def)

lemma um_set_state_bits:
  fixes m :: "('k, 'v) unordered_map"
  assumes "um_repr cap m c" "i < bucket_count cap"
  obtains occupied tombstone where
    "\<And>m' :: ('k, 'v) unordered_map. um_occupied m' = um_occupied m \<Longrightarrow> um_tombstone m' = um_tombstone m \<Longrightarrow>
       um_set_state cap i s m' = Inr (m'\<lparr>um_occupied := occupied, um_tombstone := tombstone\<rparr>)"
    "bitset_repr (bucket_count cap) occupied
       (if s = Slot_occupied then insert i (where_cell is_held c) else where_cell is_held c - {i})"
    "bitset_repr (bucket_count cap) tombstone
       (if s = Slot_tombstone then insert i (where_cell is_marked c) else where_cell is_marked c - {i})"
proof -
  note bits = um_repr_bits [OF assms(1)]
  obtain o1 where o1: "bitset_set (bucket_count cap) i (um_occupied m) = Inr o1"
      "bitset_repr (bucket_count cap) o1 (insert i (where_cell is_held c))"
    using bitset_set_repr [OF bits(1) assms(2)] by blast
  obtain o2 where o2: "bitset_reset (bucket_count cap) i (um_occupied m) = Inr o2"
      "bitset_repr (bucket_count cap) o2 (where_cell is_held c - {i})"
    using bitset_reset_repr [OF bits(1) assms(2)] by blast
  obtain t1 where t1: "bitset_set (bucket_count cap) i (um_tombstone m) = Inr t1"
      "bitset_repr (bucket_count cap) t1 (insert i (where_cell is_marked c))"
    using bitset_set_repr [OF bits(2) assms(2)] by blast
  obtain t2 where t2: "bitset_reset (bucket_count cap) i (um_tombstone m) = Inr t2"
      "bitset_repr (bucket_count cap) t2 (where_cell is_marked c - {i})"
    using bitset_reset_repr [OF bits(2) assms(2)] by blast
  show thesis
    by (rule that [where occupied = "if s = Slot_occupied then o1 else o2"
          and tombstone = "if s = Slot_tombstone then t1 else t2"])
      (use o1 o2 t1 t2 in \<open>auto simp: um_set_state_def\<close>)
qed

section \<open>Bucket arithmetic\<close>

definition valid_capacity :: "nat \<Rightarrow> bool" where
  "valid_capacity cap \<longleftrightarrow> cap \<le> 2 ^ 62"

lemma bucket_count_bounds:
  assumes "valid_capacity cap" "0 < cap"
  shows "power_of_two (bucket_count cap)" "2 * cap \<le> bucket_count cap" "bucket_count cap < 2 ^ 64"
proof -
  have cap: "cap < 2 ^ 64" "4 * cap \<le> 2 ^ 64" using assms by (auto simp: valid_capacity_def)
  then have u: "unat (of_nat cap :: 64 word) = cap"
    by (simp add: unat_of_nat take_bit_nat_eq_self)
  obtain k where k: "compute_bucket_count (of_nat cap :: 64 word) = Some (push_bit k 1)"
      "k < LENGTH(64)" "2 * cap \<le> 2 ^ k"
    using compute_bucket_count_bounds [of "of_nat cap :: 64 word"] u cap assms by auto
  have n: "bucket_count cap = 2 ^ k"
    using k(1,2) unat_push_bit_1 [of k, where 'w = 64] by (simp add: bucket_count_def)
  show "power_of_two (bucket_count cap)" by (simp add: n power_of_two_exp)
  show "2 * cap \<le> bucket_count cap" using k n by simp
  show "bucket_count cap < 2 ^ 64"
    unfolding n using k(2) by (intro power_strict_increasing) auto
qed

lemma bucket_count_0 [simp]: "bucket_count 0 = 1"
  by (simp add: bucket_count_def compute_bucket_count_def)

lemma bucket_count_pos: "valid_capacity cap \<Longrightarrow> 0 < bucket_count cap"
  using bucket_count_bounds(2) [of cap] by (cases "cap = 0") auto

definition probe_at :: "nat \<Rightarrow> nat \<Rightarrow> nat \<Rightarrow> nat" where
  "probe_at n b p = (b + p) mod n"

lemma probe_at_bound [simp]: "0 < n \<Longrightarrow> probe_at n b p < n"
  by (simp add: probe_at_def)

lemma probe_at_wrap: "b < n \<Longrightarrow> d < n \<Longrightarrow> probe_at n b d = (if b + d < n then b + d else b + d - n)"
  by (simp add: probe_at_def le_mod_geq)

lemma probe_at_reaches:
  assumes "b < n" "i < n"
  obtains d where "d < n" "probe_at n b d = i"
proof (cases "b \<le> i")
  case True
  then show thesis using that [of "i - b"] assms by (simp add: probe_at_wrap)
next
  case False
  then show thesis using that [of "i + n - b"] assms by (simp add: probe_at_wrap)
qed

lemma probe_at_inj: "b < n \<Longrightarrow> d < n \<Longrightarrow> d' < n \<Longrightarrow> probe_at n b d = probe_at n b d' \<longleftrightarrow> d = d'"
  by (auto simp: probe_at_wrap split: if_splits)

lemma bucket_index_bound:
  assumes "valid_capacity cap"
  shows "bucket_index cap m key < bucket_count cap"
proof (cases "cap = 0")
  case True
  then show ?thesis by (simp add: bucket_index_def)
next
  case False
  have n: "0 < bucket_count cap" "bucket_count cap < 2 ^ 64"
    using bucket_count_bounds [OF assms] bucket_count_pos [OF assms] False by auto
  have "unat (x AND of_nat (bucket_count cap - 1)) \<le> unat (of_nat (bucket_count cap - 1) :: 64 word)"
    for x :: "64 word"
    by (metis word_and_le1 word_le_nat_alt)
  also have "unat (of_nat (bucket_count cap - 1) :: 64 word) = bucket_count cap - 1"
    using n by (simp del: of_nat_diff add: unat_of_nat take_bit_nat_eq_self)
  finally show ?thesis using n(1) by (simp add: bucket_index_def) (metis Suc_pred le_imp_less_Suc)
qed

lemma probe_mask:
  assumes "valid_capacity cap"
  shows "(b + p) AND (bucket_count cap - 1) = probe_at (bucket_count cap) b p"
    and "(b + p) AND (bucket_count cap - Suc 0) = probe_at (bucket_count cap) b p"
  using bucket_count_bounds(1) [OF assms]
  by (cases "cap = 0"; simp add: probe_at_def mask_simps)+


section \<open>Entries\<close>

fun cell_mset :: "'e cell \<Rightarrow> 'e multiset" where
  "cell_mset (Held e) = {#e#}" | "cell_mset (Moving e) = {#e#}" | "cell_mset _ = {#}"

definition entries :: "'e cell list \<Rightarrow> 'e multiset" where
  "entries c = sum_list (map cell_mset c)"

lemma entries_update:
  "i < length c \<Longrightarrow> entries (c[i := x]) + cell_mset (c ! i) = entries c + cell_mset x"
proof (induction c arbitrary: i)
  case (Cons y c)
  then show ?case
    by (cases i) (simp_all add: entries_def union_ac)
qed simp

lemma cell_mset_iff: "e \<in># cell_mset x \<longleftrightarrow> cell_entry x = Some e"
  by (cases x) auto

lemma entries_iff: "e \<in># entries c \<longleftrightarrow> (\<exists>i < length c. cell_entry (c ! i) = Some e)"
  by (simp add: entries_def cell_mset_iff) (metis in_set_conv_nth)

lemma entries_size: "size (entries c) = length (filter (\<lambda>x. cell_entry x \<noteq> None) c)"
proof (induction c)
  case (Cons y c)
  then show ?case by (cases y) (simp_all add: entries_def)
qed (simp add: entries_def)

lemma entries_room:
  assumes "size (entries c) < length c"
  obtains i where "i < length c" "cell_entry (c ! i) = None"
proof -
  have "\<exists>x \<in> set c. cell_entry x = None"
  proof (rule ccontr)
    assume "\<not> (\<exists>x \<in> set c. cell_entry x = None)"
    then have "filter (\<lambda>x. cell_entry x \<noteq> None) c = c" by (simp add: filter_id_conv)
    then show False using assms by (simp add: entries_size)
  qed
  then show thesis using that by (auto simp: in_set_conv_nth)
qed

definition unique_keys :: "('k \<Rightarrow> 'k \<Rightarrow> bool) \<Rightarrow> ('k \<times> 'v) multiset \<Rightarrow> bool" where
  "unique_keys eq M \<longleftrightarrow> (\<forall>k. size {#e \<in># M. eq (fst e) k#} \<le> 1)"

lemma unique_keysD:
  assumes "unique_keys eq M" "equivp eq" "e \<in># M" "e' \<in># M" "eq (fst e) (fst e')"
  shows "e = e'"
proof (rule ccontr)
  assume "e \<noteq> e'"
  then have "{#e, e'#} \<subseteq># M"
    using assms(3,4) by (auto simp: subseteq_mset_def Suc_le_eq)
  then have "{#e, e'#} \<subseteq># {#x \<in># M. eq (fst x) (fst e')#}"
    using assms(2,5) multiset_filter_mono [of "{#e, e'#}" M "\<lambda>x. eq (fst x) (fst e')"]
    by (simp add: equivp_reflp)
  from size_mset_mono [OF this] have "2 \<le> size {#x \<in># M. eq (fst x) (fst e')#}" by simp
  moreover have "size {#x \<in># M. eq (fst x) (fst e')#} \<le> 1"
    using assms(1) by (simp only: unique_keys_def)
  ultimately show False by simp
qed

lemma unique_keys_empty [simp]: "unique_keys eq {#}"
  by (simp add: unique_keys_def)

lemma unique_keys_remove: "unique_keys eq (add_mset e M) \<Longrightarrow> unique_keys eq M"
  unfolding unique_keys_def by (metis (no_types, lifting) filter_mset_add_mset le_SucI
      not_less_eq_eq size_add_mset)

lemma unique_keys_replace:
  assumes "unique_keys eq (add_mset e M)" "fst e' = fst e"
  shows "unique_keys eq (add_mset e' M)"
proof -
  have "size {#x \<in># add_mset e' M. eq (fst x) k#} = size {#x \<in># add_mset e M. eq (fst x) k#}" for k
    using assms(2) by simp
  then show ?thesis using assms(1) unfolding unique_keys_def by metis
qed

lemma unique_keys_add:
  assumes "unique_keys eq M" "equivp eq" "\<And>x. x \<in># M \<Longrightarrow> \<not> eq (fst x) (fst e)"
  shows "unique_keys eq (add_mset e M)"
proof -
  have "{#x \<in># M. eq (fst x) k#} = {#}" if "eq (fst e) k" for k
  proof -
    have "\<not> eq (fst x) k" if "x \<in># M" for x
      using assms(2,3) that \<open>eq (fst e) k\<close> by (meson equivp_symp equivp_transp)
    then show ?thesis by (intro multiset_eqI) (auto simp: not_in_iff [symmetric])
  qed
  then show ?thesis using assms(1) by (auto simp: unique_keys_def)
qed


lemma unique_keys_subset: "unique_keys eq M \<Longrightarrow> N \<subseteq># M \<Longrightarrow> unique_keys eq N"
  unfolding unique_keys_def using size_mset_mono [OF multiset_filter_mono] le_trans by blast

lemma unique_keys_rest:
  assumes "unique_keys eq (add_mset e M)" "equivp eq" "x \<in># M"
  shows "\<not> eq (fst x) (fst e)"
proof
  assume "eq (fst x) (fst e)"
  then have "{#x, e#} \<subseteq># {#y \<in># add_mset e M. eq (fst y) (fst e)#}"
    using multiset_filter_mono [of "{#x, e#}" "add_mset e M" "\<lambda>y. eq (fst y) (fst e)"] assms(3)
      equivp_reflp [OF assms(2)] by simp
  from size_mset_mono [OF this] have "2 \<le> size {#y \<in># add_mset e M. eq (fst y) (fst e)#}" by simp
  moreover have "size {#y \<in># add_mset e M. eq (fst y) (fst e)#} \<le> 1"
    using assms(1) unfolding unique_keys_def by blast
  ultimately show False by simp
qed

end
