(* ===== verification/Unordered_map_correct.thy ===== *)
theory Unordered_map_correct
  imports Probing
begin

text \<open>
  Correctness of \<^verbatim>\<open>static_unordered_map\<close>: the table invariant, what the two probe
  loops return, that every operation keeps the invariant and has its effect on
  the stored entries, and that the rebuild in place terminates and changes
  nothing but the tombstones.
\<close>

section \<open>Invariant\<close>

definition probe_ok :: "nat \<Rightarrow> ('k \<Rightarrow> nat) \<Rightarrow> ('k \<times> 'v) cell list \<Rightarrow> bool" where
  "probe_ok n bucket c \<longleftrightarrow>
     (\<forall>i e. i < n \<and> c ! i = Held e \<longrightarrow>
        (\<exists>d < n. probe_at n (bucket (fst e)) d = i \<and>
                 (\<forall>p < d. c ! probe_at n (bucket (fst e)) p \<noteq> Free)))"

definition hash_respects :: "('k, 'v) unordered_map \<Rightarrow> bool" where
  "hash_respects m \<longleftrightarrow> equivp (um_key_equal m) \<and>
     (\<forall>a b. um_key_equal m a b \<longrightarrow> um_hasher m a = um_hasher m b)"

definition um_inv :: "nat \<Rightarrow> ('k, 'v) unordered_map \<Rightarrow> ('k \<times> 'v) cell list \<Rightarrow> bool" where
  "um_inv cap m c \<longleftrightarrow>
     valid_capacity cap \<and> um_repr cap m c \<and> (\<forall>e. Moving e \<notin> set c) \<and>
     um_size m = size (entries c) \<and> um_size m \<le> cap \<and>
     um_tombstones m = card (where_cell is_marked c) \<and>
     probe_ok (bucket_count cap) (bucket_index cap m) c \<and>
     unique_keys (um_key_equal m) (entries c) \<and> hash_respects m"

lemma um_invD:
  assumes "um_inv cap m c"
  shows "valid_capacity cap" "um_repr cap m c" "\<And>e. Moving e \<notin> set c"
    "um_size m = size (entries c)" "um_size m \<le> cap"
    "um_tombstones m = card (where_cell is_marked c)"
    "probe_ok (bucket_count cap) (bucket_index cap m) c"
    "unique_keys (um_key_equal m) (entries c)" "hash_respects m"
  using assms unfolding um_inv_def by blast+

lemma bucket_index_respects:
  "hash_respects m \<Longrightarrow> um_key_equal m a b \<Longrightarrow> bucket_index cap m a = bucket_index cap m b"
  by (simp add: bucket_index_def hash_key_def hash_respects_def)

lemma hash_respects_equivp: "hash_respects m \<Longrightarrow> equivp (um_key_equal m)"
  by (simp add: hash_respects_def)

lemma um_repr_pos: "um_repr cap m c \<Longrightarrow> 0 < bucket_count cap"
  using bitset_repr_bounds by (auto simp: um_repr_def)

section \<open>The probe loops\<close>

fun matches :: "('k \<Rightarrow> 'k \<Rightarrow> bool) \<Rightarrow> 'k \<Rightarrow> ('k \<times> 'v) cell \<Rightarrow> bool" where
  "matches eq key (Held e) \<longleftrightarrow> eq (fst e) key"
| "matches eq key _ \<longleftrightarrow> False"

lemma matchesE:
  assumes "matches eq key x"
  obtains e where "x = Held e" "eq (fst e) key"
  using assms that by (cases x) auto

text \<open>
  A scan from the key's bucket met \<open>q\<close> cells that are neither empty nor hold the
  key, and ended at an empty cell or after a whole turn.
\<close>

definition scanned :: "nat \<Rightarrow> ('k \<Rightarrow> 'k \<Rightarrow> bool) \<Rightarrow> 'k \<Rightarrow> nat \<Rightarrow> ('k \<times> 'v) cell list \<Rightarrow> nat \<Rightarrow> bool" where
  "scanned n eq key b c q \<longleftrightarrow> (\<forall>p < q. c ! probe_at n b p \<noteq> Free \<and> \<not> matches eq key (c ! probe_at n b p))"

lemma scanned_0 [simp]: "scanned n eq key b c 0"
  by (simp add: scanned_def)

lemma scanned_Suc:
  "scanned n eq key b c (Suc q) \<longleftrightarrow> scanned n eq key b c q \<and>
     c ! probe_at n b q \<noteq> Free \<and> \<not> matches eq key (c ! probe_at n b q)"
  by (auto simp: scanned_def less_Suc_eq)

definition absent :: "('k \<Rightarrow> 'k \<Rightarrow> bool) \<Rightarrow> 'k \<Rightarrow> ('k \<times> 'v) cell list \<Rightarrow> bool" where
  "absent eq key c \<longleftrightarrow> (\<forall>i < length c. \<not> matches eq key (c ! i))"

lemma scanned_absent:
  assumes ok: "probe_ok n (bucket_index cap m) c" and resp: "hash_respects m"
    and n: "length c = n" and q: "q = n \<or> q < n \<and> c ! probe_at n (bucket_index cap m key) q = Free"
    and scan: "scanned n (um_key_equal m) key (bucket_index cap m key) c q"
  shows "absent (um_key_equal m) key c"
proof -
  have False if i: "i < n" "matches (um_key_equal m) key (c ! i)" for i
  proof -
    obtain e where e: "c ! i = Held e" "um_key_equal m (fst e) key"
      using i(2) by (rule matchesE)
    have b: "bucket_index cap m (fst e) = bucket_index cap m key"
      using bucket_index_respects [OF resp e(2)] .
    obtain d where d: "d < n" "probe_at n (bucket_index cap m key) d = i"
      "\<forall>p < d. c ! probe_at n (bucket_index cap m key) p \<noteq> Free"
      using ok i(1) e(1) unfolding probe_ok_def b [symmetric] by blast
    show False
    proof (cases "d < q")
      case True
      then show False using scan d(2) i(2) by (auto simp: scanned_def)
    next
      case False
      then have "c ! probe_at n (bucket_index cap m key) q = Free" using q d(1) by auto
      moreover have "q \<noteq> d" using calculation d(2) e(1) by auto
      ultimately show False using False d(3) by auto
    qed
  qed
  then show ?thesis using n by (auto simp: absent_def)
qed

lemma absent_entries: "absent eq key c \<Longrightarrow> (\<And>e. Moving e \<notin> set c) \<Longrightarrow> e \<in># entries c \<Longrightarrow> \<not> eq (fst e) key"
proof -
  assume *: "absent eq key c" "\<And>e. Moving e \<notin> set c" "e \<in># entries c"
  then obtain i where i: "i < length c" "cell_entry (c ! i) = Some e" by (auto simp: entries_iff)
  have "c ! i \<noteq> Moving e" using *(2) nth_mem [OF i(1)] by metis
  then have "c ! i = Held e" using i(2) by (cases "c ! i") auto
  then show ?thesis using *(1) i(1) by (auto simp: absent_def)
qed

lemma find_existing_from_spec:
  assumes "um_repr cap m c" "valid_capacity cap"
    and "scanned (bucket_count cap) (um_key_equal m) key b c probe" "probe \<le> bucket_count cap"
  shows "(\<exists>i < bucket_count cap. find_existing_from cap m key b probe = Inr (Some i) \<and>
            matches (um_key_equal m) key (c ! i)) \<or>
         (\<exists>q. find_existing_from cap m key b probe = Inr None \<and>
            scanned (bucket_count cap) (um_key_equal m) key b c q \<and>
            (q = bucket_count cap \<or> q < bucket_count cap \<and> c ! probe_at (bucket_count cap) b q = Free))"
  using assms(3,4)
proof (induction "bucket_count cap - probe" arbitrary: probe)
  case 0
  then show ?case by (subst (1 2) find_existing_from.simps) auto
next
  case (Suc d)
  let ?i = "probe_at (bucket_count cap) b probe"
  have p: "probe < bucket_count cap" using Suc.hyps(2) by simp
  have i: "?i < bucket_count cap" using p by simp
  have unfold: "find_existing_from cap m key b probe =
      bnd (um_state cap m ?i) (\<lambda>st.
             if st = Slot_empty then Inr None
             else if st = Slot_occupied
             then bnd (slot_get (um_storage m) ?i) (\<lambda>e.
                    if um_key_equal m (fst e) key then Inr (Some ?i)
                    else find_existing_from cap m key b (probe + 1))
             else find_existing_from cap m key b (probe + 1))"
    using p by (subst find_existing_from.simps) (simp add: probe_mask [OF assms(2)] Let_def)
  have cont: "?case" if "c ! ?i \<noteq> Free" "\<not> matches (um_key_equal m) key (c ! ?i)"
    "find_existing_from cap m key b probe = find_existing_from cap m key b (probe + 1)"
    using Suc.hyps(1) [of "Suc probe"] Suc.hyps(2) Suc.prems(1) p that by (simp add: scanned_Suc)
  show ?case
  proof (cases "c ! ?i")
    case Free
    then show ?thesis
      using Suc.prems(1) p unfold um_state_repr [OF assms(1) i] by auto
  next
    case (Held e)
    then show ?thesis
      using cont unfold um_state_repr [OF assms(1) i] um_slot_get_repr [OF assms(1) i, of e] i
      by (cases "um_key_equal m (fst e) key") auto
  qed (use cont unfold um_state_repr [OF assms(1) i] in auto)
qed

lemma find_existing_spec:
  assumes "um_inv cap m c"
  shows "(\<exists>i < bucket_count cap. find_existing_index cap m key = Inr (Some i) \<and>
            matches (um_key_equal m) key (c ! i)) \<or>
         find_existing_index cap m key = Inr None \<and> absent (um_key_equal m) key c"
proof (cases "cap = 0")
  case True
  then have "size (entries c) = 0" using um_invD(4,5) [OF assms] by simp
  then have "\<not> matches (um_key_equal m) key (c ! i)" if "i < length c" for i
    using entries_iff [of _ c] that by (fastforce elim: matchesE)
  with True show ?thesis by (simp add: find_existing_index_def absent_def)
next
  case False
  note I = um_invD [OF assms]
  have "absent (um_key_equal m) key c"
    if "scanned (bucket_count cap) (um_key_equal m) key (bucket_index cap m key) c q"
      "q = bucket_count cap \<or> q < bucket_count cap \<and>
         c ! probe_at (bucket_count cap) (bucket_index cap m key) q = Free" for q
    using scanned_absent [OF I(7,9) um_repr_length(1) [OF I(2)] that(2,1)] .
  then show ?thesis
    using find_existing_from_spec [OF I(2,1), of key "bucket_index cap m key" 0] False
    by (auto simp: find_existing_index_def)
qed


text \<open>A cell a new key may go to: nothing empty comes before it on the key's run.\<close>

definition insert_spot :: "nat \<Rightarrow> nat \<Rightarrow> ('k \<times> 'v) cell list \<Rightarrow> nat \<Rightarrow> bool" where
  "insert_spot n b c i \<longleftrightarrow> (c ! i = Free \<or> c ! i = Grave) \<and>
     (\<exists>d < n. probe_at n b d = i \<and> (\<forall>p < d. c ! probe_at n b p \<noteq> Free))"

definition first_grave :: "nat \<Rightarrow> nat \<Rightarrow> ('k \<times> 'v) cell list \<Rightarrow> nat \<Rightarrow> nat option \<Rightarrow> bool" where
  "first_grave n b c probe ft \<longleftrightarrow> (case ft of
       None \<Rightarrow> \<forall>p < probe. c ! probe_at n b p \<noteq> Grave
     | Some t \<Rightarrow> \<exists>p < probe. probe_at n b p = t \<and> c ! t = Grave)"

lemma first_grave_spot:
  "first_grave n b c probe (Some t) \<Longrightarrow> scanned n eq key b c probe \<Longrightarrow> probe \<le> n \<Longrightarrow> insert_spot n b c t"
  unfolding first_grave_def insert_spot_def scanned_def option.case
  by (metis less_le_trans order_less_trans)

lemma locate_insert_from_spec:
  assumes "um_repr cap m c" "valid_capacity cap" "\<And>e. Moving e \<notin> set c"
    and "scanned (bucket_count cap) (um_key_equal m) key b c probe" "probe \<le> bucket_count cap"
    and "first_grave (bucket_count cap) b c probe ft"
  shows "(\<exists>i < bucket_count cap. locate_insert_from cap m key b ft probe = Inr (Some i) \<and>
            matches (um_key_equal m) key (c ! i)) \<or>
         (\<exists>r q. locate_insert_from cap m key b ft probe = Inr r \<and>
            scanned (bucket_count cap) (um_key_equal m) key b c q \<and>
            (q = bucket_count cap \<or> q < bucket_count cap \<and> c ! probe_at (bucket_count cap) b q = Free) \<and>
            (case r of
               None \<Rightarrow> q = bucket_count cap \<and> (\<forall>p < q. c ! probe_at (bucket_count cap) b p \<noteq> Grave)
             | Some i \<Rightarrow> insert_spot (bucket_count cap) b c i))"
  using assms(4-)
proof (induction "bucket_count cap - probe" arbitrary: probe ft)
  case 0
  then have "probe = bucket_count cap" by simp
  then show ?case
    using "0.prems" first_grave_spot [OF _ "0.prems"(1,2)]
    by (subst (1 2) locate_insert_from.simps) (auto simp: first_grave_def split: option.splits)
next
  case (Suc d)
  let ?i = "probe_at (bucket_count cap) b probe"
  have p: "probe < bucket_count cap" using Suc.hyps(2) by simp
  have i: "?i < bucket_count cap" "?i < length c"
    using p um_repr_length(1) [OF assms(1)] by auto
  have unfold: "locate_insert_from cap m key b ft probe =
      bnd (um_state cap m ?i) (\<lambda>st.
             if st = Slot_empty then Inr (if ft \<noteq> None then ft else Some ?i)
             else if st = Slot_tombstone
             then locate_insert_from cap m key b (if ft = None then Some ?i else ft) (probe + 1)
             else bnd (slot_get (um_storage m) ?i) (\<lambda>e.
                    if um_key_equal m (fst e) key then Inr (Some ?i)
                    else locate_insert_from cap m key b ft (probe + 1)))"
    using p by (subst locate_insert_from.simps) (simp add: probe_mask [OF assms(2)] Let_def)
  have cont: "?case" if "c ! ?i \<noteq> Free" "\<not> matches (um_key_equal m) key (c ! ?i)"
    "locate_insert_from cap m key b ft probe = locate_insert_from cap m key b ft' (probe + 1)"
    "first_grave (bucket_count cap) b c (Suc probe) ft'" for ft'
    using Suc.hyps(1) [of "Suc probe" ft'] Suc.hyps(2) Suc.prems(1) p that by (simp add: scanned_Suc)
  have keep: "first_grave (bucket_count cap) b c (Suc probe) ft" if "c ! ?i \<noteq> Grave \<or> ft \<noteq> None"
    using Suc.prems(3) that by (auto simp: first_grave_def less_Suc_eq split: option.splits)
  show ?case
  proof (cases "c ! ?i")
    case Free
    then have "insert_spot (bucket_count cap) b c ?i"
      using Suc.prems(1) p by (auto simp: insert_spot_def scanned_def)
    then show ?thesis
      using Free Suc.prems p unfold um_state_repr [OF assms(1) i(1)] first_grave_spot [OF _ Suc.prems(1,2)]
      by (cases ft) auto
  next
    case Grave
    have "first_grave (bucket_count cap) b c (Suc probe) (if ft = None then Some ?i else ft)"
      using Grave keep by (cases ft) (auto simp: first_grave_def)
    then show ?thesis
      using Grave cont unfold um_state_repr [OF assms(1) i(1)] by simp
  next
    case (Held e)
    then show ?thesis
      using cont [OF _ _ _ keep] unfold um_state_repr [OF assms(1) i(1)]
        um_slot_get_repr [OF assms(1) i(1), of e] i
      by (cases "um_key_equal m (fst e) key") auto
  next
    case (Moving e)
    then show ?thesis using assms(3) nth_mem [OF i(2)] by metis
  qed
qed

lemma locate_insert_spec:
  assumes "um_inv cap m c" "0 < cap"
  shows "(\<exists>i < bucket_count cap. locate_insert_index cap m key = Inr (Some i) \<and>
            matches (um_key_equal m) key (c ! i)) \<or>
         (\<exists>i < bucket_count cap. locate_insert_index cap m key = Inr (Some i) \<and>
            absent (um_key_equal m) key c \<and>
            insert_spot (bucket_count cap) (bucket_index cap m key) c i)"
proof -
  note I = um_invD [OF assms(1)]
  let ?n = "bucket_count cap" and ?b = "bucket_index cap m key"
  have b: "?b < ?n" using bucket_index_bound [OF I(1)] .
  have len: "length c = ?n" using um_repr_length(1) [OF I(2)] .
  have fg: "first_grave ?n ?b c 0 None" by (simp add: first_grave_def)
  have L: "locate_insert_from cap m key ?b None 0 = locate_insert_index cap m key"
    using assms(2) by (simp add: locate_insert_index_def)
  consider i where "i < ?n" "locate_insert_index cap m key = Inr (Some i)" "matches (um_key_equal m) key (c ! i)"
    | r q where "locate_insert_index cap m key = Inr r" "scanned ?n (um_key_equal m) key ?b c q"
      "q = ?n \<or> q < ?n \<and> c ! probe_at ?n ?b q = Free"
      "case r of None \<Rightarrow> q = ?n \<and> (\<forall>p < q. c ! probe_at ?n ?b p \<noteq> Grave) | Some i \<Rightarrow> insert_spot ?n ?b c i"
    using locate_insert_from_spec [OF I(2,1,3) scanned_0 le0 fg, where key = key, unfolded L] by blast
  then show ?thesis
  proof cases
    case 2
    have absent: "absent (um_key_equal m) key c"
      using scanned_absent [OF I(7,9) len 2(3,2)] .
    show ?thesis
    proof (cases r)
      case None
      have "size (entries c) < length c"
        using I(4,5) bucket_count_bounds(2) [OF I(1) assms(2)] assms(2) len by simp
      then obtain i where i: "i < ?n" "cell_entry (c ! i) = None"
        using entries_room len by metis
      obtain d where d: "d < ?n" "probe_at ?n ?b d = i" using probe_at_reaches [OF b i(1)] .
      have "c ! i \<noteq> Free" "c ! i \<noteq> Grave"
        using 2(2,4) None d by (auto simp: scanned_def)
      then show ?thesis using i(2) by (cases "c ! i") auto
    next
      case (Some i)
      then have "insert_spot ?n ?b c i" using 2(4) by simp
      moreover from this have "i < ?n" using b by (auto simp: insert_spot_def)
      ultimately show ?thesis using Some 2(1) absent by auto
    qed
  qed auto
qed


section \<open>Changing one cell\<close>

lemma probe_ok_mono:
  assumes "probe_ok n bucket c" "0 < n"
    and "\<And>j. j < n \<Longrightarrow> c ! j \<noteq> Free \<Longrightarrow> c' ! j \<noteq> Free"
    and "\<And>j e'. j < n \<Longrightarrow> c' ! j = Held e' \<Longrightarrow> (\<exists>e. c ! j = Held e \<and> fst e = fst e') \<or>
           (\<exists>d < n. probe_at n (bucket (fst e')) d = j \<and> (\<forall>p < d. c ! probe_at n (bucket (fst e')) p \<noteq> Free))"
  shows "probe_ok n bucket c'"
  unfolding probe_ok_def
proof (intro allI impI)
  fix j e' assume "j < n \<and> c' ! j = Held e'"
  then have j: "j < n" "c' ! j = Held e'" by auto
  obtain d where d: "d < n" "probe_at n (bucket (fst e')) d = j"
    "\<forall>p < d. c ! probe_at n (bucket (fst e')) p \<noteq> Free"
    using assms(1,4) j unfolding probe_ok_def by metis
  have "\<forall>p < d. c' ! probe_at n (bucket (fst e')) p \<noteq> Free"
    using assms(2,3) d(3) by simp
  with d(1,2) show "\<exists>d < n. probe_at n (bucket (fst e')) d = j \<and>
      (\<forall>p < d. c' ! probe_at n (bucket (fst e')) p \<noteq> Free)" by blast
qed

lemma bucket_index_hasher: "um_hasher m' = um_hasher m \<Longrightarrow> bucket_index cap m' = bucket_index cap m"
  by (rule ext) (simp add: bucket_index_def)

lemma hash_respects_fields:
  "um_hasher m' = um_hasher m \<Longrightarrow> um_key_equal m' = um_key_equal m \<Longrightarrow> hash_respects m' = hash_respects m"
  by (simp add: hash_respects_def)

lemma no_moving_update:
  assumes "\<And>e. Moving e \<notin> set c" "\<And>e. x \<noteq> Moving e"
  shows "Moving e \<notin> set (c[i := x])"
  using assms set_update_subset_insert [of c i x] by (metis insert_iff subsetD)

lemma finite_where_cell [simp]: "finite (where_cell P c)"
  by (rule finite_subset [of _ "{..<length c}"]) (auto simp: where_cell_def)

lemma card_marked_update:
  assumes "i < length c"
  shows "is_marked x \<Longrightarrow> \<not> is_marked (c ! i) \<Longrightarrow>
      card (where_cell is_marked (c[i := x])) = card (where_cell is_marked c) + 1"
    and "\<not> is_marked x \<Longrightarrow> is_marked (c ! i) \<Longrightarrow>
      card (where_cell is_marked (c[i := x])) = card (where_cell is_marked c) - 1"
    and "is_marked x = is_marked (c ! i) \<Longrightarrow>
      card (where_cell is_marked (c[i := x])) = card (where_cell is_marked c)"
proof -
  have "i \<in> where_cell is_marked c \<longleftrightarrow> is_marked (c ! i)" using assms by (simp add: where_cell_def)
  then show "is_marked x \<Longrightarrow> \<not> is_marked (c ! i) \<Longrightarrow>
      card (where_cell is_marked (c[i := x])) = card (where_cell is_marked c) + 1"
    "\<not> is_marked x \<Longrightarrow> is_marked (c ! i) \<Longrightarrow>
      card (where_cell is_marked (c[i := x])) = card (where_cell is_marked c) - 1"
    "is_marked x = is_marked (c ! i) \<Longrightarrow>
      card (where_cell is_marked (c[i := x])) = card (where_cell is_marked c)"
    using assms by (auto simp: where_cell_update insert_absorb)
qed

text \<open>A new key in an insertion spot.\<close>

lemma table_insert:
  fixes m :: "('k, 'v) unordered_map" and v :: 'v
  assumes "um_inv cap m c" "um_size m < cap" "i < bucket_count cap"
    and "absent (um_key_equal m) key c"
    and "insert_spot (bucket_count cap) (bucket_index cap m key) c i"
  defines "c' \<equiv> c[i := Held (key, v)]"
  assumes "um_repr cap m' c'" "um_size m' = um_size m + 1"
    and "um_tombstones m' = (if c ! i = Grave then um_tombstones m - 1 else um_tombstones m)"
    and "um_hasher m' = um_hasher m" "um_key_equal m' = um_key_equal m"
  shows "um_inv cap m' c'" and "entries c' = add_mset (key, v) (entries c)"
proof -
  note I = um_invD [OF assms(1)]
  have i: "i < length c" using assms(3) um_repr_length(1) [OF I(2)] by simp
  have spot: "c ! i = Free \<or> c ! i = Grave" using assms(5) by (simp add: insert_spot_def)
  show ent: "entries c' = add_mset (key, v) (entries c)"
    using entries_update [OF i, of "Held (key, v)"] spot by (auto simp: c'_def)
  have "probe_ok (bucket_count cap) (bucket_index cap m) c'"
  proof (rule probe_ok_mono [OF I(7) bucket_count_pos [OF I(1)]])
    show "c' ! j \<noteq> Free" if "j < bucket_count cap" "c ! j \<noteq> Free" for j
      using that i by (cases "j = i") (auto simp: c'_def)
    show "(\<exists>e. c ! j = Held e \<and> fst e = fst e') \<or> (\<exists>d < bucket_count cap.
        probe_at (bucket_count cap) (bucket_index cap m (fst e')) d = j \<and>
        (\<forall>p < d. c ! probe_at (bucket_count cap) (bucket_index cap m (fst e')) p \<noteq> Free))"
      if "j < bucket_count cap" "c' ! j = Held e'" for j e'
      using that assms(5) i by (cases "j = i") (auto simp: c'_def insert_spot_def)
  qed
  moreover have "unique_keys (um_key_equal m) (entries c')"
    unfolding ent using absent_entries [OF assms(4) I(3)]
    by (intro unique_keys_add I(8) hash_respects_equivp I(9)) auto
  moreover have "card (where_cell is_marked c') = um_tombstones m'"
    using card_marked_update [OF i, of "Held (key, v)"] spot assms(9) I(6) by (auto simp: c'_def)
  moreover have "Moving e \<notin> set c'" for e
    unfolding c'_def by (rule no_moving_update [OF I(3)]) auto
  ultimately show "um_inv cap m' c'"
    unfolding um_inv_def using assms(2,7,8,10,11) I(1,4,9) ent bucket_index_hasher [OF assms(10)]
      hash_respects_fields [OF assms(10,11)] by auto
qed

lemma um_place_at_inv:
  assumes "um_inv cap m c" "um_size m < cap" "i < bucket_count cap"
    and "absent (um_key_equal m) key c"
    and "insert_spot (bucket_count cap) (bucket_index cap m key) c i"
  shows "\<exists>m'. um_place_at cap (Some i) key v m = Inr m' \<and> um_inv cap m' (c[i := Held (key, v)]) \<and>
           entries (c[i := Held (key, v)]) = add_mset (key, v) (entries c) \<and>
           um_hasher m' = um_hasher m \<and> um_key_equal m' = um_key_equal m"
proof -
  note I = um_invD [OF assms(1)]
  have spot: "c ! i = Free \<or> c ! i = Grave" using assms(5) by (simp add: insert_spot_def)
  then have ent: "cell_entry (c ! i) = None" by auto
  let ?st = "(um_storage m)[i := Some (key, v)]"
  have new: "slot_new (um_storage m) i (key, v) = Inr ?st"
    using ent um_slot_repr [OF I(2) assms(3)] um_repr_length(2) [OF I(2)] assms(3) by (simp add: slot_new_def)
  let ?m2 = "m\<lparr>um_storage := ?st,
      um_tombstones := if c ! i = Grave then um_tombstones m - 1 else um_tombstones m\<rparr>"
  obtain occupied tombstone where bits:
    "um_set_state cap i Slot_occupied ?m2 = Inr (?m2\<lparr>um_occupied := occupied, um_tombstone := tombstone\<rparr>)"
    "bitset_repr (bucket_count cap) occupied (insert i (where_cell is_held c))"
    "bitset_repr (bucket_count cap) tombstone (where_cell is_marked c - {i})"
    by (rule um_set_state_bits [OF I(2) assms(3), where s = Slot_occupied]) simp
  let ?m' = "?m2\<lparr>um_occupied := occupied, um_tombstone := tombstone, um_size := um_size m + 1\<rparr>"
  have "um_place_at cap (Some i) key v m = Inr ?m'"
    using new bits(1) um_state_repr [OF I(2) assms(3)] assms(3) spot
    by (auto simp: um_place_at_def Let_def)
  moreover have "um_repr cap ?m' (c[i := Held (key, v)])"
    by (rule um_repr_update [OF I(2) assms(3)]) (use bits in auto)
  then have "um_inv cap ?m' (c[i := Held (key, v)])"
    "entries (c[i := Held (key, v)]) = add_mset (key, v) (entries c)"
    by (rule table_insert [OF assms]; simp)+
  ultimately show ?thesis by auto
qed


text \<open>Removing and overwriting an element.\<close>

lemma um_destroy_at_repr:
  fixes m :: "('k, 'v) unordered_map"
  assumes "um_repr cap m c" "i < bucket_count cap" "c ! i = Held e"
    and "s = Slot_tombstone \<and> x = Grave \<or> s = Slot_empty \<and> x = Free"
  obtains m' where "um_destroy_at cap i s m = Inr m'" "um_repr cap m' (c[i := x])"
    "um_size m' = um_size m - 1"
    "um_tombstones m' = (if s = Slot_tombstone then um_tombstones m + 1 else um_tombstones m)"
    "um_hasher m' = um_hasher m" "um_key_equal m' = um_key_equal m"
proof -
  obtain occupied tombstone where bits:
    "um_set_state cap i s m = Inr (m\<lparr>um_occupied := occupied, um_tombstone := tombstone\<rparr>)"
    "bitset_repr (bucket_count cap) occupied (where_cell is_held c - {i})"
    "bitset_repr (bucket_count cap) tombstone
       (if s = Slot_tombstone then insert i (where_cell is_marked c) else where_cell is_marked c - {i})"
    by (rule um_set_state_bits [OF assms(1,2), where s = s]) (use assms(4) in auto)
  have st: "slot_destroy (um_storage m) i = Inr ((um_storage m)[i := None])"
    using assms(2,3) um_slot_repr [OF assms(1,2)] um_repr_length(2) [OF assms(1)] by (simp add: slot_destroy_def)
  let ?m' = "m\<lparr>um_storage := (um_storage m)[i := None], um_occupied := occupied, um_tombstone := tombstone,
      um_size := um_size m - 1, um_tombstones := if s = Slot_tombstone then um_tombstones m + 1 else um_tombstones m\<rparr>"
  show thesis
  proof (rule that [of ?m'])
    show "um_destroy_at cap i s m = Inr ?m'"
      using bits(1) st by (simp add: um_destroy_at_def Let_def)
    show "um_repr cap ?m' (c[i := x])"
      by (rule um_repr_update [OF assms(1,2)]) (use bits assms(4) in auto)
  qed simp_all
qed

lemma entries_split:
  assumes "i < length c" "c ! i = Held e"
  shows "entries c = add_mset e (entries (c[i := Free]))"
    and "entries (c[i := Grave]) = entries (c[i := Free])"
    and "entries (c[i := Held e']) = add_mset e' (entries (c[i := Free]))"
proof -
  have u: "add_mset e (entries (c[i := Free])) = entries c"
    "add_mset e (entries (c[i := Grave])) = entries c"
    "add_mset e (entries (c[i := Held e'])) = add_mset e' (entries c)"
    using entries_update [OF assms(1), of Free] entries_update [OF assms(1), of Grave]
      entries_update [OF assms(1), of "Held e'"] assms(2) by auto
  show "entries c = add_mset e (entries (c[i := Free]))"
    "entries (c[i := Grave]) = entries (c[i := Free])"
    "entries (c[i := Held e']) = add_mset e' (entries (c[i := Free]))"
    using u by (metis add_mset_commute add_mset_remove_trivial)+
qed

lemma um_erase_inv:
  assumes "um_inv cap m c" "i < bucket_count cap" "c ! i = Held e"
  shows "\<exists>m'. um_destroy_at cap i Slot_tombstone m = Inr m' \<and> um_inv cap m' (c[i := Grave]) \<and>
           entries c = add_mset e (entries (c[i := Grave])) \<and>
           um_hasher m' = um_hasher m \<and> um_key_equal m' = um_key_equal m"
proof -
  note I = um_invD [OF assms(1)]
  have i: "i < length c" using assms(2) um_repr_length(1) [OF I(2)] by simp
  obtain m' where m': "um_destroy_at cap i Slot_tombstone m = Inr m'" "um_repr cap m' (c[i := Grave])"
    "um_size m' = um_size m - 1" "um_tombstones m' = um_tombstones m + 1"
    "um_hasher m' = um_hasher m" "um_key_equal m' = um_key_equal m"
    by (rule um_destroy_at_repr [OF I(2) assms(2,3), of Slot_tombstone Grave]) auto
  have ent: "entries c = add_mset e (entries (c[i := Grave]))"
    using entries_split [OF i assms(3)] by simp
  have "probe_ok (bucket_count cap) (bucket_index cap m) (c[i := Grave])"
  proof (rule probe_ok_mono [OF I(7) bucket_count_pos [OF I(1)]])
    show "c[i := Grave] ! j \<noteq> Free" if "c ! j \<noteq> Free" for j
      using that i by (cases "j = i") auto
    show "(\<exists>e. c ! j = Held e \<and> fst e = fst e') \<or> (\<exists>d < bucket_count cap.
        probe_at (bucket_count cap) (bucket_index cap m (fst e')) d = j \<and>
        (\<forall>p < d. c ! probe_at (bucket_count cap) (bucket_index cap m (fst e')) p \<noteq> Free))"
      if "c[i := Grave] ! j = Held e'" for j e'
      using that i by (cases "j = i") auto
  qed
  moreover have "unique_keys (um_key_equal m) (entries (c[i := Grave]))"
    using unique_keys_remove I(8) unfolding ent .
  moreover have "card (where_cell is_marked (c[i := Grave])) = um_tombstones m'"
    using card_marked_update(1) [OF i, of Grave] assms(3) m'(4) I(6) by simp
  moreover have "Moving x \<notin> set (c[i := Grave])" for x
    by (rule no_moving_update [OF I(3)]) auto
  ultimately have "um_inv cap m' (c[i := Grave])"
    unfolding um_inv_def using m' I(1,4,5,9) ent bucket_index_hasher [OF m'(5)]
      hash_respects_fields [OF m'(5,6)] by auto
  then show ?thesis using m' ent by auto
qed

lemma um_assign_inv:
  fixes m :: "('k, 'v) unordered_map" and v :: 'v
  assumes "um_inv cap m c" "i < bucket_count cap" "c ! i = Held e"
  defines "m' \<equiv> m\<lparr>um_storage := (um_storage m)[i := Some (fst e, v)]\<rparr>"
  shows "slot_assign (um_storage m) i (fst e, v) = Inr ((um_storage m)[i := Some (fst e, v)])"
    and "um_inv cap m' (c[i := Held (fst e, v)])"
proof -
  note I = um_invD [OF assms(1)]
  have i: "i < length c" using assms(2) um_repr_length(1) [OF I(2)] by simp
  show "slot_assign (um_storage m) i (fst e, v) = Inr ((um_storage m)[i := Some (fst e, v)])"
    using assms(2,3) um_slot_repr [OF I(2) assms(2)] um_repr_length(2) [OF I(2)] by (simp add: slot_assign_def)
  have held: "i \<in> where_cell is_held c" "i \<notin> where_cell is_marked c"
    using i assms(3) by (auto simp: where_cell_def)
  have "um_repr cap m' (c[i := Held (fst e, v)])"
    by (rule um_repr_update [OF I(2) assms(2)])
      (use um_repr_bits [OF I(2)] held in \<open>auto simp: m'_def insert_absorb\<close>)
  moreover have "probe_ok (bucket_count cap) (bucket_index cap m) (c[i := Held (fst e, v)])"
  proof (rule probe_ok_mono [OF I(7) bucket_count_pos [OF I(1)]])
    show "c[i := Held (fst e, v)] ! j \<noteq> Free" if "c ! j \<noteq> Free" for j
      using that i by (cases "j = i") auto
    show "(\<exists>e. c ! j = Held e \<and> fst e = fst e') \<or> (\<exists>d < bucket_count cap.
        probe_at (bucket_count cap) (bucket_index cap m (fst e')) d = j \<and>
        (\<forall>p < d. c ! probe_at (bucket_count cap) (bucket_index cap m (fst e')) p \<noteq> Free))"
      if "c[i := Held (fst e, v)] ! j = Held e'" for j e'
      using that i assms(3) by (cases "j = i") auto
  qed
  moreover have "unique_keys (um_key_equal m) (entries (c[i := Held (fst e, v)]))"
    using I(8) unfolding entries_split(1) [OF i assms(3)] entries_split(3) [OF i assms(3)]
    by (rule unique_keys_replace) simp
  moreover have "size (entries (c[i := Held (fst e, v)])) = size (entries c)"
    unfolding entries_split(1) [OF i assms(3)] entries_split(3) [OF i assms(3)] by simp
  moreover have "card (where_cell is_marked (c[i := Held (fst e, v)])) = card (where_cell is_marked c)"
    using card_marked_update(3) [OF i] assms(3) by simp
  moreover have "Moving x \<notin> set (c[i := Held (fst e, v)])" for x
    by (rule no_moving_update [OF I(3)]) auto
  moreover have fns: "um_hasher m' = um_hasher m" "um_key_equal m' = um_key_equal m"
    by (simp_all add: m'_def)
  moreover note bucket_index_hasher [OF fns(1), of cap] hash_respects_fields [OF fns]
  ultimately show "um_inv cap m' (c[i := Held (fst e, v)])"
    unfolding um_inv_def using I(1,4,5,6,9) by (auto simp: m'_def)
qed

end
