(* ===== verification/Rebuild.thy ===== *)
theory Rebuild
  imports Unordered_map_correct
begin

text \<open>
  \<^verbatim>\<open>rehash_in_place\<close>: both of its unbounded loops end, every element is placed
  where lookups find it, no element is lost or duplicated, and no tombstone is
  left. During the rebuild a placed element is only ever preceded by placed
  elements on its probe run, and a placed element never moves again.
\<close>

section \<open>Invariant of the rebuild\<close>

definition placed_ok :: "nat \<Rightarrow> ('k \<Rightarrow> nat) \<Rightarrow> ('k \<times> 'v) cell list \<Rightarrow> bool" where
  "placed_ok n bucket c \<longleftrightarrow>
     (\<forall>i e. i < n \<and> c ! i = Held e \<longrightarrow>
        (\<exists>d < n. probe_at n (bucket (fst e)) d = i \<and>
                 (\<forall>p < d. is_held (c ! probe_at n (bucket (fst e)) p))))"

lemma placed_ok_probe_ok: "placed_ok n bucket c \<Longrightarrow> probe_ok n bucket c"
  unfolding placed_ok_def probe_ok_def by (metis is_held.simps(2))

text \<open>\<open>extra\<close> is the element in \<^verbatim>\<open>carry\<close>, if any.\<close>

definition rebuilding ::
  "nat \<Rightarrow> ('k, 'v) unordered_map \<Rightarrow> ('k \<times> 'v) cell list \<Rightarrow> ('k \<times> 'v) multiset \<Rightarrow> ('k \<times> 'v) multiset \<Rightarrow> bool" where
  "rebuilding cap m c extra M \<longleftrightarrow>
     valid_capacity cap \<and> um_repr cap m c \<and> Grave \<notin> set c \<and>
     entries c + extra = M \<and> size M < bucket_count cap \<and>
     placed_ok (bucket_count cap) (bucket_index cap m) c"

lemma rebuildingD:
  assumes "rebuilding cap m c extra M"
  shows "valid_capacity cap" "um_repr cap m c" "Grave \<notin> set c" "entries c + extra = M"
    "size M < bucket_count cap" "placed_ok (bucket_count cap) (bucket_index cap m) c"
  using assms by (simp_all add: rebuilding_def)

text \<open>What a step leaves alone.\<close>

definition same_rest :: "('k, 'v) unordered_map \<Rightarrow> ('k, 'v) unordered_map \<Rightarrow> bool" where
  "same_rest m m' \<longleftrightarrow> um_hasher m' = um_hasher m \<and> um_key_equal m' = um_key_equal m \<and>
     um_size m' = um_size m \<and> um_tombstones m' = um_tombstones m"

lemma same_rest_refl [simp]: "same_rest m m"
  by (simp add: same_rest_def)

lemma same_rest_trans: "same_rest m m' \<Longrightarrow> same_rest m' m'' \<Longrightarrow> same_rest m m''"
  by (simp add: same_rest_def)

text \<open>Some cell holds no placed element, so the search for a target ends.\<close>

lemma not_all_placed:
  assumes "rebuilding cap m c extra M"
  obtains i where "i < bucket_count cap" "\<not> is_held (c ! i)"
proof -
  note R = rebuildingD [OF assms]
  have "size (entries c) < length c"
    using R(4,5) um_repr_length(1) [OF R(2)] by (metis le_less_trans size_union le_add1)
  then obtain i where "i < length c" "cell_entry (c ! i) = None" by (rule entries_room)
  then show thesis using that [of i] um_repr_length(1) [OF R(2)] by (cases "c ! i") auto
qed

lemma rebuild_target_spec:
  assumes "um_repr cap m c" "valid_capacity cap" "b < bucket_count cap"
    and "\<And>p. p < d \<Longrightarrow> is_held (c ! probe_at (bucket_count cap) b p)"
    and "d \<le> d'" "d' < bucket_count cap" "\<not> is_held (c ! probe_at (bucket_count cap) b d')"
    and "d' - d < fuel"
  shows "\<exists>t < bucket_count cap. rebuild_target fuel cap m (probe_at (bucket_count cap) b d) =
            Inr (probe_at (bucket_count cap) b t) \<and>
          \<not> is_held (c ! probe_at (bucket_count cap) b t) \<and>
          (\<forall>p < t. is_held (c ! probe_at (bucket_count cap) b p))"
  using assms(4-)
proof (induction fuel arbitrary: d)
  case (Suc fuel)
  let ?i = "probe_at (bucket_count cap) b d"
  have n: "0 < bucket_count cap" using assms(3) by simp
  have st: "um_state cap m ?i = Inr (cell_state (c ! ?i))"
    using um_state_repr [OF assms(1)] n by simp
  show ?case
  proof (cases "is_held (c ! ?i)")
    case True
    then have "d \<noteq> d'" using Suc.prems(4) by auto
    have nxt: "(?i + 1) AND (bucket_count cap - 1) = probe_at (bucket_count cap) b (Suc d)"
      using probe_mask(1) [OF assms(2), of ?i 1] by (simp add: probe_at_def mod_Suc_eq)
    have "cell_state (c ! ?i) = Slot_occupied" using True by (cases "c ! ?i") auto
    then have "rebuild_target (Suc fuel) cap m ?i =
        rebuild_target fuel cap m (probe_at (bucket_count cap) b (Suc d))"
      using st nxt by simp
    moreover have "is_held (c ! probe_at (bucket_count cap) b p)" if "p < Suc d" for p
      using that True Suc.prems(1) by (cases "p = d") auto
    moreover have "Suc d \<le> d'" "d' - Suc d < fuel" using Suc.prems(2,5) \<open>d \<noteq> d'\<close> by auto
    ultimately show ?thesis using Suc.IH [of "Suc d"] Suc.prems(3,4) by presburger
  next
    case False
    then have "cell_state (c ! ?i) \<noteq> Slot_occupied" by (cases "c ! ?i") auto
    then have "rebuild_target (Suc fuel) cap m ?i = Inr ?i" using st by simp
    moreover have "d < bucket_count cap" using Suc.prems(2,3) by simp
    ultimately show ?thesis using False Suc.prems(1) by blast
  qed
qed simp

lemma rebuild_target_found:
  assumes "rebuilding cap m c extra M"
  shows "\<exists>t < bucket_count cap.
          rebuild_target (bucket_count cap) cap m (bucket_index cap m key) =
            Inr (probe_at (bucket_count cap) (bucket_index cap m key) t) \<and>
          \<not> is_held (c ! probe_at (bucket_count cap) (bucket_index cap m key) t) \<and>
          (\<forall>p < t. is_held (c ! probe_at (bucket_count cap) (bucket_index cap m key) p))"
proof -
  note R = rebuildingD [OF assms]
  let ?b = "bucket_index cap m key"
  have b: "?b < bucket_count cap" by (rule bucket_index_bound [OF R(1)])
  obtain i where i: "i < bucket_count cap" "\<not> is_held (c ! i)"
    by (rule not_all_placed [OF assms])
  obtain d where d: "d < bucket_count cap" "probe_at (bucket_count cap) ?b d = i"
    using probe_at_reaches [OF b i(1)] .
  have "probe_at (bucket_count cap) ?b 0 = ?b" using b by (simp add: probe_at_def)
  then show ?thesis
    using rebuild_target_spec [OF R(2,1) b, of 0 d "bucket_count cap"] d i by simp
qed


section \<open>One step\<close>

lemma placed_ok_update:
  assumes "placed_ok n bucket c" "length c = n" "i < n" "\<not> is_held (c ! i)"
    and "\<And>e. x = Held e \<Longrightarrow> \<exists>d < n. probe_at n (bucket (fst e)) d = i \<and>
           (\<forall>p < d. is_held (c ! probe_at n (bucket (fst e)) p))"
  shows "placed_ok n bucket (c[i := x])"
  unfolding placed_ok_def
proof (intro allI impI)
  fix j e assume "j < n \<and> c[i := x] ! j = Held e"
  then have j: "j < n" "c[i := x] ! j = Held e" by auto
  obtain d where d: "d < n" "probe_at n (bucket (fst e)) d = j"
    "\<forall>p < d. is_held (c ! probe_at n (bucket (fst e)) p)"
  proof (cases "j = i")
    case True
    then show thesis using assms(2,3,5) j that by auto
  next
    case False
    then have "c ! j = Held e" using j(2) by simp
    then show thesis using assms(1) j(1) that unfolding placed_ok_def by blast
  qed
  have "is_held (c[i := x] ! probe_at n (bucket (fst e)) p)" if "p < d" for p
    using d(3) that assms(4) by (cases "probe_at n (bucket (fst e)) p = i") auto
  with d show "\<exists>d < n. probe_at n (bucket (fst e)) d = j \<and>
      (\<forall>p < d. is_held (c[i := x] ! probe_at n (bucket (fst e)) p))" by blast
qed

lemma set_update_other: "y \<notin> set c \<Longrightarrow> x \<noteq> y \<Longrightarrow> y \<notin> set (c[i := x])"
  using set_update_subset_insert [of c i x] by blast

text \<open>The number of elements still to place.\<close>

definition unplaced :: "'e cell list \<Rightarrow> nat" where
  "unplaced c = card (where_cell is_marked c)"

lemma rebuild_settle_free:
  fixes m :: "('k, 'v) unordered_map"
  assumes "rebuilding cap m c {#carry#} M" "t < bucket_count cap" "c ! t = Free"
    and "\<exists>d < bucket_count cap. probe_at (bucket_count cap) (bucket_index cap m (fst carry)) d = t \<and>
           (\<forall>p < d. is_held (c ! probe_at (bucket_count cap) (bucket_index cap m (fst carry)) p))"
  obtains m' where
    "bnd (slot_new (um_storage m) t carry) (\<lambda>st.
       bnd (bitset_set (bucket_count cap) t (um_occupied m)) (\<lambda>occupied.
         Inr (m\<lparr>um_storage := st, um_occupied := occupied\<rparr>))) = Inr m'"
    "rebuilding cap m' (c[t := Held carry]) {#} M" "same_rest m m'"
proof -
  note R = rebuildingD [OF assms(1)]
  have t: "t < length c" using assms(2) um_repr_length(1) [OF R(2)] by simp
  have new: "slot_new (um_storage m) t carry = Inr ((um_storage m)[t := Some carry])"
    using assms(2,3) um_slot_repr [OF R(2) assms(2)] um_repr_length(2) [OF R(2)] by (simp add: slot_new_def)
  obtain occupied where occ: "bitset_set (bucket_count cap) t (um_occupied m) = Inr occupied"
    "bitset_repr (bucket_count cap) occupied (insert t (where_cell is_held c))"
    using bitset_set_repr [OF um_repr_bits(1) [OF R(2)] assms(2)] by blast
  let ?m' = "m\<lparr>um_storage := (um_storage m)[t := Some carry], um_occupied := occupied\<rparr>"
  have fns: "bucket_index cap ?m' = bucket_index cap m" by (rule bucket_index_hasher) simp
  have "t \<notin> where_cell is_marked c" using assms(3) by (simp add: where_cell_def)
  then have "um_repr cap ?m' (c[t := Held carry])"
    by (intro um_repr_update [OF R(2) assms(2)]) (use occ um_repr_bits(2) [OF R(2)] in auto)
  moreover have "entries (c[t := Held carry]) = entries c + {#carry#}"
    using entries_update [OF t, of "Held carry"] assms(3) by simp
  moreover have "placed_ok (bucket_count cap) (bucket_index cap m) (c[t := Held carry])"
    by (rule placed_ok_update [OF R(6) um_repr_length(1) [OF R(2)] assms(2)]) (use assms(3,4) in auto)
  moreover have "Grave \<notin> set (c[t := Held carry])" using R(3) by (rule set_update_other) simp
  ultimately have "rebuilding cap ?m' (c[t := Held carry]) {#} M"
    using R(1,4,5) fns by (simp add: rebuilding_def)
  moreover have "same_rest m ?m'" by (simp add: same_rest_def)
  ultimately show thesis using that new occ(1) by simp
qed


lemma rebuild_settle_moving:
  fixes m :: "('k, 'v) unordered_map"
  assumes "rebuilding cap m c {#carry#} M" "t < bucket_count cap" "c ! t = Moving displaced"
    and "\<exists>d < bucket_count cap. probe_at (bucket_count cap) (bucket_index cap m (fst carry)) d = t \<and>
           (\<forall>p < d. is_held (c ! probe_at (bucket_count cap) (bucket_index cap m (fst carry)) p))"
  obtains occupied tombstone where
    "slot_get (um_storage m) t = Inr displaced"
    "slot_destroy (um_storage m) t = Inr ((um_storage m)[t := None])"
    "slot_new ((um_storage m)[t := None]) t carry = Inr ((um_storage m)[t := Some carry])"
    "bitset_reset (bucket_count cap) t (um_tombstone m) = Inr tombstone"
    "bitset_set (bucket_count cap) t (um_occupied m) = Inr occupied"
    "rebuilding cap (m\<lparr>um_storage := (um_storage m)[t := Some carry], um_tombstone := tombstone,
       um_occupied := occupied\<rparr>) (c[t := Held carry]) {#displaced#} M"
proof -
  note R = rebuildingD [OF assms(1)]
  have t: "t < length c" "t < length (um_storage m)"
    using assms(2) um_repr_length [OF R(2)] by simp_all
  have slot: "um_storage m ! t = Some displaced" using um_slot_repr [OF R(2) assms(2)] assms(3) by simp
  obtain occupied where occ: "bitset_set (bucket_count cap) t (um_occupied m) = Inr occupied"
    "bitset_repr (bucket_count cap) occupied (insert t (where_cell is_held c))"
    using bitset_set_repr [OF um_repr_bits(1) [OF R(2)] assms(2)] by blast
  obtain tombstone where tomb: "bitset_reset (bucket_count cap) t (um_tombstone m) = Inr tombstone"
    "bitset_repr (bucket_count cap) tombstone (where_cell is_marked c - {t})"
    using bitset_reset_repr [OF um_repr_bits(2) [OF R(2)] assms(2)] by blast
  let ?m' = "m\<lparr>um_storage := (um_storage m)[t := Some carry], um_tombstone := tombstone,
       um_occupied := occupied\<rparr>"
  have fns: "bucket_index cap ?m' = bucket_index cap m" by (rule bucket_index_hasher) simp
  have "um_repr cap ?m' (c[t := Held carry])"
    by (rule um_repr_update [OF R(2) assms(2)]) (use occ tomb in auto)
  moreover have "entries (c[t := Held carry]) + {#displaced#} = entries c + {#carry#}"
    using entries_update [OF t(1), of "Held carry"] assms(3) by simp
  moreover have "placed_ok (bucket_count cap) (bucket_index cap m) (c[t := Held carry])"
    by (rule placed_ok_update [OF R(6) um_repr_length(1) [OF R(2)] assms(2)]) (use assms(3,4) in auto)
  moreover have "Grave \<notin> set (c[t := Held carry])" using R(3) by (rule set_update_other) simp
  ultimately have "rebuilding cap ?m' (c[t := Held carry]) {#displaced#} M"
    using R(1,4,5) fns by (simp add: rebuilding_def)
  then show thesis
    using that t slot occ(1) tomb(1) by (simp add: slot_get_def slot_destroy_def slot_new_def)
qed

lemma unplaced_update:
  "t < length c \<Longrightarrow> is_marked (c ! t) \<Longrightarrow> \<not> is_marked x \<Longrightarrow> unplaced (c[t := x]) < unplaced c"
proof -
  assume *: "t < length c" "is_marked (c ! t)" "\<not> is_marked x"
  then have "t \<in> where_cell is_marked c" by (simp add: where_cell_def)
  then have "card (where_cell is_marked c - {t}) < card (where_cell is_marked c)"
    by (rule card_Diff1_less [OF finite_where_cell])
  then show ?thesis
    using * by (simp only: unplaced_def where_cell_update if_False)
qed

lemma rebuild_carry_spec:
  assumes "rebuilding cap m c {#carry#} M" "unplaced c < fuel"
  shows "\<exists>m' c'. rebuild_carry fuel cap carry m = Inr m' \<and> rebuilding cap m' c' {#} M \<and>
           (\<forall>j < bucket_count cap. is_marked (c' ! j) \<longrightarrow> is_marked (c ! j)) \<and> same_rest m m'"
  using assms
proof (induction fuel arbitrary: carry m c)
  case (Suc fuel)
  let ?b = "bucket_index cap m (fst carry)"
  note R = rebuildingD [OF Suc.prems(1)]
  obtain d where d: "d < bucket_count cap"
      "rebuild_target (bucket_count cap) cap m ?b = Inr (probe_at (bucket_count cap) ?b d)"
      "\<not> is_held (c ! probe_at (bucket_count cap) ?b d)"
      "\<forall>p < d. is_held (c ! probe_at (bucket_count cap) ?b p)"
    using rebuild_target_found [OF Suc.prems(1)] by blast
  define t where "t = probe_at (bucket_count cap) ?b d"
  have t: "t < bucket_count cap" using d(1) by (simp add: t_def)
  have tl: "t < length c" using t um_repr_length(1) [OF R(2)] by simp
  have run: "\<exists>d < bucket_count cap. probe_at (bucket_count cap) ?b d = t \<and>
      (\<forall>p < d. is_held (c ! probe_at (bucket_count cap) ?b p))"
    using d t_def by blast
  have st: "um_state cap m t = Inr (cell_state (c ! t))" using um_state_repr [OF R(2) t] .
  have "c ! t \<noteq> Grave" using R(3) nth_mem [OF tl] by metis
  then consider "c ! t = Free" | e where "c ! t = Moving e"
    using d(3) unfolding t_def [symmetric] by (cases "c ! t") auto
  then show ?case
  proof cases
    case 1
    obtain m' where m': "bnd (slot_new (um_storage m) t carry) (\<lambda>st.
       bnd (bitset_set (bucket_count cap) t (um_occupied m)) (\<lambda>occupied.
         Inr (m\<lparr>um_storage := st, um_occupied := occupied\<rparr>))) = Inr m'"
      "rebuilding cap m' (c[t := Held carry]) {#} M" "same_rest m m'"
      by (rule rebuild_settle_free [OF Suc.prems(1) t 1 run])
    have "rebuild_carry (Suc fuel) cap carry m = Inr m'"
      using d(2) st 1 m'(1) by (simp flip: t_def)
    moreover have "is_marked (c[t := Held carry] ! j) \<longrightarrow> is_marked (c ! j)" for j
      using tl by (cases "j = t") auto
    ultimately show ?thesis using m' by blast
  next
    case (2 e)
    obtain occupied tombstone where s: "slot_get (um_storage m) t = Inr e"
      "slot_destroy (um_storage m) t = Inr ((um_storage m)[t := None])"
      "slot_new ((um_storage m)[t := None]) t carry = Inr ((um_storage m)[t := Some carry])"
      "bitset_reset (bucket_count cap) t (um_tombstone m) = Inr tombstone"
      "bitset_set (bucket_count cap) t (um_occupied m) = Inr occupied"
      "rebuilding cap (m\<lparr>um_storage := (um_storage m)[t := Some carry], um_tombstone := tombstone,
         um_occupied := occupied\<rparr>) (c[t := Held carry]) {#e#} M"
      by (rule rebuild_settle_moving [OF Suc.prems(1) t 2 run])
    let ?m1 = "m\<lparr>um_storage := (um_storage m)[t := Some carry], um_tombstone := tombstone,
         um_occupied := occupied\<rparr>"
    have "unplaced (c[t := Held carry]) < fuel"
      using unplaced_update [OF tl, of "Held carry"] 2 Suc.prems(2) by simp
    from Suc.IH [OF s(6) this] obtain m' c' where m': "rebuild_carry fuel cap e ?m1 = Inr m'"
      "rebuilding cap m' c' {#} M" "same_rest ?m1 m'"
      "\<forall>j < bucket_count cap. is_marked (c' ! j) \<longrightarrow> is_marked (c[t := Held carry] ! j)" by blast
    have "rebuild_carry (Suc fuel) cap carry m = Inr m'"
      using d(2) st 2 s(1-5) m'(1) by (simp flip: t_def)
    moreover have "is_marked (c[t := Held carry] ! j) \<longrightarrow> is_marked (c ! j)" for j
      using tl by (cases "j = t") auto
    moreover have "same_rest m m'" using m'(3) by (simp add: same_rest_def)
    ultimately show ?thesis using m'(2,4) by blast
  qed
qed simp


section \<open>The whole rebuild\<close>

lemma rebuild_slot_spec:
  fixes m :: "('k, 'v) unordered_map"
  assumes "rebuilding cap m c {#} M" "i < bucket_count cap"
  shows "\<exists>m' c'. rebuild_slot cap i m = Inr m' \<and> rebuilding cap m' c' {#} M \<and> \<not> is_marked (c' ! i) \<and>
           (\<forall>j < bucket_count cap. is_marked (c' ! j) \<longrightarrow> is_marked (c ! j)) \<and> same_rest m m'"
proof -
  note R = rebuildingD [OF assms(1)]
  have i: "i < length c" "i < length (um_storage m)"
    using assms(2) um_repr_length [OF R(2)] by simp_all
  have test: "bitset_test (bucket_count cap) (um_tombstone m) i = Inr (is_marked (c ! i))"
    using bitset_test_repr [OF um_repr_bits(2) [OF R(2)] assms(2)] i by (simp add: where_cell_def)
  show ?thesis
  proof (cases "is_marked (c ! i)")
    case False
    then have "rebuild_slot cap i m = Inr m" using test by (simp add: rebuild_slot_def)
    then show ?thesis using assms(1) False same_rest_refl by blast
  next
    case True
    moreover have "c ! i \<noteq> Grave" using R(3) nth_mem [OF i(1)] by metis
    ultimately obtain carry where carry: "c ! i = Moving carry" by (cases "c ! i") auto
    have slot: "um_storage m ! i = Some carry" using um_slot_repr [OF R(2) assms(2)] carry by simp
    obtain tombstone where tomb: "bitset_reset (bucket_count cap) i (um_tombstone m) = Inr tombstone"
      "bitset_repr (bucket_count cap) tombstone (where_cell is_marked c - {i})"
      using bitset_reset_repr [OF um_repr_bits(2) [OF R(2)] assms(2)] by blast
    let ?m1 = "m\<lparr>um_storage := (um_storage m)[i := None], um_tombstone := tombstone\<rparr>" and ?c = "c[i := Free]"
    have fns: "bucket_index cap ?m1 = bucket_index cap m" by (rule bucket_index_hasher) simp
    have "i \<notin> where_cell is_held c" using carry by (simp add: where_cell_def)
    then have "um_repr cap ?m1 ?c"
      by (intro um_repr_update [OF R(2) assms(2)]) (use tomb um_repr_bits(1) [OF R(2)] in auto)
    moreover have "entries ?c + {#carry#} = entries c"
      using entries_update [OF i(1), of Free] carry by simp
    moreover have "placed_ok (bucket_count cap) (bucket_index cap m) ?c"
      by (rule placed_ok_update [OF R(6) um_repr_length(1) [OF R(2)] assms(2)]) (use carry in auto)
    moreover have "Grave \<notin> set ?c" using R(3) by (rule set_update_other) simp
    ultimately have R1: "rebuilding cap ?m1 ?c {#carry#} M"
      using R(1,4,5) fns by (simp add: rebuilding_def)
    have "unplaced ?c \<le> length ?c"
      using card_mono [of "{..<length ?c}" "where_cell is_marked ?c"]
      by (auto simp: unplaced_def where_cell_def)
    then have "unplaced ?c < bucket_count cap + 1" using um_repr_length(1) [OF R(2)] by simp
    from rebuild_carry_spec [OF R1 this] obtain m' c' where
      m': "rebuild_carry (bucket_count cap + 1) cap carry ?m1 = Inr m'" "rebuilding cap m' c' {#} M"
        "\<forall>j < bucket_count cap. is_marked (c' ! j) \<longrightarrow> is_marked (?c ! j)" "same_rest ?m1 m'" by blast
    have run: "rebuild_slot cap i m = Inr m'"
      using test True slot i tomb(1) m'(1) by (simp add: rebuild_slot_def slot_get_def slot_destroy_def)
    have mark: "is_marked (?c ! j) \<longrightarrow> j \<noteq> i \<and> is_marked (c ! j)" for j
      using i by (cases "j = i") auto
    have "same_rest m m'" using m'(4) by (simp add: same_rest_def)
    with run m'(2,3) mark assms(2) show ?thesis by blast
  qed
qed

definition mark_moving :: "'e cell \<Rightarrow> 'e cell" where
  "mark_moving x = (case x of Held e \<Rightarrow> Moving e | Moving e \<Rightarrow> Moving e | _ \<Rightarrow> Free)"

lemma mark_moving_simps [simp]:
  "is_held (mark_moving x) = False" "cell_entry (mark_moving x) = cell_entry x"
  "cell_mset (mark_moving x) = cell_mset x" "mark_moving x \<noteq> Grave"
  by (cases x; simp add: mark_moving_def)+

lemma rehash_in_place_correct:
  fixes m :: "('k, 'v) unordered_map"
  assumes "um_inv cap m c" "0 < cap"
  shows "\<exists>m' c'. rehash_in_place cap m = Inr m' \<and> um_inv cap m' c' \<and> entries c' = entries c \<and>
           Grave \<notin> set c' \<and> um_tombstones m' = 0 \<and> um_size m' = um_size m \<and>
           um_hasher m' = um_hasher m \<and> um_key_equal m' = um_key_equal m"
proof -
  note I = um_invD [OF assms(1)]
  let ?n = "bucket_count cap"
  obtain occupied where occ: "bitset_reset_all ?n (um_occupied m) = Inr occupied" "bitset_repr ?n occupied {}"
    using bitset_reset_all_repr [OF um_repr_bits(1) [OF I(2)]] by blast
  let ?m1 = "m\<lparr>um_tombstone := um_occupied m, um_occupied := occupied, um_tombstones := 0\<rparr>"
  let ?c1 = "map mark_moving c"
  have len: "length c = ?n" using um_repr_length(1) [OF I(2)] .
  have mk: "is_marked (mark_moving x) \<longleftrightarrow> is_held x" if "x \<in> set c" for x
    using I(3) that by (cases x) (auto simp: mark_moving_def)
  have sets: "where_cell is_held ?c1 = {}" "where_cell is_marked ?c1 = where_cell is_held c"
    using mk by (auto simp: where_cell_def)
  have "um_repr cap ?m1 ?c1"
    using I(2) occ(2) um_repr_bits(1) [OF I(2)] sets by (simp add: um_repr_def comp_def)
  moreover have "entries ?c1 = entries c" by (simp add: entries_def comp_def)
  moreover have "placed_ok ?n (bucket_index cap ?m1) ?c1"
    using len by (auto simp: placed_ok_def) (metis is_held.simps(1) mark_moving_simps(1))
  moreover have "Grave \<notin> set ?c1"
    using mark_moving_simps(4) by (metis imageE list.set_map)
  moreover have "size (entries c) < ?n"
    using I(4,5) bucket_count_bounds(2) [OF I(1) assms(2)] assms(2) by simp
  ultimately have start: "rebuilding cap ?m1 ?c1 {#} (entries c)"
    using I(1) by (simp add: rebuilding_def)
  let ?Q = "\<lambda>i m'. \<exists>c'. rebuilding cap m' c' {#} (entries c) \<and> (\<forall>j < i. \<not> is_marked (c' ! j)) \<and> same_rest ?m1 m'"
  have "\<exists>m'. for_upto 0 ?n (rebuild_slot cap) ?m1 = Inr m' \<and> ?Q ?n m'"
  proof (rule for_upto_inv [where Q = ?Q])
    fix i m' assume i: "i < ?n" and "?Q i m'"
    then obtain c' where c': "rebuilding cap m' c' {#} (entries c)" "\<forall>j < i. \<not> is_marked (c' ! j)"
      "same_rest ?m1 m'" by blast
    from rebuild_slot_spec [OF c'(1) i] obtain m'' c'' where
      s: "rebuild_slot cap i m' = Inr m''" "rebuilding cap m'' c'' {#} (entries c)" "\<not> is_marked (c'' ! i)"
        "\<forall>j < ?n. is_marked (c'' ! j) \<longrightarrow> is_marked (c' ! j)" "same_rest m' m''" by blast
    have "\<forall>j < Suc i. \<not> is_marked (c'' ! j)"
      using s(3,4) c'(2) i by (auto simp: less_Suc_eq)
    then show "\<exists>m''. rebuild_slot cap i m' = Inr m'' \<and> ?Q (Suc i) m''"
      using s(1,2) same_rest_trans [OF c'(3) s(5)] by blast
  qed (use start same_rest_refl in auto)
  then obtain m' c' where fin: "for_upto 0 ?n (rebuild_slot cap) ?m1 = Inr m'"
    "rebuilding cap m' c' {#} (entries c)" "\<forall>j < ?n. \<not> is_marked (c' ! j)" "same_rest ?m1 m'" by blast
  note R = rebuildingD [OF fin(2)]
  have rest: "um_hasher m' = um_hasher m" "um_key_equal m' = um_key_equal m" "um_size m' = um_size m"
    "um_tombstones m' = 0" using fin(4) by (simp_all add: same_rest_def)
  have none: "where_cell is_marked c' = {}" "\<forall>x \<in> set c'. \<not> is_marked x"
    using fin(3) um_repr_length(1) [OF R(2)] by (auto simp: where_cell_def in_set_conv_nth)
  have "um_inv cap m' c'"
    unfolding um_inv_def using R(1,2,4) rest none I(4,5,8,9) placed_ok_probe_ok [OF R(6)]
      hash_respects_fields [OF rest(1,2)] by auto
  moreover have "rehash_in_place cap m = Inr m'"
    using fin(1) occ(1) assms(2) by (simp add: rehash_in_place_def)
  ultimately show ?thesis using R(3,4) rest by auto
qed

end
