(* ===== verification/Map_spec.thy ===== *)
theory Map_spec
  imports Slots
begin

text \<open>
  The contract shared by the two fixed-capacity maps, \<^verbatim>\<open>flat_map\<close> and
  \<^verbatim>\<open>static_unordered_map\<close>. A map is a partial function on keys, up to the
  equivalence \<open>eqv\<close> of its comparison, together with the number of elements.
  The locale shows that a container with these laws answers every client program
  as the specification does, so two containers with the same equivalence and
  capacity cannot be told apart.
\<close>

type_synonym ('k, 'v) contents = "'k \<Rightarrow> 'v option"

definition map_put :: "('k \<Rightarrow> 'k \<Rightarrow> bool) \<Rightarrow> ('k, 'v) contents \<Rightarrow> 'k \<Rightarrow> 'v \<Rightarrow> ('k, 'v) contents" where
  "map_put eqv A k v = (\<lambda>x. if eqv k x then Some v else A x)"

definition map_del :: "('k \<Rightarrow> 'k \<Rightarrow> bool) \<Rightarrow> ('k, 'v) contents \<Rightarrow> 'k \<Rightarrow> ('k, 'v) contents" where
  "map_del eqv A k = (\<lambda>x. if eqv k x then None else A x)"

datatype ('k, 'v) map_call =
    Find 'k | Try_emplace 'k 'v | Try_insert_or_assign 'k 'v | Erase 'k

datatype 'v map_result = Found "'v option" | Did bool

text \<open>The operations of a map, as a record of functions on its state.\<close>

record ('s, 'k, 'v) map_ops =
  op_find :: "'s \<Rightarrow> 'k \<Rightarrow> 'v option outcome"
  op_try_emplace :: "'k \<Rightarrow> 'v \<Rightarrow> 's \<Rightarrow> (bool \<times> 's) outcome"
  op_try_insert_or_assign :: "'k \<Rightarrow> 'v \<Rightarrow> 's \<Rightarrow> (bool \<times> 's) outcome"
  op_erase :: "'k \<Rightarrow> 's \<Rightarrow> (bool \<times> 's) outcome"

definition map_step ::
  "('s, 'k, 'v) map_ops \<Rightarrow> ('k, 'v) map_call \<Rightarrow> 's \<Rightarrow> ('v map_result \<times> 's) outcome" where
  "map_step ops c s = (case c of
       Find k \<Rightarrow> bnd (op_find ops s k) (\<lambda>r. Inr (Found r, s))
     | Try_emplace k v \<Rightarrow> bnd (op_try_emplace ops k v s) (\<lambda>(b, s1). Inr (Did b, s1))
     | Try_insert_or_assign k v \<Rightarrow> bnd (op_try_insert_or_assign ops k v s) (\<lambda>(b, s1). Inr (Did b, s1))
     | Erase k \<Rightarrow> bnd (op_erase ops k s) (\<lambda>(b, s1). Inr (Did b, s1)))"

fun map_run ::
  "('s, 'k, 'v) map_ops \<Rightarrow> ('k, 'v) map_call list \<Rightarrow> 's \<Rightarrow> ('v map_result list \<times> 's) outcome" where
  "map_run ops [] s = Inr ([], s)"
| "map_run ops (c # calls) s =
     bnd (map_step ops c s) (\<lambda>(r, s1). bnd (map_run ops calls s1) (\<lambda>(rs, s2). Inr (r # rs, s2)))"

fun spec_step ::
  "('k \<Rightarrow> 'k \<Rightarrow> bool) \<Rightarrow> nat \<Rightarrow> ('k, 'v) map_call \<Rightarrow> ('k, 'v) contents \<Rightarrow> nat
     \<Rightarrow> 'v map_result \<times> ('k, 'v) contents \<times> nat" where
  "spec_step eqv cap (Find k) A n = (Found (A k), A, n)"
| "spec_step eqv cap (Try_emplace k v) A n =
     (if A k = None \<and> n < cap then (Did True, map_put eqv A k v, n + 1) else (Did False, A, n))"
| "spec_step eqv cap (Try_insert_or_assign k v) A n =
     (if A k \<noteq> None then (Did True, map_put eqv A k v, n)
      else if n < cap then (Did True, map_put eqv A k v, n + 1) else (Did False, A, n))"
| "spec_step eqv cap (Erase k) A n =
     (if A k \<noteq> None then (Did True, map_del eqv A k, n - 1) else (Did False, A, n))"

fun spec_run ::
  "('k \<Rightarrow> 'k \<Rightarrow> bool) \<Rightarrow> nat \<Rightarrow> ('k, 'v) map_call list \<Rightarrow> ('k, 'v) contents \<Rightarrow> nat \<Rightarrow> 'v map_result list" where
  "spec_run eqv cap [] A n = []"
| "spec_run eqv cap (c # calls) A n =
     (case spec_step eqv cap c A n of (r, A1, n1) \<Rightarrow> r # spec_run eqv cap calls A1 n1)"

locale bounded_map =
  fixes ops :: "('s, 'k, 'v) map_ops"
    and repr :: "'s \<Rightarrow> ('k, 'v) contents \<Rightarrow> nat \<Rightarrow> bool"
    and eqv :: "'k \<Rightarrow> 'k \<Rightarrow> bool"
    and cap :: nat
  assumes find_law: "repr s A n \<Longrightarrow> op_find ops s k = Inr (A k)"
    and emplace_new: "repr s A n \<Longrightarrow> A k = None \<Longrightarrow> n < cap \<Longrightarrow>
          \<exists>s'. op_try_emplace ops k v s = Inr (True, s') \<and> repr s' (map_put eqv A k v) (n + 1)"
    and emplace_refused: "repr s A n \<Longrightarrow> A k \<noteq> None \<or> \<not> n < cap \<Longrightarrow>
          op_try_emplace ops k v s = Inr (False, s)"
    and assign_old: "repr s A n \<Longrightarrow> A k \<noteq> None \<Longrightarrow>
          \<exists>s'. op_try_insert_or_assign ops k v s = Inr (True, s') \<and> repr s' (map_put eqv A k v) n"
    and assign_new: "repr s A n \<Longrightarrow> A k = None \<Longrightarrow> n < cap \<Longrightarrow>
          \<exists>s'. op_try_insert_or_assign ops k v s = Inr (True, s') \<and> repr s' (map_put eqv A k v) (n + 1)"
    and assign_refused: "repr s A n \<Longrightarrow> A k = None \<Longrightarrow> \<not> n < cap \<Longrightarrow>
          op_try_insert_or_assign ops k v s = Inr (False, s)"
    and erase_present: "repr s A n \<Longrightarrow> A k \<noteq> None \<Longrightarrow>
          \<exists>s'. op_erase ops k s = Inr (True, s') \<and> repr s' (map_del eqv A k) (n - 1)"
    and erase_absent: "repr s A n \<Longrightarrow> A k = None \<Longrightarrow> op_erase ops k s = Inr (False, s)"
begin

lemma step_refines:
  assumes "repr s A n"
  shows "\<exists>s'. map_step ops c s = Inr (fst (spec_step eqv cap c A n), s') \<and>
           repr s' (fst (snd (spec_step eqv cap c A n))) (snd (snd (spec_step eqv cap c A n)))"
proof (cases c)
  case (Find k)
  then show ?thesis using find_law [OF assms] assms by (simp add: map_step_def)
next
  case (Try_emplace k v)
  then show ?thesis
    using emplace_new [OF assms, of k v] emplace_refused [OF assms, of k v] assms
    by (cases "A k = None \<and> n < cap") (auto simp: map_step_def)
next
  case (Try_insert_or_assign k v)
  then show ?thesis
    using assign_new [OF assms, of k v] assign_old [OF assms, of k v] assign_refused [OF assms, of k v] assms
    by (cases "A k = None"; cases "n < cap") (auto simp: map_step_def)
next
  case (Erase k)
  then show ?thesis
    using erase_present [OF assms, of k] erase_absent [OF assms, of k] assms
    by (cases "A k = None") (auto simp: map_step_def)
qed

lemma run_matches_spec:
  "repr s A n \<Longrightarrow> \<exists>s'. map_run ops calls s = Inr (spec_run eqv cap calls A n, s')"
proof (induction calls arbitrary: s A n)
  case (Cons c calls)
  obtain s1 where s1: "map_step ops c s = Inr (fst (spec_step eqv cap c A n), s1)"
    "repr s1 (fst (snd (spec_step eqv cap c A n))) (snd (snd (spec_step eqv cap c A n)))"
    using step_refines [OF Cons.prems] by blast
  obtain s2 where "map_run ops calls s1 = Inr (spec_run eqv cap calls
      (fst (snd (spec_step eqv cap c A n))) (snd (snd (spec_step eqv cap c A n))), s2)"
    using Cons.IH [OF s1(2)] by blast
  with s1(1) show ?case by (simp add: split_beta)
qed simp

lemma run_observes_spec:
  "repr s A n \<Longrightarrow> bnd (map_run ops calls s) (\<lambda>p. Inr (fst p)) = Inr (spec_run eqv cap calls A n)"
  using run_matches_spec [of s A n calls] by auto

end

end
