(* ===== verification/Unordered_map_spec.thy ===== *)
theory Unordered_map_spec
  imports Rebuild Map_spec
begin

text \<open>
  What \<^verbatim>\<open>static_unordered_map\<close> promises: its operations implement a bounded map,
  whatever the probe runs, tombstones and rebuilds below; clearing, swapping,
  copying and moving do what they say.
\<close>

section \<open>Inserting\<close>

lemma absentI:
  assumes "\<And>e. e \<in># entries c \<Longrightarrow> \<not> eq (fst e) key"
  shows "absent eq key c"
proof -
  have "\<not> matches eq key (c ! i)" if "i < length c" for i
    using assms that entries_iff [of _ c] by (fastforce elim: matchesE)
  then show ?thesis by (simp add: absent_def)
qed

lemma um_construct_at_inv:
  assumes "um_inv cap m c" "um_size m < cap" "i < bucket_count cap"
    and "absent (um_key_equal m) key c"
    and "insert_spot (bucket_count cap) (bucket_index cap m key) c i"
  shows "\<exists>i' m' c'. um_construct_at rb cap (Some i) key v m = Inr (Some i', m') \<and> um_inv cap m' c' \<and>
           i' < bucket_count cap \<and> c' ! i' = Held (key, v) \<and>
           entries c' = add_mset (key, v) (entries c) \<and>
           um_hasher m' = um_hasher m \<and> um_key_equal m' = um_key_equal m"
proof (cases "rb \<and> um_tombstones m > bucket_count cap div 8")
  case False
  note I = um_invD [OF assms(1)]
  have "i < length c" using assms(3) um_repr_length(1) [OF I(2)] by simp
  moreover obtain m' where m': "um_place_at cap (Some i) key v m = Inr m'" "um_inv cap m' (c[i := Held (key, v)])"
    "entries (c[i := Held (key, v)]) = add_mset (key, v) (entries c)"
    "um_hasher m' = um_hasher m" "um_key_equal m' = um_key_equal m"
    using um_place_at_inv [OF assms, of v] by blast
  moreover from m'(1) have "um_construct_at rb cap (Some i) key v m = Inr (Some i, m')"
    using False by (auto simp: um_construct_at_def)
  ultimately show ?thesis using assms(3) nth_list_update_eq [of i c "Held (key, v)"] by blast
next
  case True
  have cap: "0 < cap" using assms(2) by simp
  note I = um_invD [OF assms(1)]
  obtain m1 c1 where m1: "rehash_in_place cap m = Inr m1" "um_inv cap m1 c1" "entries c1 = entries c"
    "Grave \<notin> set c1" "um_size m1 = um_size m" "um_hasher m1 = um_hasher m" "um_key_equal m1 = um_key_equal m"
    using rehash_in_place_correct [OF assms(1) cap] by blast
  note J = um_invD [OF m1(2)]
  have absent: "absent (um_key_equal m1) key c1"
    using absent_entries [OF assms(4) I(3)] m1(3,7) by (intro absentI) simp
  have len: "length c1 = bucket_count cap" using um_repr_length(1) [OF J(2)] .
  obtain i' where i': "i' < bucket_count cap" "locate_insert_index cap m1 key = Inr (Some i')"
    "insert_spot (bucket_count cap) (bucket_index cap m1 key) c1 i'"
    using locate_insert_spec [OF m1(2) cap, of key] absent len by (auto simp: absent_def)
  have free: "c1 ! i' = Free"
    using i'(1,3) m1(4) nth_mem [of i' c1] len unfolding insert_spot_def by metis
  have sz: "um_size m1 < cap" using assms(2) m1(5) by simp
  let ?st = "(um_storage m1)[i' := Some (key, v)]"
  have new: "slot_new (um_storage m1) i' (key, v) = Inr ?st"
    using free um_slot_repr [OF J(2) i'(1)] um_repr_length(2) [OF J(2)] i'(1) by (simp add: slot_new_def)
  obtain occupied tombstone where bits:
    "um_set_state cap i' Slot_occupied (m1\<lparr>um_storage := ?st\<rparr>) =
       Inr (m1\<lparr>um_storage := ?st, um_occupied := occupied, um_tombstone := tombstone\<rparr>)"
    "bitset_repr (bucket_count cap) occupied (insert i' (where_cell is_held c1))"
    "bitset_repr (bucket_count cap) tombstone (where_cell is_marked c1 - {i'})"
    by (rule um_set_state_bits [OF J(2) i'(1), where s = Slot_occupied]) simp
  let ?m' = "m1\<lparr>um_storage := ?st, um_occupied := occupied, um_tombstone := tombstone, um_size := um_size m1 + 1\<rparr>"
  have "um_repr cap ?m' (c1[i' := Held (key, v)])"
    by (rule um_repr_update [OF J(2) i'(1)]) (use bits in auto)
  then have "um_inv cap ?m' (c1[i' := Held (key, v)])"
    "entries (c1[i' := Held (key, v)]) = add_mset (key, v) (entries c1)"
    by (rule table_insert [OF m1(2) sz i'(1) absent i'(3)]; use free in simp)+
  moreover have "um_construct_at rb cap (Some i) key v m = Inr (Some i', ?m')"
    using True m1(1) i'(1,2) new bits(1) by (simp add: um_construct_at_def)
  moreover have "c1[i' := Held (key, v)] ! i' = Held (key, v)" using i'(1) len by simp
  ultimately show ?thesis using m1(3,6,7) i'(1) by auto
qed

section \<open>The map contract\<close>

definition um_abs ::
  "nat \<Rightarrow> ('k \<Rightarrow> 'k \<Rightarrow> bool) \<Rightarrow> ('k, 'v) unordered_map \<Rightarrow> ('k, 'v) contents \<Rightarrow> nat \<Rightarrow> bool" where
  "um_abs cap eqv m A n \<longleftrightarrow> (\<exists>c. um_inv cap m c \<and> um_key_equal m = eqv \<and> um_size m = n \<and>
     (\<forall>k v. A k = Some v \<longleftrightarrow> (\<exists>k'. (k', v) \<in># entries c \<and> eqv k' k)))"

lemma absent_None:
  assumes "um_inv cap m c" "\<forall>k v. A k = Some v \<longleftrightarrow> (\<exists>k'. (k', v) \<in># entries c \<and> um_key_equal m k' k)"
  shows "absent (um_key_equal m) key c \<longleftrightarrow> A key = None"
proof
  assume "absent (um_key_equal m) key c"
  then have "\<nexists>v. A key = Some v"
    using absent_entries [OF _ um_invD(3) [OF assms(1)], of "um_key_equal m" key] assms(2) by fastforce
  then show "A key = None" by (cases "A key") auto
next
  assume "A key = None"
  then show "absent (um_key_equal m) key c"
    using assms(2) by (intro absentI) (metis option.distinct(1) prod.collapse)
qed

lemma matches_Some:
  assumes "um_inv cap m c" "\<forall>k v. A k = Some v \<longleftrightarrow> (\<exists>k'. (k', v) \<in># entries c \<and> um_key_equal m k' k)"
    and "i < bucket_count cap" "matches (um_key_equal m) key (c ! i)"
  obtains e where "c ! i = Held e" "um_key_equal m (fst e) key" "A key = Some (snd e)" "e \<in># entries c"
proof -
  obtain e where e: "c ! i = Held e" "um_key_equal m (fst e) key"
    using assms(4) by (rule matchesE)
  have "e \<in># entries c"
    using e(1) assms(3) um_repr_length(1) [OF um_invD(2) [OF assms(1)]] by (auto simp: entries_iff)
  then have "A key = Some (snd e)" using assms(2) e(2) by (metis prod.collapse)
  with e show thesis using that \<open>e \<in># entries c\<close> by blast
qed

lemma put_abs:
  assumes "um_inv cap m c" "\<forall>k v. A k = Some v \<longleftrightarrow> (\<exists>k'. (k', v) \<in># entries c \<and> um_key_equal m k' k)"
    and "um_inv cap m' c'" "um_key_equal m' = um_key_equal m"
    and "entries c = M + N" "entries c' = add_mset (k0, v0) M" "um_key_equal m k0 key"
    and "\<And>e. e \<in># N \<Longrightarrow> um_key_equal m (fst e) key" "\<And>e. e \<in># M \<Longrightarrow> \<not> um_key_equal m (fst e) key"
  shows "um_abs cap (um_key_equal m) m' (map_put (um_key_equal m) A key v0) (um_size m')"
proof -
  let ?eq = "um_key_equal m"
  have eq: "equivp ?eq" using hash_respects_equivp [OF um_invD(9) [OF assms(1)]] .
  have "(map_put ?eq A key v0) k = Some v \<longleftrightarrow> (\<exists>k'. (k', v) \<in># entries c' \<and> ?eq k' k)" for k v
  proof (cases "?eq key k")
    case True
    have "\<not> ?eq k' k" if "(k', v) \<in># M" for k'
      using assms(9) [OF that] True eq by (auto dest: equivp_symp equivp_transp)
    moreover have "?eq k0 k" using assms(7) True eq by (metis equivp_transp)
    ultimately show ?thesis using True assms(6) by (auto simp: map_put_def)
  next
    case False
    have "\<not> ?eq k' k" if "(k', v) \<in># N" for k'
      using assms(8) [OF that] False eq by (metis equivp_symp equivp_transp fst_conv)
    moreover have "\<not> ?eq k0 k" using assms(7) False eq by (metis equivp_symp equivp_transp)
    ultimately show ?thesis using False assms(2,5,6) by (auto simp: map_put_def)
  qed
  then show ?thesis unfolding um_abs_def using assms(3,4) by blast
qed


text \<open>The three ways a search ends, in terms of the contents.\<close>

lemma um_find_cases:
  assumes "um_inv cap m c" "\<forall>k v. A k = Some v \<longleftrightarrow> (\<exists>k'. (k', v) \<in># entries c \<and> um_key_equal m k' k)"
  obtains (present) i e where "find_existing_index cap m key = Inr (Some i)" "i < bucket_count cap"
      "c ! i = Held e" "um_key_equal m (fst e) key" "A key = Some (snd e)" "e \<in># entries c"
  | (absent) "find_existing_index cap m key = Inr None" "A key = None" "absent (um_key_equal m) key c"
proof -
  consider i where "i < bucket_count cap" "find_existing_index cap m key = Inr (Some i)"
      "matches (um_key_equal m) key (c ! i)"
    | "find_existing_index cap m key = Inr None" "absent (um_key_equal m) key c"
    using find_existing_spec [OF assms(1), of key] by blast
  then show thesis
  proof cases
    case (1 i)
    obtain e where "c ! i = Held e" "um_key_equal m (fst e) key" "A key = Some (snd e)" "e \<in># entries c"
      by (rule matches_Some [OF assms 1(1,3)])
    then show thesis using 1 present by blast
  next
    case 2
    then show thesis using absent absent_None [OF assms, of key] by simp
  qed
qed

lemma um_locate_absent:
  assumes "um_inv cap m c" "0 < cap" "absent (um_key_equal m) key c"
  obtains i where "locate_insert_index cap m key = Inr (Some i)" "i < bucket_count cap"
    "insert_spot (bucket_count cap) (bucket_index cap m key) c i"
    "um_state cap m i = Inr (cell_state (c ! i))" "cell_state (c ! i) \<noteq> Slot_occupied"
proof -
  note I = um_invD [OF assms(1)]
  have len: "length c = bucket_count cap" by (rule um_repr_length(1) [OF I(2)])
  obtain i where i: "i < bucket_count cap" "locate_insert_index cap m key = Inr (Some i)"
    "insert_spot (bucket_count cap) (bucket_index cap m key) c i"
    using locate_insert_spec [OF assms(1,2), of key] assms(3) len by (auto simp: absent_def)
  have "cell_state (c ! i) \<noteq> Slot_occupied" using i(3) by (auto simp: insert_spot_def)
  with i show thesis using that um_state_repr [OF I(2) i(1)] by blast
qed

lemma um_insert_abs:
  assumes "um_inv cap m c" "\<forall>k v. A k = Some v \<longleftrightarrow> (\<exists>k'. (k', v) \<in># entries c \<and> um_key_equal m k' k)"
    and "um_inv cap m' c'" "entries c' = add_mset (key, v) (entries c)"
    and "um_key_equal m' = um_key_equal m" "absent (um_key_equal m) key c"
  shows "um_abs cap (um_key_equal m) m' (map_put (um_key_equal m) A key v) (um_size m + 1)"
proof -
  note I = um_invD [OF assms(1)]
  have "um_key_equal m key key" using hash_respects_equivp [OF I(9)] by (simp add: equivp_reflp)
  then have "um_abs cap (um_key_equal m) m' (map_put (um_key_equal m) A key v) (um_size m')"
    using absent_entries [OF assms(6) I(3)] assms(4)
    by (intro put_abs [OF assms(1,2,3,5), of "entries c" "{#}" key v key]) auto
  moreover have "um_size m' = um_size m + 1"
    using I(4) um_invD(4) [OF assms(3)] assms(4) by simp
  ultimately show ?thesis by simp
qed

definition um_ops :: "bool \<Rightarrow> nat \<Rightarrow> (('k, 'v) unordered_map, 'k, 'v) map_ops" where
  "um_ops rb cap = \<lparr>op_find = um_find cap, op_try_emplace = um_try_emplace rb cap,
     op_try_insert_or_assign = um_try_insert_or_assign rb cap, op_erase = um_erase cap\<rparr>"

lemma um_find_law:
  assumes "um_abs cap eqv m A n"
  shows "um_find cap m key = Inr (A key)"
proof -
  obtain c where c: "um_inv cap m c"
    "\<forall>k v. A k = Some v \<longleftrightarrow> (\<exists>k'. (k', v) \<in># entries c \<and> um_key_equal m k' k)"
    using assms unfolding um_abs_def by blast
  show ?thesis
    using um_slot_get_repr [OF um_invD(2) [OF c(1)]]
    by (cases rule: um_find_cases [OF c, of key]) (auto simp: um_find_def)
qed

lemma um_try_emplace_law:
  assumes "um_abs cap eqv m A n"
  shows "A key = None \<Longrightarrow> n < cap \<Longrightarrow>
          \<exists>m'. um_try_emplace rb cap key v m = Inr (True, m') \<and> um_abs cap eqv m' (map_put eqv A key v) (n + 1)"
    and "A key \<noteq> None \<or> \<not> n < cap \<Longrightarrow> um_try_emplace rb cap key v m = Inr (False, m)"
proof -
  obtain c where c: "um_inv cap m c"
    "\<forall>k v. A k = Some v \<longleftrightarrow> (\<exists>k'. (k', v) \<in># entries c \<and> um_key_equal m k' k)"
    and eqv: "eqv = um_key_equal m" and n: "n = um_size m"
    using assms unfolding um_abs_def by blast
  note I = um_invD [OF c(1)]
  show "\<exists>m'. um_try_emplace rb cap key v m = Inr (True, m') \<and> um_abs cap eqv m' (map_put eqv A key v) (n + 1)"
    if "A key = None" "n < cap"
  proof -
    have absent: "absent (um_key_equal m) key c" using absent_None [OF c, of key] that(1) by simp
    have cap: "0 < cap" "um_size m < cap" using that(2) n by auto
    obtain i where i: "locate_insert_index cap m key = Inr (Some i)" "i < bucket_count cap"
      "insert_spot (bucket_count cap) (bucket_index cap m key) c i"
      "um_state cap m i = Inr (cell_state (c ! i))" "cell_state (c ! i) \<noteq> Slot_occupied"
      by (rule um_locate_absent [OF c(1) cap(1) absent])
    obtain i' m' c' where m': "um_construct_at rb cap (Some i) key v m = Inr (Some i', m')" "um_inv cap m' c'"
      "entries c' = add_mset (key, v) (entries c)" "um_key_equal m' = um_key_equal m"
      using um_construct_at_inv [OF c(1) cap(2) i(2) absent i(3)] by blast
    have "um_try_emplace rb cap key v m = Inr (True, m')"
      using i m'(1) cap(2) by (simp add: um_try_emplace_def)
    then show ?thesis using um_insert_abs [OF c m'(2,3,4) absent] eqv n by blast
  qed
  show "um_try_emplace rb cap key v m = Inr (False, m)" if "A key \<noteq> None \<or> \<not> n < cap"
  proof (cases "cap = 0")
    case True
    then show ?thesis by (simp add: um_try_emplace_def locate_insert_index_def)
  next
    case False
    then consider i where "i < bucket_count cap" "locate_insert_index cap m key = Inr (Some i)"
        "matches (um_key_equal m) key (c ! i)"
      | i where "i < bucket_count cap" "locate_insert_index cap m key = Inr (Some i)"
        "absent (um_key_equal m) key c"
      using locate_insert_spec [OF c(1), of key] by blast
    then show ?thesis
    proof cases
      case (1 i)
      then show ?thesis
        using um_state_repr [OF I(2) 1(1)] by (auto simp: um_try_emplace_def elim: matchesE)
    next
      case (2 i)
      then have "\<not> um_size m < cap" using that absent_None [OF c, of key] n by simp
      then show ?thesis
        using 2 um_state_repr [OF I(2) 2(1)] by (simp add: um_try_emplace_def)
    qed
  qed
qed

lemma um_erase_law:
  assumes "um_abs cap eqv m A n"
  shows "A key \<noteq> None \<Longrightarrow>
          \<exists>m'. um_erase cap key m = Inr (True, m') \<and> um_abs cap eqv m' (map_del eqv A key) (n - 1)"
    and "A key = None \<Longrightarrow> um_erase cap key m = Inr (False, m)"
proof -
  obtain c where c: "um_inv cap m c"
    "\<forall>k v. A k = Some v \<longleftrightarrow> (\<exists>k'. (k', v) \<in># entries c \<and> um_key_equal m k' k)"
    and eqv: "eqv = um_key_equal m" and n: "n = um_size m"
    using assms unfolding um_abs_def by blast
  note I = um_invD [OF c(1)]
  have equiv: "equivp (um_key_equal m)" by (rule hash_respects_equivp [OF I(9)])
  show "\<exists>m'. um_erase cap key m = Inr (True, m') \<and> um_abs cap eqv m' (map_del eqv A key) (n - 1)"
    if "A key \<noteq> None"
  proof (cases rule: um_find_cases [OF c, of key])
    case (1 i e)
    obtain m' where m': "um_destroy_at cap i Slot_tombstone m = Inr m'" "um_inv cap m' (c[i := Grave])"
      "entries c = add_mset e (entries (c[i := Grave]))" "um_key_equal m' = um_key_equal m"
      using um_erase_inv [OF c(1) 1(2,3)] by blast
    let ?M = "entries (c[i := Grave])"
    have other: "\<not> um_key_equal m (fst x) (fst e)" if "x \<in># ?M" for x
      using unique_keys_rest [OF I(8) [unfolded m'(3)] equiv that] .
    have "(map_del eqv A key) k = Some v \<longleftrightarrow> (\<exists>k'. (k', v) \<in># ?M \<and> um_key_equal m k' k)" for k v
    proof (cases "um_key_equal m key k")
      case True
      then have "\<not> um_key_equal m k' k" if "(k', v) \<in># ?M" for k'
        using other [OF that] 1(4) equiv by (metis equivp_symp equivp_transp fst_conv)
      then show ?thesis using True by (auto simp: map_del_def eqv)
    next
      case False
      then have "\<not> um_key_equal m (fst e) k"
        using 1(4) equiv by (metis equivp_symp equivp_transp)
      then show ?thesis using False c(2) m'(3) by (auto simp: map_del_def eqv)
    qed
    moreover have "um_size m' = n - 1" using um_invD(4) [OF m'(2)] I(4) m'(3) n by simp
    ultimately have "um_abs cap eqv m' (map_del eqv A key) (n - 1)"
      unfolding um_abs_def using m'(2,4) eqv by blast
    moreover have "um_erase cap key m = Inr (True, m')"
      using 1(1) m'(1) by (simp add: um_erase_def)
    ultimately show ?thesis by blast
  qed (use that in simp)
  show "um_erase cap key m = Inr (False, m)" if "A key = None"
    by (cases rule: um_find_cases [OF c, of key]) (use that in \<open>auto simp: um_erase_def\<close>)
qed


lemma um_try_insert_or_assign_law:
  assumes "um_abs cap eqv m A n"
  shows "A key \<noteq> None \<Longrightarrow>
          \<exists>m'. um_try_insert_or_assign rb cap key v m = Inr (True, m') \<and> um_abs cap eqv m' (map_put eqv A key v) n"
    and "A key = None \<Longrightarrow> n < cap \<Longrightarrow>
          \<exists>m'. um_try_insert_or_assign rb cap key v m = Inr (True, m') \<and>
               um_abs cap eqv m' (map_put eqv A key v) (n + 1)"
    and "A key = None \<Longrightarrow> \<not> n < cap \<Longrightarrow> um_try_insert_or_assign rb cap key v m = Inr (False, m)"
proof -
  obtain c where c: "um_inv cap m c"
    "\<forall>k v. A k = Some v \<longleftrightarrow> (\<exists>k'. (k', v) \<in># entries c \<and> um_key_equal m k' k)"
    and eqv: "eqv = um_key_equal m" and n: "n = um_size m"
    using assms unfolding um_abs_def by blast
  note I = um_invD [OF c(1)]
  have equiv: "equivp (um_key_equal m)" by (rule hash_respects_equivp [OF I(9)])
  show "\<exists>m'. um_try_insert_or_assign rb cap key v m = Inr (True, m') \<and> um_abs cap eqv m' (map_put eqv A key v) n"
    if "A key \<noteq> None"
  proof (cases rule: um_find_cases [OF c, of key])
    case (1 i e)
    have i: "i < length c" using 1(2) um_repr_length(1) [OF I(2)] by simp
    let ?m' = "m\<lparr>um_storage := (um_storage m)[i := Some (fst e, v)]\<rparr>" and ?M = "entries (c[i := Free])"
    note a = um_assign_inv [OF c(1) 1(2,3), of v]
    have "\<not> um_key_equal m (fst x) key" if "x \<in># ?M" for x
      using unique_keys_rest [OF I(8) [unfolded entries_split(1) [OF i 1(3)]] equiv that] 1(4) equiv
      by (metis equivp_symp equivp_transp)
    then have "um_abs cap (um_key_equal m) ?m' (map_put (um_key_equal m) A key v) (um_size ?m')"
      using 1(4) by (intro put_abs [OF c a(2), of ?M "{#e#}" "fst e" v key])
        (auto simp: entries_split [OF i 1(3)])
    moreover have "um_try_insert_or_assign rb cap key v m = Inr (True, ?m')"
      using 1(1,3) a(1) um_slot_get_repr [OF I(2) 1(2), of e]
      by (simp add: um_try_insert_or_assign_def um_insert_or_assign_impl_def)
    ultimately show ?thesis using eqv n by auto
  qed (use that in simp)
  show "\<exists>m'. um_try_insert_or_assign rb cap key v m = Inr (True, m') \<and>
      um_abs cap eqv m' (map_put eqv A key v) (n + 1)" if "A key = None" "n < cap"
  proof (cases rule: um_find_cases [OF c, of key])
    case 2
    have cap: "0 < cap" "um_size m < cap" using that(2) n by auto
    obtain i where i: "locate_insert_index cap m key = Inr (Some i)" "i < bucket_count cap"
      "insert_spot (bucket_count cap) (bucket_index cap m key) c i"
      by (rule um_locate_absent [OF c(1) cap(1) 2(3)])
    obtain i' m' c' where m': "um_construct_at rb cap (Some i) key v m = Inr (Some i', m')" "um_inv cap m' c'"
      "entries c' = add_mset (key, v) (entries c)" "um_key_equal m' = um_key_equal m"
      using um_construct_at_inv [OF c(1) cap(2) i(2) 2(3) i(3)] by blast
    have "um_try_insert_or_assign rb cap key v m = Inr (True, m')"
      using 2(1) i(1) m'(1) cap(2) by (simp add: um_try_insert_or_assign_def um_insert_or_assign_impl_def)
    then show ?thesis using um_insert_abs [OF c m'(2,3,4) 2(3)] eqv n by blast
  qed (use that in simp)
  show "um_try_insert_or_assign rb cap key v m = Inr (False, m)" if "A key = None" "\<not> n < cap"
    by (cases rule: um_find_cases [OF c, of key])
      (use that n in \<open>auto simp: um_try_insert_or_assign_def um_insert_or_assign_impl_def\<close>)
qed

text \<open>The contract of the two maps, discharged for \<^verbatim>\<open>static_unordered_map\<close>.\<close>

interpretation um_map: bounded_map "um_ops rb cap" "um_abs cap eqv" eqv cap
proof (unfold_locales, goal_cases)
  case (1 s A n k)
  then show ?case by (simp add: um_ops_def um_find_law)
next
  case (2 s A n k v)
  then show ?case using um_try_emplace_law(1) by (simp add: um_ops_def)
next
  case (3 s A n k v)
  then show ?case using um_try_emplace_law(2) [OF 3(1)] by (simp add: um_ops_def)
next
  case (4 s A n k v)
  then show ?case using um_try_insert_or_assign_law(1) [OF 4(1)] by (simp add: um_ops_def)
next
  case (5 s A n k v)
  then show ?case using um_try_insert_or_assign_law(2) [OF 5(1)] by (simp add: um_ops_def)
next
  case (6 s A n k v)
  then show ?case using um_try_insert_or_assign_law(3) [OF 6(1)] by (simp add: um_ops_def)
next
  case (7 s A n k)
  then show ?case using um_erase_law(1) [OF 7(1)] by (simp add: um_ops_def)
next
  case (8 s A n k)
  then show ?case using um_erase_law(2) [OF 8(1)] by (simp add: um_ops_def)
qed

end
