(* ===== verification/Unordered_map_whole.thy ===== *)
theory Unordered_map_whole
  imports Unordered_map_spec
begin

text \<open>
  The operations of \<^verbatim>\<open>static_unordered_map\<close> on whole tables: construction, clear,
  swap, copy, move and erase_if; and the asserting forms of insertion.
\<close>

section \<open>Construction and clear\<close>

lemma entries_replicate_Free [simp]: "entries (replicate n Free) = {#}"
  by (induction n) (simp_all add: entries_def)

lemma entries_Nil [simp]: "entries [] = {#}"
  by (simp add: entries_def)

lemma um_empty_inv:
  assumes "valid_capacity cap" "equivp eqv" "\<And>a b. eqv a b \<Longrightarrow> hash a = hash b"
  shows "um_inv cap (um_empty_with cap hash eqv) (replicate (bucket_count cap) Free)"
proof -
  have n: "0 < bucket_count cap" by (rule bucket_count_pos [OF assms(1)])
  have none: "where_cell P (replicate (bucket_count cap) Free) = {}" if "\<not> P Free" for P :: "('a \<times> 'b) cell \<Rightarrow> bool"
    using that by (auto simp: where_cell_def)
  show ?thesis
    using assms n bitset_new_repr [OF n]
    by (auto simp: um_inv_def um_repr_def um_empty_with_def none probe_ok_def hash_respects_def map_replicate)
qed

lemma um_empty_abs:
  assumes "valid_capacity cap" "equivp eqv" "\<And>a b. eqv a b \<Longrightarrow> hash a = hash b"
  shows "um_abs cap eqv (um_empty_with cap hash eqv) (\<lambda>_. None) 0"
  using um_empty_inv [OF assms]
  unfolding um_abs_def by (intro exI [of _ "replicate (bucket_count cap) Free"]) (simp add: um_empty_with_def)

text \<open>A state change of a slot that holds no element.\<close>

lemma um_set_state_repr:
  fixes m :: "('k, 'v) unordered_map"
  assumes "um_repr cap m c" "i < bucket_count cap" "cell_entry (c ! i) = None"
    and "s = Slot_tombstone \<and> x = Grave \<or> s = Slot_empty \<and> x = Free"
  obtains occupied tombstone where
    "\<And>m' :: ('k, 'v) unordered_map. um_occupied m' = um_occupied m \<Longrightarrow> um_tombstone m' = um_tombstone m \<Longrightarrow>
       um_set_state cap i s m' = Inr (m'\<lparr>um_occupied := occupied, um_tombstone := tombstone\<rparr>)"
    "um_repr cap (m\<lparr>um_occupied := occupied, um_tombstone := tombstone\<rparr>) (c[i := x])"
proof -
  obtain occupied tombstone where bits:
    "\<And>m' :: ('k, 'v) unordered_map. um_occupied m' = um_occupied m \<Longrightarrow> um_tombstone m' = um_tombstone m \<Longrightarrow>
       um_set_state cap i s m' = Inr (m'\<lparr>um_occupied := occupied, um_tombstone := tombstone\<rparr>)"
    "bitset_repr (bucket_count cap) occupied (where_cell is_held c - {i})"
    "bitset_repr (bucket_count cap) tombstone
       (if s = Slot_tombstone then insert i (where_cell is_marked c) else where_cell is_marked c - {i})"
    by (rule um_set_state_bits [OF assms(1,2), where s = s]) (use assms(4) in auto)
  have "um_storage m = (um_storage m)[i := cell_entry x]"
    using assms(3,4) um_slot_repr [OF assms(1,2)] by (metis cell_entry.simps(3,4) list_update_id)
  then have "um_repr cap (m\<lparr>um_occupied := occupied, um_tombstone := tombstone\<rparr>) (c[i := x])"
    by (intro um_repr_update [OF assms(1,2)]) (use bits assms(4) in auto)
  with bits(1) show thesis by (rule that)
qed

definition same_fns :: "('k, 'v) unordered_map \<Rightarrow> ('k, 'v) unordered_map \<Rightarrow> bool" where
  "same_fns m m' \<longleftrightarrow> um_hasher m' = um_hasher m \<and> um_key_equal m' = um_key_equal m"

lemma um_clear_slot:
  fixes m :: "('k, 'v) unordered_map"
  assumes "um_repr cap m c" "\<And>e. Moving e \<notin> set c" "i < bucket_count cap" "um_size m = size (entries c)"
  shows "\<exists>m'. bnd (um_state cap m i) (\<lambda>s.
              if s = Slot_occupied then um_destroy_at cap i Slot_empty m
              else um_set_state cap i Slot_empty m) = Inr m' \<and>
           um_repr cap m' (c[i := Free]) \<and> um_size m' = size (entries (c[i := Free])) \<and> same_fns m m'"
proof -
  have i: "i < length c" using assms(3) um_repr_length(1) [OF assms(1)] by simp
  note st = um_state_repr [OF assms(1,3)]
  show ?thesis
  proof (cases "is_held (c ! i)")
    case True
    then obtain e where e: "c ! i = Held e" by (cases "c ! i") auto
    obtain m' where "um_destroy_at cap i Slot_empty m = Inr m'" "um_repr cap m' (c[i := Free])"
      "um_size m' = um_size m - 1" "same_fns m m'"
      by (rule um_destroy_at_repr [OF assms(1,3) e, of Slot_empty Free]) (auto simp: same_fns_def)
    then show ?thesis using st e entries_split(1) [OF i e] assms(4) by auto
  next
    case False
    then have none: "cell_entry (c ! i) = None" "cell_state (c ! i) \<noteq> Slot_occupied" "cell_mset (c ! i) = {#}"
      using assms(2) nth_mem [OF i] by (cases "c ! i"; auto)+
    obtain occupied tombstone where
      b: "um_set_state cap i Slot_empty m = Inr (m\<lparr>um_occupied := occupied, um_tombstone := tombstone\<rparr>)"
      "um_repr cap (m\<lparr>um_occupied := occupied, um_tombstone := tombstone\<rparr>) (c[i := Free])"
      by (rule um_set_state_repr [OF assms(1,3) none(1), of Slot_empty Free]) auto
    then show ?thesis
      using st none entries_update [OF i, of Free] assms(4) by (auto simp: same_fns_def)
  qed
qed

text \<open>An empty table, whatever its hasher and key equality.\<close>

definition um_blank :: "nat \<Rightarrow> ('k, 'v) unordered_map \<Rightarrow> bool" where
  "um_blank cap m \<longleftrightarrow> um_repr cap m (replicate (bucket_count cap) Free) \<and> um_size m = 0 \<and> um_tombstones m = 0"

lemma um_clear_blank:
  fixes m :: "('k, 'v) unordered_map"
  assumes "um_repr cap m c" "\<And>e. Moving e \<notin> set c" "um_size m = size (entries c)"
  shows "\<exists>m'. um_clear cap m = Inr m' \<and> um_blank cap m' \<and> same_fns m m'"
proof -
  let ?body = "\<lambda>i m. bnd (um_state cap m i) (\<lambda>s.
              if s = Slot_occupied then um_destroy_at cap i Slot_empty m
              else um_set_state cap i Slot_empty m)"
  let ?Q = "\<lambda>i m'. \<exists>c'. um_repr cap m' c' \<and> (\<forall>e. Moving e \<notin> set c') \<and> um_size m' = size (entries c') \<and>
      (\<forall>j < i. c' ! j = Free) \<and> same_fns m m'"
  have "\<exists>m'. for_upto 0 (bucket_count cap) ?body m = Inr m' \<and> ?Q (bucket_count cap) m'"
  proof (rule for_upto_inv [where Q = ?Q])
    fix i m' assume i: "i < bucket_count cap" and "?Q i m'"
    then obtain c' where c': "um_repr cap m' c'" "\<And>e. Moving e \<notin> set c'" "um_size m' = size (entries c')"
      "\<forall>j < i. c' ! j = Free" "same_fns m m'" by blast
    obtain m'' where m'': "?body i m' = Inr m''" "um_repr cap m'' (c'[i := Free])"
      "um_size m'' = size (entries (c'[i := Free]))" "same_fns m' m''"
      using um_clear_slot [OF c'(1,2) i c'(3)] by blast
    have "\<forall>j < Suc i. c'[i := Free] ! j = Free"
      using c'(4) i um_repr_length(1) [OF c'(1)] by (auto simp: less_Suc_eq)
    moreover have "\<forall>e. Moving e \<notin> set (c'[i := Free])" using no_moving_update [OF c'(2), of Free] by blast
    moreover have "same_fns m m''" using c'(5) m''(4) by (simp add: same_fns_def)
    ultimately show "\<exists>m''. ?body i m' = Inr m'' \<and> ?Q (Suc i) m''" using m''(1-3) by blast
  qed (use assms in \<open>auto simp: same_fns_def\<close>)
  then obtain m' c' where fin: "for_upto 0 (bucket_count cap) ?body m = Inr m'" "um_repr cap m' c'"
    "um_size m' = size (entries c')" "\<forall>j < bucket_count cap. c' ! j = Free" "same_fns m m'" by blast
  have c': "c' = replicate (bucket_count cap) Free"
    using fin(2,4) um_repr_length(1) [OF fin(2)] by (simp add: list_eq_iff_nth_eq)
  have "um_clear cap m = Inr (m'\<lparr>um_tombstones := 0\<rparr>)" using fin(1) by (simp add: um_clear_def)
  then show ?thesis using fin(2,3,5) unfolding c' by (auto simp: um_blank_def same_fns_def)
qed

lemma um_blank_inv:
  assumes "um_blank cap m" "valid_capacity cap" "hash_respects m"
  shows "um_inv cap m (replicate (bucket_count cap) Free)"
  using assms by (auto simp: um_inv_def um_blank_def where_cell_def probe_ok_def)

lemma um_clear_inv:
  fixes m :: "('k, 'v) unordered_map"
  assumes "um_inv cap m c"
  shows "\<exists>m'. um_clear cap m = Inr m' \<and> um_inv cap m' (replicate (bucket_count cap) Free) \<and> same_fns m m'"
proof -
  note I = um_invD [OF assms]
  obtain m' where m': "um_clear cap m = Inr m'" "um_blank cap m'" "same_fns m m'"
    using um_clear_blank [OF I(2,3,4)] by blast
  have "hash_respects m'" using m'(3) I(9) by (auto simp: hash_respects_def same_fns_def)
  then show ?thesis using m' um_blank_inv [OF m'(2) I(1)] by blast
qed


section \<open>The asserting insertions\<close>

lemma um_obtain_cases:
  assumes "um_abs cap eqv m A n"
  obtains (present) i k' w where "um_obtain h rb cap key v m = Inr (Some i, m)" "A key = Some w" "eqv k' key"
      "um_slot_value m (Some i) = Inr (k', w)" "i < bucket_count cap"
  | (inserted) i m' where "um_obtain h rb cap key v m = Inr (Some i, m')" "A key = None" "n < cap"
      "um_abs cap eqv m' (map_put eqv A key v) (n + 1)" "um_slot_value m' (Some i) = Inr (key, v)"
  | (full) "um_obtain h rb cap key v m = Inl Check_failed" "A key = None" "\<not> n < cap"
proof -
  obtain c where c: "um_inv cap m c"
    "\<forall>k v. A k = Some v \<longleftrightarrow> (\<exists>k'. (k', v) \<in># entries c \<and> um_key_equal m k' k)"
    and eqv: "eqv = um_key_equal m" and n: "n = um_size m"
    using assms unfolding um_abs_def by blast
  note I = um_invD [OF c(1)]
  show thesis
  proof (cases rule: um_find_cases [OF c, of key])
    case (1 i e)
    have "um_slot_value m (Some i) = Inr (fst e, snd e)"
      using um_slot_get_repr [OF I(2) 1(2), of e] 1(3) by (simp add: um_slot_value_def)
    then show thesis
      using present [of i "snd e" "fst e"] 1 eqv by (simp add: um_obtain_def)
  next
    case 2
    show thesis
    proof (cases "n < cap")
      case True
      then have cap: "0 < cap" "um_size m < cap" using n by auto
      obtain i where i: "locate_insert_index cap m key = Inr (Some i)" "i < bucket_count cap"
        "insert_spot (bucket_count cap) (bucket_index cap m key) c i"
        "um_state cap m i = Inr (cell_state (c ! i))" "cell_state (c ! i) \<noteq> Slot_occupied"
        by (rule um_locate_absent [OF c(1) cap(1) 2(3)])
      obtain i' m' c' where m': "um_construct_at rb cap (Some i) key v m = Inr (Some i', m')" "um_inv cap m' c'"
        "i' < bucket_count cap" "c' ! i' = Held (key, v)"
        "entries c' = add_mset (key, v) (entries c)" "um_key_equal m' = um_key_equal m"
        using um_construct_at_inv [OF c(1) cap(2) i(2) 2(3) i(3)] by blast
      have "um_obtain h rb cap key v m = Inr (Some i', m')"
        using 2(1) cap(2) i m'(1) by (simp add: um_obtain_def)
      moreover have "um_slot_value m' (Some i') = Inr (key, v)"
        using um_slot_get_repr [OF um_invD(2) [OF m'(2)] m'(3), of "(key, v)"] m'(4) by (simp add: um_slot_value_def)
      ultimately show thesis
        using inserted 2(2) True um_insert_abs [OF c m'(2,5,6) 2(3)] eqv n by blast
    next
      case False
      then show thesis using full 2(1,2) n by (simp add: um_obtain_def)
    qed
  qed
qed

lemma um_emplace_law:
  assumes "um_abs cap eqv m A n"
  shows "A key = Some w \<Longrightarrow> \<exists>k'. um_emplace h rb cap key v m = Inr ((k', w), m) \<and> eqv k' key"
    and "A key = None \<Longrightarrow> n < cap \<Longrightarrow> \<exists>m'. um_emplace h rb cap key v m = Inr ((key, v), m') \<and>
           um_abs cap eqv m' (map_put eqv A key v) (n + 1)"
    and "A key = None \<Longrightarrow> \<not> n < cap \<Longrightarrow> um_emplace h rb cap key v m = Inl Check_failed"
  by (cases rule: um_obtain_cases [OF assms, of h rb key v]; auto simp: um_emplace_def)+

lemma um_subscript_law:
  assumes "um_abs cap eqv m A n"
  shows "A key = Some w \<Longrightarrow> um_subscript h rb cap dflt key m = Inr (w, m)"
    and "A key = None \<Longrightarrow> n < cap \<Longrightarrow> \<exists>m'. um_subscript h rb cap dflt key m = Inr (dflt, m') \<and>
           um_abs cap eqv m' (map_put eqv A key dflt) (n + 1)"
    and "A key = None \<Longrightarrow> \<not> n < cap \<Longrightarrow> um_subscript h rb cap dflt key m = Inl Check_failed"
  by (cases rule: um_obtain_cases [OF assms, of h rb key dflt]; auto simp: um_subscript_def)+

lemma um_insert_or_assign_law:
  assumes "um_abs cap eqv m A n"
  shows "A key \<noteq> None \<or> n < cap \<Longrightarrow> \<exists>k' m'. um_insert_or_assign h rb cap key v m = Inr ((k', v), m') \<and>
           eqv k' key \<and> um_abs cap eqv m' (map_put eqv A key v) (if A key = None then n + 1 else n)"
    and "A key = None \<Longrightarrow> \<not> n < cap \<Longrightarrow> um_insert_or_assign h rb cap key v m = Inl Check_failed"
proof -
  obtain c where c: "um_inv cap m c"
    "\<forall>k v. A k = Some v \<longleftrightarrow> (\<exists>k'. (k', v) \<in># entries c \<and> um_key_equal m k' k)"
    and eqv: "eqv = um_key_equal m" and n: "n = um_size m"
    using assms unfolding um_abs_def by blast
  note I = um_invD [OF c(1)] and L = um_try_insert_or_assign_law [OF assms, where key = key and v = v and rb = rb]
  show "\<exists>k' m'. um_insert_or_assign h rb cap key v m = Inr ((k', v), m') \<and>
      eqv k' key \<and> um_abs cap eqv m' (map_put eqv A key v) (if A key = None then n + 1 else n)"
    if "A key \<noteq> None \<or> n < cap"
  proof (cases rule: um_find_cases [OF c, of key])
    case (1 i e)
    have st: "slot_assign (um_storage m) i (fst e, v) = Inr ((um_storage m)[i := Some (fst e, v)])"
      by (rule um_assign_inv(1) [OF c(1) 1(2,3)])
    have impl: "um_insert_or_assign_impl rb cap key v m =
        Inr (Some i, m\<lparr>um_storage := (um_storage m)[i := Some (fst e, v)]\<rparr>)"
      using 1(1,3) st um_slot_get_repr [OF I(2) 1(2), of e] by (simp add: um_insert_or_assign_impl_def)
    then have "um_insert_or_assign h rb cap key v m =
        Inr ((fst e, v), m\<lparr>um_storage := (um_storage m)[i := Some (fst e, v)]\<rparr>)"
      using 1(2) um_repr_length(2) [OF I(2)]
      by (simp add: um_insert_or_assign_def um_slot_value_def slot_get_def)
    moreover have "um_abs cap eqv (m\<lparr>um_storage := (um_storage m)[i := Some (fst e, v)]\<rparr>) (map_put eqv A key v) n"
      using L(1) 1(5) impl by (simp add: um_try_insert_or_assign_def)
    ultimately show ?thesis using 1(4,5) eqv by auto
  next
    case 2
    then have cap: "n < cap" "um_size m < cap" "0 < cap" using that n by auto
    obtain i where i: "locate_insert_index cap m key = Inr (Some i)" "i < bucket_count cap"
      "insert_spot (bucket_count cap) (bucket_index cap m key) c i"
      by (rule um_locate_absent [OF c(1) cap(3) 2(3)])
    obtain i' m' c' where m': "um_construct_at rb cap (Some i) key v m = Inr (Some i', m')" "um_inv cap m' c'"
      "i' < bucket_count cap" "c' ! i' = Held (key, v)"
      "entries c' = add_mset (key, v) (entries c)" "um_key_equal m' = um_key_equal m"
      using um_construct_at_inv [OF c(1) cap(2) i(2) 2(3) i(3)] by blast
    have "um_insert_or_assign h rb cap key v m = Inr ((key, v), m')"
      using 2(1) i(1) m'(1,3,4) cap(2) um_slot_get_repr [OF um_invD(2) [OF m'(2)] m'(3), of "(key, v)"]
      by (simp add: um_insert_or_assign_def um_insert_or_assign_impl_def um_slot_value_def)
    moreover have "eqv key key" using hash_respects_equivp [OF I(9)] eqv by (simp add: equivp_reflp)
    ultimately show ?thesis
      using um_insert_abs [OF c m'(2,5,6) 2(3)] eqv n 2(2) by auto
  qed
  show "um_insert_or_assign h rb cap key v m = Inl Check_failed" if "A key = None" "\<not> n < cap"
    by (cases rule: um_find_cases [OF c, of key])
      (use that n in \<open>auto simp: um_insert_or_assign_def um_insert_or_assign_impl_def METL_ASSERT_def\<close>)
qed

section \<open>Copying\<close>

lemma entries_take_Suc: "i < length d \<Longrightarrow> entries (take (Suc i) d) = entries (take i d) + cell_mset (d ! i)"
  by (simp add: entries_def take_Suc_conv_app_nth)

lemma entries_take_subset: "entries (take i d) \<subseteq># entries d"
  using append_take_drop_id [of i d, symmetric]
  by (metis entries_def map_append mset_subset_eq_add_left sum_list.append)

lemma entries_take_skip:
  assumes "i \<le> j" "j \<le> length d" "\<And>l. i \<le> l \<Longrightarrow> l < j \<Longrightarrow> cell_entry (d ! l) = None"
  shows "entries (take j d) = entries (take i d)"
  using assms
proof (induction "j - i" arbitrary: j)
  case (Suc k)
  then obtain j' where j: "j = Suc j'" by (cases j) auto
  have ij: "i \<le> j'" using Suc.hyps(2) j by simp
  have "entries (take j' d) = entries (take i d)"
    using Suc j by (intro Suc.hyps(1)) auto
  moreover have "cell_mset (d ! j') = {#}" using Suc.prems(3) [of j'] ij j by (cases "d ! j'") auto
  ultimately show ?case using entries_take_Suc [of j' d] Suc.prems(2) j by simp
qed simp

lemma min_or_cases:
  assumes "S \<subseteq> {..<n}"
  obtains (some) i where "min_or n S = i" "i \<in> S" "i < n" "\<And>l. l \<in> S \<Longrightarrow> i \<le> l"
  | (none) "min_or n S = n" "S = {}"
proof (cases "S = {}")
  case False
  have fin: "finite S" using assms finite_subset by blast
  then have "Min S \<in> S" using False by (rule Min_in)
  with False assms show thesis using some [of "Min S"] Min_le [OF fin] by (auto simp: min_or_def)
qed (use none in \<open>simp add: min_or_def\<close>)

lemma um_iterator_spec:
  assumes "um_repr cap m c" "\<And>e. Moving e \<notin> set c"
  obtains (at) it e where "um_iterator cap m i = Inr it" "i \<le> it" "it < bucket_count cap" "c ! it = Held e"
      "\<And>l. i \<le> l \<Longrightarrow> l < it \<Longrightarrow> cell_entry (c ! l) = None"
  | (past) "um_iterator cap m i = Inr (bucket_count cap)"
      "\<And>l. i \<le> l \<Longrightarrow> l < bucket_count cap \<Longrightarrow> cell_entry (c ! l) = None"
proof -
  let ?S = "where_cell is_held c \<inter> {i..}"
  have len: "length c = bucket_count cap" using um_repr_length(1) [OF assms(1)] .
  have it: "um_iterator cap m i = Inr (min_or (bucket_count cap) ?S)"
    using find_next_set_repr [OF um_repr_bits(1) [OF assms(1)]] by (simp add: um_iterator_def)
  have dead: "cell_entry (c ! l) = None" if "l < bucket_count cap" "l \<notin> where_cell is_held c" for l
    using that assms(2) nth_mem [of l c] len by (cases "c ! l") (auto simp: where_cell_def)
  have "?S \<subseteq> {..<bucket_count cap}" using len by (auto simp: where_cell_def)
  then show thesis
  proof (cases rule: min_or_cases)
    case (some j)
    then obtain e where "c ! j = Held e" by (cases "c ! j") (auto simp: where_cell_def)
    moreover have "cell_entry (c ! l) = None" if "i \<le> l" "l < j" for l
      using dead [of l] some(3,4) that by fastforce
    ultimately show thesis using at [of j e] it some by auto
  next
    case none
    then show thesis using past it dead by auto
  qed
qed


lemma um_emplace_from_inv:
  fixes m other :: "('k, 'v) unordered_map"
  assumes o: "um_inv cap other d" and "um_inv cap m c" "entries c = entries (take i d)" "i \<le> bucket_count cap"
    and "um_hasher m = um_hasher other" "um_key_equal m = um_key_equal other"
  shows "\<exists>m' c'. um_emplace_from h rb cap i other m = Inr m' \<and> um_inv cap m' c' \<and> entries c' = entries d \<and>
           same_fns m m'"
  using assms(2-)
proof (induction "bucket_count cap - i" arbitrary: i m c rule: less_induct)
  case less
  note O = um_invD [OF o] and I = um_invD [OF less.prems(1)]
  have len: "length d = bucket_count cap" by (rule um_repr_length(1) [OF O(2)])
  have eqv: "equivp (um_key_equal m)" by (rule hash_respects_equivp [OF I(9)])
  show ?case
  proof (cases rule: um_iterator_spec [OF O(2,3), of i])
    case (1 it e)
    have ent: "entries c = entries (take it d)"
      using entries_take_skip [of i it d] 1(2,3,5) len less.prems(2) by simp
    have sub: "add_mset e (entries c) = entries (take (Suc it) d)"
      using entries_take_Suc [of it d] 1(3,4) len ent by simp
    have part: "add_mset e (entries c) \<subseteq># entries d" unfolding sub by (rule entries_take_subset)
    have "unique_keys (um_key_equal m) (add_mset e (entries c))"
      using unique_keys_subset [OF O(8) part] less.prems(5) by simp
    then have absent: "absent (um_key_equal m) (fst e) c"
      using unique_keys_rest [OF _ eqv] by (intro absentI) blast
    have cap: "0 < cap" "um_size m < cap"
      using I(4) O(4,5) size_mset_mono [OF part] by auto
    obtain j where j: "locate_insert_index cap m (fst e) = Inr (Some j)" "j < bucket_count cap"
      "insert_spot (bucket_count cap) (bucket_index cap m (fst e)) c j"
      "um_state cap m j = Inr (cell_state (c ! j))" "cell_state (c ! j) \<noteq> Slot_occupied"
      by (rule um_locate_absent [OF less.prems(1) cap(1) absent])
    obtain j' m' c' where m': "um_construct_at rb cap (Some j) (fst e) (snd e) m = Inr (Some j', m')"
      "um_inv cap m' c'" "j' < bucket_count cap" "c' ! j' = Held (fst e, snd e)"
      "entries c' = add_mset (fst e, snd e) (entries c)"
      "um_hasher m' = um_hasher m" "um_key_equal m' = um_key_equal m"
      using um_construct_at_inv [OF less.prems(1) cap(2) j(2) absent j(3)] by blast
    have "find_existing_index cap m (fst e) = Inr None"
      using find_existing_spec [OF less.prems(1), of "fst e"] absent um_repr_length(1) [OF I(2)]
      by (auto simp: absent_def)
    then have "um_emplace h rb cap (fst e) (snd e) m = Inr (e, m')"
      using j m'(1) cap(2) um_slot_get_repr [OF um_invD(2) [OF m'(2)] m'(3), of e] m'(4)
      by (simp add: um_emplace_def um_obtain_def um_slot_value_def)
    then have step: "um_emplace_from h rb cap i other m = um_emplace_from h rb cap (it + 1) other m'"
      using 1(1-4) um_slot_get_repr [OF O(2) 1(3), of e]
      by (subst um_emplace_from.simps) simp
    have "\<exists>m'' c''. um_emplace_from h rb cap (it + 1) other m' = Inr m'' \<and> um_inv cap m'' c'' \<and>
        entries c'' = entries d \<and> same_fns m' m''"
      using less.hyps [of "it + 1" m' c'] m' sub 1(2,3) less.prems(4,5) by simp
    then show ?thesis using step m'(6,7) by (auto simp: same_fns_def)
  next
    case 2
    have "entries c = entries d"
      using entries_take_skip [of i "bucket_count cap" d] 2(2) less.prems(2,3) len by simp
    moreover have "um_emplace_from h rb cap i other m = Inr m"
      using 2(1) by (subst um_emplace_from.simps) simp
    ultimately show ?thesis using less.prems(1) by (auto simp: same_fns_def)
  qed
qed

lemma um_abs_entries:
  assumes "um_abs cap eqv m A n" "um_inv cap m c" "um_inv cap m' c'" "entries c' = entries c"
    and "um_key_equal m' = um_key_equal m"
  shows "um_abs cap eqv m' A n"
proof -
  obtain d where d: "um_inv cap m d" "eqv = um_key_equal m" "n = um_size m"
    "\<forall>k v. A k = Some v \<longleftrightarrow> (\<exists>k'. (k', v) \<in># entries d \<and> um_key_equal m k' k)"
    using assms(1) unfolding um_abs_def by blast
  have "map cell_entry c = map cell_entry d"
    using um_invD(2) [OF d(1)] um_invD(2) [OF assms(2)] by (simp add: um_repr_def)
  moreover have "entries x = sum_list (map (\<lambda>z. case z of None \<Rightarrow> {#} | Some e \<Rightarrow> {#e#}) (map cell_entry x))"
    for x :: "('a \<times> 'b) cell list"
  proof -
    have "cell_mset y = (case cell_entry y of None \<Rightarrow> {#} | Some e \<Rightarrow> {#e#})" for y :: "('a \<times> 'b) cell"
      by (cases y) auto
    then have "map cell_mset x = map (\<lambda>y. case cell_entry y of None \<Rightarrow> {#} | Some e \<Rightarrow> {#e#}) x"
      by simp
    then show ?thesis unfolding entries_def map_map comp_def by (rule arg_cong)
  qed
  ultimately have "entries c = entries d" by metis
  moreover have "um_size m' = um_size m"
    using um_invD(4) [OF assms(3)] um_invD(4) [OF assms(2)] assms(4) by simp
  ultimately show ?thesis
    unfolding um_abs_def using d assms(3,4,5) by metis
qed

text \<open>Reading a table's elements does not use its hasher or key equality.\<close>

lemma um_emplace_from_fns:
  "um_emplace_from h rb cap i (other\<lparr>um_hasher := gh, um_key_equal := ge\<rparr>) m = um_emplace_from h rb cap i other m"
proof (induction "bucket_count cap - i" arbitrary: i m rule: less_induct)
  case less
  have it: "um_iterator cap (other\<lparr>um_hasher := gh, um_key_equal := ge\<rparr>) i = um_iterator cap other i"
    by (simp add: um_iterator_def)
  have "um_emplace_from h rb cap (Suc it) (other\<lparr>um_hasher := gh, um_key_equal := ge\<rparr>) m1 = um_emplace_from h rb cap (Suc it) other m1"
    if "it < bucket_count cap" "i \<le> it" for it m1
    using less.hyps [of "Suc it" m1] that by simp
  then show ?case
    unfolding um_emplace_from.simps [of h rb cap i] it
    by (auto intro!: bnd_cong split: prod.split)
qed

lemma um_moved_from:
  assumes "um_inv cap other d"
  shows "\<exists>other'. um_clear cap (other\<lparr>um_hasher := gh, um_key_equal := ge\<rparr>) = Inr other' \<and> um_blank cap other' \<and>
    um_hasher other' = gh \<and> um_key_equal other' = ge"
proof -
  note O = um_invD [OF assms]
  have "um_repr cap (other\<lparr>um_hasher := gh, um_key_equal := ge\<rparr>) d" using O(2) by simp
  then show ?thesis
    using um_clear_blank [OF _ O(3), of cap "other\<lparr>um_hasher := gh, um_key_equal := ge\<rparr>"] O(4) by (auto simp: same_fns_def)
qed

lemma um_copy_law:
  fixes other :: "('k, 'v) unordered_map"
  assumes "um_abs cap eqv other A n"
  shows "\<exists>m. um_copy h rb cap other = Inr m \<and> um_abs cap eqv m A n"
    and "\<exists>m other'. um_move h rb cap gh ge other = Inr (m, other') \<and> um_abs cap eqv m A n \<and>
           um_blank cap other' \<and> um_hasher other' = gh \<and> um_key_equal other' = ge"
proof -
  obtain d where o: "um_inv cap other d" using assms unfolding um_abs_def by blast
  note O = um_invD [OF o]
  let ?m = "um_empty_with cap (um_hasher other) (um_key_equal other) :: ('k, 'v) unordered_map"
  have e: "um_inv cap ?m (replicate (bucket_count cap) Free)"
    using O(1,9) by (intro um_empty_inv) (auto simp: hash_respects_def)
  have start: "um_hasher ?m = um_hasher other" "um_key_equal ?m = um_key_equal other"
    by (simp_all add: um_empty_with_def)
  have none: "entries (replicate (bucket_count cap) Free) = entries (take 0 d)" by simp
  obtain m c where m: "um_emplace_from h rb cap 0 other ?m = Inr m" "um_inv cap m c" "entries c = entries d"
    "same_fns ?m m"
    using um_emplace_from_inv [OF o e none _ start] by blast
  have "um_key_equal m = um_key_equal other" using m(4) start(2) by (simp add: same_fns_def)
  then have abs: "um_abs cap eqv m A n" using um_abs_entries [OF assms o m(2,3)] by blast
  then show "\<exists>m. um_copy h rb cap other = Inr m \<and> um_abs cap eqv m A n"
    using m(1) by (simp add: um_copy_def)
  show "\<exists>m other'. um_move h rb cap gh ge other = Inr (m, other') \<and> um_abs cap eqv m A n \<and>
      um_blank cap other' \<and> um_hasher other' = gh \<and> um_key_equal other' = ge"
    using m(1) abs um_moved_from [OF o, where gh = gh and ge = ge] by (auto simp: um_move_def Let_def um_emplace_from_fns)
qed

lemma um_assign_law:
  fixes m other :: "('k, 'v) unordered_map"
  assumes "um_inv cap m c" "um_abs cap eqv other A n"
  shows "\<exists>m'. um_assign h rb cap False m other = Inr m' \<and> um_abs cap eqv m' A n"
    and "\<exists>m' other'. um_move_assign h rb cap False gh ge m other = Inr (m', other') \<and> um_abs cap eqv m' A n \<and>
           um_blank cap other' \<and> um_hasher other' = gh \<and> um_key_equal other' = ge"
proof -
  obtain d where o: "um_inv cap other d" using assms(2) unfolding um_abs_def by blast
  note O = um_invD [OF o]
  obtain m0 where m0: "um_clear cap m = Inr m0" "um_inv cap m0 (replicate (bucket_count cap) Free)"
    using um_clear_inv [OF assms(1)] by blast
  let ?m = "m0\<lparr>um_hasher := um_hasher other, um_key_equal := um_key_equal other\<rparr>"
  have e: "um_inv cap ?m (replicate (bucket_count cap) Free)"
    using um_invD [OF m0(2)] O(9) by (auto simp: um_inv_def probe_ok_def hash_respects_def)
  have none: "entries (replicate (bucket_count cap) Free) = entries (take 0 d)" by simp
  have start: "um_hasher ?m = um_hasher other" "um_key_equal ?m = um_key_equal other" by simp_all
  obtain m' c' where m': "um_emplace_from h rb cap 0 other ?m = Inr m'" "um_inv cap m' c'"
    "entries c' = entries d" "same_fns ?m m'"
    using um_emplace_from_inv [OF o e none le0 start, of h rb] by blast
  have "um_key_equal m' = um_key_equal other" using m'(4) by (simp add: same_fns_def)
  then have abs: "um_abs cap eqv m' A n" using um_abs_entries [OF assms(2) o m'(2,3)] by blast
  show "\<exists>m'. um_assign h rb cap False m other = Inr m' \<and> um_abs cap eqv m' A n"
    using m0(1) m'(1) abs by (simp add: um_assign_def)
  show "\<exists>m' other'. um_move_assign h rb cap False gh ge m other = Inr (m', other') \<and> um_abs cap eqv m' A n \<and>
      um_blank cap other' \<and> um_hasher other' = gh \<and> um_key_equal other' = ge"
    using m0(1) m'(1) abs um_moved_from [OF o, where gh = gh and ge = ge] by (auto simp: um_move_assign_def Let_def um_emplace_from_fns)
qed

section \<open>Swap\<close>

definition same_counts :: "('k, 'v) unordered_map \<Rightarrow> ('k, 'v) unordered_map \<Rightarrow> bool" where
  "same_counts m m' \<longleftrightarrow> same_fns m m' \<and> um_size m' = um_size m \<and> um_tombstones m' = um_tombstones m"

text \<open>One slot: an element moves to a slot of the other table that has none.\<close>

lemma um_relocate:
  fixes a b :: "('k, 'v) unordered_map"
  assumes "um_repr cap a ca" "um_repr cap b cb" "i < bucket_count cap"
    and "ca ! i = Held e" "cb ! i = Free \<or> cb ! i = Grave"
  shows "\<exists>a' b'. bnd (slot_get (um_storage a) i) (\<lambda>e.
              bnd (slot_new (um_storage b) i e) (\<lambda>st.
              let to1 = b\<lparr>um_storage := st\<rparr> in
              bnd (um_state cap to1 i) (\<lambda>s.
              bnd (um_set_state cap i s a) (\<lambda>from1.
              bnd (um_set_state cap i Slot_occupied to1) (\<lambda>to2.
              bnd (slot_destroy (um_storage from1) i) (\<lambda>st1.
                Inr (from1\<lparr>um_storage := st1\<rparr>, to2))))))) = Inr (a', b') \<and>
           um_repr cap a' (ca[i := cb ! i]) \<and> um_repr cap b' (cb[i := Held e]) \<and>
           same_counts a a' \<and> same_counts b b'"
proof -
  let ?s = "cell_state (cb ! i)" and ?stb = "(um_storage b)[i := Some e]"
  have len: "i < length (um_storage a)" "i < length (um_storage b)"
    using assms(3) um_repr_length(2) [OF assms(1)] um_repr_length(2) [OF assms(2)] by auto
  have slots: "um_storage a ! i = Some e" "um_storage b ! i = None"
    using um_slot_repr [OF assms(1,3)] um_slot_repr [OF assms(2,3)] assms(4,5) by auto
  obtain oa ta where A: "um_set_state cap i ?s a = Inr (a\<lparr>um_occupied := oa, um_tombstone := ta\<rparr>)"
    "bitset_repr (bucket_count cap) oa (where_cell is_held ca - {i})"
    "bitset_repr (bucket_count cap) ta
       (if is_marked (cb ! i) then insert i (where_cell is_marked ca) else where_cell is_marked ca - {i})"
    by (rule um_set_state_bits [OF assms(1,3), where s = ?s]) (use assms(5) in auto)
  obtain ob tb where B: "um_set_state cap i Slot_occupied (b\<lparr>um_storage := ?stb\<rparr>) =
      Inr (b\<lparr>um_storage := ?stb, um_occupied := ob, um_tombstone := tb\<rparr>)"
    "bitset_repr (bucket_count cap) ob (insert i (where_cell is_held cb))"
    "bitset_repr (bucket_count cap) tb (where_cell is_marked cb - {i})"
    by (rule um_set_state_bits [OF assms(2,3), where s = Slot_occupied]) simp
  let ?a = "a\<lparr>um_occupied := oa, um_tombstone := ta, um_storage := (um_storage a)[i := None]\<rparr>"
  let ?b = "b\<lparr>um_storage := ?stb, um_occupied := ob, um_tombstone := tb\<rparr>"
  have "um_repr cap ?a (ca[i := cb ! i])"
    by (rule um_repr_update [OF assms(1,3)]) (use A assms(5) in auto)
  moreover have "um_repr cap ?b (cb[i := Held e])"
    by (rule um_repr_update [OF assms(2,3)]) (use B in auto)
  ultimately show ?thesis
    using len slots A(1) B(1) um_state_repr [OF assms(2,3)]
    by (auto simp: slot_get_def slot_new_def slot_destroy_def same_counts_def same_fns_def)
qed


lemma um_swap_slot_repr:
  fixes a b :: "('k, 'v) unordered_map"
  assumes "um_repr cap a ca" "um_repr cap b cb" "i < bucket_count cap"
    and "\<And>e. ca ! i \<noteq> Moving e" "\<And>e. cb ! i \<noteq> Moving e"
  shows "\<exists>a' b'. um_swap_slot cap i (a, b) = Inr (a', b') \<and>
           um_repr cap a' (ca[i := cb ! i]) \<and> um_repr cap b' (cb[i := ca ! i]) \<and>
           same_counts a a' \<and> same_counts b b'"
proof -
  note st = um_state_repr [OF assms(1,3)] um_state_repr [OF assms(2,3)]
  consider (both) e f where "ca ! i = Held e" "cb ! i = Held f"
    | (mine) e where "ca ! i = Held e" "cb ! i = Free \<or> cb ! i = Grave"
    | (theirs) f where "ca ! i = Free \<or> ca ! i = Grave" "cb ! i = Held f"
    | (neither) "ca ! i = Free \<or> ca ! i = Grave" "cb ! i = Free \<or> cb ! i = Grave"
    using assms(4,5) by (cases "ca ! i"; cases "cb ! i") auto
  then show ?thesis
  proof cases
    case both
    have len: "i < length (um_storage a)" "i < length (um_storage b)" "i < length ca" "i < length cb"
      using assms(3) um_repr_length [OF assms(1)] um_repr_length [OF assms(2)] by auto
    have slots: "um_storage a ! i = Some e" "um_storage b ! i = Some f"
      using um_slot_repr [OF assms(1,3)] um_slot_repr [OF assms(2,3)] both by auto
    let ?a = "a\<lparr>um_storage := (um_storage a)[i := Some f]\<rparr>" and ?b = "b\<lparr>um_storage := (um_storage b)[i := Some e]\<rparr>"
    have in_out: "i \<in> where_cell is_held ca" "i \<notin> where_cell is_marked ca"
      "i \<in> where_cell is_held cb" "i \<notin> where_cell is_marked cb"
      using both len by (auto simp: where_cell_def)
    have "um_repr cap ?a (ca[i := cb ! i])"
      by (rule um_repr_update [OF assms(1,3)])
        (use both(2) in_out um_repr_bits [OF assms(1)] in \<open>auto simp: insert_absorb\<close>)
    moreover have "um_repr cap ?b (cb[i := ca ! i])"
      by (rule um_repr_update [OF assms(2,3)])
        (use both(1) in_out um_repr_bits [OF assms(2)] in \<open>auto simp: insert_absorb\<close>)
    ultimately show ?thesis
      using st both len slots
      by (simp add: um_swap_slot_def slot_get_def slot_assign_def same_counts_def same_fns_def)
  next
    case mine
    from um_relocate [OF assms(1-3) mine] show ?thesis
      using st mine by (auto simp: um_swap_slot_def)
  next
    case theirs
    from um_relocate [OF assms(2,1,3) theirs(2,1)] show ?thesis
      using st theirs by (auto simp: um_swap_slot_def)
  next
    case neither
    have ne: "cell_entry (ca ! i) = None" "cell_entry (cb ! i) = None" using neither by auto
    obtain oa ta where A: "um_set_state cap i (cell_state (cb ! i)) a = Inr (a\<lparr>um_occupied := oa, um_tombstone := ta\<rparr>)"
      "um_repr cap (a\<lparr>um_occupied := oa, um_tombstone := ta\<rparr>) (ca[i := cb ! i])"
      by (rule um_set_state_repr [OF assms(1,3) ne(1), of "cell_state (cb ! i)" "cb ! i"]) (use neither in auto)
    obtain ob tb where B: "um_set_state cap i (cell_state (ca ! i)) b = Inr (b\<lparr>um_occupied := ob, um_tombstone := tb\<rparr>)"
      "um_repr cap (b\<lparr>um_occupied := ob, um_tombstone := tb\<rparr>) (cb[i := ca ! i])"
      by (rule um_set_state_repr [OF assms(2,3) ne(2), of "cell_state (ca ! i)" "ca ! i"]) (use neither in auto)
    show ?thesis
      using st neither A B by (auto simp: um_swap_slot_def same_counts_def same_fns_def)
  qed
qed

lemma um_swap_inv:
  fixes a b :: "('k, 'v) unordered_map"
  assumes "um_inv cap a ca" "um_inv cap b cb"
  shows "\<exists>a' b'. um_swap cap a b = Inr (a', b') \<and> um_inv cap a' cb \<and> um_inv cap b' ca \<and>
           same_fns b a' \<and> same_fns a b'"
proof -
  note A = um_invD [OF assms(1)] and B = um_invD [OF assms(2)]
  let ?n = "bucket_count cap"
  let ?a = "a\<lparr>um_hasher := um_hasher b, um_key_equal := um_key_equal b\<rparr>"
  let ?b = "b\<lparr>um_hasher := um_hasher a, um_key_equal := um_key_equal a\<rparr>"
  have len: "length ca = ?n" "length cb = ?n" using um_repr_length(1) A(2) B(2) by auto
  let ?Q = "\<lambda>i p. um_repr cap (fst p) (take i cb @ drop i ca) \<and> um_repr cap (snd p) (take i ca @ drop i cb) \<and>
      same_counts ?a (fst p) \<and> same_counts ?b (snd p)"
  have "\<exists>p. for_upto 0 ?n (um_swap_slot cap) (?a, ?b) = Inr p \<and> ?Q ?n p"
  proof (rule for_upto_inv [where Q = ?Q])
    fix i p assume i: "i < ?n" and Q: "?Q i p"
    have step: "(take i x @ drop i y)[i := x ! i] = take (Suc i) x @ drop (Suc i) y"
      if "length x = ?n" "length y = ?n" for x y :: "('k \<times> 'v) cell list"
      using that i by (simp add: list_update_append take_Suc_conv_app_nth Cons_nth_drop_Suc [symmetric])
    have at: "(take i x @ drop i y) ! i = y ! i" if "length x = ?n" "length y = ?n"
      for x y :: "('k \<times> 'v) cell list"
      using that i by (simp add: nth_append)
    have mv: "\<And>e. ca ! i \<noteq> Moving e" "\<And>e. cb ! i \<noteq> Moving e"
      using A(3) B(3) i len nth_mem by metis+
    show "\<exists>p'. um_swap_slot cap i p = Inr p' \<and> ?Q (Suc i) p'"
      using um_swap_slot_repr [of cap "fst p" "take i cb @ drop i ca" "snd p" "take i ca @ drop i cb" i]
        Q i mv len by (auto simp: at step same_counts_def same_fns_def)
  qed (use A(2) B(2) in \<open>auto simp: same_counts_def same_fns_def\<close>)
  then obtain a1 b1 where fin: "for_upto 0 ?n (um_swap_slot cap) (?a, ?b) = Inr (a1, b1)"
    "um_repr cap a1 cb" "um_repr cap b1 ca" "same_counts ?a a1" "same_counts ?b b1"
    using len by (auto simp: split_paired_Ex)
  let ?a' = "a1\<lparr>um_size := um_size b1, um_tombstones := um_tombstones b1\<rparr>"
  let ?b' = "b1\<lparr>um_size := um_size a1, um_tombstones := um_tombstones a1\<rparr>"
  have fa: "um_hasher ?a' = um_hasher b" "um_key_equal ?a' = um_key_equal b"
    and fb: "um_hasher ?b' = um_hasher a" "um_key_equal ?b' = um_key_equal a"
    using fin(4,5) by (auto simp: same_counts_def same_fns_def)
  have "um_inv cap ?a' cb"
    unfolding um_inv_def bucket_index_hasher [OF fa(1)] hash_respects_fields [OF fa]
    using fin(2,4,5) B fa by (auto simp: same_counts_def)
  moreover have "um_inv cap ?b' ca"
    unfolding um_inv_def bucket_index_hasher [OF fb(1)] hash_respects_fields [OF fb]
    using fin(3,4,5) A fb by (auto simp: same_counts_def)
  moreover have "um_swap cap a b = Inr (?a', ?b')" using fin(1) by (simp add: um_swap_def)
  ultimately show ?thesis using fa fb by (auto simp: same_fns_def)
qed

lemma um_assign_self: "um_assign h rb cap True a a = Inr a" "um_move_assign h rb cap True gh ge a a = Inr (a, a)"
  by (simp_all add: um_assign_def um_move_assign_def)

lemma um_swap_law:
  assumes "um_abs cap eqv a A n" "um_abs cap eqv' b B n'"
  shows "\<exists>a' b'. um_swap cap a b = Inr (a', b') \<and> um_abs cap eqv' a' B n' \<and> um_abs cap eqv b' A n \<and>
     um_hasher a' = um_hasher b \<and> um_hasher b' = um_hasher a"
proof -
  obtain ca cb where c: "um_inv cap a ca" "um_inv cap b cb"
    "eqv = um_key_equal a" "n = um_size a" "eqv' = um_key_equal b" "n' = um_size b"
    "\<forall>k v. A k = Some v \<longleftrightarrow> (\<exists>k'. (k', v) \<in># entries ca \<and> eqv k' k)"
    "\<forall>k v. B k = Some v \<longleftrightarrow> (\<exists>k'. (k', v) \<in># entries cb \<and> eqv' k' k)"
    using assms unfolding um_abs_def by blast
  obtain a' b' where s: "um_swap cap a b = Inr (a', b')" "um_inv cap a' cb" "um_inv cap b' ca"
    "same_fns b a'" "same_fns a b'" using um_swap_inv [OF c(1,2)] by blast
  have "um_size a' = n'" "um_size b' = n"
    using um_invD(4) c(1,2,4,6) s(2,3) by metis+
  then show ?thesis
    using s c unfolding um_abs_def same_fns_def by blast
qed


section \<open>Erasing by predicate\<close>

lemma entries_append: "entries (a @ b) = entries a + entries b"
  by (simp add: entries_def)

lemma entries_drop_skip:
  assumes "i \<le> j" "j \<le> length d" "\<And>l. i \<le> l \<Longrightarrow> l < j \<Longrightarrow> cell_entry (d ! l) = None"
  shows "entries (drop i d) = entries (drop j d)"
proof -
  have "entries (take i d) + entries (drop i d) = entries (take j d) + entries (drop j d)"
    by (simp flip: entries_append)
  then show ?thesis using entries_take_skip [OF assms] by simp
qed

lemma entries_drop_Suc: "i < length d \<Longrightarrow> entries (drop i d) = cell_mset (d ! i) + entries (drop (Suc i) d)"
  by (simp add: entries_def Cons_nth_drop_Suc [symmetric])

lemma um_erase_if_from_inv:
  fixes m :: "('k, 'v) unordered_map"
  assumes "um_inv cap m c" "um_iterator cap m j = Inr it" "j \<le> bucket_count cap"
  shows "\<exists>m' c'. um_erase_if_from cap pred it erased m =
             Inr (erased + size (filter_mset pred (entries (drop j c))), m') \<and> um_inv cap m' c' \<and>
           entries c' = entries (take j c) + filter_mset (\<lambda>e. \<not> pred e) (entries (drop j c)) \<and> same_fns m m'"
  using assms
proof (induction "bucket_count cap - j" arbitrary: j it erased m c rule: less_induct)
  case less
  note I = um_invD [OF less.prems(1)]
  have len: "length c = bucket_count cap" by (rule um_repr_length(1) [OF I(2)])
  show ?case
  proof (cases rule: um_iterator_spec [OF I(2,3), of j])
    case (1 i e)
    have it: "it = i" using 1(1) less.prems(2) by simp
    have il: "i < length c" using 1(3) len by simp
    have sk: "entries (take i c) = entries (take j c)" "entries (drop j c) = add_mset e (entries (drop (Suc i) c))"
      using entries_take_skip [of j i c] entries_drop_skip [of j i c] entries_drop_Suc [OF il] 1(2-5) il
      by auto
    have get: "slot_get (um_storage m) i = Inr e" using um_slot_get_repr [OF I(2) 1(3), of e] 1(4) by simp
    show ?thesis
    proof (cases "pred e")
      case True
      obtain m1 where m1: "um_destroy_at cap i Slot_tombstone m = Inr m1" "um_inv cap m1 (c[i := Grave])"
        "um_hasher m1 = um_hasher m" "um_key_equal m1 = um_key_equal m"
        using um_erase_inv [OF less.prems(1) 1(3,4)] by blast
      let ?c = "c[i := Grave]"
      obtain it1 where it1: "um_iterator cap m1 (i + 1) = Inr it1" "i + 1 \<le> it1"
        by (rule um_iterator_spec [OF um_invD(2,3) [OF m1(2)], of "i + 1"]) (use 1(3) in auto)
      have d: "entries (drop (Suc i) ?c) = entries (drop (Suc i) c)" by simp
      have t: "entries (take (Suc i) ?c) = entries (take i c)"
        using il by (simp add: take_Suc_conv_app_nth entries_append) (simp add: entries_def)
      have "\<exists>m' c'. um_erase_if_from cap pred it1 (erased + 1) m1 =
             Inr (erased + 1 + size (filter_mset pred (entries (drop (Suc i) ?c))), m') \<and> um_inv cap m' c' \<and>
           entries c' = entries (take (Suc i) ?c) + filter_mset (\<lambda>e. \<not> pred e) (entries (drop (Suc i) ?c)) \<and>
           same_fns m1 m'"
        using less.hyps [of "Suc i" m1 ?c it1 "erased + 1"] m1(2) it1 1(2,3) by auto
      moreover have "um_erase_if_from cap pred it erased m = um_erase_if_from cap pred it1 (erased + 1) m1"
        using it get True m1(1) it1 1(3) um_state_repr [OF I(2) 1(3)] 1(4)
        by (subst um_erase_if_from.simps) (simp add: um_erase_at_def)
      ultimately show ?thesis using m1(3,4) sk d t True by (auto simp: same_fns_def)
    next
      case False
      obtain it1 where it1: "um_iterator cap m (i + 1) = Inr it1" "i + 1 \<le> it1"
        by (rule um_iterator_spec [OF I(2,3), of "i + 1"]) (use 1(3) in auto)
      have t: "entries (take (Suc i) c) = add_mset e (entries (take i c))"
        using entries_take_Suc [OF il] 1(4) by simp
      have "\<exists>m' c'. um_erase_if_from cap pred it1 erased m =
             Inr (erased + size (filter_mset pred (entries (drop (Suc i) c))), m') \<and> um_inv cap m' c' \<and>
           entries c' = entries (take (Suc i) c) + filter_mset (\<lambda>e. \<not> pred e) (entries (drop (Suc i) c)) \<and>
           same_fns m m'"
        using less.hyps [of "Suc i" m c it1 erased] less.prems(1) it1 1(2,3) by auto
      moreover have "um_erase_if_from cap pred it erased m = um_erase_if_from cap pred it1 erased m"
        using it get False it1 1(3) by (subst um_erase_if_from.simps) simp
      ultimately show ?thesis using sk t False by auto
    qed
  next
    case 2
    have none: "entries (drop j c) = {#}"
      using entries_drop_skip [of j "bucket_count cap" c] 2(2) less.prems(3) len by simp
    have "entries (take j c) = entries c"
      using none entries_append [of "take j c" "drop j c"] by simp
    moreover have "um_erase_if_from cap pred it erased m = Inr (erased, m)"
      using 2(1) less.prems(2) by (subst um_erase_if_from.simps) simp
    ultimately show ?thesis using less.prems(1) none by (auto simp: same_fns_def)
  qed
qed

lemma um_erase_if_law:
  assumes "um_inv cap m c"
  shows "\<exists>m' c'. um_erase_if cap pred m = Inr (size (filter_mset pred (entries c)), m') \<and> um_inv cap m' c' \<and>
           entries c' = filter_mset (\<lambda>e. \<not> pred e) (entries c) \<and> same_fns m m'"
proof -
  obtain it where "um_iterator cap m 0 = Inr it"
    by (rule um_iterator_spec [OF um_invD(2,3) [OF assms], of 0])
  then show ?thesis
    using um_erase_if_from_inv [OF assms, of 0 it pred 0] by (simp add: um_erase_if_def)
qed


section \<open>Properties\<close>

text \<open>
  C5: A client cannot tell \<^verbatim>\<open>static_unordered_map\<close> from a bounded map: for every
  program of \<^verbatim>\<open>find\<close>, \<^verbatim>\<open>try_emplace\<close>, \<^verbatim>\<open>try_insert_or_assign\<close> and \<^verbatim>\<open>erase\<close> calls on a
  new table the results are those of the specification, for every hasher that
  respects the key equality (however badly it collides), every capacity, and with
  or without rebuilds; no access outside the table or to a dead slot happens.
\<close>

theorem unordered_map_programs_observe_map:
  assumes "valid_capacity cap" "equivp eqv" "\<forall>a b. eqv a b \<longrightarrow> hash a = hash b"
  shows "bnd (map_run (um_ops rb cap) calls (um_empty_with cap hash eqv)) (\<lambda>p. Inr (fst p))
           = Inr (spec_run eqv cap calls (\<lambda>_. None) 0)"
  using assms by (intro um_map.run_observes_spec um_empty_abs) auto

theorem unordered_map_programs_observe_map_witness:
  "bnd (map_run (um_ops True 2)
          [Try_emplace 1 10, Try_emplace 5 50, Try_emplace 9 90, Erase 1, Try_insert_or_assign 9 91, Find 5, Find (1 :: nat)]
          (um_empty_with 2 (\<lambda>_. 0) (=))) (\<lambda>p. Inr (fst p))
     = Inr [Did True, Did True, Did False, Did True, Did True, Found (Some 50), Found (None :: nat option)]"
  using unordered_map_programs_observe_map [of 2 "(=)" "\<lambda>_. 0" True
      "[Try_emplace 1 10, Try_emplace 5 50, Try_emplace 9 90, Erase 1, Try_insert_or_assign 9 91, Find 5, Find (1 :: nat)]"]
  by (simp add: valid_capacity_def identity_equivp map_put_def map_del_def)

text \<open>
  C6: \<^verbatim>\<open>rehash_in_place\<close> terminates on every valid table (its probe and displacement
  loops included), keeps exactly the same elements and the size, leaves no
  tombstone, and restores the table invariant, so every element is found again.
\<close>

theorem rebuild_keeps_elements:
  assumes "um_inv cap m c" "0 < cap"
  shows "\<exists>m' c'. rehash_in_place cap m = Inr m' \<and> um_inv cap m' c' \<and> entries c' = entries c \<and>
           Grave \<notin> set c' \<and> um_tombstones m' = 0 \<and> um_size m' = um_size m"
  using rehash_in_place_correct [OF assms] by blast

text \<open>A table of capacity 2 in which the first of two colliding keys was erased.\<close>

definition churned_table :: "(nat, nat) unordered_map" where
  "churned_table =
     \<lparr>um_storage = [None, Some (5, 50), None, None], um_occupied = [2], um_tombstone = [1],
      um_size = 1, um_tombstones = 1, um_hasher = (\<lambda>_. 0), um_key_equal = (=)\<rparr>"

lemma bucket_count_2: "bucket_count 2 = 4"
proof -
  have "valid_capacity 2" by (simp add: valid_capacity_def)
  from compute_bucket_count_bounds [of "2 :: 64 word"] obtain k where
    k: "compute_bucket_count (2 :: 64 word) = Some (push_bit k 1)" "k < LENGTH(64)" "4 \<le> (2 :: nat) ^ k" "(2 :: nat) ^ k < 8"
    by auto
  have "k = 2"
  proof (rule antisym)
    show "k \<le> 2" using k(4) power_increasing [of 3 k "2 :: nat"] by (cases "k \<le> 2") auto
    show "2 \<le> k" using k(3) power_increasing [of k 1 "2 :: nat"] by (cases "2 \<le> k") auto
  qed
  then show ?thesis using k(1) by (simp add: bucket_count_def)
qed


lemma churned_table_inv: "um_inv 2 churned_table [Grave, Held (5, 50), Free, Free]"
proof -
  let ?c = "[Grave, Held (5, 50), Free, Free] :: (nat \<times> nat) cell list"
  have cells: "where_cell is_held ?c = {1}" "where_cell is_marked ?c = {0}"
    by (auto simp: where_cell_def less_Suc_eq nth_Cons')
  have bits: "bitset_repr 4 [2] {1}" "bitset_repr 4 [1] {0}"
    by (auto simp: bitset_repr_def word_count_def word_bit_def bit_simps)
  have b: "bucket_index 2 churned_table k = 0" for k
    by (simp add: bucket_index_def churned_table_def hash_key_def hash_mix_def hash_mix_by_def bucket_count_2)
  have "um_repr 2 churned_table ?c"
    using bits by (simp add: um_repr_def bucket_count_2 churned_table_def cells)
  moreover have "probe_ok 4 (bucket_index 2 churned_table) ?c"
    unfolding probe_ok_def b
  proof (intro allI impI)
    fix i e assume "i < 4 \<and> ?c ! i = Held e"
    then have "i = 1" by (auto simp: nth_Cons' split: if_splits)
    then show "\<exists>d < 4. probe_at 4 0 d = i \<and> (\<forall>p < d. ?c ! probe_at 4 0 p \<noteq> Free)"
      by (intro exI [of _ 1]) (simp add: probe_at_def)
  qed
  ultimately show ?thesis
    by (simp add: um_inv_def bucket_count_2 valid_capacity_def churned_table_def cells entries_def
        unique_keys_def hash_respects_def identity_equivp)
qed

theorem rebuild_keeps_elements_witness:
  "\<exists>m' c'. rehash_in_place 2 churned_table = Inr m' \<and> um_inv 2 m' c' \<and> entries c' = {#(5, 50)#} \<and>
     Grave \<notin> set c' \<and> um_tombstones m' = 0 \<and> um_size m' = 1"
  using rebuild_keeps_elements [OF churned_table_inv] by (simp add: entries_def churned_table_def)


text \<open>
  C7: The asserting insertions at every hardening level: \<^verbatim>\<open>emplace\<close> and \<^verbatim>\<open>operator[]\<close>
  return the existing element unchanged or insert, \<^verbatim>\<open>insert_or_assign\<close> overwrites or
  inserts, and a new key that does not fit stops the program in a check, also in a
  build without \<^verbatim>\<open>METL_ASSERT\<close>.
\<close>

theorem unordered_map_asserting_insertions:
  assumes "um_abs cap eqv m A n"
  shows "(case A key of
       Some w \<Rightarrow> (\<exists>k'. um_emplace h rb cap key v m = Inr ((k', w), m) \<and> eqv k' key) \<and>
                 um_subscript h rb cap v key m = Inr (w, m) \<and>
                 (\<exists>k' m'. um_insert_or_assign h rb cap key v m = Inr ((k', v), m') \<and> eqv k' key \<and>
                    um_abs cap eqv m' (map_put eqv A key v) n)
     | None \<Rightarrow>
         if n < cap
         then (\<exists>m'. um_emplace h rb cap key v m = Inr ((key, v), m') \<and>
                    um_abs cap eqv m' (map_put eqv A key v) (n + 1)) \<and>
              (\<exists>m'. um_subscript h rb cap v key m = Inr (v, m') \<and>
                    um_abs cap eqv m' (map_put eqv A key v) (n + 1)) \<and>
              (\<exists>k' m'. um_insert_or_assign h rb cap key v m = Inr ((k', v), m') \<and> eqv k' key \<and>
                    um_abs cap eqv m' (map_put eqv A key v) (n + 1))
         else um_emplace h rb cap key v m = Inl Check_failed \<and>
              um_subscript h rb cap v key m = Inl Check_failed \<and>
              um_insert_or_assign h rb cap key v m = Inl Check_failed)"
proof (cases "A key")
  case None
  then show ?thesis
    using um_emplace_law(2,3) [OF assms None] um_subscript_law(2,3) [OF assms None]
      um_insert_or_assign_law [OF assms, of key h rb v] by simp
next
  case (Some w)
  then show ?thesis
    using um_emplace_law(1) [OF assms Some] um_subscript_law(1) [OF assms Some]
      um_insert_or_assign_law(1) [OF assms, of key h rb v] by simp
qed

theorem unordered_map_asserting_insertions_witness:
  "um_emplace METL_HARDENING_NONE True 0 (7 :: nat) (1 :: nat) (um_empty_with 0 (\<lambda>_. 0) (=)) = Inl Check_failed"
proof -
  have "um_abs 0 (=) (um_empty_with 0 (\<lambda>_. 0) (=)) (\<lambda>_ :: nat. None :: nat option) 0"
    by (rule um_empty_abs) (simp_all add: valid_capacity_def identity_equivp)
  from unordered_map_asserting_insertions [OF this, where key = 7] show ?thesis by auto
qed

text \<open>
  C8: On whole tables, of which each has a hasher and a key equality of its own:
  \<^verbatim>\<open>swap\<close> exchanges the contents and the size together with the hasher and the key
  equality; a copy has the same contents; an assigned-to table takes over the
  contents and the key equality of the other; assigning a table to itself changes
  nothing; a moved-from table holds no element and no tombstone, and the hasher
  and key equality that their own moves left behind, whatever these are; \<^verbatim>\<open>clear\<close>
  empties; \<^verbatim>\<open>erase_if\<close> removes exactly the elements that satisfy the predicate and
  returns their number.
\<close>

theorem unordered_map_whole_table:
  assumes "um_abs cap eqv a A n" "um_abs cap eqv' b B n'" "um_inv cap a c"
  shows "(\<exists>a' b'. um_swap cap a b = Inr (a', b') \<and> um_abs cap eqv' a' B n' \<and> um_abs cap eqv b' A n \<and>
        um_hasher a' = um_hasher b \<and> um_hasher b' = um_hasher a) \<and>
     (\<exists>m. um_copy h rb cap a = Inr m \<and> um_abs cap eqv m A n) \<and>
     (\<exists>m a'. um_move h rb cap gone_hash gone_eq a = Inr (m, a') \<and> um_abs cap eqv m A n \<and>
        um_blank cap a' \<and> um_hasher a' = gone_hash \<and> um_key_equal a' = gone_eq) \<and>
     (\<exists>m. um_assign h rb cap False a b = Inr m \<and> um_abs cap eqv' m B n') \<and>
     (\<exists>m b'. um_move_assign h rb cap False gone_hash gone_eq a b = Inr (m, b') \<and> um_abs cap eqv' m B n' \<and>
        um_blank cap b' \<and> um_hasher b' = gone_hash \<and> um_key_equal b' = gone_eq) \<and>
     um_assign h rb cap True a a = Inr a \<and> um_move_assign h rb cap True gone_hash gone_eq a a = Inr (a, a) \<and>
     (\<exists>m. um_clear cap a = Inr m \<and> um_inv cap m (replicate (bucket_count cap) Free)) \<and>
     (\<exists>m d. um_erase_if cap pred a = Inr (size (filter_mset pred (entries c)), m) \<and> um_inv cap m d \<and>
        entries d = filter_mset (\<lambda>e. \<not> pred e) (entries c))"
  using um_clear_inv [OF assms(3)] um_erase_if_law [OF assms(3), of pred]
  by (intro conjI um_swap_law [OF assms(1,2)] um_copy_law [OF assms(1)] um_assign_law [OF assms(3,2)] um_assign_self) blast+

theorem unordered_map_whole_table_witness:
  "\<exists>m d. um_erase_if 2 (\<lambda>e. snd e = 50) churned_table = Inr (1, m) \<and> um_inv 2 m d \<and> entries d = {#}"
proof -
  have "um_abs 2 (=) churned_table (\<lambda>k. if k = 5 then Some 50 else None) 1"
    unfolding um_abs_def using churned_table_inv
    by (intro exI [of _ "[Grave, Held (5, 50), Free, Free]"]) (auto simp: churned_table_def entries_def)
  from unordered_map_whole_table [OF this this churned_table_inv, where pred = "\<lambda>e. snd e = 50"] show ?thesis
    by (simp add: entries_def)
qed

end
