(* ===== verification/Packed.thy ===== *)
theory Packed
  imports Slots
begin

text \<open>
  Storage filled from the front, as the contiguous containers keep it: the
  elements live in slots \<open>0 ..< size\<close> and nothing lives above. A \<open>gap\<close> is the
  intermediate state of a relocation by construct-then-destroy, in which one slot
  inside the elements is dead.
\<close>

definition packed :: "nat \<Rightarrow> 'a list \<Rightarrow> 'a slots" where
  "packed n xs = map Some xs @ replicate (n - length xs) None"

definition gap :: "nat \<Rightarrow> 'a list \<Rightarrow> nat \<Rightarrow> 'a slots" where
  "gap n xs i = map Some (take i xs) @ None # map Some (drop i xs) @ replicate (n - Suc (length xs)) None"

lemma length_packed [simp]: "length xs \<le> n \<Longrightarrow> length (packed n xs) = n"
  by (simp add: packed_def)

lemma length_gap [simp]: "length xs < n \<Longrightarrow> i \<le> length xs \<Longrightarrow> length (gap n xs i) = n"
  by (simp add: gap_def)

lemma packed_nth: "i < n \<Longrightarrow> packed n xs ! i = (if i < length xs then Some (xs ! i) else None)"
  by (simp add: packed_def nth_append)

lemma packed_eqI:
  assumes "length st = n" "length xs \<le> n"
    and "\<And>i. i < n \<Longrightarrow> st ! i = (if i < length xs then Some (xs ! i) else None)"
  shows "st = packed n xs"
  using assms by (intro nth_equalityI) (auto simp: packed_nth)

lemma gap_nth:
  assumes "i \<le> length xs" "j < n" "length xs < n"
  shows "gap n xs i ! j =
    (if j < i then Some (xs ! j) else if j = i then None
     else if j \<le> length xs then Some (xs ! (j - 1)) else None)"
  using assms by (auto simp: gap_def nth_append nth_Cons' min_def)

lemma gap_eqI:
  assumes "length st = n" "length xs < n" "i \<le> length xs"
    and "\<And>j. j < n \<Longrightarrow> st ! j =
      (if j < i then Some (xs ! j) else if j = i then None
       else if j \<le> length xs then Some (xs ! (j - 1)) else None)"
  shows "st = gap n xs i"
  using assms by (intro nth_equalityI) (auto simp: gap_nth)

lemma live_packed [simp]: "length xs \<le> n \<Longrightarrow> live (packed n xs) = {..<length xs}"
  by (auto simp: live_def packed_nth split: if_splits)

lemma live_gap: "length xs < n \<Longrightarrow> i \<le> length xs \<Longrightarrow> live (gap n xs i) = {..length xs} - {i}"
  by (auto simp: live_def gap_nth split: if_splits)

lemma no_live_packed: "length st = n \<Longrightarrow> live st = {} \<Longrightarrow> st = packed n []"
  by (rule packed_eqI) (auto simp: live_def)

lemma packed_Nil: "packed n [] = replicate n None"
  by (simp add: packed_def)

section \<open>Single accesses\<close>

lemma packed_get [simp]:
  "i < length xs \<Longrightarrow> length xs \<le> n \<Longrightarrow> slot_get (packed n xs) i = Inr (xs ! i)"
  by (simp add: slot_get_def packed_nth)

lemma packed_new [simp]:
  "length xs < n \<Longrightarrow> slot_new (packed n xs) (length xs) v = Inr (packed n (xs @ [v]))"
  by (auto simp: slot_new_def packed_nth intro!: packed_eqI simp: nth_list_update nth_append)

lemma packed_assign [simp]:
  "i < length xs \<Longrightarrow> length xs \<le> n \<Longrightarrow> slot_assign (packed n xs) i v = Inr (packed n (xs[i := v]))"
  by (auto simp: slot_assign_def packed_nth intro!: packed_eqI simp: nth_list_update)

lemma packed_destroy_last:
  assumes "length xs \<le> n" "xs \<noteq> []"
  shows "slot_destroy (packed n xs) (length xs - 1) = Inr (packed n (butlast xs))"
  using assms
  by (cases xs rule: rev_cases)
    (auto simp: slot_destroy_def packed_nth intro!: packed_eqI simp: nth_list_update nth_append)

lemma packed_destroy_gap:
  assumes "i < length xs" "length xs \<le> n"
  shows "slot_destroy (packed n xs) i = Inr (gap n (take i xs @ drop (Suc i) xs) i)"
proof -
  have "(packed n xs)[i := None] = gap n (take i xs @ drop (Suc i) xs) i"
  proof (rule gap_eqI)
    fix j
    assume "j < n"
    moreover have "length (take i xs @ drop (Suc i) xs) = length xs - 1" using assms by simp
    moreover have "j - 1 < i \<or> i < j" if "j \<noteq> i" using that by arith
    ultimately show "(packed n xs)[i := None] ! j =
      (if j < i then Some ((take i xs @ drop (Suc i) xs) ! j) else if j = i then None
       else if j \<le> length (take i xs @ drop (Suc i) xs)
            then Some ((take i xs @ drop (Suc i) xs) ! (j - 1)) else None)"
      using assms by (cases "j < i"; cases "j < length xs") (auto simp: packed_nth nth_list_update nth_append min_def)
  qed (use assms in auto)
  then show ?thesis using assms by (simp add: slot_destroy_def packed_nth)
qed

lemma gap_last: "length xs < n \<Longrightarrow> gap n xs (length xs) = packed n xs"
  by (rule packed_eqI) (auto simp: gap_nth)

lemma gap_new:
  assumes "i \<le> length xs" "length xs < n"
  shows "slot_new (gap n xs i) i v = Inr (packed n (take i xs @ v # drop i xs))"
  using assms
  by (auto simp: slot_new_def gap_nth min_def nth_append nth_list_update nth_Cons' intro!: packed_eqI)

text \<open>Moving the element next to the gap into it moves the gap by one.\<close>

lemma gap_get_left:
  "0 < i \<Longrightarrow> i \<le> length xs \<Longrightarrow> length xs < n \<Longrightarrow> slot_get (gap n xs i) (i - 1) = Inr (xs ! (i - 1))"
  by (simp add: slot_get_def gap_nth)

lemma gap_get_right:
  "i < length xs \<Longrightarrow> length xs < n \<Longrightarrow> slot_get (gap n xs i) (i + 1) = Inr (xs ! i)"
  by (simp add: slot_get_def gap_nth)

lemma gap_move_left:
  assumes "0 < i" "i \<le> length xs" "length xs < n"
  shows "bnd (slot_new (gap n xs i) i (xs ! (i - 1))) (\<lambda>st. slot_destroy st (i - 1)) = Inr (gap n xs (i - 1))"
  using assms
  by (auto simp: slot_new_def slot_destroy_def gap_nth nth_list_update intro!: gap_eqI)

lemma gap_move_right:
  assumes "i < length xs" "length xs < n"
  shows "bnd (slot_new (gap n xs i) i (xs ! i)) (\<lambda>st. slot_destroy st (i + 1)) = Inr (gap n xs (i + 1))"
  using assms
  by (auto simp: slot_new_def slot_destroy_def gap_nth nth_list_update intro!: gap_eqI)

section \<open>Loops over packed storage\<close>

text \<open>\<^verbatim>\<open>for (; i > index; --i) data()[i] = std::move(data()[i - 1])\<close>.\<close>

function assign_right :: "nat \<Rightarrow> nat \<Rightarrow> 'a slots \<Rightarrow> 'a slots outcome" where
  "assign_right i index st =
     (if i > index
      then bnd (slot_get st (i - 1)) (\<lambda>v. bnd (slot_assign st i v) (\<lambda>st1. assign_right (i - 1) index st1))
      else Inr st)"
  by pat_completeness auto
termination
  by (relation "measure (\<lambda>(i, index, st). i)") auto

declare assign_right.simps [simp del]

text \<open>\<^verbatim>\<open>for (; i < n; ++i) data()[i - d] = std::move(data()[i])\<close>.\<close>

definition assign_left :: "nat \<Rightarrow> nat \<Rightarrow> nat \<Rightarrow> 'a slots \<Rightarrow> 'a slots outcome" where
  "assign_left i n d st =
     for_upto i n (\<lambda>k st. bnd (slot_get st k) (\<lambda>v. slot_assign st (k - d) v)) st"

lemma assign_right_packed:
  assumes "i < length xs" "length xs \<le> n"
  shows "assign_right i index (packed n xs) =
    Inr (packed n (map (\<lambda>j. xs ! (if index < j \<and> j \<le> i then j - 1 else j)) [0..<length xs]))"
  using assms
proof (induction i arbitrary: xs)
  case 0
  have "map (\<lambda>j. xs ! (if index < j \<and> j \<le> 0 then j - 1 else j)) [0..<length xs] = map ((!) xs) [0..<length xs]"
    by (intro map_cong) auto
  then show ?case by (subst assign_right.simps) (simp add: map_nth)
next
  case (Suc i)
  show ?case
  proof (cases "index < Suc i")
    case True
    have "assign_right (Suc i) index (packed n xs) = assign_right i index (packed n (xs[Suc i := xs ! i]))"
      using True Suc.prems by (subst assign_right.simps) simp
    also have "\<dots> = Inr (packed n (map (\<lambda>j. xs[Suc i := xs ! i] ! (if index < j \<and> j \<le> i then j - 1 else j)) [0..<length xs]))"
      using Suc.IH [of "xs[Suc i := xs ! i]"] Suc.prems by simp
    also have "map (\<lambda>j. xs[Suc i := xs ! i] ! (if index < j \<and> j \<le> i then j - 1 else j)) [0..<length xs] =
        map (\<lambda>j. xs ! (if index < j \<and> j \<le> Suc i then j - 1 else j)) [0..<length xs]"
      using True Suc.prems by (intro map_cong) (auto simp: nth_list_update le_Suc_eq)
    finally show ?thesis .
  next
    case False
    have "map (\<lambda>j. xs ! (if index < j \<and> j \<le> Suc i then j - 1 else j)) [0..<length xs] = map ((!) xs) [0..<length xs]"
      using False by (intro map_cong) auto
    then show ?thesis using False by (subst assign_right.simps) (simp add: map_nth)
  qed
qed

text \<open>
  The insertion of \<^verbatim>\<open>std::vector\<close>: construct the new last slot from the last
  element, assign the rest backwards, assign the new value.
\<close>

lemma insert_by_assign:
  assumes "index < length xs" "length xs < n"
  shows "bnd (slot_new (packed n xs) (length xs) (xs ! (length xs - 1))) (\<lambda>st.
         bnd (assign_right (length xs - 1) index st) (\<lambda>st1. slot_assign st1 index v)) =
    Inr (packed n (take index xs @ v # drop index xs))"
proof -
  let ?ys = "map (\<lambda>j. (xs @ [xs ! (length xs - 1)]) ! (if index < j \<and> j \<le> length xs - 1 then j - 1 else j)) [0..<Suc (length xs)]"
  have "assign_right (length xs - 1) index (packed n (xs @ [xs ! (length xs - 1)])) = Inr (packed n ?ys)"
    using assms by (subst assign_right_packed) (auto simp del: upt_Suc)
  moreover have "slot_assign (packed n ?ys) index v = Inr (packed n (?ys[index := v]))"
    using assms by (intro packed_assign) auto
  moreover have "?ys[index := v] = take index xs @ v # drop index xs"
    using assms
    by (intro nth_equalityI) (auto simp: less_Suc_eq nth_list_update nth_append nth_Cons' min_def simp del: upt_Suc)
  ultimately show ?thesis using assms by simp
qed

lemma assign_left_packed:
  assumes "d \<le> i" "i \<le> length xs" "length xs \<le> n"
  shows "\<exists>ys. assign_left i (length xs) d (packed n xs) = Inr (packed n ys) \<and> length ys = length xs \<and>
    take (length xs - d) ys = take (i - d) xs @ drop i xs"
proof -
  let ?Q = "\<lambda>k st. \<exists>ys. st = packed n ys \<and> length ys = length xs \<and>
      (\<forall>j < length xs. ys ! j = (if i - d \<le> j \<and> j < k - d then xs ! (j + d) else xs ! j))"
  have "\<exists>st. assign_left i (length xs) d (packed n xs) = Inr st \<and> ?Q (length xs) st"
    unfolding assign_left_def
  proof (rule for_upto_inv [where Q = ?Q])
    fix k st
    assume k: "i \<le> k" "k < length xs" and "?Q k st"
    then obtain ys where ys: "st = packed n ys" "length ys = length xs"
      "\<And>j. j < length xs \<Longrightarrow> ys ! j = (if i - d \<le> j \<and> j < k - d then xs ! (j + d) else xs ! j)" by blast
    have "bnd (slot_get st k) (\<lambda>v. slot_assign st (k - d) v) = Inr (packed n (ys[k - d := ys ! k]))"
      using ys k assms by simp
    moreover have "?Q (Suc k) (packed n (ys[k - d := ys ! k]))"
      using ys(2,3) k assms by (intro exI [of _ "ys[k - d := ys ! k]"]) (auto simp: nth_list_update)
    ultimately show "\<exists>st'. bnd (slot_get st k) (\<lambda>v. slot_assign st (k - d) v) = Inr st' \<and> ?Q (Suc k) st'"
      by blast
  qed (use assms in auto)
  then obtain ys where ys: "assign_left i (length xs) d (packed n xs) = Inr (packed n ys)"
    "length ys = length xs"
    "\<forall>j < length xs. ys ! j = (if i - d \<le> j \<and> j < length xs - d then xs ! (j + d) else xs ! j)" by blast
  have "take (length xs - d) ys = take (i - d) xs @ drop i xs"
  proof (rule nth_equalityI)
    show "length (take (length xs - d) ys) = length (take (i - d) xs @ drop i xs)"
      using ys(2) assms by simp
    fix j
    assume "j < length (take (length xs - d) ys)"
    then have "j < length xs - d" "j < length xs" using ys(2) by auto
    moreover have "length (take (i - d) xs) = i - d" using assms by simp
    ultimately show "take (length xs - d) ys ! j = (take (i - d) xs @ drop i xs) ! j"
      using ys(3) assms by (auto simp: nth_append add.commute)
  qed
  with ys(1,2) show ?thesis by blast
qed

text \<open>Destroying the live slots one by one leaves empty storage.\<close>

lemma destroy_range:
  fixes st :: "'a slots"
  assumes "{i..<n} \<subseteq> live st" "i \<le> n"
  shows "\<exists>st'. for_upto i n (\<lambda>j st. slot_destroy st j) st = Inr st' \<and> length st' = length st \<and>
    live st' = live st - {i..<n}"
proof -
  let ?Q = "\<lambda>k (s :: 'a slots). length s = length st \<and> live s = live st - {i..<k}"
  have "\<exists>s'. for_upto i n (\<lambda>j st. slot_destroy st j) st = Inr s' \<and> ?Q n s'"
  proof (rule for_upto_inv [where Q = ?Q])
    fix k s
    assume k: "i \<le> k" "k < n" and Q: "?Q k s"
    then have "k \<in> live s" using assms by auto
    then have "slot_destroy s k = Inr (s[k := None])" by (rule slot_destroy_live)
    moreover have "live (s[k := None]) = live st - {i..<Suc k}"
    proof -
      have "live (s[k := None]) = live s - {k}" by simp
      also have "\<dots> = live st - {i..<k} - {k}" using Q by (simp only: )
      also have "\<dots> = live st - {i..<Suc k}" using k(1) by (auto simp: less_Suc_eq)
      finally show ?thesis .
    qed
    with Q have "?Q (Suc k) (s[k := None])" by (simp only: length_list_update)
    ultimately show "\<exists>s'. slot_destroy s k = Inr s' \<and> ?Q (Suc k) s'" by blast
  qed (use assms in auto)
  then show ?thesis by blast
qed

end
