(* ===== verification/Fixed_vector.thy ===== *)
theory Fixed_vector
  imports Packed
begin

text \<open>
  \<^verbatim>\<open>fixed_vector.hpp\<close> and the stack over it, \<^verbatim>\<open>fixed_stack.hpp\<close>. An iterator is its
  distance from \<^verbatim>\<open>begin()\<close>: an argument is an \<open>int\<close>, since the caller may pass any
  pointer, and a result is a \<open>nat\<close>. Element constructors that the caller supplies
  may throw; moves and copies of existing elements do not.
\<close>

section \<open>State and element access\<close>

record 'a fixed_vector =
  fv_storage :: "'a slots"
  fv_size :: nat

definition fv_slots :: "nat \<Rightarrow> nat" where
  "fv_slots cap = (if cap = 0 then 1 else cap)"

lemma fv_slots_bound [simp]: "n \<le> cap \<Longrightarrow> n \<le> fv_slots cap" "n < cap \<Longrightarrow> n < fv_slots cap"
  by (auto simp: fv_slots_def)

definition fv_empty :: "nat \<Rightarrow> 'a fixed_vector" where
  "fv_empty cap = \<lparr>fv_storage = replicate (fv_slots cap) None, fv_size = 0\<rparr>"

text \<open>\<^verbatim>\<open>size_ - 1\<close> wraps when the container is empty.\<close>

definition size_pred :: "nat \<Rightarrow> nat" where
  "size_pred n = (if n = 0 then 2 ^ 64 - 1 else n - 1)"

definition fv_at :: "hardening \<Rightarrow> 'a fixed_vector \<Rightarrow> nat \<Rightarrow> 'a outcome" where
  "fv_at h v index = METL_ASSERT h (index < fv_size v) (slot_get (fv_storage v) index)"

definition fv_front :: "hardening \<Rightarrow> 'a fixed_vector \<Rightarrow> 'a outcome" where
  "fv_front h v = METL_ASSERT h (fv_size v > 0) (slot_get (fv_storage v) 0)"

definition fv_back :: "hardening \<Rightarrow> 'a fixed_vector \<Rightarrow> 'a outcome" where
  "fv_back h v = METL_ASSERT h (fv_size v > 0) (slot_get (fv_storage v) (size_pred (fv_size v)))"

section \<open>Growing and shrinking at the back\<close>

definition fv_try_emplace_back ::
  "nat \<Rightarrow> 'a ctor \<Rightarrow> 'a fixed_vector \<Rightarrow> (bool call \<times> 'a fixed_vector) outcome" where
  "fv_try_emplace_back cap c v =
     (if fv_size v = cap then Inr (Returned False, v)
      else let index = fv_size v; v1 = v\<lparr>fv_size := index + 1\<rparr>
           in case c of
                Throws \<Rightarrow> METL_HARDEN (fv_size v1 = index + 1) (Inr (Threw, v1\<lparr>fv_size := fv_size v1 - 1\<rparr>))
              | Builds x \<Rightarrow> bnd (slot_new (fv_storage v1) index x)
                             (\<lambda>st. Inr (Returned True, v1\<lparr>fv_storage := st\<rparr>)))"

definition fv_emplace_back ::
  "hardening \<Rightarrow> nat \<Rightarrow> 'a ctor \<Rightarrow> 'a fixed_vector \<Rightarrow> ('a call \<times> 'a fixed_vector) outcome" where
  "fv_emplace_back h cap c v =
     (let index = fv_size v in
      bnd (fv_try_emplace_back cap c v) (\<lambda>(res, v1).
        case res of
          Threw \<Rightarrow> Inr (Threw, v1)
        | Returned inserted \<Rightarrow>
            METL_ASSERT h inserted
              (if \<not> inserted
               then METL_HARDEN (fv_size v1 > 0) (bnd (fv_back h v1) (\<lambda>x. Inr (Returned x, v1)))
               else bnd (slot_get (fv_storage v1) index) (\<lambda>x. Inr (Returned x, v1)))))"

definition fv_pop_back :: "'a fixed_vector \<Rightarrow> 'a fixed_vector outcome" where
  "fv_pop_back v =
     METL_HARDEN (fv_size v > 0)
       (let v1 = v\<lparr>fv_size := fv_size v - 1\<rparr> in
        bnd (slot_destroy (fv_storage v1) (fv_size v1)) (\<lambda>st. Inr (v1\<lparr>fv_storage := st\<rparr>)))"

lemma fv_pop_back_size: "fv_pop_back v = Inr v' \<Longrightarrow> 0 < fv_size v \<and> fv_size v' = fv_size v - 1"
  by (auto simp: fv_pop_back_def Let_def outcome_simps)

text \<open>\<^verbatim>\<open>while (size_ > n) pop_back()\<close>; \<^verbatim>\<open>clear\<close> is the case \<open>n = 0\<close>.\<close>

function fv_shrink_to :: "nat \<Rightarrow> 'a fixed_vector \<Rightarrow> 'a fixed_vector outcome" where
  "fv_shrink_to n v = (if fv_size v > n then bnd (fv_pop_back v) (\<lambda>v1. fv_shrink_to n v1) else Inr v)"
  by pat_completeness auto
termination
  by (relation "measure (\<lambda>(n, v). fv_size v)") (auto dest: fv_pop_back_size)

declare fv_shrink_to.simps [simp del]

definition fv_clear :: "'a fixed_vector \<Rightarrow> 'a fixed_vector outcome" where
  "fv_clear v = fv_shrink_to 0 v"

text \<open>
  \<^verbatim>\<open>while (size_ < n) emplace_back(...)\<close>. Every round runs a constructor of its own, \<open>cs i\<close> for
  the element at index \<open>i\<close>, and any of them may throw. A round that does not grow the
  vector would be repeated for ever.
\<close>

function fv_grow_to ::
  "hardening \<Rightarrow> nat \<Rightarrow> nat \<Rightarrow> (nat \<Rightarrow> 'a ctor) \<Rightarrow> 'a fixed_vector \<Rightarrow> (unit call \<times> 'a fixed_vector) outcome" where
  "fv_grow_to h cap n cs v =
     (if fv_size v < n
      then bnd (fv_emplace_back h cap (cs (fv_size v)) v) (\<lambda>(res, v1). case res of
               Threw \<Rightarrow> Inr (Threw, v1)
             | Returned _ \<Rightarrow> if fv_size v < fv_size v1 then fv_grow_to h cap n cs v1 else Inl Diverged)
      else Inr (Returned (), v))"
  by pat_completeness auto
termination
  by (relation "measure (\<lambda>(h, cap, n, cs, v). n - fv_size v)") auto

declare fv_grow_to.simps [simp del]

section \<open>Inserting and erasing at a position\<close>

definition fv_emplace ::
  "hardening \<Rightarrow> nat \<Rightarrow> int \<Rightarrow> 'a ctor \<Rightarrow> 'a fixed_vector \<Rightarrow> (nat call \<times> 'a fixed_vector) outcome" where
  "fv_emplace h cap pos c v =
     METL_HARDEN (0 \<le> pos \<and> pos \<le> int (fv_size v))
       (METL_HARDEN (fv_size v < cap)
         (let index = nat pos in
          if index = fv_size v
          then bnd (fv_emplace_back h cap c v) (\<lambda>(res, v1). case res of
                   Threw \<Rightarrow> Inr (Threw, v1) | Returned _ \<Rightarrow> Inr (Returned index, v1))
          else case c of
              Throws \<Rightarrow> Inr (Threw, v)
            | Builds x \<Rightarrow>
                bnd (slot_get (fv_storage v) (fv_size v - 1)) (\<lambda>y.
                bnd (slot_new (fv_storage v) (fv_size v) y) (\<lambda>st.
                let v1 = v\<lparr>fv_storage := st, fv_size := fv_size v + 1\<rparr> in
                bnd (assign_right (fv_size v1 - 2) index (fv_storage v1)) (\<lambda>st1.
                bnd (slot_assign st1 index x) (\<lambda>st2.
                  Inr (Returned index, v1\<lparr>fv_storage := st2\<rparr>)))))))"

definition fv_try_emplace ::
  "hardening \<Rightarrow> nat \<Rightarrow> int \<Rightarrow> 'a ctor \<Rightarrow> 'a fixed_vector \<Rightarrow> (nat call \<times> 'a fixed_vector) outcome" where
  "fv_try_emplace h cap pos c v =
     METL_HARDEN (0 \<le> pos \<and> pos \<le> int (fv_size v))
       (if fv_size v = cap then Inr (Returned (fv_size v), v) else fv_emplace h cap pos c v)"

definition fv_insert_n ::
  "hardening \<Rightarrow> nat \<Rightarrow> int \<Rightarrow> nat \<Rightarrow> 'a \<Rightarrow> 'a fixed_vector \<Rightarrow> (nat \<times> 'a fixed_vector) outcome" where
  "fv_insert_n h cap pos n x v =
     METL_HARDEN (0 \<le> pos \<and> pos \<le> int (fv_size v))
       (METL_ASSERT h (n \<le> cap - fv_size v)
         (let index = nat pos in
          if n = 0 then Inr (index, v)
          else bnd (for_upto 0 n (\<lambda>i v. bnd (fv_emplace h cap (int (index + i)) (Builds x) v) (\<lambda>(_, v1). Inr v1)) v)
                 (\<lambda>v1. Inr (index, v1))))"

definition fv_try_insert_n ::
  "hardening \<Rightarrow> nat \<Rightarrow> int \<Rightarrow> nat \<Rightarrow> 'a \<Rightarrow> 'a fixed_vector \<Rightarrow> (nat \<times> 'a fixed_vector) outcome" where
  "fv_try_insert_n h cap pos n x v =
     METL_HARDEN (0 \<le> pos \<and> pos \<le> int (fv_size v))
       (if n > cap - fv_size v then Inr (fv_size v, v) else fv_insert_n h cap pos n x v)"

text \<open>
  A source range: values held elsewhere, or pointers \<open>first ..< stop\<close> into the
  vector's own storage. \<^verbatim>\<open>aliases_own_storage\<close> recognises the second kind.
\<close>

datatype 'a source_range = Foreign "'a list" | Own nat nat

definition aliases_own_storage :: "nat \<Rightarrow> 'a source_range \<Rightarrow> bool" where
  "aliases_own_storage cap src = (case src of
       Foreign xs \<Rightarrow> False
     | Own first stop \<Rightarrow> if first = stop then False else first < cap)"

primrec range_length :: "'a source_range \<Rightarrow> nat" where
  "range_length (Foreign xs) = length xs"
| "range_length (Own first stop) = stop - first"

definition range_read :: "'a source_range \<Rightarrow> nat \<Rightarrow> 'a fixed_vector \<Rightarrow> 'a outcome" where
  "range_read src i v = (case src of
       Foreign xs \<Rightarrow> arr_get xs i
     | Own first stop \<Rightarrow> slot_get (fv_storage v) (first + i))"

definition fv_insert_range ::
  "hardening \<Rightarrow> nat \<Rightarrow> int \<Rightarrow> 'a source_range \<Rightarrow> 'a fixed_vector \<Rightarrow> (nat \<times> 'a fixed_vector) outcome" where
  "fv_insert_range h cap pos src v =
     METL_HARDEN (0 \<le> pos \<and> pos \<le> int (fv_size v))
       (METL_ASSERT h (\<not> aliases_own_storage cap src)
         (let index = nat pos in
          bnd (for_upto 0 (range_length src) (\<lambda>offset v.
                 bnd (range_read src offset v) (\<lambda>x.
                 bnd (fv_emplace h cap (int (index + offset)) (Builds x) v) (\<lambda>(_, v1). Inr v1))) v)
            (\<lambda>v1. Inr (index, v1))))"

definition fv_try_insert_range ::
  "hardening \<Rightarrow> nat \<Rightarrow> int \<Rightarrow> 'a source_range \<Rightarrow> 'a fixed_vector \<Rightarrow> (nat \<times> 'a fixed_vector) outcome" where
  "fv_try_insert_range h cap pos src v =
     METL_HARDEN (0 \<le> pos \<and> pos \<le> int (fv_size v))
       (if range_length src > cap - fv_size v then Inr (fv_size v, v) else fv_insert_range h cap pos src v)"

text \<open>The shift of \<^verbatim>\<open>erase(pos)\<close> assigns slot \<open>i + 1\<close> to slot \<open>i\<close> for \<open>i + 1 < size\<close>.\<close>

definition fv_erase :: "int \<Rightarrow> 'a fixed_vector \<Rightarrow> (nat \<times> 'a fixed_vector) outcome" where
  "fv_erase pos v =
     METL_HARDEN (0 \<le> pos \<and> pos < int (fv_size v))
       (let index = nat pos in
        bnd (assign_left (index + 1) (fv_size v) 1 (fv_storage v)) (\<lambda>st.
        let v1 = v\<lparr>fv_storage := st, fv_size := fv_size v - 1\<rparr> in
        bnd (slot_destroy (fv_storage v1) (fv_size v1)) (\<lambda>st1. Inr (index, v1\<lparr>fv_storage := st1\<rparr>))))"

definition fv_erase_range :: "int \<Rightarrow> int \<Rightarrow> 'a fixed_vector \<Rightarrow> (nat \<times> 'a fixed_vector) outcome" where
  "fv_erase_range first stop v =
     METL_HARDEN (0 \<le> first \<and> stop \<le> int (fv_size v) \<and> first \<le> stop)
       (let first_index = nat first; last_index = nat stop; erase_count = last_index - first_index in
        if erase_count = 0 then Inr (first_index, v)
        else bnd (assign_left last_index (fv_size v) erase_count (fv_storage v)) (\<lambda>st.
             let old_size = fv_size v; v1 = v\<lparr>fv_storage := st, fv_size := fv_size v - erase_count\<rparr> in
             bnd (for_upto (fv_size v1) old_size (\<lambda>i st. slot_destroy st i) (fv_storage v1)) (\<lambda>st1.
               Inr (first_index, v1\<lparr>fv_storage := st1\<rparr>))))"

section \<open>Replacing the contents\<close>

definition fv_resize ::
  "hardening \<Rightarrow> nat \<Rightarrow> nat \<Rightarrow> (nat \<Rightarrow> 'a ctor) \<Rightarrow> 'a fixed_vector \<Rightarrow> (unit call \<times> 'a fixed_vector) outcome" where
  "fv_resize h cap n cs v =
     METL_HARDEN (n \<le> cap)
       (if n < fv_size v then bnd (fv_shrink_to n v) (\<lambda>v1. Inr (Returned (), v1))
        else fv_grow_to h cap n cs v)"

definition fv_try_resize ::
  "hardening \<Rightarrow> nat \<Rightarrow> nat \<Rightarrow> (nat \<Rightarrow> 'a ctor) \<Rightarrow> 'a fixed_vector \<Rightarrow> (bool call \<times> 'a fixed_vector) outcome" where
  "fv_try_resize h cap n cs v =
     (if n > cap then Inr (Returned False, v)
      else bnd (fv_resize h cap n cs v) (\<lambda>(res, v1). case res of
             Threw \<Rightarrow> Inr (Threw, v1) | Returned _ \<Rightarrow> Inr (Returned True, v1)))"

definition fv_assign_n ::
  "hardening \<Rightarrow> nat \<Rightarrow> nat \<Rightarrow> 'a \<Rightarrow> 'a fixed_vector \<Rightarrow> 'a fixed_vector outcome" where
  "fv_assign_n h cap n x v =
     METL_ASSERT h (n \<le> cap)
       (bnd (fv_clear v) (\<lambda>v1.
          for_upto 0 n (\<lambda>i v. bnd (fv_emplace_back h cap (Builds x) v) (\<lambda>(_, v1). Inr v1)) v1))"

definition fv_try_assign_n ::
  "hardening \<Rightarrow> nat \<Rightarrow> nat \<Rightarrow> 'a \<Rightarrow> 'a fixed_vector \<Rightarrow> (bool \<times> 'a fixed_vector) outcome" where
  "fv_try_assign_n h cap n x v =
     (if n > cap then Inr (False, v) else bnd (fv_assign_n h cap n x v) (\<lambda>v1. Inr (True, v1)))"

definition fv_assign_range ::
  "hardening \<Rightarrow> nat \<Rightarrow> 'a source_range \<Rightarrow> 'a fixed_vector \<Rightarrow> 'a fixed_vector outcome" where
  "fv_assign_range h cap src v =
     METL_HARDEN (\<not> aliases_own_storage cap src)
       (bnd (fv_clear v) (\<lambda>v1.
          for_upto 0 (range_length src) (\<lambda>i v.
            bnd (range_read src i v) (\<lambda>x.
            METL_ASSERT h (fv_size v < cap)
              (bnd (fv_emplace_back h cap (Builds x) v) (\<lambda>(_, v1). Inr v1)))) v1))"

definition fv_try_assign_range ::
  "hardening \<Rightarrow> nat \<Rightarrow> 'a source_range \<Rightarrow> 'a fixed_vector \<Rightarrow> (bool \<times> 'a fixed_vector) outcome" where
  "fv_try_assign_range h cap src v =
     (if range_length src > cap then Inr (False, v)
      else bnd (fv_assign_range h cap src v) (\<lambda>v1. Inr (True, v1)))"

definition fv_initializer_list ::
  "hardening \<Rightarrow> nat \<Rightarrow> 'a list \<Rightarrow> 'a fixed_vector outcome" where
  "fv_initializer_list h cap il =
     METL_ASSERT h (length il \<le> cap)
       (for_upto 0 (length il) (\<lambda>i v.
          bnd (arr_get il i) (\<lambda>x. bnd (fv_emplace_back h cap (Builds x) v) (\<lambda>(_, v1). Inr v1))) (fv_empty cap))"

section \<open>Whole vectors\<close>

text \<open>\<^verbatim>\<open>for (value : other) emplace_back(value)\<close>.\<close>

definition fv_append_all ::
  "hardening \<Rightarrow> nat \<Rightarrow> 'a fixed_vector \<Rightarrow> 'a fixed_vector \<Rightarrow> 'a fixed_vector outcome" where
  "fv_append_all h cap other v =
     for_upto 0 (fv_size other) (\<lambda>i v.
       bnd (slot_get (fv_storage other) i) (\<lambda>x.
       bnd (fv_emplace_back h cap (Builds x) v) (\<lambda>(_, v1). Inr v1))) v"

definition fv_copy :: "hardening \<Rightarrow> nat \<Rightarrow> 'a fixed_vector \<Rightarrow> 'a fixed_vector outcome" where
  "fv_copy h cap other = fv_append_all h cap other (fv_empty cap)"

definition fv_move ::
  "hardening \<Rightarrow> nat \<Rightarrow> 'a fixed_vector \<Rightarrow> ('a fixed_vector \<times> 'a fixed_vector) outcome" where
  "fv_move h cap other =
     bnd (fv_append_all h cap other (fv_empty cap)) (\<lambda>v. bnd (fv_clear other) (\<lambda>other1. Inr (v, other1)))"

definition fv_copy_assign ::
  "hardening \<Rightarrow> nat \<Rightarrow> 'a fixed_vector \<Rightarrow> 'a fixed_vector \<Rightarrow> 'a fixed_vector outcome" where
  "fv_copy_assign h cap v other = bnd (fv_clear v) (\<lambda>v1. fv_append_all h cap other v1)"

definition fv_move_assign ::
  "hardening \<Rightarrow> nat \<Rightarrow> 'a fixed_vector \<Rightarrow> 'a fixed_vector \<Rightarrow> ('a fixed_vector \<times> 'a fixed_vector) outcome" where
  "fv_move_assign h cap v other =
     bnd (fv_clear v) (\<lambda>v1.
     bnd (fv_append_all h cap other v1) (\<lambda>v2.
     bnd (fv_clear other) (\<lambda>other1. Inr (v2, other1))))"

text \<open>The tail of the longer vector moves across; both are returned in that order.\<close>

definition fv_swap_tail ::
  "'a fixed_vector \<Rightarrow> 'a fixed_vector \<Rightarrow> ('a fixed_vector \<times> 'a fixed_vector) outcome" where
  "fv_swap_tail shorter longer =
     (let old_shorter = fv_size shorter in
      bnd (for_upto old_shorter (fv_size longer) (\<lambda>i s.
             bnd (slot_get (fv_storage longer) i) (\<lambda>x.
             bnd (slot_new (fv_storage s) i x) (\<lambda>st.
               Inr (s\<lparr>fv_storage := st, fv_size := fv_size s + 1\<rparr>)))) shorter) (\<lambda>s.
      bnd (for_downto (fv_size longer - old_shorter)
             (\<lambda>k st. slot_destroy st (old_shorter + k)) (fv_storage longer)) (\<lambda>st.
        Inr (s, longer\<lparr>fv_storage := st, fv_size := old_shorter\<rparr>))))"

definition fv_swap ::
  "'a fixed_vector \<Rightarrow> 'a fixed_vector \<Rightarrow> ('a fixed_vector \<times> 'a fixed_vector) outcome" where
  "fv_swap a b =
     (let common = (if fv_size a < fv_size b then fv_size a else fv_size b) in
      bnd (for_upto 0 common (\<lambda>i (sa, sb).
             bnd (slot_get sa i) (\<lambda>x. bnd (slot_get sb i) (\<lambda>y.
             bnd (slot_assign sa i y) (\<lambda>sa1. bnd (slot_assign sb i x) (\<lambda>sb1. Inr (sa1, sb1))))))
             (fv_storage a, fv_storage b)) (\<lambda>(sa, sb).
      let a1 = a\<lparr>fv_storage := sa\<rparr>; b1 = b\<lparr>fv_storage := sb\<rparr> in
      if fv_size a1 \<noteq> fv_size b1
      then if fv_size a1 < fv_size b1 then fv_swap_tail a1 b1
           else bnd (fv_swap_tail b1 a1) (\<lambda>(b2, a2). Inr (a2, b2))
      else Inr (a1, b1)))"

text \<open>\<^verbatim>\<open>operator==\<close>, \<^verbatim>\<open>operator<\<close>; the element's own \<^verbatim>\<open>==\<close> and \<^verbatim>\<open><\<close> are parameters.\<close>

function fv_eq_from ::
  "hardening \<Rightarrow> ('a \<Rightarrow> 'a \<Rightarrow> bool) \<Rightarrow> nat \<Rightarrow> 'a fixed_vector \<Rightarrow> 'a fixed_vector \<Rightarrow> bool outcome" where
  "fv_eq_from h eq i lhs rhs =
     (if i < fv_size lhs
      then bnd (fv_at h lhs i) (\<lambda>x. bnd (fv_at h rhs i) (\<lambda>y.
             if \<not> eq x y then Inr False else fv_eq_from h eq (i + 1) lhs rhs))
      else Inr True)"
  by pat_completeness auto
termination
  by (relation "measure (\<lambda>(h, eq, i, lhs, rhs). fv_size lhs - i)") auto

declare fv_eq_from.simps [simp del]

definition fv_eq ::
  "hardening \<Rightarrow> ('a \<Rightarrow> 'a \<Rightarrow> bool) \<Rightarrow> 'a fixed_vector \<Rightarrow> 'a fixed_vector \<Rightarrow> bool outcome" where
  "fv_eq h eq lhs rhs = (if fv_size lhs \<noteq> fv_size rhs then Inr False else fv_eq_from h eq 0 lhs rhs)"

function fv_less_from ::
  "hardening \<Rightarrow> ('a \<Rightarrow> 'a \<Rightarrow> bool) \<Rightarrow> nat \<Rightarrow> nat \<Rightarrow> 'a fixed_vector \<Rightarrow> 'a fixed_vector \<Rightarrow> bool outcome" where
  "fv_less_from h lt i n lhs rhs =
     (if i < n
      then bnd (fv_at h lhs i) (\<lambda>x. bnd (fv_at h rhs i) (\<lambda>y.
             if lt x y then Inr True
             else if lt y x then Inr False
             else fv_less_from h lt (i + 1) n lhs rhs))
      else Inr (fv_size lhs < fv_size rhs))"
  by pat_completeness auto
termination
  by (relation "measure (\<lambda>(h, lt, i, n, lhs, rhs). n - i)") auto

declare fv_less_from.simps [simp del]

definition fv_less ::
  "hardening \<Rightarrow> ('a \<Rightarrow> 'a \<Rightarrow> bool) \<Rightarrow> 'a fixed_vector \<Rightarrow> 'a fixed_vector \<Rightarrow> bool outcome" where
  "fv_less h lt lhs rhs =
     fv_less_from h lt 0 (if fv_size lhs < fv_size rhs then fv_size lhs else fv_size rhs) lhs rhs"

text \<open>The free function \<^verbatim>\<open>erase_if\<close>: compact the kept elements, then pop the rest.\<close>

definition fv_compact ::
  "hardening \<Rightarrow> ('a \<Rightarrow> bool) \<Rightarrow> 'a fixed_vector \<Rightarrow> (nat \<times> 'a fixed_vector) outcome" where
  "fv_compact h p v =
     for_upto 0 (fv_size v) (\<lambda>read (write, v).
       bnd (fv_at h v read) (\<lambda>x.
         if \<not> p x
         then if write \<noteq> read
              then METL_ASSERT h (write < fv_size v)
                     (bnd (slot_assign (fv_storage v) write x) (\<lambda>st.
                        Inr (write + 1, v\<lparr>fv_storage := st\<rparr>)))
              else Inr (write + 1, v)
         else Inr (write, v))) (0, v)"

definition fv_erase_if ::
  "hardening \<Rightarrow> ('a \<Rightarrow> bool) \<Rightarrow> 'a fixed_vector \<Rightarrow> (nat \<times> 'a fixed_vector) outcome" where
  "fv_erase_if h p v =
     bnd (fv_compact h p v) (\<lambda>(write, v1).
     bnd (fv_shrink_to write v1) (\<lambda>v2. Inr (fv_size v - write, v2)))"

section \<open>The stack\<close>

text \<open>\<^verbatim>\<open>fixed_stack\<close> holds a \<^verbatim>\<open>fixed_vector\<close> and forwards to it.\<close>

definition stack_top :: "hardening \<Rightarrow> 'a fixed_vector \<Rightarrow> 'a outcome" where
  "stack_top h s = fv_back h s"

definition stack_try_emplace ::
  "nat \<Rightarrow> 'a ctor \<Rightarrow> 'a fixed_vector \<Rightarrow> (bool call \<times> 'a fixed_vector) outcome" where
  "stack_try_emplace cap c s = fv_try_emplace_back cap c s"

definition stack_emplace ::
  "hardening \<Rightarrow> nat \<Rightarrow> 'a ctor \<Rightarrow> 'a fixed_vector \<Rightarrow> ('a call \<times> 'a fixed_vector) outcome" where
  "stack_emplace h cap c s = fv_emplace_back h cap c s"

definition stack_pop :: "'a fixed_vector \<Rightarrow> 'a fixed_vector outcome" where
  "stack_pop s = fv_pop_back s"

definition stack_clear :: "'a fixed_vector \<Rightarrow> 'a fixed_vector outcome" where
  "stack_clear s = fv_clear s"

definition stack_swap ::
  "'a fixed_vector \<Rightarrow> 'a fixed_vector \<Rightarrow> ('a fixed_vector \<times> 'a fixed_vector) outcome" where
  "stack_swap a b = fv_swap a b"

end
