(* ===== verification/Fixed_vector_spec.thy ===== *)
theory Fixed_vector_spec
  imports Fixed_vector
begin

text \<open>
  What \<^verbatim>\<open>fixed_vector\<close> and \<^verbatim>\<open>fixed_stack\<close> promise, stated against lists. A vector
  with capacity \<open>cap\<close> that holds the list \<open>xs\<close> is exactly \<open>fv_of cap xs\<close>, so every
  operation is an equation on such vectors.
\<close>

definition fv_of :: "nat \<Rightarrow> 'a list \<Rightarrow> 'a fixed_vector" where
  "fv_of cap xs = \<lparr>fv_storage = packed (fv_slots cap) xs, fv_size = length xs\<rparr>"

lemma fv_of_simps [simp]:
  "fv_size (fv_of cap xs) = length xs"
  "fv_storage (fv_of cap xs) = packed (fv_slots cap) xs"
  by (simp_all add: fv_of_def)

lemma fv_of_update [simp]:
  "(fv_of cap xs)\<lparr>fv_size := length ys, fv_storage := packed (fv_slots cap) ys\<rparr> = fv_of cap ys"
  "(fv_of cap xs)\<lparr>fv_storage := packed (fv_slots cap) ys, fv_size := length ys\<rparr> = fv_of cap ys"
  "length ys = length xs \<Longrightarrow> (fv_of cap xs)\<lparr>fv_storage := packed (fv_slots cap) ys\<rparr> = fv_of cap ys"
  by (simp_all add: fv_of_def)

lemma fv_updateI:
  "n = length ys \<Longrightarrow> st = packed (fv_slots cap) ys \<Longrightarrow> v\<lparr>fv_storage := st, fv_size := n\<rparr> = fv_of cap ys"
  "n = length ys \<Longrightarrow> st = packed (fv_slots cap) ys \<Longrightarrow> v\<lparr>fv_size := n, fv_storage := st\<rparr> = fv_of cap ys"
  by (simp_all add: fv_of_def)

lemma fv_empty_of: "fv_empty cap = fv_of cap []"
  by (simp add: fv_empty_def fv_of_def packed_Nil)

section \<open>Single operations\<close>

lemma fv_at_of [simp]: "i < length xs \<Longrightarrow> length xs \<le> cap \<Longrightarrow> fv_at h (fv_of cap xs) i = Inr (xs ! i)"
  by (simp add: fv_at_def)

lemma fv_front_of [simp]: "xs \<noteq> [] \<Longrightarrow> length xs \<le> cap \<Longrightarrow> fv_front h (fv_of cap xs) = Inr (hd xs)"
  by (simp add: fv_front_def hd_conv_nth)

lemma fv_back_of [simp]: "xs \<noteq> [] \<Longrightarrow> length xs \<le> cap \<Longrightarrow> fv_back h (fv_of cap xs) = Inr (last xs)"
  by (simp add: fv_back_def size_pred_def last_conv_nth)

lemma fv_reads_fail:
  assumes "h \<noteq> METL_HARDENING_NONE"
  shows "\<not> i < length xs \<Longrightarrow> fv_at h (fv_of cap xs) i = Inl Check_failed"
    and "fv_front h (fv_of cap []) = Inl Check_failed"
    and "fv_back h (fv_of cap []) = Inl Check_failed"
  using assms by (simp_all add: fv_at_def fv_front_def fv_back_def METL_ASSERT_active)

lemma fv_try_emplace_back_of:
  assumes "length xs \<le> cap"
  shows "fv_try_emplace_back cap c (fv_of cap xs) =
    (if length xs = cap then Inr (Returned False, fv_of cap xs)
     else case c of Throws \<Rightarrow> Inr (Threw, fv_of cap xs) | Builds x \<Rightarrow> Inr (Returned True, fv_of cap (xs @ [x])))"
  using assms
  by (auto simp: fv_try_emplace_back_def Let_def fv_of_def split: ctor.split)

definition keep_back :: "hardening \<Rightarrow> nat \<Rightarrow> 'a ctor \<Rightarrow> 'a list \<Rightarrow> ('a call \<times> 'a list) outcome" where
  "keep_back h cap c xs =
     (if length xs = cap
      then if h = METL_HARDENING_NONE \<and> cap \<noteq> 0 then Inr (Returned (last xs), xs) else Inl Check_failed
      else case c of Throws \<Rightarrow> Inr (Threw, xs) | Builds x \<Rightarrow> Inr (Returned x, xs @ [x]))"

lemma fv_emplace_back_of:
  assumes "length xs \<le> cap"
  shows "fv_emplace_back h cap c (fv_of cap xs) =
    bnd (keep_back h cap c xs) (\<lambda>(res, ys). Inr (res, fv_of cap ys))"
proof (cases "length xs = cap")
  case True
  then show ?thesis
    by (cases h)
      (auto simp: fv_emplace_back_def fv_try_emplace_back_of keep_back_def METL_ASSERT_active METL_ASSERT_stripped)
next
  case False
  with assms show ?thesis
    by (auto simp: fv_emplace_back_def fv_try_emplace_back_of keep_back_def Let_def split: ctor.split)
qed

lemma fv_emplace_back_room [simp]:
  "length xs < cap \<Longrightarrow> fv_emplace_back h cap (Builds x) (fv_of cap xs) = Inr (Returned x, fv_of cap (xs @ [x]))"
  by (simp add: fv_emplace_back_of keep_back_def)

lemma fv_pop_back_of:
  "length xs \<le> cap \<Longrightarrow> fv_pop_back (fv_of cap xs) =
     (if xs = [] then Inl Check_failed else Inr (fv_of cap (butlast xs)))"
  by (auto simp: fv_pop_back_def Let_def packed_destroy_last [simplified] intro!: fv_updateI)

lemma fv_shrink_to_of: "length xs \<le> cap \<Longrightarrow> fv_shrink_to n (fv_of cap xs) = Inr (fv_of cap (take n xs))"
proof (induction xs rule: rev_induct)
  case Nil
  then show ?case by (subst fv_shrink_to.simps) simp
next
  case (snoc x xs)
  then show ?case
    by (subst fv_shrink_to.simps) (auto simp: fv_pop_back_of)
qed

lemma fv_clear_of [simp]: "length xs \<le> cap \<Longrightarrow> fv_clear (fv_of cap xs) = Inr (fv_of cap [])"
  by (simp add: fv_clear_def fv_shrink_to_of)

text \<open>
  The elements that a run of constructors for the indices \<open>i ..< n\<close> builds before the
  first one that throws.
\<close>

primrec built :: "'a ctor \<Rightarrow> 'a" where
  "built (Builds x) = x"

definition built_upto :: "(nat \<Rightarrow> 'a ctor) \<Rightarrow> nat \<Rightarrow> nat \<Rightarrow> 'a list" where
  "built_upto cs i n = map (\<lambda>j. built (cs j)) (takeWhile (\<lambda>j. cs j \<noteq> Throws) [i..<n])"

lemma built_upto_step:
  "i < n \<Longrightarrow> built_upto cs i n = (case cs i of Throws \<Rightarrow> [] | Builds x \<Rightarrow> x # built_upto cs (Suc i) n)"
  by (simp add: built_upto_def upt_conv_Cons split: ctor.split)

lemma built_upto_done [simp]: "n \<le> i \<Longrightarrow> built_upto cs i n = []"
  by (simp add: built_upto_def)



lemma fv_grow_to_of:
  assumes "length xs \<le> n" "n \<le> cap"
  shows "fv_grow_to h cap n cs (fv_of cap xs) =
    Inr (if length xs + length (built_upto cs (length xs) n) = n then Returned () else Threw,
         fv_of cap (xs @ built_upto cs (length xs) n))"
  using assms
proof (induction "n - length xs" arbitrary: xs)
  case 0
  then show ?case by (subst fv_grow_to.simps) simp
next
  case (Suc d)
  then have lt: "length xs < n" by simp
  show ?case
  proof (cases "cs (length xs)")
    case (Builds x)
    have "fv_grow_to h cap n cs (fv_of cap (xs @ [x])) =
        Inr (if length (xs @ [x]) + length (built_upto cs (length (xs @ [x])) n) = n then Returned () else Threw,
             fv_of cap ((xs @ [x]) @ built_upto cs (length (xs @ [x])) n))"
      using Suc.hyps(2) Suc.prems by (intro Suc.hyps(1)) auto
    then show ?thesis
      using lt Suc.prems Builds built_upto_step [OF lt, of cs] by (subst fv_grow_to.simps) simp
  next
    case Throws
    then show ?thesis
      using lt Suc.prems built_upto_step [OF lt, of cs]
      by (subst fv_grow_to.simps) (simp add: fv_emplace_back_of keep_back_def)
  qed
qed

definition insert_at :: "nat \<Rightarrow> 'a list \<Rightarrow> 'a list \<Rightarrow> 'a list" where
  "insert_at i ys xs = take i xs @ ys @ drop i xs"

lemma length_insert_at [simp]: "length (insert_at i ys xs) = length xs + length ys"
  by (simp add: insert_at_def)





section \<open>Bulk insertions\<close>


definition append_round where
  "append_round h cap rd k v =
     bnd (rd k v) (\<lambda>x. bnd (fv_emplace_back h cap (Builds x) v) (\<lambda>(_, v1). Inr v1))"



text \<open>
  What the asserting appends keep: everything when it fits; otherwise the program
  stops, except in a build without \<^verbatim>\<open>METL_ASSERT\<close>, which keeps the first \<open>cap\<close>.
\<close>

definition keep_fitting :: "hardening \<Rightarrow> nat \<Rightarrow> 'a list \<Rightarrow> 'a list outcome" where
  "keep_fitting h cap ys =
     (if length ys \<le> cap then Inr ys
      else if h = METL_HARDENING_NONE \<and> cap \<noteq> 0 then Inr (take cap ys) else Inl Check_failed)"

lemma append_round_of:
  assumes "length xs \<le> cap" "rd k (fv_of cap (take cap (xs @ take k ys))) = Inr (ys ! k)" "k < length ys"
  shows "append_round h cap rd k (fv_of cap (take cap (xs @ take k ys))) =
    (if length xs + k < cap \<or> h = METL_HARDENING_NONE \<and> cap \<noteq> 0
     then Inr (fv_of cap (take cap (xs @ take (Suc k) ys))) else Inl Check_failed)"
proof (cases "length xs + k < cap")
  case True
  then show ?thesis
    using assms by (simp add: append_round_def take_Suc_conv_app_nth fv_emplace_back_of keep_back_def)
next
  case False
  then have "length (take cap (xs @ take k ys)) = cap" using assms by simp
  moreover have "take cap (xs @ take (Suc k) ys) = take cap (xs @ take k ys)"
    using False assms by (simp add: take_Suc_conv_app_nth)
  ultimately show ?thesis
    using assms False by (auto simp: append_round_def fv_emplace_back_of keep_back_def)
qed

lemma append_rounds:
  assumes "length xs \<le> cap"
    and read: "\<And>k v. k < length ys \<Longrightarrow> fv_size v < cap \<or> h = METL_HARDENING_NONE \<Longrightarrow> rd k v = Inr (ys ! k)"
    and stop: "\<And>k v. k < length ys \<Longrightarrow> rd k v = Inr (ys ! k) \<or> rd k v = Inl Check_failed"
  shows "for_upto 0 (length ys) (append_round h cap rd) (fv_of cap xs) =
    bnd (keep_fitting h cap (xs @ ys)) (\<lambda>zs. Inr (fv_of cap zs))"
proof -
  let ?f = "\<lambda>k. fv_of cap (take cap (xs @ take k ys))"
  have start: "?f 0 = fv_of cap xs" using assms(1) by simp
  have round: "append_round h cap rd k (?f k) = Inr (?f (Suc k))"
    if "k < length ys" "length xs + k < cap \<or> h = METL_HARDENING_NONE \<and> cap \<noteq> 0" for k
    using append_round_of [of xs cap rd k ys h] assms(1) read [of k "?f k"] that by auto
  show ?thesis
  proof (cases "length xs + length ys \<le> cap \<or> h = METL_HARDENING_NONE \<and> cap \<noteq> 0")
    case True
    then have "for_upto 0 (length ys) (append_round h cap rd) (?f 0) = Inr (?f (length ys))"
      by (intro for_upto_states round) auto
    then show ?thesis using start True by (auto simp: keep_fitting_def)
  next
    case False
    then have room: "cap - length xs < length ys" using assms(1) by linarith
    let ?m = "cap - length xs"
    have "append_round h cap rd ?m (?f ?m) = Inl Check_failed"
    proof (cases "rd ?m (?f ?m) = Inr (ys ! ?m)")
      case True
      then show ?thesis
        using append_round_of [of xs cap rd ?m ys h] assms(1) room False by auto
    next
      case False
      then have "rd ?m (?f ?m) = Inl Check_failed" using stop [OF room] by blast
      then show ?thesis unfolding append_round_def by simp
    qed
    then have "for_upto 0 (length ys) (append_round h cap rd) (?f 0) = Inl Check_failed"
      using room by (intro for_upto_stops [where m = ?m] round) auto
    then show ?thesis using start False by (auto simp: keep_fitting_def)
  qed
qed





text \<open>A range of the vector's own elements is refused where it is checked.\<close>

lemma fv_own_range:
  assumes "f < l" "l \<le> cap"
  shows "fv_assign_range h cap (Own f l) v = Inl Check_failed"
    and "h \<noteq> METL_HARDENING_NONE \<Longrightarrow> fv_insert_range h cap pos (Own f l) v = Inl Check_failed"
  using assms
  by (auto simp: fv_assign_range_def fv_insert_range_def aliases_own_storage_def METL_ASSERT_active METL_HARDEN_def)

section \<open>Erasing\<close>






section \<open>Replacing the contents\<close>

lemma fv_resize_of:
  assumes "length xs \<le> cap"
  shows "fv_resize h cap n cs (fv_of cap xs) =
    (if n \<le> cap
     then if n < length xs then Inr (Returned (), fv_of cap (take n xs))
          else Inr (if length xs + length (built_upto cs (length xs) n) = n then Returned () else Threw,
                    fv_of cap (xs @ built_upto cs (length xs) n))
     else Inl Check_failed)"
  using assms by (auto simp: fv_resize_def fv_shrink_to_of fv_grow_to_of)



lemma fv_initializer_list_of:
  "fv_initializer_list h cap ys = bnd (keep_fitting h cap ys) (\<lambda>zs. Inr (fv_of cap zs))"
proof -
  have "for_upto 0 (length ys) (append_round h cap (\<lambda>i v. arr_get ys i)) (fv_of cap []) =
      bnd (keep_fitting h cap ([] @ ys)) (\<lambda>zs. Inr (fv_of cap zs))"
    by (rule append_rounds) auto
  then show ?thesis
    unfolding append_round_def
    by (auto simp: fv_initializer_list_def fv_empty_of METL_ASSERT_def keep_fitting_def less_eq_hardening_def)
qed

section \<open>The whole interface against lists\<close>












section \<open>Whole vectors\<close>

lemma destroy_down:
  assumes "m + d \<le> length xs" "length xs \<le> n"
  shows "for_downto d (\<lambda>k st. slot_destroy st (m + k)) (packed n (take (m + d) xs)) = Inr (packed n (take m xs))"
  using assms(1)
proof (induction d)
  case (Suc d)
  have "butlast (take (m + Suc d) xs) = take (m + d) xs"
    using Suc.prems by (simp add: butlast_take)
  moreover have "length (take (m + Suc d) xs) - 1 = m + d" using Suc.prems by simp
  moreover have "take (m + Suc d) xs \<noteq> []" using Suc.prems by (cases xs) auto
  moreover have "length (take (m + Suc d) xs) \<le> n" using assms(2) by simp
  ultimately have "slot_destroy (packed n (take (m + Suc d) xs)) (m + d) = Inr (packed n (take (m + d) xs))"
    using packed_destroy_last [of "take (m + Suc d) xs" n] by metis
  then show ?case using Suc by simp
qed simp

lemma fv_swap_tail_of:
  assumes "length s \<le> length l" "length l \<le> cap"
  shows "fv_swap_tail (fv_of cap s) (fv_of cap l) =
    Inr (fv_of cap (s @ drop (length s) l), fv_of cap (take (length s) l))"
proof -
  let ?f = "\<lambda>k. fv_of cap (s @ take (k - length s) (drop (length s) l))"
  let ?body = "\<lambda>i s. bnd (slot_get (fv_storage (fv_of cap l)) i) (\<lambda>x.
      bnd (slot_new (fv_storage s) i x) (\<lambda>st. Inr (s\<lparr>fv_storage := st, fv_size := fv_size s + 1\<rparr>)))"
  have step: "?body k (?f k) = Inr (?f (Suc k))" if "length s \<le> k" "k < length l" for k
  proof -
    let ?ys = "s @ take (k - length s) (drop (length s) l)"
    have len: "length ?ys = k" using that by simp
    have "?ys @ [l ! k] = s @ take (Suc k - length s) (drop (length s) l)"
      using that by (simp add: Suc_diff_le take_Suc_conv_app_nth)
    moreover have "slot_new (packed (fv_slots cap) ?ys) k (l ! k) = Inr (packed (fv_slots cap) (?ys @ [l ! k]))"
      using packed_new [of ?ys "fv_slots cap" "l ! k"] len that assms by (simp del: packed_new append_assoc)
    ultimately show ?thesis
      using that assms len by (simp add: fv_of_def del: append_assoc)
  qed
  have "for_upto (length s) (length l) ?body (?f (length s)) = Inr (?f (length l))"
    using step assms by (intro for_upto_states) auto
  moreover have "for_downto (length l - length s) (\<lambda>k st. slot_destroy st (length s + k)) (packed (fv_slots cap) l) =
      Inr (packed (fv_slots cap) (take (length s) l))"
    using destroy_down [of "length s" "length l - length s" l "fv_slots cap"] assms by simp
  ultimately show ?thesis
    using assms by (auto simp: fv_swap_tail_def Let_def intro!: fv_updateI)
qed

lemma fv_swap_of:
  assumes "length xs \<le> cap" "length ys \<le> cap"
  shows "fv_swap (fv_of cap xs) (fv_of cap ys) = Inr (fv_of cap ys, fv_of cap xs)"
proof -
  let ?n = "fv_slots cap" and ?c = "min (length xs) (length ys)"
  let ?f = "\<lambda>k. (packed ?n (take k ys @ drop k xs), packed ?n (take k xs @ drop k ys))"
  let ?body = "\<lambda>i (sa, sb). bnd (slot_get sa i) (\<lambda>x. bnd (slot_get sb i) (\<lambda>y.
      bnd (slot_assign sa i y) (\<lambda>sa1. bnd (slot_assign sb i x) (\<lambda>sb1. Inr (sa1, sb1)))))"
  have upd: "(take k us @ drop k vs)[k := us ! k] = take (Suc k) us @ drop (Suc k) vs"
    if "k < length us" "k < length vs" for k and us vs :: "'a list"
    using that by (simp add: list_update_append take_Suc_conv_app_nth Cons_nth_drop_Suc [symmetric])
  have get: "(take k us @ drop k vs) ! k = vs ! k" if "k < length us" "k < length vs" for k and us vs :: "'a list"
    using that by (simp add: nth_append)
  have "?body k (?f k) = Inr (?f (Suc k))" if "k < ?c" for k
    using that assms upd [of k ys xs] upd [of k xs ys] get [of k ys xs] get [of k xs ys] by simp
  then have loop: "for_upto 0 ?c ?body (?f 0) = Inr (?f ?c)" by (intro for_upto_states) auto
  consider (less) "length xs < length ys" | (more) "length ys < length xs" | (same) "length xs = length ys"
    by linarith
  then show ?thesis
  proof cases
    case less
    have "fv_swap_tail (fv_of cap (take (length xs) ys)) (fv_of cap (xs @ drop (length xs) ys)) =
        Inr (fv_of cap ys, fv_of cap xs)"
      using fv_swap_tail_of [of "take (length xs) ys" "xs @ drop (length xs) ys" cap] less assms by simp
    then show ?thesis using loop less by (simp add: fv_swap_def Let_def fv_of_def)
  next
    case more
    have "fv_swap_tail (fv_of cap (take (length ys) xs)) (fv_of cap (ys @ drop (length ys) xs)) =
        Inr (fv_of cap xs, fv_of cap ys)"
      using fv_swap_tail_of [of "take (length ys) xs" "ys @ drop (length ys) xs" cap] more assms by simp
    then show ?thesis using loop more by (simp add: fv_swap_def Let_def fv_of_def)
  next
    case same
    then show ?thesis using loop by (simp add: fv_swap_def Let_def fv_of_def)
  qed
qed

lemma fv_append_all_of:
  assumes "length xs + length ys \<le> cap" "length ys \<le> cap'"
  shows "fv_append_all h cap (fv_of cap' ys) (fv_of cap xs) = Inr (fv_of cap (xs @ ys))"
proof -
  let ?f = "\<lambda>k. fv_of cap (xs @ take k ys)"
  have "for_upto 0 (length ys) (\<lambda>i v. bnd (slot_get (fv_storage (fv_of cap' ys)) i) (\<lambda>x.
      bnd (fv_emplace_back h cap (Builds x) v) (\<lambda>(_, v1). Inr v1))) (?f 0) = Inr (?f (length ys))"
    using assms by (intro for_upto_states) (auto simp: take_Suc_conv_app_nth)
  then show ?thesis by (simp add: fv_append_all_def)
qed

lemma fv_eq_of:
  assumes "length xs \<le> cap" "length ys \<le> cap'"
  shows "fv_eq h eq (fv_of cap xs) (fv_of cap' ys) = Inr (list_all2 eq xs ys)"
proof (cases "length xs = length ys")
  case True
  have "fv_eq_from h eq i (fv_of cap xs) (fv_of cap' ys) = Inr (list_all2 eq (drop i xs) (drop i ys))"
    if "i \<le> length xs" for i
    using that
  proof (induction "length xs - i" arbitrary: i)
    case 0
    then show ?case using True by (subst fv_eq_from.simps) simp
  next
    case (Suc d)
    then have "i < length xs" by simp
    then show ?case
      using Suc.hyps(1) [of "Suc i"] Suc.hyps(2) True assms
      by (subst fv_eq_from.simps) (simp add: Cons_nth_drop_Suc [symmetric])
  qed
  from this [of 0] show ?thesis using True by (simp add: fv_eq_def)
next
  case False
  then show ?thesis by (auto simp: fv_eq_def dest: list_all2_lengthD)
qed

lemma fv_less_of:
  fixes xs ys :: "'a::linorder list"
  assumes "length xs \<le> cap" "length ys \<le> cap'"
  shows "fv_less h (<) (fv_of cap xs) (fv_of cap' ys) = Inr ((xs, ys) \<in> lexord {(a, b). a < b})"
proof -
  let ?n = "min (length xs) (length ys)"
  have "fv_less_from h (<) i ?n (fv_of cap xs) (fv_of cap' ys) =
      Inr ((drop i xs, drop i ys) \<in> lexord {(a, b). a < b})" if "i \<le> ?n" for i
    using that
  proof (induction "?n - i" arbitrary: i)
    case 0
    then have "i = ?n" by simp
    have "(drop i xs, drop i ys) \<in> lexord {(a, b). a < b} \<longleftrightarrow> length xs < length ys"
    proof (cases "length xs < length ys")
      case True
      then have "drop i xs = []" "drop i ys = ys ! i # drop (Suc i) ys"
        using \<open>i = ?n\<close> by (simp_all add: Cons_nth_drop_Suc)
      then show ?thesis using True by simp
    next
      case False
      then have "drop i ys = []" using \<open>i = ?n\<close> by simp
      then show ?thesis using False by simp
    qed
    then show ?case using \<open>i = ?n\<close> by (subst fv_less_from.simps) simp
  next
    case (Suc d)
    then have i: "i < length xs" "i < length ys" by auto
    then show ?case
      using Suc.hyps(1) [of "Suc i"] Suc.hyps(2) assms
      by (subst fv_less_from.simps) (auto simp: Cons_nth_drop_Suc [symmetric])
  qed
  moreover have "(if length xs < length ys then length xs else length ys) = ?n" by simp
  ultimately show ?thesis unfolding fv_less_def by (simp only: fv_of_simps) simp
qed

section \<open>Properties\<close>



text \<open>A \<^verbatim>\<open>resize\<close> that throws neither leaves the vector unchanged nor empties it.\<close>

lemma resize_throw_keeps_built:
  "fv_resize METL_HARDENING_FAST 4 3 (\<lambda>i. if i = 2 then Throws else Builds 7) (fv_of 4 [1]) = Inr (Threw, fv_of 4 [1, 7 :: nat])"
  by (simp add: fv_resize_of built_upto_def upt_conv_Cons numeral_2_eq_2)

text \<open>
  C14: On whole vectors: \<^verbatim>\<open>swap\<close> exchanges two vectors of any lengths, copies and
  assignments reproduce the source, a moved-from vector is empty, an initializer
  list is stored in order, a range of the vector's own elements is refused, and
  \<^verbatim>\<open>==\<close> and \<^verbatim>\<open><\<close> compare elementwise and lexicographically, whatever the capacities.
\<close>

theorem fixed_vector_whole:
  fixes xs ys :: "'a::linorder list"
  assumes "length xs \<le> cap" "length ys \<le> cap"
  shows "fv_swap (fv_of cap xs) (fv_of cap ys) = Inr (fv_of cap ys, fv_of cap xs) \<and>
     fv_copy h cap (fv_of cap xs) = Inr (fv_of cap xs) \<and>
     fv_move h cap (fv_of cap xs) = Inr (fv_of cap xs, fv_of cap []) \<and>
     fv_copy_assign h cap (fv_of cap xs) (fv_of cap ys) = Inr (fv_of cap ys) \<and>
     fv_move_assign h cap (fv_of cap xs) (fv_of cap ys) = Inr (fv_of cap ys, fv_of cap []) \<and>
     fv_initializer_list h cap xs = Inr (fv_of cap xs) \<and>
     (f < l \<longrightarrow> l \<le> cap \<longrightarrow> fv_assign_range h cap (Own f l) (fv_of cap xs) = Inl Check_failed) \<and>
     fv_eq h (=) (fv_of cap xs) (fv_of cap ys) = Inr (xs = ys) \<and>
     fv_less h (<) (fv_of cap xs) (fv_of cap ys) = Inr ((xs, ys) \<in> lexord {(a, b). a < b})"
  using assms fv_own_range(1) [of f l cap h "fv_of cap xs"]
  by (simp add: fv_swap_of fv_copy_def fv_move_def fv_copy_assign_def fv_move_assign_def fv_empty_of
      fv_append_all_of fv_initializer_list_of keep_fitting_def fv_eq_of fv_less_of list.rel_eq)

theorem fixed_vector_whole_witness:
  "fv_swap (fv_of 3 [1, 2, 3 :: nat]) (fv_of 3 [7]) = Inr (fv_of 3 [7], fv_of 3 [1, 2, 3]) \<and>
   fv_less METL_HARDENING_FAST (<) (fv_of 3 [1, 2, 3 :: nat]) (fv_of 3 [7]) = Inr True"
  using fixed_vector_whole [of "[1, 2, 3 :: nat]" 3 "[7]" METL_HARDENING_FAST 0 1] by simp

text \<open>
  C15: \<^verbatim>\<open>fixed_stack\<close> is last-in first-out: after a push the new element is on top and
  a pop restores the stack exactly; a full stack refuses \<^verbatim>\<open>try_emplace\<close> unchanged and
  stops an asserting push; \<^verbatim>\<open>pop\<close> on an empty stack stops the program at every
  hardening level, \<^verbatim>\<open>top\<close> where \<^verbatim>\<open>METL_ASSERT\<close> is active.
\<close>

theorem fixed_stack_lifo:
  assumes "length xs \<le> cap"
  shows "(length xs < cap \<longrightarrow>
       stack_try_emplace cap (Builds x) (fv_of cap xs) = Inr (Returned True, fv_of cap (xs @ [x])) \<and>
       stack_emplace h cap (Builds x) (fv_of cap xs) = Inr (Returned x, fv_of cap (xs @ [x])) \<and>
       stack_try_emplace cap Throws (fv_of cap xs) = Inr (Threw, fv_of cap xs) \<and>
       stack_top h (fv_of cap (xs @ [x])) = Inr x \<and> stack_pop (fv_of cap (xs @ [x])) = Inr (fv_of cap xs)) \<and>
     (length xs = cap \<longrightarrow>
       stack_try_emplace cap (Builds x) (fv_of cap xs) = Inr (Returned False, fv_of cap xs) \<and>
       (h \<noteq> METL_HARDENING_NONE \<longrightarrow> stack_emplace h cap (Builds x) (fv_of cap xs) = Inl Check_failed)) \<and>
     stack_pop (fv_of cap ([] :: 'a list)) = Inl Check_failed \<and>
     (h \<noteq> METL_HARDENING_NONE \<longrightarrow> stack_top h (fv_of cap ([] :: 'a list)) = Inl Check_failed) \<and>
     stack_clear (fv_of cap xs) = Inr (fv_of cap []) \<and>
     (length ys \<le> cap \<longrightarrow> stack_swap (fv_of cap xs) (fv_of cap ys) = Inr (fv_of cap ys, fv_of cap xs))"
  using assms
  by (simp add: stack_try_emplace_def stack_emplace_def stack_top_def stack_pop_def stack_clear_def stack_swap_def
      fv_swap_of fv_try_emplace_back_of fv_emplace_back_of fv_pop_back_of keep_back_def fv_reads_fail)

theorem fixed_stack_lifo_witness:
  "stack_pop (fv_of 2 [5, 6 :: nat]) = Inr (fv_of 2 [5]) \<and>
   stack_try_emplace 2 (Builds (7 :: nat)) (fv_of 2 [5, 6]) = Inr (Returned False, fv_of 2 [5, 6])"
  using fixed_stack_lifo [of "[5 :: nat]" 2 6 METL_HARDENING_FAST "[]"]
    fixed_stack_lifo [of "[5, 6 :: nat]" 2 7 METL_HARDENING_FAST "[]"] by auto

end
