(* ===== verification/Throwing.thy ===== *)
theory Throwing
  imports Slots
begin

text \<open>
  Operations that run caller code which may throw (element moves, comparators)
  in the middle of their work. Which of those calls throws is chosen by a \<open>fuse\<close>:
  \<open>None\<close> burns for ever, \<open>Some n\<close> lets \<open>n\<close> calls through and makes the next one
  throw. An \<open>action\<close> runs on the fuse and a state, and either returns or throws,
  with the state it left behind.
\<close>

type_synonym fuse = "nat option"

type_synonym ('s, 'r) action = "fuse \<times> 's \<Rightarrow> ('r call \<times> fuse \<times> 's) outcome"

fun burn :: "fuse \<Rightarrow> bool \<times> fuse" where
  "burn None = (False, None)"
| "burn (Some 0) = (True, None)"
| "burn (Some (Suc n)) = (False, Some n)"

definition act_return :: "'r \<Rightarrow> ('s, 'r) action" where
  "act_return r = (\<lambda>s. Inr (Returned r, s))"

definition act_bind :: "('s, 'a) action \<Rightarrow> ('a \<Rightarrow> ('s, 'b) action) \<Rightarrow> ('s, 'b) action" where
  "act_bind m k = (\<lambda>s. bnd (m s) (\<lambda>(res, s1). case res of Threw \<Rightarrow> Inr (Threw, s1) | Returned r \<Rightarrow> k r s1))"

text \<open>A call of caller code: it throws when the fuse says so.\<close>

definition caller_code :: "('s, unit) action" where
  "caller_code = (\<lambda>(f, s). case burn f of (t, f1) \<Rightarrow> Inr (if t then Threw else Returned (), f1, s))"

definition act_read :: "('s \<Rightarrow> 'r outcome) \<Rightarrow> ('s, 'r) action" where
  "act_read g = (\<lambda>(f, s). bnd (g s) (\<lambda>r. Inr (Returned r, f, s)))"

definition act_update :: "('s \<Rightarrow> 's outcome) \<Rightarrow> ('s, unit) action" where
  "act_update g = (\<lambda>(f, s). bnd (g s) (\<lambda>s1. Inr (Returned (), f, s1)))"

lemma act_bind_cong [fundef_cong]:
  assumes "m s = m' s'" "s = s'" "\<And>r s1. m' s' = Inr (Returned r, s1) \<Longrightarrow> k r s1 = k' r s1"
  shows "act_bind m k s = act_bind m' k' s'"
  using assms by (cases "m' s'") (auto simp: act_bind_def split: call.split)

lemma act_bind_apply:
  "act_bind m k s = bnd (m s) (\<lambda>(res, s1). case res of Threw \<Rightarrow> Inr (Threw, s1) | Returned r \<Rightarrow> k r s1)"
  by (simp add: act_bind_def)

end
