(* ===== verification/Order.thy ===== *)
theory Order
  imports Config
begin

text \<open>
  What a \<^verbatim>\<open>Compare\<close> argument has to be: a strict weak ordering. The default argument
  of the ordered containers, \<^verbatim>\<open>std::less\<close>, is one on every linearly ordered type, and
  so is \<^verbatim>\<open>std::greater\<close>.
\<close>

locale strict_weak_order =
  fixes lt :: "'a \<Rightarrow> 'a \<Rightarrow> bool"
  assumes asym: "lt a b \<Longrightarrow> \<not> lt b a"
    and neg_trans: "\<not> lt a b \<Longrightarrow> \<not> lt b c \<Longrightarrow> \<not> lt a c"
begin

lemma irrefl: "\<not> lt a a"
  using asym by blast

lemma trans: "lt a b \<Longrightarrow> lt b c \<Longrightarrow> lt a c"
  using asym neg_trans by blast

text \<open>Two keys are equivalent when neither is less; lookups go by equivalence.\<close>

definition equiv :: "'a \<Rightarrow> 'a \<Rightarrow> bool" where
  "equiv a b \<longleftrightarrow> \<not> lt a b \<and> \<not> lt b a"

lemma equiv_refl [simp]: "equiv a a"
  by (simp add: equiv_def irrefl)

lemma equiv_sym: "equiv a b \<Longrightarrow> equiv b a"
  by (simp add: equiv_def)

lemma equiv_trans: "equiv a b \<Longrightarrow> equiv b c \<Longrightarrow> equiv a c"
  using neg_trans unfolding equiv_def by blast

lemma equivp_equiv: "equivp equiv"
  by (rule equivpI) (auto simp: reflp_def symp_def transp_def dest: equiv_sym intro: equiv_trans)

lemma lt_equiv_left: "lt a b \<Longrightarrow> equiv a a' \<Longrightarrow> lt a' b"
  using neg_trans unfolding equiv_def by blast

lemma lt_equiv_right: "lt a b \<Longrightarrow> equiv b b' \<Longrightarrow> lt a b'"
  using neg_trans unfolding equiv_def by blast

end

definition std_less :: "'a::linorder \<Rightarrow> 'a \<Rightarrow> bool" where
  "std_less a b \<longleftrightarrow> a < b"

definition std_greater :: "'a::linorder \<Rightarrow> 'a \<Rightarrow> bool" where
  "std_greater a b \<longleftrightarrow> b < a"

interpretation std_less: strict_weak_order std_less
  by unfold_locales (auto simp: std_less_def)

interpretation std_greater: strict_weak_order std_greater
  by unfold_locales (auto simp: std_greater_def)

end
