(* ===== verification/Priority_queue.thy ===== *)
theory Priority_queue
  imports Throwing Fixed_vector Order
begin

text \<open>
  \<^verbatim>\<open>fixed_priority_queue.hpp\<close>: a binary heap in a \<^verbatim>\<open>fixed_vector\<close>. The comparator and
  the element moves of the sift loops are caller code and may throw; the queue is
  then cleared (\<^verbatim>\<open>keep_heap_or_clear\<close>).
\<close>

section \<open>Operations\<close>

record 'a priority_queue =
  pq_storage :: "'a fixed_vector"
  pq_comp :: "'a \<Rightarrow> 'a \<Rightarrow> bool"

definition pq_empty :: "nat \<Rightarrow> ('a \<Rightarrow> 'a \<Rightarrow> bool) \<Rightarrow> 'a priority_queue" where
  "pq_empty cap cmp = \<lparr>pq_storage = fv_empty cap, pq_comp = cmp\<rparr>"

definition pq_top :: "hardening \<Rightarrow> 'a priority_queue \<Rightarrow> 'a outcome" where
  "pq_top h q = fv_front h (pq_storage q)"

text \<open>\<^verbatim>\<open>storage_[i] = ...\<close>, with the check of \<^verbatim>\<open>operator[]\<close>.\<close>

definition pq_store :: "hardening \<Rightarrow> nat \<Rightarrow> 'a \<Rightarrow> 'a fixed_vector \<Rightarrow> 'a fixed_vector outcome" where
  "pq_store h i x v =
     METL_ASSERT h (i < fv_size v) (bnd (slot_assign (fv_storage v) i x) (\<lambda>st. Inr (v\<lparr>fv_storage := st\<rparr>)))"

definition swap_slots :: "hardening \<Rightarrow> nat \<Rightarrow> nat \<Rightarrow> ('a fixed_vector, unit) action" where
  "swap_slots h a b =
     act_bind (act_read (\<lambda>v. fv_at h v a)) (\<lambda>temporary.
     act_bind caller_code (\<lambda>_.
     act_bind (act_read (\<lambda>v. fv_at h v b)) (\<lambda>y.
     act_bind caller_code (\<lambda>_.
     act_bind (act_update (pq_store h a y)) (\<lambda>_.
     act_bind caller_code (\<lambda>_.
     act_update (pq_store h b temporary)))))))"

definition pq_compare ::
  "hardening \<Rightarrow> ('a \<Rightarrow> 'a \<Rightarrow> bool) \<Rightarrow> nat \<Rightarrow> nat \<Rightarrow> ('a fixed_vector, bool) action" where
  "pq_compare h cmp a b =
     act_bind (act_read (\<lambda>v. fv_at h v a)) (\<lambda>x.
     act_bind (act_read (\<lambda>v. fv_at h v b)) (\<lambda>y.
     act_bind caller_code (\<lambda>_. act_return (cmp x y))))"

function sift_up ::
  "hardening \<Rightarrow> ('a \<Rightarrow> 'a \<Rightarrow> bool) \<Rightarrow> nat \<Rightarrow> ('a fixed_vector, unit) action" where
  "sift_up h cmp index s =
     (if index > 0
      then let parent = (index - 1) div 2 in
           act_bind (pq_compare h cmp parent index) (\<lambda>below.
             if \<not> below then act_return ()
             else act_bind (swap_slots h parent index) (\<lambda>_ s1. sift_up h cmp parent s1)) s
      else act_return () s)"
  by pat_completeness auto
termination
  by (relation "measure (\<lambda>(h, cmp, index, s). index)") auto

declare sift_up.simps [simp del]

function sift_down ::
  "hardening \<Rightarrow> ('a \<Rightarrow> 'a \<Rightarrow> bool) \<Rightarrow> nat \<Rightarrow> nat \<Rightarrow> ('a fixed_vector, unit) action" where
  "sift_down h cmp len index s =
     (let left = 2 * index + 1 in
      if left \<ge> len then act_return () s
      else let right = left + 1 in
           act_bind (if right < len then pq_compare h cmp left right else act_return False) (\<lambda>right_better.
           let best = (if right_better then right else left) in
           act_bind (pq_compare h cmp index best) (\<lambda>below.
             if \<not> below then act_return ()
             else act_bind (swap_slots h index best) (\<lambda>_ s1. sift_down h cmp len best s1))) s)"
  by pat_completeness auto
termination
  by (relation "measure (\<lambda>(h, cmp, len, index, s). len - index)") (auto simp: Let_def split: if_splits)

declare sift_down.simps [simp del]

primrec heapify_from ::
  "hardening \<Rightarrow> ('a \<Rightarrow> 'a \<Rightarrow> bool) \<Rightarrow> nat \<Rightarrow> nat \<Rightarrow> ('a fixed_vector, unit) action" where
  "heapify_from h cmp len 0 = act_return ()"
| "heapify_from h cmp len (Suc index) =
     act_bind (sift_down h cmp len index) (\<lambda>_. heapify_from h cmp len index)"

definition heapify :: "hardening \<Rightarrow> ('a \<Rightarrow> 'a \<Rightarrow> bool) \<Rightarrow> ('a fixed_vector, unit) action" where
  "heapify h cmp s = heapify_from h cmp (fv_size (snd s)) (fv_size (snd s) div 2) s"

text \<open>Runs a step; when it throws, the queue is cleared before the exception goes on.\<close>

definition keep_heap_or_clear ::
  "('a fixed_vector, 'r) action \<Rightarrow> fuse \<Rightarrow> 'a priority_queue \<Rightarrow> ('r call \<times> 'a priority_queue) outcome" where
  "keep_heap_or_clear step f q =
     bnd (step (f, pq_storage q)) (\<lambda>(res, _, v). case res of
         Returned r \<Rightarrow> Inr (Returned r, q\<lparr>pq_storage := v\<rparr>)
       | Threw \<Rightarrow> bnd (fv_clear v) (\<lambda>v1. Inr (Threw, q\<lparr>pq_storage := v1\<rparr>)))"

definition pq_try_emplace ::
  "hardening \<Rightarrow> nat \<Rightarrow> fuse \<Rightarrow> 'a ctor \<Rightarrow> 'a priority_queue \<Rightarrow> (bool call \<times> 'a priority_queue) outcome" where
  "pq_try_emplace h cap f c q =
     bnd (fv_try_emplace_back cap c (pq_storage q)) (\<lambda>(res, v). case res of
         Threw \<Rightarrow> Inr (Threw, q\<lparr>pq_storage := v\<rparr>)
       | Returned inserted \<Rightarrow>
           if \<not> inserted then Inr (Returned False, q\<lparr>pq_storage := v\<rparr>)
           else bnd (keep_heap_or_clear (sift_up h (pq_comp q) (fv_size v - 1)) f (q\<lparr>pq_storage := v\<rparr>))
                  (\<lambda>(res, q1). case res of
                      Threw \<Rightarrow> Inr (Threw, q1) | Returned _ \<Rightarrow> Inr (Returned True, q1)))"

definition pq_emplace ::
  "hardening \<Rightarrow> nat \<Rightarrow> fuse \<Rightarrow> 'a ctor \<Rightarrow> 'a priority_queue \<Rightarrow> (unit call \<times> 'a priority_queue) outcome" where
  "pq_emplace h cap f c q =
     bnd (fv_emplace_back h cap c (pq_storage q)) (\<lambda>(res, v). case res of
         Threw \<Rightarrow> Inr (Threw, q\<lparr>pq_storage := v\<rparr>)
       | Returned _ \<Rightarrow>
           keep_heap_or_clear (sift_up h (pq_comp q) (size_pred (fv_size v))) f (q\<lparr>pq_storage := v\<rparr>))"

definition pq_pop_step ::
  "hardening \<Rightarrow> ('a \<Rightarrow> 'a \<Rightarrow> bool) \<Rightarrow> ('a fixed_vector, unit) action" where
  "pq_pop_step h cmp s =
     (let last_index = fv_size (snd s) - 1 in
      act_bind (if last_index \<noteq> 0
                then act_bind (act_read (\<lambda>v. fv_at h v last_index)) (\<lambda>x.
                     act_bind caller_code (\<lambda>_. act_update (pq_store h 0 x)))
                else act_return ()) (\<lambda>_.
      act_bind (act_update fv_pop_back) (\<lambda>_ s1.
        if fv_size (snd s1) \<noteq> 0 then sift_down h cmp (fv_size (snd s1)) 0 s1 else act_return () s1)) s)"

definition pq_pop ::
  "hardening \<Rightarrow> fuse \<Rightarrow> 'a priority_queue \<Rightarrow> (unit call \<times> 'a priority_queue) outcome" where
  "pq_pop h f q =
     METL_HARDEN (fv_size (pq_storage q) \<noteq> 0) (keep_heap_or_clear (pq_pop_step h (pq_comp q)) f q)"

definition pq_clear :: "'a priority_queue \<Rightarrow> 'a priority_queue outcome" where
  "pq_clear q = bnd (fv_clear (pq_storage q)) (\<lambda>v. Inr (q\<lparr>pq_storage := v\<rparr>))"

text \<open>\<^verbatim>\<open>erase_if\<close>: compact the kept elements, pop the rest, heapify; all of it may throw.\<close>

function pq_compact ::
  "hardening \<Rightarrow> ('a \<Rightarrow> bool) \<Rightarrow> nat \<Rightarrow> nat \<Rightarrow> nat \<Rightarrow> ('a fixed_vector, nat) action" where
  "pq_compact h p before read write s =
     (if read < before
      then act_bind (act_read (\<lambda>v. fv_at h v read)) (\<lambda>x.
           act_bind caller_code (\<lambda>_.
             if \<not> p x
             then act_bind (if write \<noteq> read
                            then act_bind caller_code (\<lambda>_. act_update (pq_store h write x))
                            else act_return ()) (\<lambda>_ s1. pq_compact h p before (read + 1) (write + 1) s1)
             else (\<lambda>s1. pq_compact h p before (read + 1) write s1))) s
      else act_return write s)"
  by pat_completeness auto
termination
  by (relation "measure (\<lambda>(h, p, before, read, write, s). before - read)") auto

declare pq_compact.simps [simp del]

definition pq_erase_if ::
  "hardening \<Rightarrow> fuse \<Rightarrow> ('a \<Rightarrow> bool) \<Rightarrow> 'a priority_queue \<Rightarrow> (nat call \<times> 'a priority_queue) outcome" where
  "pq_erase_if h f p q =
     (let before = fv_size (pq_storage q) in
      keep_heap_or_clear
        (act_bind (pq_compact h p before 0 0) (\<lambda>write.
         act_bind (act_update (fv_shrink_to write)) (\<lambda>_.
         act_bind (heapify h (pq_comp q)) (\<lambda>_. act_return (before - write))))) f q)"

definition pq_swap ::
  "'a priority_queue \<Rightarrow> 'a priority_queue \<Rightarrow> ('a priority_queue \<times> 'a priority_queue) outcome" where
  "pq_swap a b =
     bnd (fv_swap (pq_storage a) (pq_storage b)) (\<lambda>(va, vb).
       Inr (\<lparr>pq_storage = va, pq_comp = pq_comp b\<rparr>, \<lparr>pq_storage = vb, pq_comp = pq_comp a\<rparr>))"

end
