(* ===== verification/Heap_lists.thy ===== *)
theory Heap_lists
  imports Order
begin

text \<open>
  Binary heaps in lists, greatest element first: the parent of index \<open>j\<close> is
  \<open>(j - 1) div 2\<close>. The two sift loops on lists, and that they restore the heap
  from a list with one misplaced element.
\<close>

definition par :: "nat \<Rightarrow> nat" where
  "par j = (j - 1) div 2"

definition heap_from :: "('a \<Rightarrow> 'a \<Rightarrow> bool) \<Rightarrow> nat \<Rightarrow> 'a list \<Rightarrow> bool" where
  "heap_from lt k xs \<longleftrightarrow> (\<forall>j < length xs. 0 < j \<longrightarrow> k \<le> par j \<longrightarrow> \<not> lt (xs ! par j) (xs ! j))"

function up_list :: "('a \<Rightarrow> 'a \<Rightarrow> bool) \<Rightarrow> nat \<Rightarrow> 'a list \<Rightarrow> 'a list" where
  "up_list lt i xs =
     (if 0 < i \<and> lt (xs ! par i) (xs ! i) then up_list lt (par i) (xs[par i := xs ! i, i := xs ! par i]) else xs)"
  by pat_completeness auto
termination
  by (relation "measure (\<lambda>(lt, i, xs). i)") (auto simp: par_def)

definition best_child :: "('a \<Rightarrow> 'a \<Rightarrow> bool) \<Rightarrow> nat \<Rightarrow> nat \<Rightarrow> 'a list \<Rightarrow> nat" where
  "best_child lt n i xs =
     (if 2 * i + 2 < n \<and> lt (xs ! (2 * i + 1)) (xs ! (2 * i + 2)) then 2 * i + 2 else 2 * i + 1)"

function down_list :: "('a \<Rightarrow> 'a \<Rightarrow> bool) \<Rightarrow> nat \<Rightarrow> nat \<Rightarrow> 'a list \<Rightarrow> 'a list" where
  "down_list lt n i xs =
     (let b = best_child lt n i xs in
      if 2 * i + 1 < n \<and> lt (xs ! i) (xs ! b) then down_list lt n b (xs[i := xs ! b, b := xs ! i]) else xs)"
  by pat_completeness auto
termination
  by (relation "measure (\<lambda>(lt, n, i, xs). n - i)") (auto simp: best_child_def split: if_splits)

declare up_list.simps [simp del] down_list.simps [simp del]

lemma par_less: "0 < j \<Longrightarrow> par j < j"
  by (auto simp: par_def)

lemma par_child [simp]: "par (2 * i + 1) = i" "par (2 * i + 2) = i" "par (Suc (2 * i)) = i" "par (Suc (Suc (2 * i))) = i"
  by (simp_all add: par_def)

lemma par_eq: "0 < j \<Longrightarrow> par j = i \<longleftrightarrow> j = 2 * i + 1 \<or> j = 2 * i + 2"
  by (auto simp: par_def)

lemma best_child:
  "par (best_child lt n i xs) = i \<and> i < best_child lt n i xs \<and> (2 * i + 1 < n \<longrightarrow> best_child lt n i xs < n)"
  by (auto simp: best_child_def)

lemma up_list_mset [simp]: "i < length xs \<Longrightarrow> mset (up_list lt i xs) = mset xs"
proof (induction lt i xs rule: up_list.induct)
  case (1 lt i xs)
  show ?case
  proof (cases "0 < i \<and> lt (xs ! par i) (xs ! i)")
    case True
    then have "par i < length xs" using par_less [of i] "1.prems" by simp
    then show ?thesis
      using 1 True by (subst up_list.simps) (simp add: mset_swap)
  next
    case False
    then show ?thesis by (subst up_list.simps) auto
  qed
qed

lemma down_list_mset [simp]: "n \<le> length xs \<Longrightarrow> mset (down_list lt n i xs) = mset xs"
proof (induction lt n i xs rule: down_list.induct)
  case (1 lt n i xs)
  let ?b = "best_child lt n i xs"
  show ?case
  proof (cases "2 * i + 1 < n \<and> lt (xs ! i) (xs ! ?b)")
    case True
    then have "?b < length xs" "i < length xs" using best_child [of lt n i xs] "1.prems" by auto
    then show ?thesis
      using 1 True by (subst down_list.simps) (simp add: mset_swap Let_def)
  next
    case False
    then show ?thesis by (subst down_list.simps) (auto simp: Let_def)
  qed
qed

lemma up_list_length [simp]: "i < length xs \<Longrightarrow> length (up_list lt i xs) = length xs"
  using up_list_mset [of i xs lt] by (metis size_mset)

lemma down_list_length [simp]: "n \<le> length xs \<Longrightarrow> length (down_list lt n i xs) = length xs"
  using down_list_mset [of n xs lt i] by (metis size_mset)

definition up_inv :: "('a \<Rightarrow> 'a \<Rightarrow> bool) \<Rightarrow> nat \<Rightarrow> 'a list \<Rightarrow> bool" where
  "up_inv lt i xs \<longleftrightarrow>
     (\<forall>j < length xs. 0 < j \<longrightarrow> j \<noteq> i \<longrightarrow> \<not> lt (xs ! par j) (xs ! j)) \<and>
     (\<forall>j < length xs. 0 < j \<longrightarrow> par j = i \<longrightarrow> 0 < i \<longrightarrow> \<not> lt (xs ! par i) (xs ! j))"

definition down_inv :: "('a \<Rightarrow> 'a \<Rightarrow> bool) \<Rightarrow> nat \<Rightarrow> nat \<Rightarrow> 'a list \<Rightarrow> bool" where
  "down_inv lt k i xs \<longleftrightarrow> k \<le> i \<and>
     (\<forall>j < length xs. 0 < j \<longrightarrow> k \<le> par j \<longrightarrow> par j \<noteq> i \<longrightarrow> \<not> lt (xs ! par j) (xs ! j)) \<and>
     (\<forall>j < length xs. 0 < j \<longrightarrow> par j = i \<longrightarrow> 0 < i \<longrightarrow> k \<le> par i \<longrightarrow> \<not> lt (xs ! par i) (xs ! j))"

context strict_weak_order
begin

lemma up_step:
  assumes inv: "up_inv lt i xs" and i: "0 < i" "i < length xs" and below: "lt (xs ! par i) (xs ! i)"
  shows "up_inv lt (par i) (xs[par i := xs ! i, i := xs ! par i])"
proof -
  let ?p = "par i" and ?ys = "xs[par i := xs ! i, i := xs ! par i]"
  have p: "?p < i" using par_less i by simp
  have ok: "\<not> lt (xs ! par j) (xs ! j)" if "j < length xs" "0 < j" "j \<noteq> i" for j
    using inv that by (simp add: up_inv_def)
  have kids: "\<not> lt (xs ! ?p) (xs ! j)" if "j < length xs" "0 < j" "par j = i" for j
    using inv that i by (simp add: up_inv_def)
  have ys: "?ys ! j = (if j = i then xs ! ?p else if j = ?p then xs ! i else xs ! j)" if "j < length xs" for j
    using that p i by (auto simp: nth_list_update)
  have "\<not> lt (?ys ! par j) (?ys ! j)" if j: "j < length xs" "0 < j" "j \<noteq> ?p" for j
  proof (cases "j = i")
    case True
    then show ?thesis using ys [of i] ys [of ?p] p i below asym by simp
  next
    case False
    have pj: "par j < j" "par j < length xs" using par_less j by (auto intro: less_trans)
    consider "par j = i" | "par j = ?p" | "par j \<noteq> i" "par j \<noteq> ?p" by blast
    then show ?thesis
    proof cases
      case 1
      then show ?thesis using kids [OF j(1,2)] ys [of j] ys [of i] j False i by simp
    next
      case 2
      have "\<not> lt (xs ! i) (xs ! j)" using ok [OF j(1,2) False] 2 below trans by auto
      then show ?thesis using 2 ys [of j] ys [of ?p] j False pj p by simp
    next
      case 3
      then show ?thesis using ok [OF j(1,2) False] ys [of j] ys [of "par j"] j False pj by simp
    qed
  qed
  moreover have "\<not> lt (?ys ! par ?p) (?ys ! j)" if j: "j < length xs" "0 < j" "par j = ?p" "0 < ?p" for j
  proof -
    have q: "par ?p < ?p" using par_less j by simp
    have top: "\<not> lt (xs ! par ?p) (xs ! ?p)" using ok [of ?p] p i j by simp
    have "\<not> lt (xs ! par ?p) (xs ! j)" if "j \<noteq> i"
      using neg_trans [OF top] ok [OF j(1,2) that] j by simp
    then show ?thesis using top ys [of j] ys [of "par ?p"] q p i j par_less [of j] by auto
  qed
  ultimately show ?thesis by (simp add: up_inv_def)
qed

lemma up_list_heap: "up_inv lt i xs \<Longrightarrow> i < length xs \<Longrightarrow> heap_from lt 0 (up_list lt i xs)"
proof (induction i arbitrary: xs rule: less_induct)
  case (less i)
  show ?case
  proof (cases "0 < i \<and> lt (xs ! par i) (xs ! i)")
    case True
    let ?ys = "xs[par i := xs ! i, i := xs ! par i]"
    have "heap_from lt 0 (up_list lt (par i) ?ys)"
      using less.IH [of "par i" ?ys] up_step [OF less.prems(1)] True less.prems(2) par_less [of i] by simp
    then show ?thesis using True by (subst up_list.simps) simp
  next
    case False
    then have "up_list lt i xs = xs" by (subst up_list.simps) auto
    then show ?thesis using less.prems False by (auto simp: heap_from_def up_inv_def)
  qed
qed

lemma best_child_best:
  assumes "j < length xs" "0 < j" "par j = i"
  shows "\<not> lt (xs ! best_child lt (length xs) i xs) (xs ! j)"
proof -
  have "j = 2 * i + 1 \<or> j = 2 * i + 2" using assms par_eq by blast
  then show ?thesis using assms(1) asym irrefl by (auto simp: best_child_def)
qed

lemma down_step:
  assumes inv: "down_inv lt k i xs" and child: "2 * i + 1 < length xs"
    and b_def: "b = best_child lt (length xs) i xs" and below: "lt (xs ! i) (xs ! b)"
  shows "down_inv lt k b (xs[i := xs ! b, b := xs ! i])"
proof -
  let ?ys = "xs[i := xs ! b, b := xs ! i]"
  have b: "par b = i" "b < length xs" "i < b" "0 < b" and i: "i < length xs"
    using best_child [of lt "length xs" i xs] child b_def by auto
  have k: "k \<le> i" using inv by (simp add: down_inv_def)
  have ok: "\<not> lt (xs ! par j) (xs ! j)" if "j < length xs" "0 < j" "k \<le> par j" "par j \<noteq> i" for j
    using inv that by (simp add: down_inv_def)
  have ys: "?ys ! j = (if j = b then xs ! i else if j = i then xs ! b else xs ! j)" if "j < length xs" for j
    using that b i by (auto simp: nth_list_update)
  have "\<not> lt (?ys ! par j) (?ys ! j)" if j: "j < length xs" "0 < j" "k \<le> par j" "par j \<noteq> b" for j
  proof (cases "par j = i")
    case True
    have "\<not> lt (xs ! b) (xs ! j)" using best_child_best [OF j(1,2) True] b_def by simp
    moreover have "\<not> lt (xs ! b) (xs ! i)" using below asym by blast
    moreover have "j \<noteq> i" using par_less [of j] j True by auto
    ultimately show ?thesis using True ys [of j] ys [of i] j b i by simp
  next
    case False
    then have jb: "j \<noteq> b" using b by auto
    have pj: "par j < length xs" using par_less j by (auto intro: less_trans)
    show ?thesis
    proof (cases "j = i")
      case True
      then have "\<not> lt (xs ! par i) (xs ! b)" using inv b j by (simp add: down_inv_def)
      then show ?thesis using True False jb ys [of j] ys [of "par j"] j pj by simp
    next
      case False
      then show ?thesis using ok [OF j(1-3)] \<open>par j \<noteq> i\<close> jb ys [of j] ys [of "par j"] j pj by simp
    qed
  qed
  moreover have "\<not> lt (?ys ! par b) (?ys ! j)" if j: "j < length xs" "0 < j" "par j = b" for j
  proof -
    have "b < j" using par_less [of j] j by simp
    then show ?thesis using ok [OF j(1,2)] j b k i ys [of j] ys [of i] by auto
  qed
  ultimately show ?thesis using b k by (simp add: down_inv_def)
qed

lemma down_list_heap: "down_inv lt k i xs \<Longrightarrow> heap_from lt k (down_list lt (length xs) i xs)"
proof (induction "length xs - i" arbitrary: i xs rule: less_induct)
  case less
  let ?b = "best_child lt (length xs) i xs"
  show ?case
  proof (cases "2 * i + 1 < length xs \<and> lt (xs ! i) (xs ! ?b)")
    case True
    let ?ys = "xs[i := xs ! ?b, ?b := xs ! i]"
    have "heap_from lt k (down_list lt (length ?ys) ?b ?ys)"
      by (rule less.hyps) (use True best_child [of lt "length xs" i xs] down_step [OF less.prems] in auto)
    then show ?thesis using True by (subst down_list.simps) (simp add: Let_def)
  next
    case False
    then have same: "down_list lt (length xs) i xs = xs" by (subst down_list.simps) (auto simp: Let_def)
    have "\<not> lt (xs ! i) (xs ! j)" if "j < length xs" "0 < j" "par j = i" for j
    proof -
      have "j = 2 * i + 1 \<or> j = 2 * i + 2" using that par_eq by blast
      then have "2 * i + 1 < length xs" using that(1) by auto
      then show ?thesis using False best_child_best [OF that] neg_trans by blast
    qed
    then show ?thesis using less.prems same by (auto simp: heap_from_def down_inv_def)
  qed
qed

lemma heap_top: "heap_from lt 0 xs \<Longrightarrow> j < length xs \<Longrightarrow> \<not> lt (xs ! 0) (xs ! j)"
proof (induction j rule: less_induct)
  case (less j)
  show ?case
  proof (cases "j = 0")
    case True
    then show ?thesis using irrefl by simp
  next
    case False
    then have "par j < j" using par_less by simp
    then have "\<not> lt (xs ! 0) (xs ! par j)" using less by simp
    moreover have "\<not> lt (xs ! par j) (xs ! j)" using less.prems False by (simp add: heap_from_def)
    ultimately show ?thesis by (rule neg_trans)
  qed
qed

lemma heap_from_down: "heap_from lt (Suc i) xs \<Longrightarrow> heap_from lt i (down_list lt (length xs) i xs)"
proof (rule down_list_heap)
  assume "heap_from lt (Suc i) xs"
  moreover have "par i < i" if "0 < i" using par_less that by simp
  ultimately show "down_inv lt i i xs" by (auto simp: down_inv_def heap_from_def)
qed

lemma heap_from_half: "heap_from lt (length xs div 2) xs"
  by (auto simp: heap_from_def par_def)

end

end
