(* ===== verification/Vector_actions.thy ===== *)
theory Vector_actions
  imports Throwing Fixed_vector_spec
begin

text \<open>
  Throwing actions on the elements of a \<^verbatim>\<open>fixed_vector\<close>: what an action computes when
  nothing throws, and that a throw leaves a valid vector.
\<close>

text \<open>
  \<open>vec_action cap m xs r ys\<close>: on a vector holding \<open>xs\<close> the action returns \<open>r\<close> and
  leaves \<open>ys\<close>, or throws and leaves some vector within the capacity; with nothing to
  throw it returns.
\<close>

definition vec_action :: "nat \<Rightarrow> ('a fixed_vector, 'r) action \<Rightarrow> 'a list \<Rightarrow> 'r \<Rightarrow> 'a list \<Rightarrow> bool" where
  "vec_action cap m xs r ys \<longleftrightarrow> length ys \<le> cap \<and>
     m (None, fv_of cap xs) = Inr (Returned r, None, fv_of cap ys) \<and>
     (\<forall>n. (\<exists>f. m (Some n, fv_of cap xs) = Inr (Returned r, f, fv_of cap ys)) \<or>
          (\<exists>zs. length zs \<le> cap \<and> m (Some n, fv_of cap xs) = Inr (Threw, None, fv_of cap zs)))"

lemma vec_action_fuse:
  assumes "vec_action cap m xs r ys"
  shows "(\<exists>f'. m (f, fv_of cap xs) = Inr (Returned r, f', fv_of cap ys)) \<or>
    (\<exists>zs. length zs \<le> cap \<and> m (f, fv_of cap xs) = Inr (Threw, None, fv_of cap zs))"
  using assms by (cases f) (auto simp: vec_action_def)

lemma vec_action_return: "length xs \<le> cap \<Longrightarrow> vec_action cap (act_return r) xs r xs"
  by (simp add: vec_action_def act_return_def)

lemma vec_action_caller:
  assumes "length xs \<le> cap"
  shows "vec_action cap caller_code xs () xs"
proof -
  have "burn (Some n) = (True, None) \<or> (\<exists>f. burn (Some n) = (False, f))" for n
    by (cases n) auto
  then show ?thesis
    using assms unfolding vec_action_def caller_code_def
    by (metis (mono_tags, lifting) burn.simps(1) case_prod_conv)
qed

lemma vec_action_read:
  "g (fv_of cap xs) = Inr r \<Longrightarrow> length xs \<le> cap \<Longrightarrow> vec_action cap (act_read g) xs r xs"
  by (simp add: vec_action_def act_read_def)

lemma vec_action_update:
  "g (fv_of cap xs) = Inr (fv_of cap ys) \<Longrightarrow> length ys \<le> cap \<Longrightarrow> vec_action cap (act_update g) xs () ys"
  by (simp add: vec_action_def act_update_def)

lemma vec_action_bind:
  assumes m: "vec_action cap m xs r ys" and k: "vec_action cap (k r) ys r' zs"
  shows "vec_action cap (act_bind m k) xs r' zs"
  unfolding vec_action_def
proof (intro conjI allI)
  show "length zs \<le> cap" using k by (simp add: vec_action_def)
  show "act_bind m k (None, fv_of cap xs) = Inr (Returned r', None, fv_of cap zs)"
    using m k by (simp add: vec_action_def act_bind_def)
  fix n
  from vec_action_fuse [OF m, of "Some n"]
  show "(\<exists>f. act_bind m k (Some n, fv_of cap xs) = Inr (Returned r', f, fv_of cap zs)) \<or>
    (\<exists>zs. length zs \<le> cap \<and> act_bind m k (Some n, fv_of cap xs) = Inr (Threw, None, fv_of cap zs))"
  proof
    assume "\<exists>f'. m (Some n, fv_of cap xs) = Inr (Returned r, f', fv_of cap ys)"
    then obtain f' where f': "m (Some n, fv_of cap xs) = Inr (Returned r, f', fv_of cap ys)" by blast
    from vec_action_fuse [OF k, of f'] f' show ?thesis
      by (auto simp: act_bind_apply)
  next
    assume "\<exists>zs. length zs \<le> cap \<and> m (Some n, fv_of cap xs) = Inr (Threw, None, fv_of cap zs)"
    then show ?thesis by (auto simp: act_bind_apply)
  qed
qed

lemmas vec_action_rules = vec_action_return vec_action_caller vec_action_read vec_action_update vec_action_bind

end
