(* ===== verification/Priority_queue_spec.thy ===== *)
theory Priority_queue_spec
  imports Priority_queue Heap_lists Vector_actions
begin

text \<open>
  What \<^verbatim>\<open>fixed_priority_queue\<close> promises: against a multiset of elements when nothing
  throws, and that it is left empty and usable when the comparator or an element
  move throws at any point.
\<close>

section \<open>The loops on lists\<close>

lemma pq_store_of:
  "i < length xs \<Longrightarrow> length xs \<le> cap \<Longrightarrow> pq_store h i x (fv_of cap xs) = Inr (fv_of cap (xs[i := x]))"
  by (simp add: pq_store_def)

lemma vec_action_swap_slots:
  assumes "a < length xs" "b < length xs" "length xs \<le> cap"
  shows "vec_action cap (swap_slots h a b) xs () (xs[a := xs ! b, b := xs ! a])"
  unfolding swap_slots_def using assms
  by (auto intro!: vec_action_rules pq_store_of simp: fv_at_of)

lemma vec_action_compare:
  assumes "a < length xs" "b < length xs" "length xs \<le> cap"
  shows "vec_action cap (pq_compare h cmp a b) xs (cmp (xs ! a) (xs ! b)) xs"
  unfolding pq_compare_def using assms
  by (auto intro!: vec_action_rules simp: fv_at_of)

lemma sift_up_unfold:
  "sift_up h cmp index =
     (if index > 0
      then act_bind (pq_compare h cmp (par index) index) (\<lambda>below.
             if \<not> below then act_return ()
             else act_bind (swap_slots h (par index) index) (\<lambda>_. sift_up h cmp (par index)))
      else act_return ())"
  unfolding par_def by (rule ext) (subst sift_up.simps, simp add: Let_def cong: if_cong)

lemma vec_action_sift_up:
  assumes "index < length xs" "length xs \<le> cap"
  shows "vec_action cap (sift_up h cmp index) xs () (up_list cmp index xs)"
  using assms
proof (induction index arbitrary: xs rule: less_induct)
  case (less index)
  show ?case
  proof (cases "0 < index")
    case True
    then have p: "par index < index" by (rule par_less)
    have cmp: "vec_action cap (pq_compare h cmp (par index) index) xs (cmp (xs ! par index) (xs ! index)) xs"
      using p less.prems by (intro vec_action_compare) auto
    show ?thesis
    proof (cases "cmp (xs ! par index) (xs ! index)")
      case below: True
      let ?ys = "xs[par index := xs ! index, index := xs ! par index]"
      have "vec_action cap (swap_slots h (par index) index) xs () ?ys"
        using p less.prems by (intro vec_action_swap_slots) auto
      moreover have "vec_action cap (sift_up h cmp (par index)) ?ys () (up_list cmp (par index) ?ys)"
        using less.IH [OF p, of ?ys] p less.prems by simp
      moreover have "up_list cmp index xs = up_list cmp (par index) ?ys"
        using True below by (subst up_list.simps) simp
      ultimately show ?thesis
        using True below
        by (subst sift_up_unfold) (auto intro!: vec_action_bind [OF cmp] elim: vec_action_bind)
    next
      case False
      then have "up_list cmp index xs = xs" by (subst up_list.simps) simp
      then show ?thesis
        using True False less.prems
        by (subst sift_up_unfold) (auto intro!: vec_action_bind [OF cmp] vec_action_return)
    qed
  next
    case False
    then have "up_list cmp index xs = xs" by (subst up_list.simps) simp
    then show ?thesis using False less.prems by (subst sift_up_unfold) (auto intro!: vec_action_return)
  qed
qed

lemma sift_down_unfold:
  "sift_down h cmp len index =
     (if 2 * index + 1 \<ge> len then act_return ()
      else act_bind (if 2 * index + 2 < len then pq_compare h cmp (2 * index + 1) (2 * index + 2) else act_return False)
             (\<lambda>better. act_bind (pq_compare h cmp index (if better then 2 * index + 2 else 2 * index + 1)) (\<lambda>below.
                if \<not> below then act_return ()
                else act_bind (swap_slots h index (if better then 2 * index + 2 else 2 * index + 1))
                       (\<lambda>_. sift_down h cmp len (if better then 2 * index + 2 else 2 * index + 1)))))"
  by (rule ext) (subst sift_down.simps, simp add: Let_def cong: if_cong)

lemma vec_action_sift_down:
  assumes "length xs \<le> cap"
  shows "vec_action cap (sift_down h cmp (length xs) index) xs () (down_list cmp (length xs) index xs)"
  using assms
proof (induction "length xs - index" arbitrary: index xs rule: less_induct)
  case less
  let ?b = "best_child cmp (length xs) index xs"
  show ?case
  proof (cases "2 * index + 1 < length xs")
    case True
    let ?better = "2 * index + 2 < length xs \<and> cmp (xs ! (2 * index + 1)) (xs ! (2 * index + 2))"
    have b: "?b < length xs" "index < ?b" "index < length xs"
      using best_child [of cmp "length xs" index xs] True by auto
    have pick: "vec_action cap (if 2 * index + 2 < length xs
        then pq_compare h cmp (2 * index + 1) (2 * index + 2) else act_return False) xs ?better xs"
      using True less.prems vec_action_compare [of "2 * index + 1" xs "2 * index + 2" cap h cmp]
      by (auto intro: vec_action_return)
    have b_eq: "(if ?better then 2 * index + 2 else 2 * index + 1) = ?b" by (simp add: best_child_def)
    have cmp: "vec_action cap (pq_compare h cmp index ?b) xs (cmp (xs ! index) (xs ! ?b)) xs"
      using b less.prems by (intro vec_action_compare) auto
    let ?rest = "\<lambda>below. if \<not> below then act_return ()
      else act_bind (swap_slots h index ?b) (\<lambda>_. sift_down h cmp (length xs) ?b)"
    have "vec_action cap (?rest (cmp (xs ! index) (xs ! ?b))) xs () (down_list cmp (length xs) index xs)"
    proof (cases "cmp (xs ! index) (xs ! ?b)")
      case below: True
      let ?ys = "xs[index := xs ! ?b, ?b := xs ! index]"
      have swap: "vec_action cap (swap_slots h index ?b) xs () ?ys"
        using b less.prems by (intro vec_action_swap_slots) auto
      have "vec_action cap (sift_down h cmp (length ?ys) ?b) ?ys () (down_list cmp (length ?ys) ?b ?ys)"
        by (rule less.hyps) (use b less.prems in auto)
      moreover have "down_list cmp (length xs) index xs = down_list cmp (length xs) ?b ?ys"
        using True below by (subst down_list.simps) (simp add: Let_def)
      ultimately show ?thesis using below vec_action_bind [OF swap] by simp
    next
      case False
      then have "down_list cmp (length xs) index xs = xs" by (subst down_list.simps) (simp add: Let_def)
      then show ?thesis using False less.prems by (simp add: vec_action_return)
    qed
    then have rest: "vec_action cap (act_bind (pq_compare h cmp index ?b) ?rest) xs () (down_list cmp (length xs) index xs)"
      by (rule vec_action_bind [OF cmp])
    have "\<not> length xs \<le> 2 * index + 1" using True by simp
    note unfolded = sift_down_unfold [of h cmp "length xs" index, unfolded if_not_P [OF this]]
    show ?thesis
      unfolding unfolded by (rule vec_action_bind [OF pick]) (unfold b_eq, rule rest)
  next
    case False
    then have "down_list cmp (length xs) index xs = xs" by (subst down_list.simps) (simp add: Let_def)
    then show ?thesis using False less.prems by (subst sift_down_unfold) (auto intro!: vec_action_return)
  qed
qed

primrec heapify_list :: "('a \<Rightarrow> 'a \<Rightarrow> bool) \<Rightarrow> nat \<Rightarrow> 'a list \<Rightarrow> 'a list" where
  "heapify_list cmp 0 xs = xs"
| "heapify_list cmp (Suc i) xs = heapify_list cmp i (down_list cmp (length xs) i xs)"

lemma heapify_list_mset: "mset (heapify_list cmp i xs) = mset xs"
  by (induction i arbitrary: xs) simp_all

lemma heapify_list_length [simp]: "length (heapify_list cmp i xs) = length xs"
  by (metis heapify_list_mset size_mset)

lemma vec_action_heapify_from:
  "length xs \<le> cap \<Longrightarrow> vec_action cap (heapify_from h cmp (length xs) i) xs () (heapify_list cmp i xs)"
proof (induction i arbitrary: xs)
  case 0
  then show ?case by (simp add: vec_action_return)
next
  case (Suc i)
  let ?ys = "down_list cmp (length xs) i xs"
  have "vec_action cap (heapify_from h cmp (length ?ys) i) ?ys () (heapify_list cmp i ?ys)"
    by (rule Suc.IH) (use Suc.prems in simp)
  then show ?case
    using vec_action_bind [OF vec_action_sift_down [OF Suc.prems, of h cmp i]] by simp
qed

context strict_weak_order
begin

lemma heapify_list_heap: "heap_from lt i xs \<Longrightarrow> heap_from lt 0 (heapify_list lt i xs)"
  by (induction i arbitrary: xs) (simp_all add: heap_from_down)

end

section \<open>Queues\<close>

definition pq_of :: "nat \<Rightarrow> ('a \<Rightarrow> 'a \<Rightarrow> bool) \<Rightarrow> 'a list \<Rightarrow> 'a priority_queue" where
  "pq_of cap lt xs = \<lparr>pq_storage = fv_of cap xs, pq_comp = lt\<rparr>"

lemma pq_of_simps [simp]:
  "pq_storage (pq_of cap lt xs) = fv_of cap xs" "pq_comp (pq_of cap lt xs) = lt"
  "(pq_of cap lt xs)\<lparr>pq_storage := fv_of cap ys\<rparr> = pq_of cap lt ys"
  by (simp_all add: pq_of_def)

lemma pq_empty_of: "pq_empty cap lt = pq_of cap lt []"
  by (simp add: pq_empty_def pq_of_def fv_empty_of)

text \<open>A guarded step completes, or throws and leaves the queue empty.\<close>

definition completes_or_clears ::
  "(fuse \<Rightarrow> ('r call \<times> 'a priority_queue) outcome) \<Rightarrow> nat \<Rightarrow> ('a \<Rightarrow> 'a \<Rightarrow> bool) \<Rightarrow> 'r \<Rightarrow> 'a list \<Rightarrow> bool" where
  "completes_or_clears m cap lt r ys \<longleftrightarrow>
     m None = Inr (Returned r, pq_of cap lt ys) \<and>
     (\<forall>f. m f = Inr (Returned r, pq_of cap lt ys) \<or> m f = Inr (Threw, pq_of cap lt []))"

lemma keep_heap_or_clear_of:
  assumes "vec_action cap m xs r ys"
  shows "completes_or_clears (\<lambda>f. keep_heap_or_clear m f (pq_of cap lt xs)) cap lt r ys"
proof -
  have "keep_heap_or_clear m f (pq_of cap lt xs) = Inr (Returned r, pq_of cap lt ys) \<or>
      keep_heap_or_clear m f (pq_of cap lt xs) = Inr (Threw, pq_of cap lt [])" for f
    using vec_action_fuse [OF assms, of f] by (auto simp: keep_heap_or_clear_def)
  then show ?thesis
    using assms by (simp add: completes_or_clears_def keep_heap_or_clear_def vec_action_def)
qed

lemma completes_or_clears_bind:
  assumes "completes_or_clears m cap lt r ys"
  shows "completes_or_clears (\<lambda>f. bnd (m f) (\<lambda>(res, q). case res of Threw \<Rightarrow> Inr (Threw, q) | Returned _ \<Rightarrow> Inr (Returned r', q)))
    cap lt r' ys"
  unfolding completes_or_clears_def
proof (intro conjI allI)
  show "bnd (m None) (\<lambda>(res, q). case res of Threw \<Rightarrow> Inr (Threw, q) | Returned _ \<Rightarrow> Inr (Returned r', q)) =
      Inr (Returned r', pq_of cap lt ys)"
    using assms by (simp add: completes_or_clears_def)
  fix f
  have "m f = Inr (Returned r, pq_of cap lt ys) \<or> m f = Inr (Threw, pq_of cap lt [])"
    using assms by (simp add: completes_or_clears_def)
  then show "bnd (m f) (\<lambda>(res, q). case res of Threw \<Rightarrow> Inr (Threw, q) | Returned _ \<Rightarrow> Inr (Returned r', q)) =
      Inr (Returned r', pq_of cap lt ys) \<or>
      bnd (m f) (\<lambda>(res, q). case res of Threw \<Rightarrow> Inr (Threw, q) | Returned _ \<Rightarrow> Inr (Returned r', q)) =
      Inr (Threw, pq_of cap lt [])"
    by auto
qed

lemma pq_try_emplace_of:
  assumes "length xs < cap"
  shows "completes_or_clears (\<lambda>f. pq_try_emplace h cap f (Builds x) (pq_of cap lt xs)) cap lt
    True (up_list lt (length xs) (xs @ [x]))"
proof -
  have "vec_action cap (sift_up h lt (length xs)) (xs @ [x]) () (up_list lt (length xs) (xs @ [x]))"
    using assms by (intro vec_action_sift_up) auto
  from completes_or_clears_bind [OF keep_heap_or_clear_of [OF this, of lt], of True] show ?thesis
    using assms by (simp add: pq_try_emplace_def fv_try_emplace_back_of)
qed

lemma pq_emplace_of:
  assumes "length xs < cap"
  shows "completes_or_clears (\<lambda>f. pq_emplace h cap f (Builds x) (pq_of cap lt xs)) cap lt
    () (up_list lt (length xs) (xs @ [x]))"
proof -
  have "vec_action cap (sift_up h lt (length xs)) (xs @ [x]) () (up_list lt (length xs) (xs @ [x]))"
    using assms by (intro vec_action_sift_up) auto
  from keep_heap_or_clear_of [OF this, of lt] show ?thesis
    using assms by (simp add: pq_emplace_def size_pred_def)
qed

text \<open>The elements after \<^verbatim>\<open>pop\<close> has moved the last one to the root.\<close>

definition pop_list :: "'a list \<Rightarrow> 'a list" where
  "pop_list xs = (if length xs = 1 then [] else butlast (xs[0 := last xs]))"

lemma length_pop_list [simp]: "xs \<noteq> [] \<Longrightarrow> length (pop_list xs) = length xs - 1"
  by (cases xs) (auto simp: pop_list_def)

lemma vec_action_cong:
  "(\<And>f. m (f, fv_of cap xs) = m' (f, fv_of cap xs)) \<Longrightarrow> vec_action cap m' xs r ys \<Longrightarrow> vec_action cap m xs r ys"
  by (simp add: vec_action_def)

lemma vec_action_pop_step:
  assumes "xs \<noteq> []" "length xs \<le> cap"
  shows "vec_action cap (pq_pop_step h lt) xs () (down_list lt (length (pop_list xs)) 0 (pop_list xs))"
proof -
  let ?l = "length xs - 1" and ?ys = "if length xs - 1 \<noteq> 0 then xs[0 := last xs] else xs"
  let ?first = "if ?l \<noteq> 0
                then act_bind (act_read (\<lambda>v. fv_at h v ?l)) (\<lambda>x.
                     act_bind caller_code (\<lambda>_. act_update (pq_store h 0 x)))
                else act_return ()"
  let ?last = "\<lambda>s1. if fv_size (snd s1) \<noteq> 0 then sift_down h lt (fv_size (snd s1)) 0 s1 else act_return () s1"
  have len: "0 < length xs" "?l < length xs" using assms by auto
  have "fv_at h (fv_of cap xs) ?l = Inr (last xs)"
    using assms len by (simp add: last_conv_nth)
  then have first: "vec_action cap ?first xs () ?ys"
    using assms len
    by (auto intro!: vec_action_bind [OF vec_action_read] vec_action_bind [OF vec_action_caller]
        vec_action_update vec_action_return pq_store_of)
  have "pop_list xs = butlast ?ys"
    using assms(1) by (cases xs rule: rev_cases) (auto simp: pop_list_def)
  moreover have "?ys \<noteq> []" "length ?ys \<le> cap" using assms by auto
  ultimately have pop: "vec_action cap (act_update fv_pop_back) ?ys () (pop_list xs)"
    by (intro vec_action_update) (simp_all add: fv_pop_back_of)
  have last: "vec_action cap ?last (pop_list xs) () (down_list lt (length (pop_list xs)) 0 (pop_list xs))"
  proof (rule vec_action_cong)
    show "vec_action cap (sift_down h lt (length (pop_list xs)) 0) (pop_list xs) ()
        (down_list lt (length (pop_list xs)) 0 (pop_list xs))"
      using assms by (intro vec_action_sift_down) (simp add: diff_le_self le_trans [OF diff_le_self])
    show "?last (f, fv_of cap (pop_list xs)) = sift_down h lt (length (pop_list xs)) 0 (f, fv_of cap (pop_list xs))" for f
      by (auto simp: sift_down_unfold [of h lt 0])
  qed
  show ?thesis
  proof (rule vec_action_cong)
    show "vec_action cap (act_bind ?first (\<lambda>_. act_bind (act_update fv_pop_back) (\<lambda>_. ?last))) xs ()
        (down_list lt (length (pop_list xs)) 0 (pop_list xs))"
      by (rule vec_action_bind [OF first], rule vec_action_bind [OF pop], rule last)
    show "pq_pop_step h lt (f, fv_of cap xs) =
        act_bind ?first (\<lambda>_. act_bind (act_update fv_pop_back) (\<lambda>_. ?last)) (f, fv_of cap xs)" for f
      by (simp add: pq_pop_step_def Let_def)
  qed
qed

lemma pq_pop_of:
  assumes "xs \<noteq> []" "length xs \<le> cap"
  shows "completes_or_clears (\<lambda>f. pq_pop h f (pq_of cap lt xs)) cap lt
    () (down_list lt (length (pop_list xs)) 0 (pop_list xs))"
  using keep_heap_or_clear_of [OF vec_action_pop_step [OF assms, of h lt], of lt] assms
  by (simp add: pq_pop_def)

lemma pq_compact_unfold:
  "pq_compact h p before read write =
     (if read < before
      then act_bind (act_read (\<lambda>v. fv_at h v read)) (\<lambda>x.
           act_bind caller_code (\<lambda>_.
             if \<not> p x
             then act_bind (if write \<noteq> read
                            then act_bind caller_code (\<lambda>_. act_update (pq_store h write x))
                            else act_return ()) (\<lambda>_. pq_compact h p before (read + 1) (write + 1))
             else pq_compact h p before (read + 1) write))
      else act_return write)"
  by (rule ext) (subst pq_compact.simps, simp cong: if_cong)

lemma vec_action_compact:
  assumes "length xs \<le> cap" "length ys = length xs" "read \<le> length xs" "drop read ys = drop read xs"
    and "take (length (filter (\<lambda>x. \<not> p x) (take read xs))) ys = filter (\<lambda>x. \<not> p x) (take read xs)"
  shows "\<exists>zs. vec_action cap (pq_compact h p (length xs) read (length (filter (\<lambda>x. \<not> p x) (take read xs)))) ys
      (length (filter (\<lambda>x. \<not> p x) xs)) zs \<and> length zs = length xs \<and>
      take (length (filter (\<lambda>x. \<not> p x) xs)) zs = filter (\<lambda>x. \<not> p x) xs"
  using assms
proof (induction "length xs - read" arbitrary: read ys)
  case 0
  then have "read = length xs" by simp
  with 0 show ?case
    by (intro exI [of _ ys]) (simp add: pq_compact_unfold [of h p "length xs" "length xs"] vec_action_return)
next
  case (Suc d)
  let ?w = "length (filter (\<lambda>x. \<not> p x) (take read xs))"
  have k: "read < length xs" and d: "d = length xs - Suc read" using Suc.hyps(2) by simp_all
  have wk: "?w \<le> read" using length_filter_le [of "\<lambda>x. \<not> p x" "take read xs"] by simp
  have here: "ys ! read = xs ! read" "drop (Suc read) ys = drop (Suc read) xs"
    using Suc.prems(2,4) k by (metis Cons_nth_drop_Suc nth_via_drop, metis Cons_nth_drop_Suc list.inject)
  have at: "vec_action cap (act_read (\<lambda>v. fv_at h v read)) ys (xs ! read) ys"
    using Suc.prems k here by (intro vec_action_read) simp_all
  have call: "vec_action cap caller_code ys () ys" using Suc.prems by (intro vec_action_caller) simp
  show ?case
  proof (cases "p (xs ! read)")
    case True
    then have "filter (\<lambda>x. \<not> p x) (take (Suc read) xs) = filter (\<lambda>x. \<not> p x) (take read xs)"
      using k by (simp add: take_Suc_conv_app_nth)
    then obtain zs where zs: "vec_action cap (pq_compact h p (length xs) (Suc read) ?w) ys
        (length (filter (\<lambda>x. \<not> p x) xs)) zs" "length zs = length xs"
        "take (length (filter (\<lambda>x. \<not> p x) xs)) zs = filter (\<lambda>x. \<not> p x) xs"
      using Suc.hyps(1) [of "Suc read" ys] d Suc.prems here k by auto
    show ?thesis
      using zs True k
      by (intro exI [of _ zs])
        (subst pq_compact_unfold, auto intro!: vec_action_bind [OF at] vec_action_bind [OF call])
  next
    case False
    define zs where "zs = (if ?w \<noteq> read then ys[?w := xs ! read] else ys)"
    have kept: "filter (\<lambda>x. \<not> p x) (take (Suc read) xs) = filter (\<lambda>x. \<not> p x) (take read xs) @ [xs ! read]"
      using k False by (simp add: take_Suc_conv_app_nth)
    have w: "?w < length ys" using wk k Suc.prems(2) by simp
    have "take (Suc ?w) zs = filter (\<lambda>x. \<not> p x) (take read xs) @ [xs ! read]"
      using w wk k Suc.prems(2,5) here by (auto simp: zs_def take_Suc_conv_app_nth)
    moreover have "drop (Suc read) zs = drop (Suc read) xs" using here wk by (auto simp: zs_def)
    moreover have "length zs = length xs" using Suc.prems(2) by (simp add: zs_def)
    ultimately obtain us where us: "vec_action cap (pq_compact h p (length xs) (Suc read) (Suc ?w)) zs
        (length (filter (\<lambda>x. \<not> p x) xs)) us" "length us = length xs"
        "take (length (filter (\<lambda>x. \<not> p x) xs)) us = filter (\<lambda>x. \<not> p x) xs"
      using Suc.hyps(1) [of "Suc read" zs] d Suc.prems kept k by auto
    have move: "vec_action cap (if ?w \<noteq> read
        then act_bind caller_code (\<lambda>_. act_update (pq_store h ?w (xs ! read))) else act_return ()) ys () zs"
      using w Suc.prems unfolding zs_def
      by (auto intro!: vec_action_bind [OF call] vec_action_update vec_action_return pq_store_of)
    have "vec_action cap (act_bind (if ?w \<noteq> read
        then act_bind caller_code (\<lambda>_. act_update (pq_store h ?w (xs ! read))) else act_return ())
        (\<lambda>_. pq_compact h p (length xs) (read + 1) (?w + 1))) ys (length (filter (\<lambda>x. \<not> p x) xs)) us"
      by (rule vec_action_bind [OF move]) (use us(1) in simp)
    then have "vec_action cap (pq_compact h p (length xs) read ?w) ys (length (filter (\<lambda>x. \<not> p x) xs)) us"
      by (subst pq_compact_unfold)
        (simp only: k if_True, rule vec_action_bind [OF at], rule vec_action_bind [OF call], simp add: False)
    with us(2,3) show ?thesis by blast
  qed
qed

lemma vec_action_heapify:
  assumes "length xs \<le> cap"
  shows "vec_action cap (heapify h lt) xs () (heapify_list lt (length xs div 2) xs)"
  using vec_action_heapify_from [OF assms, of h lt "length xs div 2"]
  by (rule vec_action_cong [rotated]) (simp add: heapify_def)

lemma pq_erase_if_of:
  assumes "length xs \<le> cap"
  shows "completes_or_clears (\<lambda>f. pq_erase_if h f p (pq_of cap lt xs)) cap lt
    (length (filter p xs)) (heapify_list lt (length (filter (\<lambda>x. \<not> p x) xs) div 2) (filter (\<lambda>x. \<not> p x) xs))"
proof -
  let ?ks = "filter (\<lambda>x. \<not> p x) xs"
  obtain zs where zs: "vec_action cap (pq_compact h p (length xs) 0 0) xs (length ?ks) zs"
    "length zs = length xs" "take (length ?ks) zs = ?ks"
    using vec_action_compact [OF assms, of xs 0 p h] by auto
  have "fv_shrink_to (length ?ks) (fv_of cap zs) = Inr (fv_of cap ?ks)"
    using zs assms by (simp add: fv_shrink_to_of)
  moreover have len: "length ?ks \<le> cap" using assms length_filter_le [of "\<lambda>x. \<not> p x" xs] by linarith
  ultimately have shrink: "vec_action cap (act_update (fv_shrink_to (length ?ks))) zs () ?ks"
    by (intro vec_action_update)
  have "length xs - length ?ks = length (filter p xs)" using sum_length_filter_compl [of p xs] by simp
  moreover have "length (heapify_list lt (length ?ks div 2) ?ks) \<le> cap"
    using len by (metis heapify_list_mset size_mset)
  ultimately have fin: "vec_action cap (act_return (length xs - length ?ks))
      (heapify_list lt (length ?ks div 2) ?ks) (length (filter p xs)) (heapify_list lt (length ?ks div 2) ?ks)"
    using vec_action_return by metis
  have "vec_action cap (act_bind (pq_compact h p (length xs) 0 0) (\<lambda>write.
         act_bind (act_update (fv_shrink_to write)) (\<lambda>_.
         act_bind (heapify h lt) (\<lambda>_. act_return (length xs - write))))) xs
      (length (filter p xs)) (heapify_list lt (length ?ks div 2) ?ks)"
    by (rule vec_action_bind [OF zs(1)], rule vec_action_bind [OF shrink],
        rule vec_action_bind [OF vec_action_heapify [OF len]], rule fin)
  from keep_heap_or_clear_of [OF this, of lt] show ?thesis by (simp add: pq_erase_if_def Let_def)
qed

section \<open>The heap order\<close>

context strict_weak_order
begin

lemma push_heap: "heap_from lt 0 xs \<Longrightarrow> heap_from lt 0 (up_list lt (length xs) (xs @ [x]))"
proof (rule up_list_heap)
  assume heap: "heap_from lt 0 xs"
  have "\<not> lt ((xs @ [x]) ! par j) ((xs @ [x]) ! j)" if "j < length xs" "0 < j" for j
    using heap that par_less [of j] by (simp add: heap_from_def nth_append)
  moreover have "par j \<noteq> length xs" if "j < Suc (length xs)" "0 < j" for j
    using par_less [of j] that by simp
  ultimately show "up_inv lt (length xs) (xs @ [x])"
    by (auto simp: up_inv_def less_Suc_eq)
qed simp

lemma pop_heap:
  assumes "heap_from lt 0 xs" "xs \<noteq> []"
  shows "heap_from lt 0 (down_list lt (length (pop_list xs)) 0 (pop_list xs))"
proof (rule heap_from_down)
  have same: "pop_list xs ! j = xs ! j" if "0 < j" "j < length xs - 1" for j
    using that by (auto simp: pop_list_def nth_butlast)
  have "\<not> lt (pop_list xs ! par j) (pop_list xs ! j)" if j: "j < length xs - 1" "0 < j" "Suc 0 \<le> par j" for j
  proof -
    have "0 < par j" "par j < length xs - 1" using par_less [OF j(2)] j by auto
    then show ?thesis using assms j same by (simp add: heap_from_def)
  qed
  then show "heap_from lt (Suc 0) (pop_list xs)"
    using assms(2) by (simp add: heap_from_def)
qed

lemma erase_heap: "heap_from lt 0 (heapify_list lt (length xs div 2) xs)"
  by (rule heapify_list_heap) (rule heap_from_half)

end

lemma mset_pop_list: "xs \<noteq> [] \<Longrightarrow> mset (pop_list xs) = mset xs - {#xs ! 0#}"
proof (cases xs rule: rev_cases)
  case (snoc ys y)
  then show ?thesis by (cases ys) (auto simp: pop_list_def)
qed simp

section \<open>Properties\<close>

text \<open>A queue holds a multiset: its array is a heap of those elements.\<close>

definition pq_holds :: "nat \<Rightarrow> ('a \<Rightarrow> 'a \<Rightarrow> bool) \<Rightarrow> 'a priority_queue \<Rightarrow> 'a multiset \<Rightarrow> bool" where
  "pq_holds cap lt q M \<longleftrightarrow>
     (\<exists>xs. q = pq_of cap lt xs \<and> length xs \<le> cap \<and> heap_from lt 0 xs \<and> mset xs = M)"

lemma pq_holds_empty: "pq_holds cap lt (pq_of cap lt []) {#}"
  by (auto simp: pq_holds_def heap_from_def intro!: exI [of _ "[]"])

definition effect ::
  "(fuse \<Rightarrow> ('r call \<times> 'a priority_queue) outcome) \<Rightarrow> nat \<Rightarrow> ('a \<Rightarrow> 'a \<Rightarrow> bool) \<Rightarrow> 'r \<Rightarrow> 'a multiset \<Rightarrow> bool" where
  "effect m cap lt r M \<longleftrightarrow>
     (\<exists>q. m None = Inr (Returned r, q) \<and> pq_holds cap lt q M) \<and>
     (\<forall>f. (\<exists>q. m f = Inr (Returned r, q) \<and> pq_holds cap lt q M) \<or>
          (\<exists>q. m f = Inr (Threw, q) \<and> pq_holds cap lt q {#}))"

lemma effectI:
  assumes "completes_or_clears m cap lt r ys" "length ys \<le> cap" "heap_from lt 0 ys" "mset ys = M"
  shows "effect m cap lt r M"
proof -
  have "pq_holds cap lt (pq_of cap lt ys) M" using assms by (auto simp: pq_holds_def)
  then show ?thesis
    using assms(1) pq_holds_empty [of cap lt] unfolding effect_def completes_or_clears_def by metis
qed

lemma pq_effects:
  assumes "strict_weak_order lt" "length xs \<le> cap" "heap_from lt 0 xs"
  shows "length xs < cap \<Longrightarrow>
      effect (\<lambda>f. pq_try_emplace h cap f (Builds x) (pq_of cap lt xs)) cap lt True (add_mset x (mset xs))"
    and "length xs < cap \<Longrightarrow>
      effect (\<lambda>f. pq_emplace h cap f (Builds x) (pq_of cap lt xs)) cap lt () (add_mset x (mset xs))"
    and "xs \<noteq> [] \<Longrightarrow>
      effect (\<lambda>f. pq_pop h f (pq_of cap lt xs)) cap lt () (mset xs - {#xs ! 0#})"
    and "effect (\<lambda>f. pq_erase_if h f p (pq_of cap lt xs)) cap lt
      (size (filter_mset p (mset xs))) (filter_mset (\<lambda>x. \<not> p x) (mset xs))"
proof -
  note heap = strict_weak_order.push_heap [OF assms(1,3)] strict_weak_order.pop_heap [OF assms(1,3)]
    strict_weak_order.erase_heap [OF assms(1)]
  show "effect (\<lambda>f. pq_try_emplace h cap f (Builds x) (pq_of cap lt xs)) cap lt True (add_mset x (mset xs))"
    if "length xs < cap"
    by (rule effectI [OF pq_try_emplace_of [OF that]]) (use that heap in simp_all)
  show "effect (\<lambda>f. pq_emplace h cap f (Builds x) (pq_of cap lt xs)) cap lt () (add_mset x (mset xs))"
    if "length xs < cap"
    by (rule effectI [OF pq_emplace_of [OF that]]) (use that heap in simp_all)
  show "effect (\<lambda>f. pq_pop h f (pq_of cap lt xs)) cap lt () (mset xs - {#xs ! 0#})" if "xs \<noteq> []"
    by (rule effectI [OF pq_pop_of [OF that assms(2)]])
      (use that heap assms(2) in \<open>simp_all add: mset_pop_list\<close>)
  have "length (heapify_list lt (length (filter (\<lambda>x. \<not> p x) xs) div 2) (filter (\<lambda>x. \<not> p x) xs)) \<le> cap"
    using order_trans [OF length_filter_le assms(2)] by simp
  moreover have "length (filter p xs) = size (filter_mset p (mset xs))"
    by (metis mset_filter size_mset)
  ultimately show "effect (\<lambda>f. pq_erase_if h f p (pq_of cap lt xs)) cap lt
      (size (filter_mset p (mset xs))) (filter_mset (\<lambda>x. \<not> p x) (mset xs))"
    using effectI [OF pq_erase_if_of [OF assms(2), of h p lt]] heap(3) by (simp add: heapify_list_mset)
qed

lemma pq_refusals:
  assumes "length xs \<le> cap"
  shows "length xs = cap \<Longrightarrow> pq_try_emplace h cap f c (pq_of cap lt xs) = Inr (Returned False, pq_of cap lt xs)"
    and "length xs < cap \<Longrightarrow> pq_try_emplace h cap f Throws (pq_of cap lt xs) = Inr (Threw, pq_of cap lt xs)"
    and "pq_pop h f (pq_of cap lt []) = Inl Check_failed"
  using assms by (simp_all add: pq_try_emplace_def fv_try_emplace_back_of pq_pop_def)

lemma pq_top_pop:
  assumes "strict_weak_order lt" "pq_holds cap lt q M" "M \<noteq> {#}"
  shows "\<exists>x. pq_top h q = Inr x \<and> x \<in># M \<and> (\<forall>y. y \<in># M \<longrightarrow> \<not> lt x y) \<and>
    effect (\<lambda>f. pq_pop h f q) cap lt () (M - {#x#})"
proof -
  obtain xs where xs: "q = pq_of cap lt xs" "length xs \<le> cap" "heap_from lt 0 xs" "mset xs = M"
    using assms(2) by (auto simp: pq_holds_def)
  then have ne: "xs \<noteq> []" using assms(3) by auto
  have "pq_top h q = Inr (xs ! 0)" using ne xs(1,2) by (simp add: pq_top_def hd_conv_nth)
  moreover have "xs ! 0 \<in># M" using ne xs(4) by auto
  moreover have "\<not> lt (xs ! 0) y" if "y \<in># M" for y
    using strict_weak_order.heap_top [OF assms(1) xs(3)] that xs(4) by (auto simp: in_set_conv_nth)
  moreover have "effect (\<lambda>f. pq_pop h f q) cap lt () (M - {#xs ! 0#})"
    using pq_effects(3) [OF assms(1) xs(2,3) ne, of h] xs(1,4) by simp
  ultimately show ?thesis by blast
qed

text \<open>
  C16: For every strict weak ordering, \<^verbatim>\<open>fixed_priority_queue\<close> is a bounded multiset
  with access to a greatest element: \<^verbatim>\<open>top\<close> returns one, \<^verbatim>\<open>pop\<close> removes that one,
  \<^verbatim>\<open>try_emplace\<close> adds unless the queue is full, \<^verbatim>\<open>erase_if\<close> removes exactly the matching
  elements and counts them, \<^verbatim>\<open>swap\<close> exchanges two queues, and \<^verbatim>\<open>pop\<close> on an empty queue
  stops the program.
\<close>

theorem priority_queue_refines_multiset:
  assumes "strict_weak_order lt" "pq_holds cap lt q M" "pq_holds cap lt q2 M2"
  shows "(M \<noteq> {#} \<longrightarrow> (\<exists>x q'. pq_top h q = Inr x \<and> x \<in># M \<and> (\<forall>y. y \<in># M \<longrightarrow> \<not> lt x y) \<and>
            pq_pop h None q = Inr (Returned (), q') \<and> pq_holds cap lt q' (M - {#x#}))) \<and>
     (M = {#} \<longrightarrow> pq_pop h None q = Inl Check_failed) \<and>
     (size M = cap \<longrightarrow> pq_try_emplace h cap None (Builds x) q = Inr (Returned False, q)) \<and>
     (size M < cap \<longrightarrow> (\<exists>q'. pq_try_emplace h cap None (Builds x) q = Inr (Returned True, q') \<and>
            pq_holds cap lt q' (add_mset x M))) \<and>
     (\<exists>q'. pq_erase_if h None p q = Inr (Returned (size (filter_mset p M)), q') \<and>
            pq_holds cap lt q' (filter_mset (\<lambda>x. \<not> p x) M)) \<and>
     pq_swap q q2 = Inr (q2, q) \<and> pq_holds cap lt (pq_empty cap lt) {#}"
proof -
  obtain xs where xs: "q = pq_of cap lt xs" "length xs \<le> cap" "heap_from lt 0 xs" "mset xs = M"
    using assms(2) by (auto simp: pq_holds_def)
  obtain ys where ys: "q2 = pq_of cap lt ys" "length ys \<le> cap" using assms(3) by (auto simp: pq_holds_def)
  have M: "M = {#} \<longleftrightarrow> xs = []" "size M = length xs" using xs(4) by auto
  note eff = pq_effects [OF assms(1) xs(2,3)]
  have "\<exists>x q'. pq_top h q = Inr x \<and> x \<in># M \<and> (\<forall>y. y \<in># M \<longrightarrow> \<not> lt x y) \<and>
      pq_pop h None q = Inr (Returned (), q') \<and> pq_holds cap lt q' (M - {#x#})" if "M \<noteq> {#}"
    using pq_top_pop [OF assms(1,2) that, of h] unfolding effect_def by blast
  moreover have "pq_swap q q2 = Inr (q2, q)"
    using xs(1,2) ys by (simp add: pq_swap_def fv_swap_of pq_of_def)
  moreover have "\<exists>q'. pq_try_emplace h cap None (Builds x) q = Inr (Returned True, q') \<and>
            pq_holds cap lt q' (add_mset x M)" if "size M < cap"
    using eff(1) [of h x] that M(2) xs(1,4) by (simp add: effect_def)
  moreover have "\<exists>q'. pq_erase_if h None p q = Inr (Returned (size (filter_mset p M)), q') \<and>
            pq_holds cap lt q' (filter_mset (\<lambda>x. \<not> p x) M)"
    using eff(4) [of h p] xs(1,4) by (simp add: effect_def)
  ultimately show ?thesis
    using M pq_refusals [OF xs(2)] xs(1) pq_holds_empty [of cap lt] by (auto simp: pq_empty_of)
qed

lemma pq_example: "pq_holds 3 std_less (pq_of 3 std_less [7, 2, 5 :: nat]) {#7, 2, 5#}"
proof -
  have "heap_from std_less 0 [7, 2, 5 :: nat]"
    by (auto simp: heap_from_def par_def std_less_def nth_Cons' less_Suc_eq numeral_3_eq_3)
  then show ?thesis by (auto simp: pq_holds_def intro!: exI [of _ "[7, 2, 5]"])
qed

theorem priority_queue_refines_multiset_witness:
  "pq_top METL_HARDENING_NONE (pq_of 3 std_less [7, 2, 5 :: nat]) = Inr 7 \<and>
   (\<exists>q'. pq_pop METL_HARDENING_NONE None (pq_of 3 std_less [7, 2, 5 :: nat]) = Inr (Returned (), q') \<and>
      pq_holds 3 std_less q' {#2, 5#})"
proof -
  have top: "pq_top METL_HARDENING_NONE (pq_of 3 std_less [7, 2, 5 :: nat]) = Inr 7"
    by (simp add: pq_top_def)
  show ?thesis
    using priority_queue_refines_multiset [OF std_less.strict_weak_order_axioms pq_example pq_example,
        of METL_HARDENING_NONE 0 "\<lambda>_. False"] top
    by auto
qed

text \<open>
  C17: When the comparator or an element move throws, at whichever call, \<^verbatim>\<open>pop\<close>,
  \<^verbatim>\<open>emplace\<close>, \<^verbatim>\<open>try_emplace\<close> and \<^verbatim>\<open>erase_if\<close> either complete as if nothing could throw or
  let the exception out of a queue that is empty and valid, every element destroyed
  once; a throwing element constructor leaves the queue as it was.
\<close>

theorem priority_queue_exceptions:
  assumes "strict_weak_order lt" "pq_holds cap lt q M"
  shows "(M \<noteq> {#} \<longrightarrow> (\<exists>x. pq_top h q = Inr x \<and>
       (\<exists>q'. pq_pop h f q = Inr (Returned (), q') \<and> pq_holds cap lt q' (M - {#x#}) \<or>
             pq_pop h f q = Inr (Threw, q') \<and> pq_holds cap lt q' {#}))) \<and>
     (size M < cap \<longrightarrow>
       (\<exists>q'. pq_try_emplace h cap f (Builds x) q = Inr (Returned True, q') \<and> pq_holds cap lt q' (add_mset x M) \<or>
             pq_try_emplace h cap f (Builds x) q = Inr (Threw, q') \<and> pq_holds cap lt q' {#}) \<and>
       (\<exists>q'. pq_emplace h cap f (Builds x) q = Inr (Returned (), q') \<and> pq_holds cap lt q' (add_mset x M) \<or>
             pq_emplace h cap f (Builds x) q = Inr (Threw, q') \<and> pq_holds cap lt q' {#}) \<and>
       pq_try_emplace h cap f Throws q = Inr (Threw, q)) \<and>
     (\<exists>q'. pq_erase_if h f p q = Inr (Returned (size (filter_mset p M)), q') \<and>
             pq_holds cap lt q' (filter_mset (\<lambda>x. \<not> p x) M) \<or>
           pq_erase_if h f p q = Inr (Threw, q') \<and> pq_holds cap lt q' {#})"
proof -
  obtain xs where xs: "q = pq_of cap lt xs" "length xs \<le> cap" "heap_from lt 0 xs" "mset xs = M"
    using assms(2) by (auto simp: pq_holds_def)
  have M: "size M = length xs" using xs(4) by auto
  note eff = pq_effects [OF assms(1) xs(2,3)]
  have "\<exists>x. pq_top h q = Inr x \<and>
       (\<exists>q'. pq_pop h f q = Inr (Returned (), q') \<and> pq_holds cap lt q' (M - {#x#}) \<or>
             pq_pop h f q = Inr (Threw, q') \<and> pq_holds cap lt q' {#})" if "M \<noteq> {#}"
    using pq_top_pop [OF assms that, of h] unfolding effect_def by blast
  moreover have "\<exists>q'. pq_try_emplace h cap f (Builds x) q = Inr (Returned True, q') \<and> pq_holds cap lt q' (add_mset x M) \<or>
             pq_try_emplace h cap f (Builds x) q = Inr (Threw, q') \<and> pq_holds cap lt q' {#}" if "size M < cap"
    using eff(1) [of h x] that M xs(1,4) unfolding effect_def by metis
  moreover have "\<exists>q'. pq_emplace h cap f (Builds x) q = Inr (Returned (), q') \<and> pq_holds cap lt q' (add_mset x M) \<or>
             pq_emplace h cap f (Builds x) q = Inr (Threw, q') \<and> pq_holds cap lt q' {#}" if "size M < cap"
    using eff(2) [of h x] that M xs(1,4) unfolding effect_def by metis
  moreover have "\<exists>q'. pq_erase_if h f p q = Inr (Returned (size (filter_mset p M)), q') \<and>
             pq_holds cap lt q' (filter_mset (\<lambda>x. \<not> p x) M) \<or>
           pq_erase_if h f p q = Inr (Threw, q') \<and> pq_holds cap lt q' {#}"
    using eff(4) [of h p] xs(1,4) unfolding effect_def by metis
  moreover have "pq_try_emplace h cap f Throws q = Inr (Threw, q)" if "size M < cap"
    using pq_refusals(2) [OF xs(2), of h f lt] that M xs(1) by simp
  ultimately show ?thesis by blast
qed

text \<open>A client that empties a queue, collecting the tops.\<close>

primrec pq_drain ::
  "hardening \<Rightarrow> nat \<Rightarrow> 'a priority_queue \<Rightarrow> ('a list \<times> 'a priority_queue) outcome" where
  "pq_drain h 0 q = Inr ([], q)"
| "pq_drain h (Suc n) q =
     bnd (pq_top h q) (\<lambda>x. bnd (pq_pop h None q) (\<lambda>(_, q1).
     bnd (pq_drain h n q1) (\<lambda>(xs, q2). Inr (x # xs, q2))))"

text \<open>
  C18: Draining a queue yields all its elements in priority order, greatest first,
  and leaves it empty, whatever order they were pushed in.
\<close>

theorem priority_queue_drains_sorted:
  assumes "strict_weak_order lt" "pq_holds cap lt q M"
  shows "\<exists>xs q'. pq_drain h (size M) q = Inr (xs, q') \<and> mset xs = M \<and>
    sorted_wrt (\<lambda>a b. \<not> lt a b) xs \<and> pq_holds cap lt q' {#}"
  using assms(2)
proof (induction "size M" arbitrary: q M)
  case 0
  then show ?case by (intro exI [of _ "[]"]) auto
next
  case (Suc n)
  then have "M \<noteq> {#}" by auto
  then obtain x where x: "pq_top h q = Inr x" "x \<in># M" "\<And>y. y \<in># M \<Longrightarrow> \<not> lt x y"
    "effect (\<lambda>f. pq_pop h f q) cap lt () (M - {#x#})"
    using pq_top_pop [OF assms(1) Suc.prems, of h] by blast
  then obtain q1 where q1: "pq_pop h None q = Inr (Returned (), q1)" "pq_holds cap lt q1 (M - {#x#})"
    unfolding effect_def by blast
  have n: "n = size (M - {#x#})" using Suc.hyps(2) x(2) by (simp add: size_Diff_singleton)
  then obtain xs q' where xs: "pq_drain h n q1 = Inr (xs, q')" "mset xs = M - {#x#}"
    "sorted_wrt (\<lambda>a b. \<not> lt a b) xs" "pq_holds cap lt q' {#}"
    using Suc.hyps(1) [OF n q1(2)] by auto
  have "\<not> lt x y" if "y \<in> set xs" for y
    using x(3) that xs(2) by (metis in_diffD set_mset_mset)
  moreover have "pq_drain h (Suc n) q = Inr (x # xs, q')" using x(1) q1(1) xs(1) by simp
  moreover have "mset (x # xs) = M" using x(2) xs(2) by simp
  ultimately show ?case
    using xs(3,4) Suc.hyps(2) by (intro exI [of _ "x # xs"] exI [of _ q']) simp
qed

theorem priority_queue_exceptions_witness:
  "\<exists>q'. pq_pop METL_HARDENING_NONE (Some 3) (pq_of 3 std_less [7, 2, 5 :: nat]) = Inr (Returned (), q') \<and>
        pq_holds 3 std_less q' {#2, 5#} \<or>
      pq_pop METL_HARDENING_NONE (Some 3) (pq_of 3 std_less [7, 2, 5 :: nat]) = Inr (Threw, q') \<and>
        pq_holds 3 std_less q' {#}"
proof -
  have "pq_top METL_HARDENING_NONE (pq_of 3 std_less [7, 2, 5 :: nat]) = Inr 7"
    by (simp add: pq_top_def)
  then show ?thesis
    using priority_queue_exceptions [OF std_less.strict_weak_order_axioms pq_example,
        of METL_HARDENING_NONE "Some 3" 0 "\<lambda>_. False"]
    by auto
qed

theorem priority_queue_drains_sorted_witness:
  "\<exists>xs q'. pq_drain METL_HARDENING_FAST 3 (pq_of 3 std_less [7, 2, 5 :: nat]) = Inr (xs, q') \<and>
     mset xs = {#7, 2, 5#} \<and> sorted_wrt (\<lambda>a b. b \<le> a) xs \<and> pq_holds 3 std_less q' {#}"
proof -
  have "(\<lambda>a b :: nat. \<not> std_less a b) = (\<lambda>a b. b \<le> a)" by (auto simp: std_less_def fun_eq_iff)
  moreover have "size {#7, 2, 5 :: nat#} = 3" by simp
  ultimately show ?thesis
    using priority_queue_drains_sorted [OF std_less.strict_weak_order_axioms pq_example, of METL_HARDENING_FAST]
    by metis
qed

end
