(* ===== verification/Flat.thy ===== *)
theory Flat
  imports Throwing Fixed_vector Order
begin

text \<open>
  The sorted array behind \<^verbatim>\<open>flat_map.hpp\<close> and \<^verbatim>\<open>flat_set.hpp\<close>. The two headers hold the
  same code; a map orders its entries by their \<^verbatim>\<open>key\<close> member and a set by the element
  itself, so the definitions take the projection \<open>ky\<close> from an element to its key.
  Element moves may throw (the \<open>fuse\<close>); \<open>assignable\<close> is
  \<^verbatim>\<open>std::is_move_assignable_v<value_type>\<close>. The comparator does not throw.

  A move that throws may already have taken something out of its source: the move of a
  map's \<^verbatim>\<open>value_type\<close> moves the key and then the value, and leaves a moved-from key behind when
  the second of them throws. \<open>husk e\<close> is what such a move leaves of the element \<open>e\<close>; an
  element with the strong guarantee has \<open>husk e = e\<close>. It is written where the source stays in
  the container; inside the \<^verbatim>\<open>try\<close> blocks every slot is destroyed before it is read again.
\<close>

section \<open>State and searching\<close>

record ('e, 'k) flat =
  fl_comp :: "'k \<Rightarrow> 'k \<Rightarrow> bool"
  fl_storage :: "'e slots"
  fl_size :: nat

definition flat_empty :: "nat \<Rightarrow> ('k \<Rightarrow> 'k \<Rightarrow> bool) \<Rightarrow> ('e, 'k) flat" where
  "flat_empty cap cmp = \<lparr>fl_comp = cmp, fl_storage = replicate (fv_slots cap) None, fl_size = 0\<rparr>"

definition flat_nth :: "hardening \<Rightarrow> ('e, 'k) flat \<Rightarrow> nat \<Rightarrow> 'e outcome" where
  "flat_nth h m index = METL_ASSERT h (index < fl_size m) (slot_get (fl_storage m) index)"

function lower_from ::
  "('e \<Rightarrow> 'k) \<Rightarrow> ('e, 'k) flat \<Rightarrow> 'k \<Rightarrow> nat \<Rightarrow> nat \<Rightarrow> nat outcome" where
  "lower_from ky m key first cnt =
     (if cnt > 0
      then let step = cnt div 2; index = first + step in
           bnd (slot_get (fl_storage m) index) (\<lambda>e.
             if fl_comp m (ky e) key then lower_from ky m key (index + 1) (cnt - (step + 1))
             else lower_from ky m key first step)
      else Inr first)"
  by pat_completeness auto
termination
  by (relation "measure (\<lambda>(ky, m, key, first, cnt). cnt)") auto

declare lower_from.simps [simp del]

definition lower_bound_index :: "('e \<Rightarrow> 'k) \<Rightarrow> ('e, 'k) flat \<Rightarrow> 'k \<Rightarrow> nat outcome" where
  "lower_bound_index ky m key = lower_from ky m key 0 (fl_size m)"

function upper_from ::
  "('e \<Rightarrow> 'k) \<Rightarrow> ('e, 'k) flat \<Rightarrow> 'k \<Rightarrow> nat \<Rightarrow> nat \<Rightarrow> nat outcome" where
  "upper_from ky m key first cnt =
     (if cnt > 0
      then let step = cnt div 2; index = first + step in
           bnd (slot_get (fl_storage m) index) (\<lambda>e.
             if \<not> fl_comp m key (ky e) then upper_from ky m key (index + 1) (cnt - (step + 1))
             else upper_from ky m key first step)
      else Inr first)"
  by pat_completeness auto
termination
  by (relation "measure (\<lambda>(ky, m, key, first, cnt). cnt)") auto

declare upper_from.simps [simp del]

definition upper_bound_index :: "('e \<Rightarrow> 'k) \<Rightarrow> ('e, 'k) flat \<Rightarrow> 'k \<Rightarrow> nat outcome" where
  "upper_bound_index ky m key = upper_from ky m key 0 (fl_size m)"

definition upper_bound_index_from :: "('e \<Rightarrow> 'k) \<Rightarrow> ('e, 'k) flat \<Rightarrow> 'k \<Rightarrow> nat \<Rightarrow> nat outcome" where
  "upper_bound_index_from ky m key lo = upper_from ky m key lo (fl_size m - lo)"

definition equal_range :: "('e \<Rightarrow> 'k) \<Rightarrow> ('e, 'k) flat \<Rightarrow> 'k \<Rightarrow> (nat \<times> nat) outcome" where
  "equal_range ky m key =
     bnd (lower_bound_index ky m key) (\<lambda>lo.
     bnd (upper_bound_index_from ky m key lo) (\<lambda>hi. Inr (lo, hi)))"

text \<open>\<^verbatim>\<open>index < size_ && !comp_(key, data()[index].key)\<close>: the slot holds the key.\<close>

definition flat_match :: "('e \<Rightarrow> 'k) \<Rightarrow> ('e, 'k) flat \<Rightarrow> 'k \<Rightarrow> nat \<Rightarrow> bool outcome" where
  "flat_match ky m key index =
     (if index < fl_size m
      then bnd (slot_get (fl_storage m) index) (\<lambda>e. Inr (\<not> fl_comp m key (ky e)))
      else Inr False)"

definition flat_find :: "('e \<Rightarrow> 'k) \<Rightarrow> ('e, 'k) flat \<Rightarrow> 'k \<Rightarrow> 'e option outcome" where
  "flat_find ky m key =
     bnd (lower_bound_index ky m key) (\<lambda>index.
     bnd (flat_match ky m key index) (\<lambda>present.
       if present then bnd (slot_get (fl_storage m) index) (\<lambda>e. Inr (Some e)) else Inr None))"

section \<open>Clearing and relocating\<close>

function flat_shrink_to :: "nat \<Rightarrow> ('e, 'k) flat \<Rightarrow> ('e, 'k) flat outcome" where
  "flat_shrink_to n m =
     (if fl_size m > n
      then let m1 = m\<lparr>fl_size := fl_size m - 1\<rparr> in
           bnd (slot_destroy (fl_storage m1) (fl_size m1)) (\<lambda>st. flat_shrink_to n (m1\<lparr>fl_storage := st\<rparr>))
      else Inr m)"
  by pat_completeness auto
termination
  by (relation "measure (\<lambda>(n, m). fl_size m)") auto

declare flat_shrink_to.simps [simp del]

definition flat_clear :: "('e, 'k) flat \<Rightarrow> ('e, 'k) flat outcome" where
  "flat_clear m = flat_shrink_to 0 m"

text \<open>The handlers destroy every live slot around the dead slot \<open>i\<close>.\<close>

definition destroy_around :: "nat \<Rightarrow> nat \<Rightarrow> 'e slots \<Rightarrow> 'e slots outcome" where
  "destroy_around i n st =
     bnd (for_upto 0 i (\<lambda>j st. slot_destroy st j) st) (\<lambda>st1. for_upto (i + 1) n (\<lambda>j st. slot_destroy st j) st1)"

function shift_right_loop ::
  "nat \<Rightarrow> nat \<Rightarrow> fuse \<Rightarrow> 'e slots \<Rightarrow> (unit call \<times> nat \<times> fuse \<times> 'e slots) outcome" where
  "shift_right_loop i index f st =
     (if i > index
      then bnd (slot_get st (i - 1)) (\<lambda>e.
           case burn f of (threw, f1) \<Rightarrow>
             if threw then Inr (Threw, i, f1, st)
             else bnd (slot_new st i e) (\<lambda>st1.
                  bnd (slot_destroy st1 (i - 1)) (\<lambda>st2. shift_right_loop (i - 1) index f1 st2)))
      else Inr (Returned (), i, f, st))"
  by pat_completeness auto
termination
  by (relation "measure (\<lambda>(i, index, f, st). i)") auto

declare shift_right_loop.simps [simp del]

definition shift_right_from ::
  "nat \<Rightarrow> fuse \<Rightarrow> ('e, 'k) flat \<Rightarrow> (unit call \<times> fuse \<times> ('e, 'k) flat) outcome" where
  "shift_right_from index f m =
     bnd (shift_right_loop (fl_size m) index f (fl_storage m)) (\<lambda>(res, i, f1, st). case res of
         Returned _ \<Rightarrow> Inr (Returned (), f1, m\<lparr>fl_storage := st\<rparr>)
       | Threw \<Rightarrow> bnd (destroy_around i (fl_size m + 1) st)
                   (\<lambda>st1. Inr (Threw, f1, m\<lparr>fl_storage := st1, fl_size := 0\<rparr>)))"

function assign_right_loop :: "nat \<Rightarrow> nat \<Rightarrow> ('e slots, unit) action" where
  "assign_right_loop i index s =
     (if i > index
      then act_bind (act_read (\<lambda>st. slot_get st (i - 1))) (\<lambda>e.
           act_bind caller_code (\<lambda>_.
           act_bind (act_update (\<lambda>st. slot_assign st i e)) (\<lambda>_ s1. assign_right_loop (i - 1) index s1))) s
      else act_return () s)"
  by pat_completeness auto
termination
  by (relation "measure (\<lambda>(i, index, s). i)") auto

declare assign_right_loop.simps [simp del]

definition insert_shifting ::
  "('e \<Rightarrow> 'e) \<Rightarrow> bool \<Rightarrow> nat \<Rightarrow> 'e \<Rightarrow> fuse \<Rightarrow> ('e, 'k) flat \<Rightarrow> (unit call \<times> fuse \<times> ('e, 'k) flat) outcome" where
  "insert_shifting husk assignable index entry f m =
     (if assignable
      then if index = fl_size m
           then case burn f of (threw, f1) \<Rightarrow>
                  if threw then Inr (Threw, f1, m)
                  else bnd (slot_new (fl_storage m) (fl_size m) entry)
                         (\<lambda>st. Inr (Returned (), f1, m\<lparr>fl_storage := st, fl_size := fl_size m + 1\<rparr>))
           else bnd (slot_get (fl_storage m) (fl_size m - 1)) (\<lambda>e.
                case burn f of (threw, f1) \<Rightarrow>
                  if threw
                  then bnd (slot_assign (fl_storage m) (fl_size m - 1) (husk e)) (\<lambda>st. Inr (Threw, f1, m\<lparr>fl_storage := st\<rparr>))
                  else bnd (slot_new (fl_storage m) (fl_size m) e) (\<lambda>st.
                       let m1 = m\<lparr>fl_storage := st, fl_size := fl_size m + 1\<rparr> in
                       bnd (act_bind (assign_right_loop (fl_size m1 - 2) index) (\<lambda>_.
                            act_bind caller_code (\<lambda>_. act_update (\<lambda>st. slot_assign st index entry))) (f1, fl_storage m1))
                         (\<lambda>(res, f2, st1). case res of
                             Returned _ \<Rightarrow> Inr (Returned (), f2, m1\<lparr>fl_storage := st1\<rparr>)
                           | Threw \<Rightarrow> bnd (flat_clear (m1\<lparr>fl_storage := st1\<rparr>)) (\<lambda>m2. Inr (Threw, f2, m2)))))
      else bnd (shift_right_from index f m) (\<lambda>(res, f1, m1). case res of
               Threw \<Rightarrow> Inr (Threw, f1, m1)
             | Returned _ \<Rightarrow> (case burn f1 of (threw, f2) \<Rightarrow>
                 if threw
                 then bnd (destroy_around index (fl_size m1 + 1) (fl_storage m1))
                        (\<lambda>st. Inr (Threw, f2, m1\<lparr>fl_storage := st, fl_size := 0\<rparr>))
                 else bnd (slot_new (fl_storage m1) index entry)
                        (\<lambda>st. Inr (Returned (), f2, m1\<lparr>fl_storage := st, fl_size := fl_size m1 + 1\<rparr>)))))"

definition try_insert_at ::
  "('e \<Rightarrow> 'e) \<Rightarrow> nat \<Rightarrow> bool \<Rightarrow> nat \<Rightarrow> 'e ctor \<Rightarrow> fuse \<Rightarrow> ('e, 'k) flat \<Rightarrow> (bool call \<times> fuse \<times> ('e, 'k) flat) outcome" where
  "try_insert_at husk cap assignable index c f m =
     (if fl_size m = cap then Inr (Returned False, f, m)
      else case c of
          Throws \<Rightarrow> Inr (Threw, f, m)
        | Builds entry \<Rightarrow> bnd (insert_shifting husk assignable index entry f m) (\<lambda>(res, f1, m1). case res of
              Threw \<Rightarrow> Inr (Threw, f1, m1) | Returned _ \<Rightarrow> Inr (Returned True, f1, m1)))"

function close_gap_loop ::
  "nat \<Rightarrow> nat \<Rightarrow> fuse \<Rightarrow> 'e slots \<Rightarrow> (unit call \<times> nat \<times> fuse \<times> 'e slots) outcome" where
  "close_gap_loop i n f st =
     (if i + 1 < n
      then bnd (slot_get st (i + 1)) (\<lambda>e.
           case burn f of (threw, f1) \<Rightarrow>
             if threw then Inr (Threw, i, f1, st)
             else bnd (slot_new st i e) (\<lambda>st1.
                  bnd (slot_destroy st1 (i + 1)) (\<lambda>st2. close_gap_loop (i + 1) n f1 st2)))
      else Inr (Returned (), i, f, st))"
  by pat_completeness auto
termination
  by (relation "measure (\<lambda>(i, n, f, st). n - i)") auto

declare close_gap_loop.simps [simp del]

definition erase_at ::
  "('e \<Rightarrow> 'e) \<Rightarrow> nat \<Rightarrow> fuse \<Rightarrow> ('e, 'k) flat \<Rightarrow> (unit call \<times> fuse \<times> ('e, 'k) flat) outcome" where
  "erase_at husk index f m =
     bnd (slot_get (fl_storage m) index) (\<lambda>leaving.
     case burn f of (threw, f1) \<Rightarrow>
       if threw
       then bnd (slot_assign (fl_storage m) index (husk leaving)) (\<lambda>st. Inr (Threw, f1, m\<lparr>fl_storage := st\<rparr>))
       else bnd (slot_destroy (fl_storage m) index) (\<lambda>st.
            bnd (close_gap_loop index (fl_size m) f1 st) (\<lambda>(res, i, f2, st1). case res of
                Returned _ \<Rightarrow> Inr (Returned (), f2, m\<lparr>fl_storage := st1, fl_size := fl_size m - 1\<rparr>)
              | Threw \<Rightarrow> bnd (destroy_around i (fl_size m) st1)
                          (\<lambda>st2. Inr (Threw, f2, m\<lparr>fl_storage := st2, fl_size := 0\<rparr>)))))"

section \<open>Public operations\<close>

text \<open>
  The new element arrives as the outcome \<open>c\<close> of its construction; references are
  returned as indices.
\<close>

definition flat_try_emplace ::
  "('e \<Rightarrow> 'k) \<Rightarrow> ('e \<Rightarrow> 'e) \<Rightarrow> nat \<Rightarrow> bool \<Rightarrow> 'k \<Rightarrow> 'e ctor \<Rightarrow> fuse \<Rightarrow> ('e, 'k) flat \<Rightarrow> (bool call \<times> fuse \<times> ('e, 'k) flat) outcome" where
  "flat_try_emplace ky husk cap assignable key c f m =
     bnd (lower_bound_index ky m key) (\<lambda>index.
     bnd (flat_match ky m key index) (\<lambda>present.
       if present then Inr (Returned False, f, m) else try_insert_at husk cap assignable index c f m))"

definition flat_emplace ::
  "('e \<Rightarrow> 'k) \<Rightarrow> ('e \<Rightarrow> 'e) \<Rightarrow> nat \<Rightarrow> bool \<Rightarrow> 'k \<Rightarrow> 'e ctor \<Rightarrow> fuse \<Rightarrow> ('e, 'k) flat \<Rightarrow> (nat call \<times> fuse \<times> ('e, 'k) flat) outcome" where
  "flat_emplace ky husk cap assignable key c f m =
     bnd (lower_bound_index ky m key) (\<lambda>index.
     bnd (flat_match ky m key index) (\<lambda>present.
       METL_HARDEN (\<not> present)
         (bnd (try_insert_at husk cap assignable index c f m) (\<lambda>(res, f1, m1). case res of
             Threw \<Rightarrow> Inr (Threw, f1, m1)
           | Returned inserted \<Rightarrow> METL_HARDEN inserted (Inr (Returned index, f1, m1))))))"

definition flat_erase ::
  "('e \<Rightarrow> 'k) \<Rightarrow> ('e \<Rightarrow> 'e) \<Rightarrow> 'k \<Rightarrow> fuse \<Rightarrow> ('e, 'k) flat \<Rightarrow> (bool call \<times> fuse \<times> ('e, 'k) flat) outcome" where
  "flat_erase ky husk key f m =
     bnd (lower_bound_index ky m key) (\<lambda>index.
     bnd (flat_match ky m key index) (\<lambda>present.
       if \<not> present then Inr (Returned False, f, m)
       else bnd (erase_at husk index f m) (\<lambda>(res, f1, m1). case res of
              Threw \<Rightarrow> Inr (Threw, f1, m1) | Returned _ \<Rightarrow> Inr (Returned True, f1, m1))))"

text \<open>An iterator arrives as its distance in bytes from \<^verbatim>\<open>data()\<close>, as a \<^verbatim>\<open>std::uintptr_t\<close>.\<close>

definition position_index :: "nat \<Rightarrow> nat \<Rightarrow> ('e, 'k) flat \<Rightarrow> nat outcome" where
  "position_index sizeof offset m =
     METL_HARDEN (offset < fl_size m * sizeof)
       (METL_HARDEN (offset mod sizeof = 0) (Inr (offset div sizeof)))"

definition flat_erase_pos ::
  "('e \<Rightarrow> 'e) \<Rightarrow> nat \<Rightarrow> nat \<Rightarrow> fuse \<Rightarrow> ('e, 'k) flat \<Rightarrow> (nat call \<times> fuse \<times> ('e, 'k) flat) outcome" where
  "flat_erase_pos husk sizeof offset f m =
     bnd (position_index sizeof offset m) (\<lambda>index.
     bnd (erase_at husk index f m) (\<lambda>(res, f1, m1). case res of
         Threw \<Rightarrow> Inr (Threw, f1, m1)
       | Returned _ \<Rightarrow> Inr (Returned (if index < fl_size m1 then index else fl_size m1), f1, m1)))"

section \<open>Whole containers\<close>

definition flat_append_from :: "('e, 'k) flat \<Rightarrow> ('e, 'k) flat \<Rightarrow> ('e, 'k) flat outcome" where
  "flat_append_from other m =
     for_upto 0 (fl_size other) (\<lambda>i m.
       bnd (slot_get (fl_storage other) i) (\<lambda>item.
       bnd (slot_new (fl_storage m) (fl_size m) item) (\<lambda>st.
         Inr (m\<lparr>fl_storage := st, fl_size := fl_size m + 1\<rparr>)))) m"

definition flat_copy :: "nat \<Rightarrow> ('e, 'k) flat \<Rightarrow> ('e, 'k) flat outcome" where
  "flat_copy cap other = flat_append_from other (flat_empty cap (fl_comp other))"

text \<open>The comparator is moved too; \<open>gone\<close> is what its move leaves behind.\<close>

definition flat_move ::
  "nat \<Rightarrow> ('k \<Rightarrow> 'k \<Rightarrow> bool) \<Rightarrow> ('e, 'k) flat \<Rightarrow> (('e, 'k) flat \<times> ('e, 'k) flat) outcome" where
  "flat_move cap gone other =
     bnd (flat_append_from other (flat_empty cap (fl_comp other))) (\<lambda>m.
     bnd (flat_clear (other\<lparr>fl_comp := gone\<rparr>)) (\<lambda>other1. Inr (m, other1)))"

definition flat_copy_assign :: "('e, 'k) flat \<Rightarrow> ('e, 'k) flat \<Rightarrow> ('e, 'k) flat outcome" where
  "flat_copy_assign m other =
     bnd (flat_clear m) (\<lambda>m1. flat_append_from other (m1\<lparr>fl_comp := fl_comp other\<rparr>))"

definition flat_move_assign ::
  "('k \<Rightarrow> 'k \<Rightarrow> bool) \<Rightarrow> ('e, 'k) flat \<Rightarrow> ('e, 'k) flat \<Rightarrow> (('e, 'k) flat \<times> ('e, 'k) flat) outcome" where
  "flat_move_assign gone m other =
     bnd (flat_clear m) (\<lambda>m1.
     bnd (flat_append_from other (m1\<lparr>fl_comp := fl_comp other\<rparr>)) (\<lambda>m2.
     bnd (flat_clear (other\<lparr>fl_comp := gone\<rparr>)) (\<lambda>other1. Inr (m2, other1))))"

text \<open>
  \<^verbatim>\<open>swap_contents\<close> exchanges the comparators and then the elements by the loops that
  \<^verbatim>\<open>fixed_vector\<close> has: the common prefix slot by slot, the longer tail moved across.
\<close>

definition flat_swap :: "('e, 'k) flat \<Rightarrow> ('e, 'k) flat \<Rightarrow> (('e, 'k) flat \<times> ('e, 'k) flat) outcome" where
  "flat_swap a b =
     bnd (fv_swap \<lparr>fv_storage = fl_storage a, fv_size = fl_size a\<rparr> \<lparr>fv_storage = fl_storage b, fv_size = fl_size b\<rparr>)
       (\<lambda>(va, vb). Inr (\<lparr>fl_comp = fl_comp b, fl_storage = fv_storage va, fl_size = fv_size va\<rparr>,
                    \<lparr>fl_comp = fl_comp a, fl_storage = fv_storage vb, fl_size = fv_size vb\<rparr>))"

function flat_eq_from :: "('e \<Rightarrow> 'e \<Rightarrow> bool) \<Rightarrow> nat \<Rightarrow> ('e, 'k) flat \<Rightarrow> ('e, 'k) flat \<Rightarrow> bool outcome" where
  "flat_eq_from eq i lhs rhs =
     (if i < fl_size lhs
      then bnd (slot_get (fl_storage lhs) i) (\<lambda>x. bnd (slot_get (fl_storage rhs) i) (\<lambda>y.
             if \<not> eq x y then Inr False else flat_eq_from eq (i + 1) lhs rhs))
      else Inr True)"
  by pat_completeness auto
termination
  by (relation "measure (\<lambda>(eq, i, lhs, rhs). fl_size lhs - i)") auto

declare flat_eq_from.simps [simp del]

definition flat_eq :: "('e \<Rightarrow> 'e \<Rightarrow> bool) \<Rightarrow> ('e, 'k) flat \<Rightarrow> ('e, 'k) flat \<Rightarrow> bool outcome" where
  "flat_eq eq lhs rhs = (if fl_size lhs \<noteq> fl_size rhs then Inr False else flat_eq_from eq 0 lhs rhs)"

text \<open>
  \<^verbatim>\<open>operator<\<close> decides at the first pair of elements that \<open>decide\<close> tells apart: a set asks
  \<^verbatim>\<open><\<close> both ways, a map asks it of the keys and then of the values.
\<close>

function flat_less_from ::
  "('e \<Rightarrow> 'e \<Rightarrow> bool option) \<Rightarrow> nat \<Rightarrow> nat \<Rightarrow> ('e, 'k) flat \<Rightarrow> ('e, 'k) flat \<Rightarrow> bool outcome" where
  "flat_less_from decide i n lhs rhs =
     (if i < n
      then bnd (slot_get (fl_storage lhs) i) (\<lambda>x. bnd (slot_get (fl_storage rhs) i) (\<lambda>y.
             case decide x y of Some b \<Rightarrow> Inr b | None \<Rightarrow> flat_less_from decide (i + 1) n lhs rhs))
      else Inr (fl_size lhs < fl_size rhs))"
  by pat_completeness auto
termination
  by (relation "measure (\<lambda>(decide, i, n, lhs, rhs). n - i)") auto

declare flat_less_from.simps [simp del]

definition flat_less :: "('e \<Rightarrow> 'e \<Rightarrow> bool option) \<Rightarrow> ('e, 'k) flat \<Rightarrow> ('e, 'k) flat \<Rightarrow> bool outcome" where
  "flat_less decide lhs rhs =
     flat_less_from decide 0 (if fl_size lhs < fl_size rhs then fl_size lhs else fl_size rhs) lhs rhs"

definition decide_set :: "('e \<Rightarrow> 'e \<Rightarrow> bool) \<Rightarrow> 'e \<Rightarrow> 'e \<Rightarrow> bool option" where
  "decide_set lt x y = (if lt x y then Some True else if lt y x then Some False else None)"

definition decide_map ::
  "('k \<Rightarrow> 'k \<Rightarrow> bool) \<Rightarrow> ('v \<Rightarrow> 'v \<Rightarrow> bool) \<Rightarrow> 'k \<times> 'v \<Rightarrow> 'k \<times> 'v \<Rightarrow> bool option" where
  "decide_map ltk ltv x y =
     (if ltk (fst x) (fst y) then Some True
      else if ltk (fst y) (fst x) then Some False
      else if ltv (snd x) (snd y) then Some True
      else if ltv (snd y) (snd x) then Some False
      else None)"

lemma erase_at_size:
  "erase_at husk index f m = Inr (Returned (), f', m') \<Longrightarrow> fl_size m' = fl_size m - 1"
  by (cases "fst (burn f)") (auto simp: erase_at_def case_prod_beta bnd_eq_Inr split: call.splits, metis call.exhaust old.unit.exhaust)

text \<open>The loop of \<^verbatim>\<open>erase_if\<close>, the iterator as an index; the predicate does not throw.\<close>

function flat_erase_if_from ::
  "('e \<Rightarrow> 'e) \<Rightarrow> ('e \<Rightarrow> bool) \<Rightarrow> nat \<Rightarrow> nat \<Rightarrow> fuse \<Rightarrow> ('e, 'k) flat \<Rightarrow> (nat call \<times> fuse \<times> ('e, 'k) flat) outcome" where
  "flat_erase_if_from husk pred i erased f m =
     (if i < fl_size m
      then bnd (slot_get (fl_storage m) i) (\<lambda>e.
           if pred e
           then bnd (erase_at husk i f m) (\<lambda>p. case p of
                  (Threw, f1, m1) \<Rightarrow> Inr (Threw, f1, m1)
                | (Returned _, f1, m1) \<Rightarrow>
                    flat_erase_if_from husk pred (if i < fl_size m1 then i else fl_size m1) (erased + 1) f1 m1)
           else flat_erase_if_from husk pred (i + 1) erased f m)
      else Inr (Returned erased, f, m))"
  by pat_completeness auto
termination
  by (relation "measure (\<lambda>(husk, pred, i, erased, f, m). fl_size m - i)") (auto dest: erase_at_size)

declare flat_erase_if_from.simps [simp del]

definition flat_erase_if ::
  "('e \<Rightarrow> 'e) \<Rightarrow> ('e \<Rightarrow> bool) \<Rightarrow> fuse \<Rightarrow> ('e, 'k) flat \<Rightarrow> (nat call \<times> fuse \<times> ('e, 'k) flat) outcome" where
  "flat_erase_if husk pred f m = flat_erase_if_from husk pred 0 0 f m"

end
