(* ===== verification/Flat_correct.thy ===== *)
theory Flat_correct
  imports Flat
begin

text \<open>
  The sorted array does what it should: binary search finds the partition point of
  a sorted list, insertion and erasure shift correctly by either kind of
  relocation, and a move that throws in the middle leaves the elements as they
  were or an empty container, never a slot destroyed twice or leaked.
\<close>

definition fl_of :: "nat \<Rightarrow> ('k \<Rightarrow> 'k \<Rightarrow> bool) \<Rightarrow> 'e list \<Rightarrow> ('e, 'k) flat" where
  "fl_of cap cmp xs = \<lparr>fl_comp = cmp, fl_storage = packed (fv_slots cap) xs, fl_size = length xs\<rparr>"

lemma fl_of_simps [simp]:
  "fl_comp (fl_of cap cmp xs) = cmp" "fl_size (fl_of cap cmp xs) = length xs"
  "fl_storage (fl_of cap cmp xs) = packed (fv_slots cap) xs"
  by (simp_all add: fl_of_def)

lemma fl_updateI:
  "st = packed (fv_slots cap) ys \<Longrightarrow> n = length ys \<Longrightarrow> (fl_of cap cmp xs)\<lparr>fl_storage := st, fl_size := n\<rparr> = fl_of cap cmp ys"
  "st = packed (fv_slots cap) ys \<Longrightarrow> n = length ys \<Longrightarrow> (fl_of cap cmp xs)\<lparr>fl_size := n, fl_storage := st\<rparr> = fl_of cap cmp ys"
  by (simp_all add: fl_of_def)

lemma flat_empty_of: "flat_empty cap cmp = fl_of cap cmp []"
  by (simp add: flat_empty_def fl_of_def packed_Nil)

section \<open>Searching\<close>

lemma partition_point:
  assumes "sorted_wrt (\<lambda>a b. P b \<longrightarrow> P a) xs" "i < length xs"
  shows "P (xs ! i) \<longleftrightarrow> i < length (takeWhile P xs)"
  using assms
proof (induction xs arbitrary: i)
  case (Cons x xs)
  show ?case
  proof (cases i)
    case 0
    then show ?thesis by simp
  next
    case (Suc j)
    have "P (xs ! j) \<longrightarrow> P x" using Cons.prems Suc nth_mem [of j xs] by auto
    then show ?thesis using Cons Suc by auto
  qed
qed simp

lemma lower_from_of:
  assumes "length xs \<le> cap"
    and "\<And>i. i < length xs \<Longrightarrow> cmp (ky (xs ! i)) key \<longleftrightarrow> i < b"
    and "first \<le> b" "b \<le> first + cnt" "first + cnt \<le> length xs"
  shows "lower_from ky (fl_of cap cmp xs) key first cnt = Inr b"
  using assms(3-5)
proof (induction cnt arbitrary: first rule: less_induct)
  case (less cnt)
  show ?case
  proof (cases "cnt = 0")
    case True
    then show ?thesis using less.prems by (subst lower_from.simps) simp
  next
    case False
    let ?i = "first + cnt div 2"
    have i: "?i < length xs" "cnt div 2 < cnt" using False less.prems(3) by auto
    have get: "slot_get (fl_storage (fl_of cap cmp xs)) ?i = Inr (xs ! ?i)" using i assms(1) by simp
    show ?thesis
    proof (cases "cmp (ky (xs ! ?i)) key")
      case True
      then have "?i < b" using assms(2) i by simp
      then have "lower_from ky (fl_of cap cmp xs) key (?i + 1) (cnt - (cnt div 2 + 1)) = Inr b"
        using False less.prems by (intro less.IH) auto
      then show ?thesis
        using False get True by (subst lower_from.simps) (simp add: Let_def)
    next
      case below: False
      then have "\<not> ?i < b" using assms(2) i by simp
      then have "lower_from ky (fl_of cap cmp xs) key first (cnt div 2) = Inr b"
        using i less.prems by (intro less.IH) auto
      then show ?thesis
        using False get below by (subst lower_from.simps) (simp add: Let_def)
    qed
  qed
qed

lemma upper_from_of:
  assumes "length xs \<le> cap"
    and "\<And>i. i < length xs \<Longrightarrow> \<not> cmp key (ky (xs ! i)) \<longleftrightarrow> i < b"
    and "first \<le> b" "b \<le> first + cnt" "first + cnt \<le> length xs"
  shows "upper_from ky (fl_of cap cmp xs) key first cnt = Inr b"
  using assms(3-5)
proof (induction cnt arbitrary: first rule: less_induct)
  case (less cnt)
  show ?case
  proof (cases "cnt = 0")
    case True
    then show ?thesis using less.prems by (subst upper_from.simps) simp
  next
    case False
    let ?i = "first + cnt div 2"
    have i: "?i < length xs" "cnt div 2 < cnt" using False less.prems(3) by auto
    have get: "slot_get (fl_storage (fl_of cap cmp xs)) ?i = Inr (xs ! ?i)" using i assms(1) by simp
    show ?thesis
    proof (cases "\<not> cmp key (ky (xs ! ?i))")
      case True
      then have "?i < b" using assms(2) i by simp
      then have "upper_from ky (fl_of cap cmp xs) key (?i + 1) (cnt - (cnt div 2 + 1)) = Inr b"
        using False less.prems by (intro less.IH) auto
      then show ?thesis
        using False get True by (subst upper_from.simps) (simp add: Let_def)
    next
      case below: False
      then have "\<not> ?i < b" using assms(2) i by simp
      then have "upper_from ky (fl_of cap cmp xs) key first (cnt div 2) = Inr b"
        using i less.prems by (intro less.IH) auto
      then show ?thesis
        using False get below by (subst upper_from.simps) (simp add: Let_def)
    qed
  qed
qed

definition flat_sorted :: "('k \<Rightarrow> 'k \<Rightarrow> bool) \<Rightarrow> ('e \<Rightarrow> 'k) \<Rightarrow> 'e list \<Rightarrow> bool" where
  "flat_sorted lt ky xs \<longleftrightarrow> sorted_wrt (\<lambda>a b. lt (ky a) (ky b)) xs"

definition lower :: "('k \<Rightarrow> 'k \<Rightarrow> bool) \<Rightarrow> ('e \<Rightarrow> 'k) \<Rightarrow> 'k \<Rightarrow> 'e list \<Rightarrow> nat" where
  "lower lt ky key xs = length (takeWhile (\<lambda>e. lt (ky e) key) xs)"

definition upper :: "('k \<Rightarrow> 'k \<Rightarrow> bool) \<Rightarrow> ('e \<Rightarrow> 'k) \<Rightarrow> 'k \<Rightarrow> 'e list \<Rightarrow> nat" where
  "upper lt ky key xs = length (takeWhile (\<lambda>e. \<not> lt key (ky e)) xs)"

definition holds_key :: "('k \<Rightarrow> 'k \<Rightarrow> bool) \<Rightarrow> ('e \<Rightarrow> 'k) \<Rightarrow> 'k \<Rightarrow> 'e list \<Rightarrow> bool" where
  "holds_key lt ky key xs \<longleftrightarrow> (\<exists>e \<in> set xs. \<not> lt (ky e) key \<and> \<not> lt key (ky e))"

lemma lower_bound [simp]: "lower lt ky key xs \<le> length xs"
  by (simp add: lower_def length_takeWhile_le)

lemma upper_bound [simp]: "upper lt ky key xs \<le> length xs"
  by (simp add: upper_def length_takeWhile_le)

context strict_weak_order
begin

lemma below_lower:
  assumes "flat_sorted lt ky xs" "i < length xs"
  shows "lt (ky (xs ! i)) key \<longleftrightarrow> i < lower lt ky key xs"
  unfolding lower_def
proof (rule partition_point)
  show "sorted_wrt (\<lambda>a b. lt (ky b) key \<longrightarrow> lt (ky a) key) xs"
    using assms(1) unfolding flat_sorted_def by (rule sorted_wrt_mono_rel [rotated]) (blast intro: trans)
qed (fact assms(2))

lemma below_upper:
  assumes "flat_sorted lt ky xs" "i < length xs"
  shows "\<not> lt key (ky (xs ! i)) \<longleftrightarrow> i < upper lt ky key xs"
  unfolding upper_def
proof (rule partition_point)
  show "sorted_wrt (\<lambda>a b. \<not> lt key (ky b) \<longrightarrow> \<not> lt key (ky a)) xs"
    using assms(1) unfolding flat_sorted_def by (rule sorted_wrt_mono_rel [rotated]) (blast intro: trans)
qed (fact assms(2))

lemma lower_le_upper:
  assumes "flat_sorted lt ky xs"
  shows "lower lt ky key xs \<le> upper lt ky key xs"
proof (rule ccontr)
  assume less: "\<not> ?thesis"
  then have "upper lt ky key xs < length xs" using lower_bound [of lt ky key xs] by linarith
  with less show False
    using below_lower [OF assms, of "upper lt ky key xs" key] below_upper [OF assms, of "upper lt ky key xs" key]
    asym by auto
qed

lemma lower_bound_index_of:
  assumes "flat_sorted lt ky xs" "length xs \<le> cap"
  shows "lower_bound_index ky (fl_of cap lt xs) key = Inr (lower lt ky key xs)"
  using assms below_lower [OF assms(1), of _ key]
  by (auto simp: lower_bound_index_def intro!: lower_from_of)

lemma upper_bound_index_of:
  assumes "flat_sorted lt ky xs" "length xs \<le> cap"
  shows "upper_bound_index ky (fl_of cap lt xs) key = Inr (upper lt ky key xs)"
  using assms below_upper [OF assms(1), of _ key]
  by (auto simp: upper_bound_index_def intro!: upper_from_of)

lemma equal_range_of:
  assumes "flat_sorted lt ky xs" "length xs \<le> cap"
  shows "equal_range ky (fl_of cap lt xs) key = Inr (lower lt ky key xs, upper lt ky key xs)"
proof -
  have "upper_from ky (fl_of cap lt xs) key (lower lt ky key xs) (length xs - lower lt ky key xs) =
      Inr (upper lt ky key xs)"
    using assms below_upper [OF assms(1), of _ key] lower_le_upper [OF assms(1), of key]
    by (intro upper_from_of) (auto simp: lower_bound)
  then show ?thesis
    using lower_bound_index_of [OF assms, of key]
    by (simp add: equal_range_def upper_bound_index_from_def)
qed

text \<open>The key is present exactly when the element at the lower bound has it.\<close>

lemma flat_match_of:
  assumes "flat_sorted lt ky xs" "length xs \<le> cap"
  shows "flat_match ky (fl_of cap lt xs) key (lower lt ky key xs) = Inr (holds_key lt ky key xs)"
proof -
  let ?i = "lower lt ky key xs"
  have "holds_key lt ky key xs \<longleftrightarrow> ?i < length xs \<and> \<not> lt key (ky (xs ! ?i))"
  proof
    assume "holds_key lt ky key xs"
    then obtain j where j: "j < length xs" "equiv (ky (xs ! j)) key"
      unfolding holds_key_def by (auto simp: in_set_conv_nth equiv_def)
    then have "?i \<le> j" using below_lower [OF assms(1) j(1), of key] by (auto simp: equiv_def)
    then have i: "?i < length xs" using j(1) by simp
    moreover have "\<not> lt key (ky (xs ! ?i))"
      using below_upper [OF assms(1) j(1), of key] below_upper [OF assms(1) i, of key] j(2) \<open>?i \<le> j\<close>
      by (auto simp: equiv_def)
    ultimately show "?i < length xs \<and> \<not> lt key (ky (xs ! ?i))" ..
  next
    assume i: "?i < length xs \<and> \<not> lt key (ky (xs ! ?i))"
    then show "holds_key lt ky key xs"
      using below_lower [OF assms(1), of ?i key] unfolding holds_key_def equiv_def by (auto intro!: bexI [of _ "xs ! ?i"])
  qed
  then show ?thesis using assms(2) by (simp add: flat_match_def)
qed

end

section \<open>Relocating\<close>

lemma destroy_around_gap:
  assumes "i \<le> length xs" "length xs < n"
  shows "destroy_around i (length xs + 1) (gap n xs i) = Inr (packed n [])"
proof -
  have live: "live (gap n xs i) = {..length xs} - {i}" and len: "length (gap n xs i) = n"
    using assms by (simp_all add: live_gap)
  have "{0..<i} \<subseteq> live (gap n xs i)" unfolding live using assms(1) by auto
  from destroy_range [OF this] obtain s1 where s1: "for_upto 0 i (\<lambda>j st. slot_destroy st j) (gap n xs i) = Inr s1"
    "length s1 = length (gap n xs i)" "live s1 = live (gap n xs i) - {0..<i}" by blast
  have "{i + 1..<length xs + 1} \<subseteq> live s1" unfolding s1(3) live using assms(1) by auto
  from destroy_range [OF this] obtain s2 where s2:
    "for_upto (i + 1) (length xs + 1) (\<lambda>j st. slot_destroy st j) s1 = Inr s2"
    "length s2 = length s1" "live s2 = live s1 - {i + 1..<length xs + 1}" using assms(1) by force
  have "live s2 = {}" unfolding s2(3) s1(3) live by auto
  moreover have "length s2 = n" unfolding s2(2) s1(2) by (fact len)
  ultimately have "s2 = packed n []" by (intro no_live_packed)
  then show ?thesis using s1(1) s2(1) by (simp add: destroy_around_def)
qed

lemma shift_right_loop_gap:
  assumes "index \<le> i" "i \<le> length xs" "length xs < n"
  shows "(\<exists>f'. shift_right_loop i index f (gap n xs i) = Inr (Returned (), index, f', gap n xs index) \<and> (f = None \<longrightarrow> f' = None)) \<or>
    (f \<noteq> None \<and> (\<exists>f' j. shift_right_loop i index f (gap n xs i) = Inr (Threw, j, f', gap n xs j) \<and> j \<le> length xs))"
  using assms
proof (induction i arbitrary: f)
  case 0
  then show ?case by (subst (1 2) shift_right_loop.simps) simp
next
  case (Suc i)
  show ?case
  proof (cases "Suc i = index")
    case True
    then show ?thesis by (subst (1 2) shift_right_loop.simps) simp
  next
    case False
    then have i: "index < Suc i" using Suc.prems by simp
    obtain t f1 where b: "burn f = (t, f1)" by force
    have get: "slot_get (gap n xs (Suc i)) i = Inr (xs ! i)"
      using gap_get_left [of "Suc i" xs n] Suc.prems by simp
    have move: "bnd (slot_new (gap n xs (Suc i)) (Suc i) (xs ! i)) (\<lambda>st. slot_destroy st i) = Inr (gap n xs i)"
      using gap_move_left [of "Suc i" xs n] Suc.prems by simp
    have step: "shift_right_loop (Suc i) index f (gap n xs (Suc i)) =
        (if t then Inr (Threw, Suc i, f1, gap n xs (Suc i)) else shift_right_loop i index f1 (gap n xs i))"
      using i get b move
      by (subst shift_right_loop.simps, cases "slot_new (gap n xs (Suc i)) (Suc i) (xs ! i)") auto
    show ?thesis
    proof (cases t)
      case True
      then have "f \<noteq> None" using b by (cases f) auto
      then show ?thesis using step True Suc.prems by auto
    next
      case False
      then have "f1 = None" if "f = None" using b that by simp
      moreover have "f \<noteq> None" if "f1 \<noteq> None" using b that by (cases f) auto
      ultimately show ?thesis using Suc.IH [of f1] Suc.prems i False step by auto
    qed
  qed
qed

lemma close_gap_loop_gap:
  assumes "i \<le> length xs" "length xs < n"
  shows "(\<exists>f'. close_gap_loop i (length xs + 1) f (gap n xs i) = Inr (Returned (), length xs, f', packed n xs) \<and> (f = None \<longrightarrow> f' = None)) \<or>
    (f \<noteq> None \<and> (\<exists>f' j. close_gap_loop i (length xs + 1) f (gap n xs i) = Inr (Threw, j, f', gap n xs j) \<and> j \<le> length xs))"
  using assms(1)
proof (induction "length xs - i" arbitrary: i f)
  case 0
  then have "i = length xs" by simp
  then show ?case using assms(2) by (subst (1 2) close_gap_loop.simps) (simp add: gap_last)
next
  case (Suc d)
  then have i: "i < length xs" by simp
  obtain t f1 where b: "burn f = (t, f1)" by force
  have move: "bnd (slot_new (gap n xs i) i (xs ! i)) (\<lambda>st. slot_destroy st (i + 1)) = Inr (gap n xs (i + 1))"
    using gap_move_right [of i xs n] i assms(2) .
  have step: "close_gap_loop i (length xs + 1) f (gap n xs i) =
      (if t then Inr (Threw, i, f1, gap n xs i) else close_gap_loop (i + 1) (length xs + 1) f1 (gap n xs (i + 1)))"
    using i gap_get_right [OF i assms(2)] b move
    by (subst close_gap_loop.simps, cases "slot_new (gap n xs i) i (xs ! i)") auto
  show ?case
  proof (cases t)
    case True
    then have "f \<noteq> None" using b by (cases f) auto
    then show ?thesis using step True i by auto
  next
    case False
    then have "f1 = None" if "f = None" using b that by simp
    moreover have "f \<noteq> None" if "f1 \<noteq> None" using b that by (cases f) auto
    moreover have "d = length xs - (i + 1)" using Suc.hyps(2) by simp
    ultimately show ?thesis using Suc.hyps(1) [of "i + 1" f1] i False step by auto
  qed
qed

text \<open>
  What the shifting operations do: without a throw they complete, and an
  exception leaves the elements \<open>torn\<close> or none at all. \<open>torn\<close> is what the one move outside
  a \<^verbatim>\<open>try\<close> block leaves: the old elements, with the husk of the source of that move.
\<close>

definition completes_or_clears ::
  "(fuse \<Rightarrow> ('e, 'k) flat \<Rightarrow> ('r call \<times> fuse \<times> ('e, 'k) flat) outcome) \<Rightarrow> nat \<Rightarrow> ('k \<Rightarrow> 'k \<Rightarrow> bool) \<Rightarrow>
     'e list \<Rightarrow> 'r \<Rightarrow> 'e list \<Rightarrow> 'e list \<Rightarrow> bool" where
  "completes_or_clears act cap cmp xs r ys torn \<longleftrightarrow> (\<forall>f.
     (\<exists>f'. act f (fl_of cap cmp xs) = Inr (Returned r, f', fl_of cap cmp ys) \<and> (f = None \<longrightarrow> f' = None)) \<or>
     f \<noteq> None \<and> (\<exists>f'. act f (fl_of cap cmp xs) = Inr (Threw, f', fl_of cap cmp torn) \<or>
                    act f (fl_of cap cmp xs) = Inr (Threw, f', fl_of cap cmp [])))"

lemma completes_no_throw:
  "completes_or_clears act cap cmp xs r ys torn \<Longrightarrow> act None (fl_of cap cmp xs) = Inr (Returned r, None, fl_of cap cmp ys)"
  unfolding completes_or_clears_def by blast

lemma completes_then:
  assumes "completes_or_clears act cap cmp xs r ys torn"
    and "\<And>f. act2 f (fl_of cap cmp xs) = bnd (act f (fl_of cap cmp xs)) (\<lambda>(res, f1, m1).
      case res of Threw \<Rightarrow> Inr (Threw, f1, m1) | Returned x \<Rightarrow> k x f1 m1)"
    and "\<And>f1. k r f1 (fl_of cap cmp ys) = Inr (Returned r2, f1, fl_of cap cmp ys)"
  shows "completes_or_clears act2 cap cmp xs r2 ys torn"
  unfolding completes_or_clears_def
proof
  fix f
  from assms(1) [unfolded completes_or_clears_def, rule_format, of f]
  show "(\<exists>f'. act2 f (fl_of cap cmp xs) = Inr (Returned r2, f', fl_of cap cmp ys) \<and> (f = None \<longrightarrow> f' = None)) \<or>
     f \<noteq> None \<and> (\<exists>f'. act2 f (fl_of cap cmp xs) = Inr (Threw, f', fl_of cap cmp torn) \<or>
                    act2 f (fl_of cap cmp xs) = Inr (Threw, f', fl_of cap cmp []))"
    unfolding assms(2) by (elim disjE conjE exE) (auto simp: assms(3))
qed

lemma burn_None: "burn f = (t, f1) \<Longrightarrow> f = None \<Longrightarrow> \<not> t \<and> f1 = None"
  by simp

lemma shift_right_from_of:
  assumes "length xs < cap" "index \<le> length xs"
  shows "(\<exists>f'. shift_right_from index f (fl_of cap cmp xs) =
        Inr (Returned (), f', (fl_of cap cmp xs)\<lparr>fl_storage := gap (fv_slots cap) xs index\<rparr>) \<and> (f = None \<longrightarrow> f' = None)) \<or>
    f \<noteq> None \<and> (\<exists>f'. shift_right_from index f (fl_of cap cmp xs) = Inr (Threw, f', fl_of cap cmp []))"
proof -
  have n: "length xs < fv_slots cap" using assms by simp
  consider f' where "shift_right_loop (length xs) index f (packed (fv_slots cap) xs) =
        Inr (Returned (), index, f', gap (fv_slots cap) xs index)" "f = None \<longrightarrow> f' = None"
    | f' j where "f \<noteq> None" "j \<le> length xs" "shift_right_loop (length xs) index f (packed (fv_slots cap) xs) =
        Inr (Threw, j, f', gap (fv_slots cap) xs j)"
    using shift_right_loop_gap [OF assms(2) order_refl n, of f] unfolding gap_last [OF n] by blast
  then show ?thesis
  proof cases
    case 1
    then show ?thesis by (auto simp: shift_right_from_def)
  next
    case (2 f' j)
    then have "shift_right_from index f (fl_of cap cmp xs) = Inr (Threw, f', fl_of cap cmp [])"
      using destroy_around_gap [OF 2(2) n] by (simp add: shift_right_from_def fl_updateI)
    with 2(1) show ?thesis by blast
  qed
qed

lemma flat_clear_of:
  assumes "length xs \<le> cap"
  shows "flat_clear (fl_of cap cmp xs) = Inr (fl_of cap cmp [])"
  unfolding flat_clear_def using assms
proof (induction xs rule: rev_induct)
  case Nil
  then show ?case by (subst flat_shrink_to.simps) simp
next
  case (snoc x xs)
  have "slot_destroy (packed (fv_slots cap) (xs @ [x])) (length xs) = Inr (packed (fv_slots cap) xs)"
    using packed_destroy_last [of "xs @ [x]" "fv_slots cap"] snoc.prems by simp
  then show ?case
    using snoc by (subst flat_shrink_to.simps) (simp add: fl_updateI Let_def)
qed

definition torn_erase :: "('e \<Rightarrow> 'e) \<Rightarrow> nat \<Rightarrow> 'e list \<Rightarrow> 'e list" where
  "torn_erase husk i xs = xs[i := husk (xs ! i)]"

definition torn_insert :: "('e \<Rightarrow> 'e) \<Rightarrow> bool \<Rightarrow> nat \<Rightarrow> 'e list \<Rightarrow> 'e list" where
  "torn_insert husk assignable i xs = (if assignable \<and> i < length xs then torn_erase husk (length xs - 1) xs else xs)"

lemma torn_intact:
  assumes "\<forall>e. husk e = e"
  shows "torn_erase husk i xs = xs" "torn_insert husk assignable i xs = xs"
  using assms by (simp_all add: torn_erase_def torn_insert_def)

lemma length_torn_erase [simp]: "length (torn_erase husk i xs) = length xs"
  by (simp add: torn_erase_def)

lemma packed_tear:
  "i < length xs \<Longrightarrow> length xs \<le> n \<Longrightarrow> slot_assign (packed n xs) i (husk (xs ! i)) = Inr (packed n (torn_erase husk i xs))"
  by (simp add: torn_erase_def)

lemma erase_at_of:
  assumes "index < length xs" "length xs \<le> cap"
  shows "completes_or_clears (erase_at husk index) cap cmp xs () (take index xs @ drop (Suc index) xs) (torn_erase husk index xs)"
  unfolding completes_or_clears_def
proof
  fix f
  let ?m = "fl_of cap cmp xs"
  define ys where "ys = take index xs @ drop (Suc index) xs"
  have ys: "length ys = length xs - 1" "index \<le> length ys" "length ys < fv_slots cap" "length ys + 1 = length xs"
    using assms fv_slots_bound(1) [OF assms(2)] by (auto simp: ys_def)
  obtain t f1 where b: "burn f = (t, f1)" by force
  have destroy: "slot_destroy (packed (fv_slots cap) xs) index = Inr (gap (fv_slots cap) ys index)"
    unfolding ys_def using assms by (intro packed_destroy_gap) auto
  show "(\<exists>f'. erase_at husk index f ?m = Inr (Returned (), f', fl_of cap cmp (take index xs @ drop (Suc index) xs)) \<and> (f = None \<longrightarrow> f' = None)) \<or>
     f \<noteq> None \<and> (\<exists>f'. erase_at husk index f ?m = Inr (Threw, f', fl_of cap cmp (torn_erase husk index xs)) \<or> erase_at husk index f ?m = Inr (Threw, f', fl_of cap cmp []))"
  proof (cases t)
    case True
    then have "f \<noteq> None" "erase_at husk index f ?m = Inr (Threw, f1, fl_of cap cmp (torn_erase husk index xs))"
      using b burn_None [OF b] assms packed_tear [of index xs "fv_slots cap" husk] by (auto simp: erase_at_def fl_updateI)
    then show ?thesis by blast
  next
    case False
    consider f' where "close_gap_loop index (length xs) f1 (gap (fv_slots cap) ys index) =
          Inr (Returned (), length ys, f', packed (fv_slots cap) ys)" "f1 = None \<longrightarrow> f' = None"
      | f' j where "f1 \<noteq> None" "j \<le> length ys" "close_gap_loop index (length xs) f1 (gap (fv_slots cap) ys index) =
          Inr (Threw, j, f', gap (fv_slots cap) ys j)"
      using close_gap_loop_gap [OF ys(2,3), of f1] unfolding ys(4) by blast
    then show ?thesis
    proof cases
      case 1
      then have "erase_at husk index f ?m = Inr (Returned (), f', fl_of cap cmp ys)"
        using False b destroy assms ys by (simp add: erase_at_def fl_updateI)
      then show ?thesis using 1(2) burn_None [OF b] unfolding ys_def by blast
    next
      case (2 f' j)
      then have "erase_at husk index f ?m = Inr (Threw, f', fl_of cap cmp [])"
        using False b destroy assms destroy_around_gap [OF 2(2) ys(3)] unfolding ys(4)
        by (simp add: erase_at_def fl_updateI)
      then show ?thesis using 2(1) burn_None [OF b] by blast
    qed
  qed
qed

section \<open>Inserting\<close>

lemma assign_right_loop_packed:
  assumes "i < length xs" "length xs \<le> n"
  shows "(\<exists>f' ys. assign_right_loop i index (f, packed n xs) = Inr (Returned (), f', packed n ys) \<and> (f = None \<longrightarrow> f' = None) \<and>
      length ys = length xs \<and> assign_right i index (packed n xs) = Inr (packed n ys)) \<or>
    f \<noteq> None \<and> (\<exists>f' ys. assign_right_loop i index (f, packed n xs) = Inr (Threw, f', packed n ys) \<and> length ys = length xs)"
  using assms
proof (induction i arbitrary: f xs)
  case 0
  then show ?case
    by (subst (1 2) assign_right_loop.simps, subst assign_right.simps) (auto simp: act_return_def)
next
  case (Suc i)
  show ?case
  proof (cases "index < Suc i")
    case False
    then show ?thesis
      by (subst (1 2) assign_right_loop.simps, subst assign_right.simps) (auto simp: act_return_def)
  next
    case True
    let ?ys = "xs[Suc i := xs ! i]"
    obtain t f1 where b: "burn f = (t, f1)" by force
    have step: "assign_right_loop (Suc i) index (f, packed n xs) =
        (if t then Inr (Threw, f1, packed n xs) else assign_right_loop i index (f1, packed n ?ys))"
      using True Suc.prems b
      by (subst assign_right_loop.simps) (simp add: act_bind_apply act_read_def act_update_def caller_code_def)
    have plain: "assign_right (Suc i) index (packed n xs) = assign_right i index (packed n ?ys)"
      using True Suc.prems by (subst assign_right.simps) simp
    show ?thesis
    proof (cases t)
      case True
      then show ?thesis using step burn_None [OF b] by auto
    next
      case False
      then show ?thesis using Suc.IH [of ?ys f1] Suc.prems burn_None [OF b] unfolding step plain by auto
    qed
  qed
qed

definition put_at :: "nat \<Rightarrow> 'e \<Rightarrow> 'e list \<Rightarrow> 'e list" where
  "put_at index e xs = take index xs @ e # drop index xs"

lemma length_put_at [simp]: "length (put_at index e xs) = Suc (length xs)"
  by (simp add: put_at_def)

lemma insert_shifting_assign:
  assumes "index \<le> length xs" "length xs < cap"
  shows "completes_or_clears (insert_shifting husk True index e) cap cmp xs () (put_at index e xs) (torn_insert husk True index xs)"
  unfolding completes_or_clears_def
proof
  fix f
  let ?m = "fl_of cap cmp xs" and ?n = "fv_slots cap"
  let ?act = "insert_shifting husk True index e f ?m" and ?torn = "torn_insert husk True index xs"
  have n: "length xs < ?n" using assms by simp
  obtain t f1 where b: "burn f = (t, f1)" by force
  show "(\<exists>f'. ?act = Inr (Returned (), f', fl_of cap cmp (put_at index e xs)) \<and> (f = None \<longrightarrow> f' = None)) \<or>
     f \<noteq> None \<and> (\<exists>f'. ?act = Inr (Threw, f', fl_of cap cmp ?torn) \<or> ?act = Inr (Threw, f', fl_of cap cmp []))"
  proof (cases "index = length xs")
    case True
    then have "?act = (if t then Inr (Threw, f1, ?m) else Inr (Returned (), f1, fl_of cap cmp (put_at index e xs)))"
      using b n by (simp add: insert_shifting_def fl_updateI put_at_def)
    then show ?thesis using burn_None [OF b] True by (auto simp: torn_insert_def)
  next
    case False
    then have index: "index < length xs" using assms by simp
    let ?z = "xs ! (length xs - 1)"
    let ?rest = "act_bind (assign_right_loop (length xs - 1) index) (\<lambda>_.
        act_bind caller_code (\<lambda>_. act_update (\<lambda>st. slot_assign st index e))) (f1, packed ?n (xs @ [?z]))"
    let ?m1 = "\<lambda>st. ?m\<lparr>fl_storage := st, fl_size := length xs + 1\<rparr>"
    have get: "slot_get (packed ?n xs) (length xs - 1) = Inr ?z"
      using index n by (intro packed_get) auto
    have tear: "slot_assign (packed ?n xs) (length xs - 1) (husk ?z) = Inr (packed ?n ?torn)"
      using packed_tear [of "length xs - 1" xs ?n husk] index n by (simp add: torn_insert_def)
    have thrown: "?act = Inr (Threw, f1, fl_of cap cmp ?torn)" if t
      using that index n get b False tear by (simp add: insert_shifting_def fl_updateI torn_insert_def)
    have act: "?act = (case res of Returned _ \<Rightarrow> Inr (Returned (), f2, ?m1 st1)
      | Threw \<Rightarrow> bnd (flat_clear (?m1 st1)) (\<lambda>m2. Inr (Threw, f2, m2)))"
      if "\<not> t" "?rest = Inr (res, f2, st1)" for res f2 st1
      using that index n get b False by (simp add: insert_shifting_def Let_def fl_of_def split: call.split)
    have rest: "(\<exists>f'. ?rest = Inr (Returned (), f', packed ?n (put_at index e xs)) \<and> (f1 = None \<longrightarrow> f' = None)) \<or>
        f1 \<noteq> None \<and> (\<exists>f' ys. ?rest = Inr (Threw, f', packed ?n ys) \<and> length ys = length xs + 1)"
    proof -
      have zs: "length xs - 1 < length (xs @ [?z])" "length (xs @ [?z]) \<le> ?n" using index n by auto
      from assign_right_loop_packed [OF zs, of index f1] show ?thesis
      proof (elim disjE conjE exE)
        fix f' ys
        assume loop: "assign_right_loop (length xs - 1) index (f1, packed ?n (xs @ [?z])) = Inr (Returned (), f', packed ?n ys)"
          "f1 = None \<longrightarrow> f' = None" "length ys = length (xs @ [?z])"
          "assign_right (length xs - 1) index (packed ?n (xs @ [?z])) = Inr (packed ?n ys)"
        obtain t2 f2 where b2: "burn f' = (t2, f2)" by force
        have stored: "slot_assign (packed ?n ys) index e = Inr (packed ?n (put_at index e xs))"
          using insert_by_assign [OF index n, of e] n loop(4) by (simp add: put_at_def)
        have "?rest = (if t2 then Inr (Threw, f2, packed ?n ys) else Inr (Returned (), f2, packed ?n (put_at index e xs)))"
          using loop(1) b2 stored by (simp add: act_bind_apply act_update_def caller_code_def)
        then show ?thesis using loop(2,3) burn_None [OF b2] by auto
      next
        fix f' ys
        assume "f1 \<noteq> None" "assign_right_loop (length xs - 1) index (f1, packed ?n (xs @ [?z])) = Inr (Threw, f', packed ?n ys)"
          "length ys = length (xs @ [?z])"
        then show ?thesis by (auto simp: act_bind_apply)
      qed
    qed
    have m1: "?m1 (packed ?n ys) = fl_of cap cmp ys" if "length ys = length xs + 1" for ys
      using that by (simp add: fl_updateI)
    have clear: "flat_clear (fl_of cap cmp ys) = Inr (fl_of cap cmp [])" if "length ys = length xs + 1" for ys
      using that assms by (intro flat_clear_of) simp
    show ?thesis
    proof (cases t)
      case True
      then show ?thesis using thrown burn_None [OF b] by auto
    next
      case False
      from rest show ?thesis
      proof (elim disjE conjE exE)
        fix f'
        assume r: "?rest = Inr (Returned (), f', packed ?n (put_at index e xs))" "f1 = None \<longrightarrow> f' = None"
        have "?act = Inr (Returned (), f', fl_of cap cmp (put_at index e xs))"
          using m1 [of "put_at index e xs"] act [OF False r(1)] by simp
        then show ?thesis using r(2) burn_None [OF b] by blast
      next
        fix f' ys
        assume r: "f1 \<noteq> None" "?rest = Inr (Threw, f', packed ?n ys)" "length ys = length xs + 1"
        have "?act = Inr (Threw, f', fl_of cap cmp [])"
          using act [OF False r(2)] unfolding m1 [OF r(3)] clear [OF r(3)] by simp
        then show ?thesis using r(1) burn_None [OF b] by blast
      qed
    qed
  qed
qed

lemma insert_shifting_destroy:
  assumes "index \<le> length xs" "length xs < cap"
  shows "completes_or_clears (insert_shifting husk False index e) cap cmp xs () (put_at index e xs) (torn_insert husk False index xs)"
  unfolding completes_or_clears_def
proof
  fix f
  let ?m = "fl_of cap cmp xs" and ?n = "fv_slots cap"
  let ?act = "insert_shifting husk False index e f ?m" and ?torn = "torn_insert husk False index xs"
  have n: "length xs < ?n" using assms by simp
  from shift_right_from_of [OF assms(2,1), of f cmp]
  show "(\<exists>f'. ?act = Inr (Returned (), f', fl_of cap cmp (put_at index e xs)) \<and> (f = None \<longrightarrow> f' = None)) \<or>
     f \<noteq> None \<and> (\<exists>f'. ?act = Inr (Threw, f', fl_of cap cmp ?torn) \<or> ?act = Inr (Threw, f', fl_of cap cmp []))"
  proof (elim disjE conjE exE)
    fix f'
    assume shift: "shift_right_from index f ?m = Inr (Returned (), f', ?m\<lparr>fl_storage := gap ?n xs index\<rparr>)" "f = None \<longrightarrow> f' = None"
    obtain t f2 where b: "burn f' = (t, f2)" by force
    have "?act = (if t then Inr (Threw, f2, fl_of cap cmp []) else Inr (Returned (), f2, fl_of cap cmp (put_at index e xs)))"
      using shift(1) b destroy_around_gap [OF assms(1) n] gap_new [OF assms(1) n, of e]
      by (simp add: insert_shifting_def fl_updateI put_at_def fl_of_def min_def)
    then show ?thesis using shift(2) burn_None [OF b] by auto
  next
    fix f'
    assume "f \<noteq> None" "shift_right_from index f ?m = Inr (Threw, f', fl_of cap cmp [])"
    then show ?thesis by (auto simp: insert_shifting_def)
  qed
qed

lemma insert_shifting_of:
  assumes "index \<le> length xs" "length xs < cap"
  shows "completes_or_clears (insert_shifting husk assignable index e) cap cmp xs () (put_at index e xs) (torn_insert husk assignable index xs)"
  using insert_shifting_assign [OF assms] insert_shifting_destroy [OF assms] by (cases assignable) auto

end
