(* ===== verification/Flat_containers.thy ===== *)
theory Flat_containers
  imports Flat
begin

text \<open>
  \<^verbatim>\<open>flat_map\<close> and \<^verbatim>\<open>flat_set\<close> over the sorted array. A map stores pairs and orders them by
  their first component; a set stores its keys, so its projection is the identity.
  \<^verbatim>\<open>flat_set.hpp\<close> repeats the code of \<^verbatim>\<open>flat_map.hpp\<close> with \<^verbatim>\<open>data()[index]\<close> in the place of
  \<^verbatim>\<open>data()[index].key\<close>, and its definitions below are that instance.
\<close>

section \<open>flat-map\<close>

type_synonym ('k, 'v) flat_map = "('k \<times> 'v, 'k) flat"

definition fm_find :: "('k, 'v) flat_map \<Rightarrow> 'k \<Rightarrow> 'v option outcome" where
  "fm_find m key = bnd (flat_find fst m key) (\<lambda>e. Inr (map_option snd e))"

definition fm_contains :: "('k, 'v) flat_map \<Rightarrow> 'k \<Rightarrow> bool outcome" where
  "fm_contains m key = bnd (fm_find m key) (\<lambda>p. Inr (p \<noteq> None))"

text \<open>\<^verbatim>\<open>value_type{std::forward<K>(key), std::forward<V>(value)}\<close>, which may throw.\<close>

definition make_entry :: "'k \<Rightarrow> 'v ctor \<Rightarrow> ('k \<times> 'v) ctor" where
  "make_entry key c = (case c of Builds v \<Rightarrow> Builds (key, v) | Throws \<Rightarrow> Throws)"

definition fm_try_emplace ::
  "('k \<times> 'v \<Rightarrow> 'k \<times> 'v) \<Rightarrow> nat \<Rightarrow> bool \<Rightarrow> 'k \<Rightarrow> 'v ctor \<Rightarrow> fuse \<Rightarrow> ('k, 'v) flat_map \<Rightarrow> (bool call \<times> fuse \<times> ('k, 'v) flat_map) outcome" where
  "fm_try_emplace husk cap assignable key c f m = flat_try_emplace fst husk cap assignable key (make_entry key c) f m"

definition fm_emplace ::
  "('k \<times> 'v \<Rightarrow> 'k \<times> 'v) \<Rightarrow> nat \<Rightarrow> bool \<Rightarrow> 'k \<Rightarrow> 'v ctor \<Rightarrow> fuse \<Rightarrow> ('k, 'v) flat_map \<Rightarrow> (nat call \<times> fuse \<times> ('k, 'v) flat_map) outcome" where
  "fm_emplace husk cap assignable key c f m = flat_emplace fst husk cap assignable key (make_entry key c) f m"

text \<open>\<^verbatim>\<open>data()[index].value = value\<close>; an assignment that throws leaves the old value.\<close>

definition fm_assign_value ::
  "nat \<Rightarrow> 'v ctor \<Rightarrow> fuse \<Rightarrow> ('k, 'v) flat_map \<Rightarrow> (unit call \<times> fuse \<times> ('k, 'v) flat_map) outcome" where
  "fm_assign_value index c f m = (case c of
       Throws \<Rightarrow> Inr (Threw, f, m)
     | Builds v \<Rightarrow> bnd (slot_get (fl_storage m) index) (\<lambda>e.
                    bnd (slot_assign (fl_storage m) index (fst e, v)) (\<lambda>st.
                      Inr (Returned (), f, m\<lparr>fl_storage := st\<rparr>))))"

definition fm_try_insert_or_assign ::
  "('k \<times> 'v \<Rightarrow> 'k \<times> 'v) \<Rightarrow> nat \<Rightarrow> bool \<Rightarrow> 'k \<Rightarrow> 'v ctor \<Rightarrow> fuse \<Rightarrow> ('k, 'v) flat_map \<Rightarrow> (bool call \<times> fuse \<times> ('k, 'v) flat_map) outcome" where
  "fm_try_insert_or_assign husk cap assignable key c f m =
     bnd (lower_bound_index fst m key) (\<lambda>index.
     bnd (flat_match fst m key index) (\<lambda>present.
       if present
       then bnd (fm_assign_value index c f m) (\<lambda>(res, f1, m1). case res of
              Threw \<Rightarrow> Inr (Threw, f1, m1) | Returned _ \<Rightarrow> Inr (Returned True, f1, m1))
       else try_insert_at husk cap assignable index (make_entry key c) f m))"

definition fm_insert_or_assign ::
  "('k \<times> 'v \<Rightarrow> 'k \<times> 'v) \<Rightarrow> nat \<Rightarrow> bool \<Rightarrow> 'k \<Rightarrow> 'v ctor \<Rightarrow> fuse \<Rightarrow> ('k, 'v) flat_map \<Rightarrow> (nat call \<times> fuse \<times> ('k, 'v) flat_map) outcome" where
  "fm_insert_or_assign husk cap assignable key c f m =
     bnd (lower_bound_index fst m key) (\<lambda>index.
     bnd (flat_match fst m key index) (\<lambda>present.
       if present
       then bnd (fm_assign_value index c f m) (\<lambda>(res, f1, m1). case res of
              Threw \<Rightarrow> Inr (Threw, f1, m1) | Returned _ \<Rightarrow> Inr (Returned index, f1, m1))
       else bnd (try_insert_at husk cap assignable index (make_entry key c) f m) (\<lambda>(res, f1, m1). case res of
              Threw \<Rightarrow> Inr (Threw, f1, m1)
            | Returned stored \<Rightarrow> METL_HARDEN stored (Inr (Returned index, f1, m1)))))"

definition fm_eq ::
  "('k \<Rightarrow> 'k \<Rightarrow> bool) \<Rightarrow> ('v \<Rightarrow> 'v \<Rightarrow> bool) \<Rightarrow> ('k, 'v) flat_map \<Rightarrow> ('k, 'v) flat_map \<Rightarrow> bool outcome" where
  "fm_eq eqk eqv = flat_eq (\<lambda>x y. \<not> (\<not> eqk (fst x) (fst y) \<or> \<not> eqv (snd x) (snd y)))"

definition fm_less ::
  "('k \<Rightarrow> 'k \<Rightarrow> bool) \<Rightarrow> ('v \<Rightarrow> 'v \<Rightarrow> bool) \<Rightarrow> ('k, 'v) flat_map \<Rightarrow> ('k, 'v) flat_map \<Rightarrow> bool outcome" where
  "fm_less ltk ltv = flat_less (decide_map ltk ltv)"

section \<open>flat-set\<close>

type_synonym 'k flat_set = "('k, 'k) flat"

definition fs_empty :: "nat \<Rightarrow> ('k \<Rightarrow> 'k \<Rightarrow> bool) \<Rightarrow> 'k flat_set" where
  "fs_empty = flat_empty"

definition fs_nth :: "hardening \<Rightarrow> 'k flat_set \<Rightarrow> nat \<Rightarrow> 'k outcome" where
  "fs_nth = flat_nth"

definition fs_lower_bound_index :: "'k flat_set \<Rightarrow> 'k \<Rightarrow> nat outcome" where
  "fs_lower_bound_index = lower_bound_index id"

definition fs_upper_bound_index :: "'k flat_set \<Rightarrow> 'k \<Rightarrow> nat outcome" where
  "fs_upper_bound_index = upper_bound_index id"

definition fs_upper_bound_index_from :: "'k flat_set \<Rightarrow> 'k \<Rightarrow> nat \<Rightarrow> nat outcome" where
  "fs_upper_bound_index_from = upper_bound_index_from id"

definition fs_equal_range :: "'k flat_set \<Rightarrow> 'k \<Rightarrow> (nat \<times> nat) outcome" where
  "fs_equal_range s key =
     bnd (fs_lower_bound_index s key) (\<lambda>lo.
     bnd (fs_upper_bound_index_from s key lo) (\<lambda>hi. Inr (lo, hi)))"

definition fs_find :: "'k flat_set \<Rightarrow> 'k \<Rightarrow> 'k option outcome" where
  "fs_find = flat_find id"

definition fs_contains :: "'k flat_set \<Rightarrow> 'k \<Rightarrow> bool outcome" where
  "fs_contains s key = bnd (fs_find s key) (\<lambda>p. Inr (p \<noteq> None))"

definition fs_clear :: "'k flat_set \<Rightarrow> 'k flat_set outcome" where
  "fs_clear = flat_clear"

definition fs_shift_right_from ::
  "nat \<Rightarrow> fuse \<Rightarrow> 'k flat_set \<Rightarrow> (unit call \<times> fuse \<times> 'k flat_set) outcome" where
  "fs_shift_right_from = shift_right_from"

definition fs_insert_shifting ::
  "('k \<Rightarrow> 'k) \<Rightarrow> bool \<Rightarrow> nat \<Rightarrow> 'k \<Rightarrow> fuse \<Rightarrow> 'k flat_set \<Rightarrow> (unit call \<times> fuse \<times> 'k flat_set) outcome" where
  "fs_insert_shifting = insert_shifting"

definition fs_try_insert_at ::
  "('k \<Rightarrow> 'k) \<Rightarrow> nat \<Rightarrow> bool \<Rightarrow> nat \<Rightarrow> 'k ctor \<Rightarrow> fuse \<Rightarrow> 'k flat_set \<Rightarrow> (bool call \<times> fuse \<times> 'k flat_set) outcome" where
  "fs_try_insert_at = try_insert_at"

text \<open>The new element is the key itself, forwarded into the temporary; \<open>c\<close> says whether that throws.\<close>

definition fs_try_emplace ::
  "('k \<Rightarrow> 'k) \<Rightarrow> nat \<Rightarrow> bool \<Rightarrow> 'k \<Rightarrow> 'k ctor \<Rightarrow> fuse \<Rightarrow> 'k flat_set \<Rightarrow> (bool call \<times> fuse \<times> 'k flat_set) outcome" where
  "fs_try_emplace = flat_try_emplace id"

definition fs_emplace ::
  "('k \<Rightarrow> 'k) \<Rightarrow> nat \<Rightarrow> bool \<Rightarrow> 'k \<Rightarrow> 'k ctor \<Rightarrow> fuse \<Rightarrow> 'k flat_set \<Rightarrow> (nat call \<times> fuse \<times> 'k flat_set) outcome" where
  "fs_emplace = flat_emplace id"

definition fs_erase_at :: "('k \<Rightarrow> 'k) \<Rightarrow> nat \<Rightarrow> fuse \<Rightarrow> 'k flat_set \<Rightarrow> (unit call \<times> fuse \<times> 'k flat_set) outcome" where
  "fs_erase_at = erase_at"

definition fs_erase :: "('k \<Rightarrow> 'k) \<Rightarrow> 'k \<Rightarrow> fuse \<Rightarrow> 'k flat_set \<Rightarrow> (bool call \<times> fuse \<times> 'k flat_set) outcome" where
  "fs_erase = flat_erase id"

definition fs_position_index :: "nat \<Rightarrow> nat \<Rightarrow> 'k flat_set \<Rightarrow> nat outcome" where
  "fs_position_index = position_index"

definition fs_erase_pos :: "('k \<Rightarrow> 'k) \<Rightarrow> nat \<Rightarrow> nat \<Rightarrow> fuse \<Rightarrow> 'k flat_set \<Rightarrow> (nat call \<times> fuse \<times> 'k flat_set) outcome" where
  "fs_erase_pos = flat_erase_pos"

definition fs_append_from :: "'k flat_set \<Rightarrow> 'k flat_set \<Rightarrow> 'k flat_set outcome" where
  "fs_append_from = flat_append_from"

definition fs_copy :: "nat \<Rightarrow> 'k flat_set \<Rightarrow> 'k flat_set outcome" where
  "fs_copy = flat_copy"

definition fs_move :: "nat \<Rightarrow> ('k \<Rightarrow> 'k \<Rightarrow> bool) \<Rightarrow> 'k flat_set \<Rightarrow> ('k flat_set \<times> 'k flat_set) outcome" where
  "fs_move = flat_move"

definition fs_copy_assign :: "'k flat_set \<Rightarrow> 'k flat_set \<Rightarrow> 'k flat_set outcome" where
  "fs_copy_assign = flat_copy_assign"

definition fs_move_assign ::
  "('k \<Rightarrow> 'k \<Rightarrow> bool) \<Rightarrow> 'k flat_set \<Rightarrow> 'k flat_set \<Rightarrow> ('k flat_set \<times> 'k flat_set) outcome" where
  "fs_move_assign = flat_move_assign"

definition fs_swap :: "'k flat_set \<Rightarrow> 'k flat_set \<Rightarrow> ('k flat_set \<times> 'k flat_set) outcome" where
  "fs_swap = flat_swap"

definition fs_eq :: "('k \<Rightarrow> 'k \<Rightarrow> bool) \<Rightarrow> 'k flat_set \<Rightarrow> 'k flat_set \<Rightarrow> bool outcome" where
  "fs_eq = flat_eq"

definition fs_less :: "('k \<Rightarrow> 'k \<Rightarrow> bool) \<Rightarrow> 'k flat_set \<Rightarrow> 'k flat_set \<Rightarrow> bool outcome" where
  "fs_less lt = flat_less (decide_set lt)"

definition fs_erase_if ::
  "('k \<Rightarrow> 'k) \<Rightarrow> ('k \<Rightarrow> bool) \<Rightarrow> fuse \<Rightarrow> 'k flat_set \<Rightarrow> (nat call \<times> fuse \<times> 'k flat_set) outcome" where
  "fs_erase_if = flat_erase_if"

lemmas flat_set_defs =
  fs_empty_def fs_nth_def fs_lower_bound_index_def fs_upper_bound_index_def fs_upper_bound_index_from_def
  fs_equal_range_def fs_find_def fs_contains_def fs_clear_def fs_shift_right_from_def fs_insert_shifting_def
  fs_try_insert_at_def fs_try_emplace_def fs_emplace_def fs_erase_at_def fs_erase_def fs_position_index_def
  fs_erase_pos_def fs_append_from_def fs_copy_def fs_move_def fs_copy_assign_def fs_move_assign_def
  fs_swap_def fs_eq_def fs_less_def fs_erase_if_def

end
