(* ===== verification/Flat_laws.thy ===== *)
theory Flat_laws
  imports Flat_correct Flat_containers Map_spec
begin

text \<open>
  The sorted list as a finite map: what a lookup finds after an insertion, an
  erasure or an assignment, and what each operation of the containers does to the
  list, with a moving element that throws included.
\<close>

definition flat_lookup :: "('k \<Rightarrow> 'k \<Rightarrow> bool) \<Rightarrow> ('e \<Rightarrow> 'k) \<Rightarrow> 'e list \<Rightarrow> 'k \<Rightarrow> 'e option" where
  "flat_lookup lt ky xs k = List.find (\<lambda>e. \<not> lt (ky e) k \<and> \<not> lt k (ky e)) xs"

definition del_at :: "nat \<Rightarrow> 'e list \<Rightarrow> 'e list" where
  "del_at i xs = take i xs @ drop (Suc i) xs"

lemma length_del_at [simp]: "i < length xs \<Longrightarrow> length (del_at i xs) = length xs - 1"
  by (simp add: del_at_def)

lemma del_at_nth:
  assumes "j < length (del_at i xs)"
  shows "\<exists>k < length xs. k \<noteq> i \<and> del_at i xs ! j = xs ! k"
proof (cases "j < i")
  case True
  then have "j < length xs" using assms by (auto simp: del_at_def)
  then show ?thesis using True assms by (intro exI [of _ j]) (auto simp: del_at_def nth_append)
next
  case False
  then have "i < length xs" using assms by (auto simp: del_at_def)
  then show ?thesis using False assms by (intro exI [of _ "Suc j"]) (auto simp: del_at_def nth_append)
qed

lemma find_append: "List.find P (xs @ ys) = (case List.find P xs of None \<Rightarrow> List.find P ys | Some x \<Rightarrow> Some x)"
  by (induction xs) auto

lemma find_skip: "\<not> P e \<Longrightarrow> List.find P (xs @ e # ys) = List.find P (xs @ ys)"
  by (induction xs) auto

lemma lookup_None_iff: "flat_lookup lt ky xs k = None \<longleftrightarrow> \<not> holds_key lt ky k xs"
  by (auto simp: flat_lookup_def holds_key_def find_None_iff)

lemma flat_sorted_del:
  assumes "flat_sorted lt ky xs"
  shows "flat_sorted lt ky (del_at i xs)"
proof -
  have "flat_sorted lt ky (take i xs @ drop i xs)" using assms by simp
  moreover have "drop (Suc i) xs = tl (drop i xs)" by (simp add: drop_Suc tl_drop)
  ultimately show ?thesis
    unfolding flat_sorted_def del_at_def
    by (cases "drop i xs") (auto simp: sorted_wrt_append simp del: append_take_drop_id)
qed

context strict_weak_order
begin

lemma flat_sorted_put:
  assumes "flat_sorted lt ky xs" "\<not> holds_key lt ky (ky e) xs"
  shows "flat_sorted lt ky (put_at (lower lt ky (ky e) xs) e xs)"
proof -
  let ?i = "lower lt ky (ky e) xs"
  have left: "lt (ky x) (ky e)" if x: "x \<in> set (take ?i xs)" for x
  proof -
    obtain j where j: "j < ?i" "x = xs ! j" using x by (auto simp: in_set_conv_nth)
    then have "j < length xs" using lower_bound [of lt ky "ky e" xs] by linarith
    then show ?thesis using below_lower [OF assms(1)] j by simp
  qed
  have right: "lt (ky e) (ky x)" if x: "x \<in> set (drop ?i xs)" for x
  proof -
    obtain j where j: "j < length xs - ?i" "x = xs ! (?i + j)" using x by (auto simp: in_set_conv_nth)
    then have "\<not> lt (ky x) (ky e)" using below_lower [OF assms(1), of "?i + j" "ky e"] by simp
    moreover have "x \<in> set xs" using x by (rule in_set_dropD)
    ultimately show ?thesis using assms(2) by (auto simp: holds_key_def)
  qed
  have parts: "sorted_wrt (\<lambda>a b. lt (ky a) (ky b)) (take ?i xs @ drop ?i xs)"
    using assms(1) by (simp add: flat_sorted_def)
  then show ?thesis
    unfolding flat_sorted_def put_at_def using left right
    by (auto simp: sorted_wrt_append simp del: append_take_drop_id)
qed

lemma lookup_put:
  assumes "\<not> holds_key lt ky (ky e) xs"
  shows "flat_lookup lt ky (put_at i e xs) k = (if equiv (ky e) k then Some e else flat_lookup lt ky xs k)"
proof (cases "equiv (ky e) k")
  case True
  have "\<not> (\<not> lt (ky x) k \<and> \<not> lt k (ky x))" if "x \<in> set (take i xs)" for x
  proof
    assume "\<not> lt (ky x) k \<and> \<not> lt k (ky x)"
    then have "equiv (ky x) (ky e)" using True equiv_trans equiv_sym unfolding equiv_def by blast
    then show False using assms in_set_takeD [OF that] by (auto simp: holds_key_def equiv_def)
  qed
  then have "List.find (\<lambda>e. \<not> lt (ky e) k \<and> \<not> lt k (ky e)) (take i xs) = None"
    by (auto simp: find_None_iff)
  then show ?thesis
    using True by (simp add: flat_lookup_def put_at_def find_append equiv_def)
next
  case False
  then show ?thesis
    using find_skip [of "\<lambda>e. \<not> lt (ky e) k \<and> \<not> lt k (ky e)" e "take i xs" "drop i xs"]
    by (auto simp: flat_lookup_def put_at_def equiv_def)
qed

lemma sorted_unique:
  assumes "flat_sorted lt ky xs" "i < length xs" "j < length xs" "equiv (ky (xs ! i)) (ky (xs ! j))"
  shows "i = j"
  using assms unfolding flat_sorted_def equiv_def
  by (metis linorder_neqE_nat sorted_wrt_nth_less)

lemma lookup_nth:
  assumes "flat_sorted lt ky xs" "i < length xs" "equiv (ky (xs ! i)) k"
  shows "flat_lookup lt ky xs k = Some (xs ! i)"
proof -
  have "\<not> (\<not> lt (ky (xs ! j)) k \<and> \<not> lt k (ky (xs ! j)))" if "j < i" for j
    using sorted_unique [OF assms(1,2), of j] that assms(2,3) equiv_trans equiv_sym unfolding equiv_def
    by (metis less_irrefl less_trans)
  then show ?thesis
    using assms unfolding flat_lookup_def find_Some_iff equiv_def by blast
qed

lemma lookup_del:
  assumes "flat_sorted lt ky xs" "i < length xs"
  shows "flat_lookup lt ky (del_at i xs) k = (if equiv (ky (xs ! i)) k then None else flat_lookup lt ky xs k)"
proof (cases "equiv (ky (xs ! i)) k")
  case True
  have "\<not> holds_key lt ky k (del_at i xs)"
  proof
    assume "holds_key lt ky k (del_at i xs)"
    then obtain x where x: "x \<in> set (del_at i xs)" "equiv (ky x) k" by (auto simp: holds_key_def equiv_def)
    then obtain j where j: "j < length xs" "j \<noteq> i" "x = xs ! j"
      using del_at_nth by (metis in_set_conv_nth)
    have "equiv (ky (xs ! i)) (ky (xs ! j))" using True x(2) j(3) equiv_trans equiv_sym by blast
    then show False using sorted_unique [OF assms j(1)] j(2) by simp
  qed
  then show ?thesis using True by (simp add: lookup_None_iff)
next
  case False
  then show ?thesis
    using find_skip [of "\<lambda>e. \<not> lt (ky e) k \<and> \<not> lt k (ky e)" "xs ! i" "take i xs" "drop (Suc i) xs"] assms(2)
    by (auto simp: flat_lookup_def del_at_def equiv_def id_take_nth_drop [symmetric])
qed

lemma holds_lower:
  assumes "flat_sorted lt ky xs" "holds_key lt ky k xs"
  shows "lower lt ky k xs < length xs \<and> equiv (ky (xs ! lower lt ky k xs)) k"
proof -
  have "flat_match ky (fl_of (length xs) lt xs) k (lower lt ky k xs) = Inr True"
    using flat_match_of [OF assms(1) order_refl] assms(2) by simp
  then have "lower lt ky k xs < length xs \<and> \<not> lt k (ky (xs ! lower lt ky k xs))"
    by (cases "lower lt ky k xs < length xs") (auto simp: flat_match_def)
  then show ?thesis using below_lower [OF assms(1)] by (auto simp: equiv_def)
qed

lemma flat_find_of:
  assumes "flat_sorted lt ky xs" "length xs \<le> cap"
  shows "flat_find ky (fl_of cap lt xs) k = Inr (flat_lookup lt ky xs k)"
proof (cases "holds_key lt ky k xs")
  case True
  note low = holds_lower [OF assms(1) True]
  then have "flat_lookup lt ky xs k = Some (xs ! lower lt ky k xs)" using lookup_nth [OF assms(1)] by blast
  then show ?thesis
    using True low lower_bound_index_of [OF assms] flat_match_of [OF assms] assms(2) by (simp add: flat_find_def)
next
  case False
  then have "flat_lookup lt ky xs k = None" by (simp add: lookup_None_iff)
  then show ?thesis
    using False lower_bound_index_of [OF assms] flat_match_of [OF assms] by (simp add: flat_find_def)
qed


lemma try_insert_at_of:
  assumes "i \<le> length xs" "length xs < cap"
  shows "completes_or_clears (try_insert_at husk cap assignable i (Builds e)) cap cmp xs True (put_at i e xs) (torn_insert husk assignable i xs)"
  by (rule completes_then [OF insert_shifting_of [OF assms, of husk assignable e cmp],
        where k = "\<lambda>_ f1 m1. Inr (Returned True, f1, m1)"]) (use assms(2) in \<open>simp_all add: try_insert_at_def\<close>)

lemma flat_try_emplace_new:
  assumes "flat_sorted lt ky xs" "\<not> holds_key lt ky key xs" "length xs < cap"
  shows "completes_or_clears (flat_try_emplace ky husk cap assignable key (Builds e)) cap lt xs True
    (put_at (lower lt ky key xs) e xs) (torn_insert husk assignable (lower lt ky key xs) xs)"
proof -
  have "length xs \<le> cap" using assms(3) by simp
  then have "flat_try_emplace ky husk cap assignable key (Builds e) f (fl_of cap lt xs) =
      try_insert_at husk cap assignable (lower lt ky key xs) (Builds e) f (fl_of cap lt xs)" for f
    using lower_bound_index_of [OF assms(1)] flat_match_of [OF assms(1)] assms(2) by (simp add: flat_try_emplace_def)
  then show ?thesis
    using try_insert_at_of [OF lower_bound assms(3), of husk assignable lt ky key e lt] by (simp add: completes_or_clears_def)
qed

lemma flat_try_emplace_refused:
  assumes "flat_sorted lt ky xs" "length xs \<le> cap" "holds_key lt ky key xs \<or> \<not> length xs < cap"
  shows "flat_try_emplace ky husk cap assignable key c f (fl_of cap lt xs) = Inr (Returned False, f, fl_of cap lt xs)"
  using lower_bound_index_of [OF assms(1,2)] flat_match_of [OF assms(1,2)] assms(2,3)
  by (auto simp: flat_try_emplace_def try_insert_at_def)

lemma flat_try_emplace_ctor_throws:
  assumes "flat_sorted lt ky xs" "\<not> holds_key lt ky key xs" "length xs < cap"
  shows "flat_try_emplace ky husk cap assignable key Throws f (fl_of cap lt xs) = Inr (Threw, f, fl_of cap lt xs)"
  using lower_bound_index_of [OF assms(1)] flat_match_of [OF assms(1)] assms(2,3)
  by (simp add: flat_try_emplace_def try_insert_at_def)

lemma flat_emplace_new:
  assumes "flat_sorted lt ky xs" "\<not> holds_key lt ky key xs" "length xs < cap"
  shows "completes_or_clears (flat_emplace ky husk cap assignable key (Builds e)) cap lt xs (lower lt ky key xs)
    (put_at (lower lt ky key xs) e xs) (torn_insert husk assignable (lower lt ky key xs) xs)"
  by (rule completes_then [OF try_insert_at_of [OF lower_bound assms(3), of husk assignable lt ky key e lt],
        where k = "\<lambda>inserted f1 m1. METL_HARDEN inserted (Inr (Returned (lower lt ky key xs), f1, m1))"])
    (use lower_bound_index_of [OF assms(1)] flat_match_of [OF assms(1)] assms(2,3) in
      \<open>simp_all add: flat_emplace_def METL_HARDEN_def\<close>)

lemma flat_emplace_refused:
  assumes "flat_sorted lt ky xs" "length xs \<le> cap" "holds_key lt ky key xs \<or> \<not> length xs < cap"
  shows "flat_emplace ky husk cap assignable key c f (fl_of cap lt xs) = Inl Check_failed"
  using lower_bound_index_of [OF assms(1,2)] flat_match_of [OF assms(1,2)] assms(2,3)
  by (auto simp: flat_emplace_def try_insert_at_def METL_HARDEN_def)

lemma flat_erase_present:
  assumes "flat_sorted lt ky xs" "length xs \<le> cap" "holds_key lt ky key xs"
  shows "completes_or_clears (flat_erase ky husk key) cap lt xs True (del_at (lower lt ky key xs) xs) (torn_erase husk (lower lt ky key xs) xs)"
proof -
  have i: "lower lt ky key xs < length xs" using holds_lower [OF assms(1,3)] by simp
  show ?thesis
    by (rule completes_then [OF erase_at_of [OF i assms(2), of husk lt, folded del_at_def],
          where k = "\<lambda>_ f1 m1. Inr (Returned True, f1, m1)"])
      (use lower_bound_index_of [OF assms(1,2)] flat_match_of [OF assms(1,2)] assms(3) in \<open>simp_all add: flat_erase_def\<close>)
qed

lemma flat_erase_absent:
  assumes "flat_sorted lt ky xs" "length xs \<le> cap" "\<not> holds_key lt ky key xs"
  shows "flat_erase ky husk key f (fl_of cap lt xs) = Inr (Returned False, f, fl_of cap lt xs)"
  using lower_bound_index_of [OF assms(1,2)] flat_match_of [OF assms(1,2)] assms(3)
  by (simp add: flat_erase_def)

text \<open>Assigning a value keeps the stored key, hence the order.\<close>

lemma fm_assign_of:
  assumes "flat_sorted lt fst xs" "length xs \<le> cap" "i < length xs"
  shows "fm_assign_value i (Builds v) f (fl_of cap lt xs) =
    Inr (Returned (), f, fl_of cap lt (xs[i := (fst (xs ! i), v)]))"
  using assms by (simp add: fm_assign_value_def fl_of_def)

lemma sorted_assign:
  assumes "flat_sorted lt fst xs"
  shows "flat_sorted lt fst (xs[i := (fst (xs ! i), v)])"
proof -
  have "fst (xs[i := (fst (xs ! i), v)] ! j) = fst (xs ! j)" if "j < length xs" for j
    using that by (cases "i = j") auto
  then show ?thesis using assms by (auto simp: flat_sorted_def sorted_wrt_iff_nth_less)
qed

lemma lookup_assign:
  assumes "flat_sorted lt fst xs" "i < length xs"
  shows "flat_lookup lt fst (xs[i := (fst (xs ! i), v)]) k =
    (if equiv (fst (xs ! i)) k then Some (fst (xs ! i), v) else flat_lookup lt fst xs k)"
proof (cases "equiv (fst (xs ! i)) k")
  case True
  then show ?thesis
    using lookup_nth [OF sorted_assign [OF assms(1)], of i i v k] assms(2) by simp
next
  case False
  let ?P = "\<lambda>e. \<not> lt (fst e) k \<and> \<not> lt k (fst e)"
  have "\<not> ?P (xs ! i)" "\<not> ?P (fst (xs ! i), v)" using False by (auto simp: equiv_def)
  then show ?thesis
    using find_skip [of ?P "xs ! i" "take i xs" "drop (Suc i) xs"]
      find_skip [of ?P "(fst (xs ! i), v)" "take i xs" "drop (Suc i) xs"] False assms(2)
    by (simp add: flat_lookup_def upd_conv_take_nth_drop id_take_nth_drop [symmetric])
qed

end

end
