(* ===== verification/Flat_spec.thy ===== *)
theory Flat_spec
  imports Flat_laws
begin

text \<open>
  The promises of \<^verbatim>\<open>flat_map\<close> and \<^verbatim>\<open>flat_set\<close>: a map answers every client program as a finite
  map does, a set as a finite set does, ordered queries return the boundaries of a
  sorted sequence, and what an element move that throws leaves of the container.
\<close>

section \<open>flat-map as a finite map\<close>

text \<open>
  An operation run with moves that do not throw; what one that throws would leave
  behind does not matter then.
\<close>

definition quiet :: "(fuse \<Rightarrow> 's \<Rightarrow> ('r call \<times> fuse \<times> 's) outcome) \<Rightarrow> 's \<Rightarrow> ('r \<times> 's) outcome" where
  "quiet act s = bnd (act None s) (\<lambda>(res, _, s1). case res of Returned r \<Rightarrow> Inr (r, s1) | Threw \<Rightarrow> Inl Diverged)"

definition fm_ops :: "nat \<Rightarrow> bool \<Rightarrow> (('k, 'v) flat_map, 'k, 'v) map_ops" where
  "fm_ops cap assignable = \<lparr>op_find = fm_find,
     op_try_emplace = (\<lambda>k v. quiet (fm_try_emplace id cap assignable k (Builds v))),
     op_try_insert_or_assign = (\<lambda>k v. quiet (fm_try_insert_or_assign id cap assignable k (Builds v))),
     op_erase = (\<lambda>k. quiet (flat_erase fst id k))\<rparr>"

definition same_rank :: "('k \<Rightarrow> 'k \<Rightarrow> bool) \<Rightarrow> 'k \<Rightarrow> 'k \<Rightarrow> bool" where
  "same_rank lt a b \<longleftrightarrow> \<not> lt a b \<and> \<not> lt b a"

definition fm_contents :: "('k \<Rightarrow> 'k \<Rightarrow> bool) \<Rightarrow> ('k \<times> 'v) list \<Rightarrow> ('k, 'v) contents" where
  "fm_contents lt xs = (\<lambda>k. map_option snd (flat_lookup lt fst xs k))"

definition fm_abs :: "nat \<Rightarrow> ('k \<Rightarrow> 'k \<Rightarrow> bool) \<Rightarrow> ('k, 'v) flat_map \<Rightarrow> ('k, 'v) contents \<Rightarrow> nat \<Rightarrow> bool" where
  "fm_abs cap lt m A n \<longleftrightarrow> strict_weak_order lt \<and> (\<exists>xs. m = fl_of cap lt xs \<and> flat_sorted lt fst xs \<and>
     length xs \<le> cap \<and> A = fm_contents lt xs \<and> n = length xs)"

lemma quiet_completes:
  "completes_or_clears act cap cmp xs r ys torn \<Longrightarrow> quiet act (fl_of cap cmp xs) = Inr (r, fl_of cap cmp ys)"
  by (drule completes_no_throw) (simp add: quiet_def)

lemma fm_absE:
  assumes "fm_abs cap lt m A n"
  obtains xs where "strict_weak_order lt" "m = fl_of cap lt xs" "flat_sorted lt fst xs" "length xs \<le> cap"
    "A = fm_contents lt xs" "n = length xs"
  using assms unfolding fm_abs_def by blast

lemma fm_absI:
  "strict_weak_order lt \<Longrightarrow> flat_sorted lt fst xs \<Longrightarrow> length xs \<le> cap \<Longrightarrow> A = fm_contents lt xs \<Longrightarrow> n = length xs \<Longrightarrow>
   fm_abs cap lt (fl_of cap lt xs) A n"
  unfolding fm_abs_def by blast

lemma fm_contents_None: "fm_contents lt xs k = None \<longleftrightarrow> \<not> holds_key lt fst k xs"
  by (simp add: fm_contents_def lookup_None_iff)

lemma make_entry_Builds [simp]: "make_entry k (Builds v) = Builds (k, v)" "make_entry k Throws = Throws"
  by (simp_all add: make_entry_def)

context strict_weak_order
begin

lemma same_rank_equiv: "same_rank lt = equiv"
  by (auto simp: same_rank_def equiv_def fun_eq_iff)

lemma contents_put:
  assumes "\<not> holds_key lt fst key xs"
  shows "fm_contents lt (put_at i (key, v) xs) = map_put (same_rank lt) (fm_contents lt xs) key v"
  using lookup_put [of fst "(key, v)" xs i] assms
  by (auto simp: fm_contents_def map_put_def fun_eq_iff same_rank_equiv)

lemma contents_del:
  assumes "flat_sorted lt fst xs" "holds_key lt fst key xs"
  shows "fm_contents lt (del_at (lower lt fst key xs) xs) = map_del (same_rank lt) (fm_contents lt xs) key"
proof -
  let ?i = "lower lt fst key xs"
  have i: "?i < length xs" "equiv (fst (xs ! ?i)) key" using holds_lower [OF assms] by auto
  have "equiv (fst (xs ! ?i)) k \<longleftrightarrow> equiv key k" for k using i(2) equiv_trans equiv_sym by blast
  then show ?thesis
    using lookup_del [OF assms(1) i(1)] by (auto simp: fm_contents_def map_del_def fun_eq_iff same_rank_equiv)
qed

lemma contents_assign:
  assumes "flat_sorted lt fst xs" "holds_key lt fst key xs"
  shows "fm_contents lt (xs[lower lt fst key xs := (fst (xs ! lower lt fst key xs), v)]) =
    map_put (same_rank lt) (fm_contents lt xs) key v"
proof -
  let ?i = "lower lt fst key xs"
  have i: "?i < length xs" "equiv (fst (xs ! ?i)) key" using holds_lower [OF assms] by auto
  have "equiv (fst (xs ! ?i)) k \<longleftrightarrow> equiv key k" for k using i(2) equiv_trans equiv_sym by blast
  then show ?thesis
    using lookup_assign [OF assms(1) i(1)] by (auto simp: fm_contents_def map_put_def fun_eq_iff same_rank_equiv)
qed

lemma assign_present:
  assumes "flat_sorted lt fst xs" "length xs \<le> cap" "holds_key lt fst key xs"
  shows "fm_try_insert_or_assign husk cap a key (Builds v) f (fl_of cap lt xs) =
    Inr (Returned True, f, fl_of cap lt (xs[lower lt fst key xs := (fst (xs ! lower lt fst key xs), v)]))"
  using lower_bound_index_of [OF assms(1,2)] flat_match_of [OF assms(1,2)] assms(3) holds_lower [OF assms(1,3)]
    fm_assign_of [OF assms(1,2)] by (simp add: fm_try_insert_or_assign_def)

lemma assign_absent:
  assumes "flat_sorted lt fst xs" "length xs \<le> cap" "\<not> holds_key lt fst key xs"
  shows "fm_try_insert_or_assign husk cap a key c f (fl_of cap lt xs) = fm_try_emplace husk cap a key c f (fl_of cap lt xs)"
  using lower_bound_index_of [OF assms(1,2)] flat_match_of [OF assms(1,2)] assms(3)
  by (simp add: fm_try_insert_or_assign_def fm_try_emplace_def flat_try_emplace_def)

lemma emplace_grows:
  assumes "flat_sorted lt fst xs" "length xs < cap" "\<not> holds_key lt fst key xs"
  shows "\<exists>s'. quiet (fm_try_emplace husk cap a key (Builds v)) (fl_of cap lt xs) = Inr (True, s') \<and>
    fm_abs cap lt s' (map_put (same_rank lt) (fm_contents lt xs) key v) (length xs + 1)"
proof -
  let ?ys = "put_at (lower lt fst key xs) (key, v) xs"
  have "quiet (fm_try_emplace husk cap a key (Builds v)) (fl_of cap lt xs) = Inr (True, fl_of cap lt ?ys)"
    using quiet_completes [OF flat_try_emplace_new [OF assms(1,3,2), of husk a "(key, v)"]]
    by (simp add: fm_try_emplace_def quiet_def)
  moreover have "fm_abs cap lt (fl_of cap lt ?ys) (map_put (same_rank lt) (fm_contents lt xs) key v) (length xs + 1)"
    using flat_sorted_put [of fst xs "(key, v)"] contents_put [OF assms(3)] assms strict_weak_order_axioms
    by (intro fm_absI) auto
  ultimately show ?thesis by blast
qed

end

lemmas order_laws =
  strict_weak_order.flat_find_of strict_weak_order.emplace_grows strict_weak_order.flat_try_emplace_refused
  strict_weak_order.assign_present strict_weak_order.assign_absent strict_weak_order.contents_assign
  strict_weak_order.sorted_assign strict_weak_order.flat_erase_present strict_weak_order.flat_erase_absent
  strict_weak_order.contents_del strict_weak_order.holds_lower

interpretation fm_map: bounded_map "fm_ops cap assignable" "fm_abs cap lt" "same_rank lt" cap
proof (unfold_locales, goal_cases)
  case (1 s A n k)
  then show ?case
    by (elim fm_absE) (simp add: fm_ops_def fm_find_def order_laws(1) fm_contents_def)
next
  case (2 s A n k v)
  then show ?case
  proof (elim fm_absE)
    fix xs
    assume o: "strict_weak_order lt" and s: "s = fl_of cap lt xs" "flat_sorted lt fst xs" "length xs \<le> cap"
      and A: "A = fm_contents lt xs" "n = length xs" "A k = None" "n < cap"
    then have k: "\<not> holds_key lt fst k xs" by (simp add: fm_contents_None)
    show ?thesis using order_laws(2) [OF o s(2) _ k, of cap id assignable v] s(1) A by (simp add: fm_ops_def)
  qed
next
  case (3 s A n k v)
  then show ?case
    by (elim fm_absE) (simp add: fm_ops_def fm_try_emplace_def quiet_def order_laws(3) fm_contents_None)
next
  case (4 s A n k v)
  then show ?case
  proof (elim fm_absE)
    fix xs
    assume o: "strict_weak_order lt" and s: "s = fl_of cap lt xs" "flat_sorted lt fst xs" "length xs \<le> cap"
      and A: "A = fm_contents lt xs" "n = length xs" "A k \<noteq> None"
    then have k: "holds_key lt fst k xs" by (simp add: fm_contents_None)
    let ?ys = "xs[lower lt fst k xs := (fst (xs ! lower lt fst k xs), v)]"
    have "fm_abs cap lt (fl_of cap lt ?ys) (map_put (same_rank lt) A k v) n"
      using order_laws(6,7) [OF o s(2)] k s(3) o A by (intro fm_absI) auto
    then show ?thesis using order_laws(4) [OF o s(2,3) k] s(1) by (simp add: fm_ops_def quiet_def)
  qed
next
  case (5 s A n k v)
  then show ?case
  proof (elim fm_absE)
    fix xs
    assume o: "strict_weak_order lt" and s: "s = fl_of cap lt xs" "flat_sorted lt fst xs" "length xs \<le> cap"
      and A: "A = fm_contents lt xs" "n = length xs" "A k = None" "n < cap"
    then have k: "\<not> holds_key lt fst k xs" by (simp add: fm_contents_None)
    show ?thesis
      using order_laws(2) [OF o s(2) _ k, of cap id assignable v] order_laws(5) [OF o s(2,3) k] s(1) A
      by (simp add: fm_ops_def quiet_def)
  qed
next
  case (6 s A n k v)
  then show ?case
    by (elim fm_absE)
      (simp add: fm_ops_def fm_try_emplace_def quiet_def order_laws(3,5) fm_contents_None)
next
  case (7 s A n k)
  then show ?case
  proof (elim fm_absE)
    fix xs
    assume o: "strict_weak_order lt" and s: "s = fl_of cap lt xs" "flat_sorted lt fst xs" "length xs \<le> cap"
      and A: "A = fm_contents lt xs" "n = length xs" "A k \<noteq> None"
    then have k: "holds_key lt fst k xs" by (simp add: fm_contents_None)
    have i: "lower lt fst k xs < length xs" using order_laws(11) [OF o s(2) k] by simp
    have "fm_abs cap lt (fl_of cap lt (del_at (lower lt fst k xs) xs)) (map_del (same_rank lt) A k) (n - 1)"
      using order_laws(10) [OF o s(2) k] flat_sorted_del [OF s(2)] s(3) o A i by (intro fm_absI) auto
    then show ?thesis
      using quiet_completes [OF order_laws(8) [OF o s(2,3) k]] s(1) by (simp add: fm_ops_def)
  qed
next
  case (8 s A n k)
  then show ?case
    by (elim fm_absE) (simp add: fm_ops_def quiet_def order_laws(9) fm_contents_None)
qed

end
