(* ===== verification/Flat_whole.thy ===== *)
theory Flat_whole
  imports Flat_spec Fixed_vector_spec
begin

text \<open>
  Copies, moves, swaps, comparison and \<^verbatim>\<open>erase_if\<close> of the flat containers, and the
  properties of both.
\<close>

lemma flat_swap_of:
  assumes "length xs \<le> cap" "length ys \<le> cap"
  shows "flat_swap (fl_of cap c1 xs) (fl_of cap c2 ys) = Inr (fl_of cap c2 ys, fl_of cap c1 xs)"
  using fv_swap_of [OF assms] by (simp add: flat_swap_def fl_of_def fv_of_def)

lemma flat_append_from_of:
  assumes "length ys \<le> cap'" "length ys \<le> cap"
  shows "flat_append_from (fl_of cap' c2 ys) (fl_of cap c1 []) = Inr (fl_of cap c1 ys)"
proof -
  let ?body = "\<lambda>i m. bnd (slot_get (fl_storage (fl_of cap' c2 ys)) i) (\<lambda>item.
       bnd (slot_new (fl_storage m) (fl_size m) item) (\<lambda>st.
         Inr (m\<lparr>fl_storage := st, fl_size := fl_size m + 1\<rparr>)))"
  have step: "?body i (fl_of cap c1 (take i ys)) = Inr (fl_of cap c1 (take (Suc i) ys))" if "i < length ys" for i
  proof -
    have "slot_new (packed (fv_slots cap) (take i ys)) i (ys ! i) = Inr (packed (fv_slots cap) (take i ys @ [ys ! i]))"
      using packed_new [of "take i ys" "fv_slots cap" "ys ! i"] that assms(2) by simp
    then show ?thesis using that assms by (simp add: fl_updateI take_Suc_conv_app_nth min_def)
  qed
  have "for_upto 0 (length ys) ?body (fl_of cap c1 (take 0 ys)) = Inr (fl_of cap c1 (take (length ys) ys))"
    by (rule for_upto_states) (use step in auto)
  then show ?thesis by (simp add: flat_append_from_def)
qed

lemma fl_comp_update [simp]: "(fl_of cap c1 xs)\<lparr>fl_comp := c2\<rparr> = fl_of cap c2 xs"
  by (simp add: fl_of_def)

lemma flat_eq_of:
  assumes "length xs \<le> cap" "length ys \<le> cap'"
  shows "flat_eq eq (fl_of cap c1 xs) (fl_of cap' c2 ys) = Inr (list_all2 eq xs ys)"
proof (cases "length xs = length ys")
  case True
  have "flat_eq_from eq i (fl_of cap c1 xs) (fl_of cap' c2 ys) = Inr (list_all2 eq (drop i xs) (drop i ys))"
    if "i \<le> length xs" for i
    using that
  proof (induction "length xs - i" arbitrary: i)
    case 0
    then show ?case using True by (subst flat_eq_from.simps) simp
  next
    case (Suc d)
    then have "i < length xs" by simp
    then show ?case
      using Suc.hyps(1) [of "Suc i"] Suc.hyps(2) True assms
      by (subst flat_eq_from.simps) (simp add: Cons_nth_drop_Suc [symmetric])
  qed
  from this [of 0] show ?thesis using True by (simp add: flat_eq_def)
next
  case False
  then show ?thesis by (auto simp: flat_eq_def dest: list_all2_lengthD)
qed

text \<open>A pairwise decision made by a total order compares the sequences lexicographically.\<close>

lemma flat_less_of:
  assumes "length xs \<le> cap" "length ys \<le> cap'"
    and "\<And>x y. decide x y = (if (x, y) \<in> R then Some True else if x = y then None else Some False)"
    and "\<And>x. (x, x) \<notin> R"
  shows "flat_less decide (fl_of cap c1 xs) (fl_of cap' c2 ys) = Inr ((xs, ys) \<in> lexord R)"
proof -
  let ?n = "min (length xs) (length ys)"
  have "flat_less_from decide i ?n (fl_of cap c1 xs) (fl_of cap' c2 ys) =
      Inr ((drop i xs, drop i ys) \<in> lexord R)" if "i \<le> ?n" for i
    using that
  proof (induction "?n - i" arbitrary: i)
    case 0
    then have "i = ?n" by simp
    have "(drop i xs, drop i ys) \<in> lexord R \<longleftrightarrow> length xs < length ys"
    proof (cases "length xs < length ys")
      case True
      then have "drop i xs = []" "drop i ys = ys ! i # drop (Suc i) ys"
        using \<open>i = ?n\<close> by (simp_all add: Cons_nth_drop_Suc)
      then show ?thesis using True by simp
    next
      case False
      then have "drop i ys = []" using \<open>i = ?n\<close> by simp
      then show ?thesis using False by simp
    qed
    then show ?case using \<open>i = ?n\<close> by (subst flat_less_from.simps) simp
  next
    case (Suc d)
    then have i: "i < length xs" "i < length ys" by auto
    then show ?case
      using Suc.hyps(1) [of "Suc i"] Suc.hyps(2) assms(1,2,4)
      by (subst flat_less_from.simps) (auto simp: assms(3) Cons_nth_drop_Suc [symmetric])
  qed
  moreover have "(if length xs < length ys then length xs else length ys) = ?n" by simp
  ultimately show ?thesis unfolding flat_less_def by (simp only: fl_of_simps) simp
qed

definition entry_order :: "(('k::linorder \<times> 'v::linorder) \<times> ('k \<times> 'v)) set" where
  "entry_order = {(x, y). fst x < fst y \<or> fst x = fst y \<and> snd x < snd y}"

lemma fm_less_of:
  fixes xs ys :: "('k::linorder \<times> 'v::linorder) list"
  assumes "length xs \<le> cap" "length ys \<le> cap'"
  shows "fm_less (<) (<) (fl_of cap c1 xs) (fl_of cap' c2 ys) = Inr ((xs, ys) \<in> lexord entry_order)"
  unfolding fm_less_def
  by (rule flat_less_of [OF assms]) (auto simp: decide_map_def entry_order_def prod_eq_iff)

lemma fs_less_of:
  fixes xs ys :: "'k::linorder list"
  assumes "length xs \<le> cap" "length ys \<le> cap'"
  shows "fs_less (<) (fl_of cap c1 xs) (fl_of cap' c2 ys) = Inr ((xs, ys) \<in> lexord {(a, b). a < b})"
  unfolding fs_less_def
  by (rule flat_less_of [OF assms]) (auto simp: decide_set_def)

text \<open>
  What a throwing \<^verbatim>\<open>erase_if\<close> can leave of sorted elements: none, or a sorted rest of which one
  element is the husk that the move out of its slot left.
\<close>

definition erase_if_torn ::
  "('e \<Rightarrow> 'e) \<Rightarrow> ('k \<Rightarrow> 'k \<Rightarrow> bool) \<Rightarrow> ('e \<Rightarrow> 'k) \<Rightarrow> 'e list \<Rightarrow> 'e list \<Rightarrow> bool" where
  "erase_if_torn husk lt ky xs ys \<longleftrightarrow> ys = [] \<or>
     (\<exists>zs i. ys = torn_erase husk i zs \<and> i < length zs \<and> set zs \<subseteq> set xs \<and> length zs \<le> length xs \<and>
        (flat_sorted lt ky xs \<longrightarrow> flat_sorted lt ky zs))"

lemma erase_if_torn_del:
  assumes "erase_if_torn husk lt ky (del_at i xs) ys"
  shows "erase_if_torn husk lt ky xs ys"
proof -
  have "set (del_at i xs) \<subseteq> set xs" "length (del_at i xs) \<le> length xs"
    using set_take_subset [of i xs] set_drop_subset [of "Suc i" xs] by (auto simp: del_at_def)
  note del = this flat_sorted_del [of lt ky xs i]
  consider "ys = []" | zs j where "ys = torn_erase husk j zs" "j < length zs" "set zs \<subseteq> set (del_at i xs)"
    "length zs \<le> length (del_at i xs)" "flat_sorted lt ky (del_at i xs) \<longrightarrow> flat_sorted lt ky zs"
    using assms unfolding erase_if_torn_def by blast
  then show ?thesis
  proof cases
    case (2 zs j)
    then have "set zs \<subseteq> set xs" "length zs \<le> length xs" "flat_sorted lt ky xs \<longrightarrow> flat_sorted lt ky zs"
      using del by auto
    then show ?thesis using 2(1,2) unfolding erase_if_torn_def by blast
  qed (simp add: erase_if_torn_def)
qed

lemma flat_erase_if_from_of:
  assumes "i \<le> length xs" "length xs \<le> cap"
  shows "(\<exists>f'. flat_erase_if_from husk pred i n f (fl_of cap cmp xs) =
        Inr (Returned (n + length (filter pred (drop i xs))), f',
             fl_of cap cmp (take i xs @ filter (\<lambda>e. \<not> pred e) (drop i xs))) \<and> (f = None \<longrightarrow> f' = None)) \<or>
    f \<noteq> None \<and> (\<exists>f' ys. flat_erase_if_from husk pred i n f (fl_of cap cmp xs) = Inr (Threw, f', fl_of cap cmp ys) \<and>
        erase_if_torn husk lt ky xs ys)"
  using assms
proof (induction "length xs - i" arbitrary: i xs n f)
  case 0
  then show ?case by (subst (1 2) flat_erase_if_from.simps) auto
next
  case (Suc d)
  then have i: "i < length xs" by simp
  let ?run = "flat_erase_if_from husk pred i n f (fl_of cap cmp xs)"
  have drop: "drop i xs = xs ! i # drop (Suc i) xs" using i by (simp add: Cons_nth_drop_Suc)
  have get: "slot_get (fl_storage (fl_of cap cmp xs)) i = Inr (xs ! i)" using i Suc.prems by simp
  show ?case
  proof (cases "pred (xs ! i)")
    case False
    then have run: "?run = flat_erase_if_from husk pred (i + 1) n f (fl_of cap cmp xs)"
      using i get by (subst flat_erase_if_from.simps) simp
    have "take (Suc i) xs = take i xs @ [xs ! i]" using i by (rule take_Suc_conv_app_nth)
    then show ?thesis
      using Suc.hyps(1) [of xs "i + 1" n f] Suc.hyps(2) Suc.prems i False unfolding run drop by simp
  next
    case True
    let ?ys = "del_at i xs"
    have ys: "length ?ys = length xs - 1" "take i ?ys = take i xs" "drop i ?ys = drop (Suc i) xs"
      using i by (auto simp: del_at_def)
    have erase: "completes_or_clears (erase_at husk i) cap cmp xs () ?ys (torn_erase husk i xs)"
      using erase_at_of [OF i Suc.prems(2)] by (simp add: del_at_def)
    from erase [unfolded completes_or_clears_def, rule_format, of f] show ?thesis
    proof (elim disjE conjE exE)
      fix f1
      assume e: "erase_at husk i f (fl_of cap cmp xs) = Inr (Returned (), f1, fl_of cap cmp ?ys)" "f = None \<longrightarrow> f1 = None"
      have at: "\<not> i < length xs - 1 \<Longrightarrow> length xs - 1 = i" using i by linarith
      have run: "?run = flat_erase_if_from husk pred i (n + 1) f1 (fl_of cap cmp ?ys)"
        using i get e(1) True ys(1) at by (subst flat_erase_if_from.simps) auto
      have IH: "d = length ?ys - i" "i \<le> length ?ys" "length ?ys \<le> cap" using ys(1) Suc.hyps(2) Suc.prems i by auto
      show ?thesis
        using Suc.hyps(1) [OF IH, of "n + 1" f1] e(2) erase_if_torn_del [of husk lt ky i xs] True ys
        unfolding run drop by fastforce
    next
      fix f1
      assume t: "f \<noteq> None" "erase_at husk i f (fl_of cap cmp xs) = Inr (Threw, f1, fl_of cap cmp (torn_erase husk i xs))"
      then have "?run = Inr (Threw, f1, fl_of cap cmp (torn_erase husk i xs))"
        using i get True by (subst flat_erase_if_from.simps) simp
      moreover have "erase_if_torn husk lt ky xs (torn_erase husk i xs)"
        using i unfolding erase_if_torn_def by blast
      ultimately show ?thesis using t(1) by blast
    next
      fix f1
      assume t: "f \<noteq> None" "erase_at husk i f (fl_of cap cmp xs) = Inr (Threw, f1, fl_of cap cmp [])"
      then have "?run = Inr (Threw, f1, fl_of cap cmp [])"
        using i get True by (subst flat_erase_if_from.simps) simp
      then show ?thesis using t(1) by (auto simp: erase_if_torn_def)
    qed
  qed
qed

lemma flat_erase_pos_of:
  assumes "i < length xs" "length xs \<le> cap" "0 < sizeof"
  shows "completes_or_clears (flat_erase_pos husk sizeof (i * sizeof)) cap cmp xs i (del_at i xs) (torn_erase husk i xs)"
proof -
  have "position_index sizeof (i * sizeof) (fl_of cap cmp xs) = Inr i"
    using assms by (simp add: position_index_def METL_HARDEN_def)
  then show ?thesis
    using erase_at_of [OF assms(1,2), of husk cmp, folded del_at_def] assms(1)
    by (intro completes_then [where act = "erase_at husk i" and r = "()"
          and k = "\<lambda>_ f1 m1. Inr (Returned (if i < fl_size m1 then i else fl_size m1), f1, m1)"])
      (auto simp: flat_erase_pos_def)
qed

lemma position_refused:
  assumes "\<not> (\<exists>i < fl_size m. offset = i * sizeof)" "0 < sizeof"
  shows "flat_erase_pos husk sizeof offset f m = Inl Check_failed"
proof -
  have "offset div sizeof < fl_size m" if "offset < fl_size m * sizeof"
    using that by (simp add: less_mult_imp_div_less)
  then have "\<not> (offset < fl_size m * sizeof \<and> offset mod sizeof = 0)"
    using assms by (metis div_mult_mod_eq add_0_right)
  then show ?thesis by (auto simp: flat_erase_pos_def position_index_def METL_HARDEN_def)
qed

section \<open>Properties\<close>

text \<open>
  C19: A client program of \<^verbatim>\<open>flat_map\<close>, any sequence of lookups, insertions,
  insert-or-assigns and erasures on a map of any capacity, with either kind of
  relocation, observes exactly what a bounded finite map shows, up to the equivalence
  of the comparator.
\<close>

theorem flat_map_programs_observe_map:
  assumes "strict_weak_order lt"
  shows "bnd (map_run (fm_ops cap assignable) calls (flat_empty cap lt)) (\<lambda>p. Inr (fst p))
           = Inr (spec_run (same_rank lt) cap calls (\<lambda>_. None) 0)"
proof (rule fm_map.run_observes_spec)
  show "fm_abs cap lt (flat_empty cap lt) (\<lambda>_. None) 0"
    unfolding flat_empty_of
    by (rule fm_absI) (use assms in \<open>auto simp: flat_sorted_def fm_contents_def flat_lookup_def\<close>)
qed

theorem flat_map_programs_observe_map_witness:
  "bnd (map_run (fm_ops 2 False)
          [Try_emplace 5 (50 :: nat), Try_emplace 1 10, Try_emplace 9 90, Erase 1, Try_insert_or_assign 9 91, Find 5, Find (1 :: nat)]
          (flat_empty 2 std_less)) (\<lambda>p. Inr (fst p))
     = Inr [Did True, Did True, Did False, Did True, Did True, Found (Some 50), Found (None :: nat option)]"
  using flat_map_programs_observe_map [OF std_less.strict_weak_order_axioms, of 2 False
      "[Try_emplace 5 (50 :: nat), Try_emplace 1 10, Try_emplace 9 90, Erase 1, Try_insert_or_assign 9 91, Find 5, Find (1 :: nat)]"]
  by (simp add: map_put_def map_del_def same_rank_def std_less_def)

text \<open>
  C20: Element moves that throw, at any point of any operation. An insertion or an
  erasure of a flat container completes, with the elements sorted and unique, or
  empties the container, every slot destroyed exactly once, or it is stopped by the
  move before the shift, which no handler guards: then the container keeps its
  elements, but the last one, or the one to be erased, is the husk that move has left.
  \<^verbatim>\<open>erase_if\<close> does the same to a sorted rest. For elements whose throwing move leaves its
  source intact this is unchanged or empty; a throwing construction changes nothing.
\<close>

theorem flat_exception_safety:
  assumes "strict_weak_order lt" "flat_sorted lt ky xs" "length xs \<le> cap" "ky e = key"
  shows "(\<not> holds_key lt ky key xs \<and> length xs < cap \<longrightarrow>
       completes_or_clears (flat_try_emplace ky husk cap assignable key (Builds e)) cap lt xs True
         (put_at (lower lt ky key xs) e xs) (torn_insert husk assignable (lower lt ky key xs) xs) \<and>
       completes_or_clears (flat_emplace ky husk cap assignable key (Builds e)) cap lt xs (lower lt ky key xs)
         (put_at (lower lt ky key xs) e xs) (torn_insert husk assignable (lower lt ky key xs) xs) \<and>
       flat_sorted lt ky (put_at (lower lt ky key xs) e xs) \<and>
       flat_try_emplace ky husk cap assignable key Throws f (fl_of cap lt xs) = Inr (Threw, f, fl_of cap lt xs)) \<and>
     (holds_key lt ky key xs \<longrightarrow>
       completes_or_clears (flat_erase ky husk key) cap lt xs True (del_at (lower lt ky key xs) xs)
         (torn_erase husk (lower lt ky key xs) xs) \<and>
       flat_sorted lt ky (del_at (lower lt ky key xs) xs)) \<and>
     ((\<exists>f'. flat_erase_if husk pred f (fl_of cap lt xs) =
         Inr (Returned (length (filter pred xs)), f', fl_of cap lt (filter (\<lambda>e. \<not> pred e) xs))) \<or>
      f \<noteq> None \<and> (\<exists>f' ys. flat_erase_if husk pred f (fl_of cap lt xs) = Inr (Threw, f', fl_of cap lt ys) \<and>
         erase_if_torn husk lt ky xs ys)) \<and>
     ((\<forall>e. husk e = e) \<longrightarrow> torn_insert husk assignable i xs = xs \<and> torn_erase husk i xs = xs \<and>
       (\<forall>ys. erase_if_torn husk lt ky xs ys \<longrightarrow> flat_sorted lt ky ys))"
proof -
  note laws = strict_weak_order.flat_try_emplace_new [OF assms(1,2)] strict_weak_order.flat_emplace_new [OF assms(1,2)]
    strict_weak_order.flat_sorted_put [OF assms(1,2)] strict_weak_order.flat_try_emplace_ctor_throws [OF assms(1,2)]
    strict_weak_order.flat_erase_present [OF assms(1-3)] flat_sorted_del [OF assms(2)]
  have "flat_sorted lt ky ys" if "\<forall>e. husk e = e" "erase_if_torn husk lt ky xs ys" for ys
    using that(2) assms(2) torn_intact(1) [OF that(1)] by (auto simp: erase_if_torn_def flat_sorted_def)
  then show ?thesis
    using laws assms(2,4) flat_erase_if_from_of [of 0 xs cap husk pred 0 f lt lt ky] assms(3) torn_intact [of husk]
    unfolding flat_erase_if_def by auto
qed

theorem flat_exception_safety_witness:
  "completes_or_clears (flat_erase id (\<lambda>_. 0) 2) 3 std_less [1, 2, 3 :: nat] True [1, 3] [1, 0, 3]"
  using flat_exception_safety [OF std_less.strict_weak_order_axioms, of id "[1, 2, 3 :: nat]" 3 2 2 "\<lambda>_. 0"]
  by (simp add: flat_sorted_def holds_key_def lower_def del_at_def torn_erase_def std_less_def numeral_2_eq_2)

text \<open>
  A map that is neither unchanged nor empty after a throw: inserting the key 1 moves the
  last entry first, the key of that entry is moved out before the move of its value
  throws, and the map is left with its keys out of order.
\<close>

lemma flat_map_throw_breaks_order:
  "fm_try_emplace (\<lambda>(k, v). (0, v)) 3 True 1 (Builds (10 :: nat)) (Some 0) (fl_of 3 std_less [(2 :: nat, 20), (5, 50)]) =
     Inr (Threw, None, fl_of 3 std_less [(2, 20), (0, 50)])"
  by (simp add: fm_try_emplace_def make_entry_def flat_try_emplace_def lower_bound_index_def lower_from.simps flat_match_def
      try_insert_at_def insert_shifting_def fl_of_def packed_def fv_slots_def slot_get_def slot_assign_def std_less_def
      Let_def eval_nat_numeral)

text \<open>
  C21: \<^verbatim>\<open>flat_set\<close> holds a sorted sequence of pairwise inequivalent keys: lookups find
  the stored key equivalent to the argument, \<^verbatim>\<open>lower_bound\<close>, \<^verbatim>\<open>upper_bound\<close> and
  \<^verbatim>\<open>equal_range\<close> return the boundaries of the elements below and not above it, a
  duplicate or a full set refuses \<^verbatim>\<open>try_emplace\<close> unchanged and stops \<^verbatim>\<open>emplace\<close>, and erasing at
  an iterator accepts exactly the element positions (what a move that throws leaves is as in
  the insertions and erasures above).
\<close>

theorem flat_set_ordered_queries:
  assumes "strict_weak_order lt" "flat_sorted lt id xs" "length xs \<le> cap"
  shows "fs_contains (fl_of cap lt xs) key = Inr (holds_key lt id key xs) \<and>
     fs_find (fl_of cap lt xs) key = Inr (flat_lookup lt id xs key) \<and>
     fs_equal_range (fl_of cap lt xs) key = Inr (lower lt id key xs, upper lt id key xs) \<and>
     (\<forall>i. i < length xs \<longrightarrow> (lt (xs ! i) key \<longleftrightarrow> i < lower lt id key xs) \<and>
        (\<not> lt key (xs ! i) \<longleftrightarrow> i < upper lt id key xs)) \<and>
     fs_upper_bound_index (fl_of cap lt xs) key = Inr (upper lt id key xs) \<and>
     (holds_key lt id key xs \<or> length xs = cap \<longrightarrow>
        fs_try_emplace husk cap a key c f (fl_of cap lt xs) = Inr (Returned False, f, fl_of cap lt xs) \<and>
        fs_emplace husk cap a key c f (fl_of cap lt xs) = Inl Check_failed) \<and>
     (0 < sizeof \<longrightarrow>
        (\<forall>i. i < length xs \<longrightarrow>
           completes_or_clears (fs_erase_pos husk sizeof (i * sizeof)) cap lt xs i (del_at i xs) (torn_erase husk i xs)) \<and>
        (\<not> (\<exists>i < length xs. offset = i * sizeof) \<longrightarrow> fs_erase_pos husk sizeof offset f (fl_of cap lt xs) = Inl Check_failed))"
proof -
  note find = strict_weak_order.flat_find_of [OF assms, of key]
  have "fs_contains (fl_of cap lt xs) key = Inr (holds_key lt id key xs)"
    using find lookup_None_iff [of lt id xs key] by (simp add: flat_set_defs del: not_None_eq)
  moreover have "fs_equal_range (fl_of cap lt xs) key = Inr (lower lt id key xs, upper lt id key xs)"
    using strict_weak_order.equal_range_of [OF assms, of key] by (simp add: flat_set_defs equal_range_def)
  moreover have "\<forall>i. i < length xs \<longrightarrow> (lt (xs ! i) key \<longleftrightarrow> i < lower lt id key xs) \<and>
        (\<not> lt key (xs ! i) \<longleftrightarrow> i < upper lt id key xs)"
    using strict_weak_order.below_lower [OF assms(1,2)] strict_weak_order.below_upper [OF assms(1,2)] by auto
  moreover have "holds_key lt id key xs \<or> length xs = cap \<longrightarrow>
        fs_try_emplace husk cap a key c f (fl_of cap lt xs) = Inr (Returned False, f, fl_of cap lt xs) \<and>
        fs_emplace husk cap a key c f (fl_of cap lt xs) = Inl Check_failed"
    using strict_weak_order.flat_try_emplace_refused [OF assms] strict_weak_order.flat_emplace_refused [OF assms]
    by (auto simp: flat_set_defs)
  moreover have "fs_find (fl_of cap lt xs) key = Inr (flat_lookup lt id xs key)"
    "fs_upper_bound_index (fl_of cap lt xs) key = Inr (upper lt id key xs)"
    using find strict_weak_order.upper_bound_index_of [OF assms, of key] by (simp_all add: flat_set_defs)
  ultimately show ?thesis
    using flat_erase_pos_of [OF _ assms(3)] position_refused [of "fl_of cap lt xs" offset sizeof husk f]
    unfolding fs_erase_pos_def by (simp only: fl_of_simps) blast
qed

theorem flat_set_ordered_queries_witness:
  "fs_equal_range (fl_of 3 std_less [2, 4, 6 :: nat]) 4 = Inr (1, 2) \<and>
   fs_erase_pos id 4 13 None (fl_of 3 std_less [2, 4, 6 :: nat]) = Inl Check_failed"
  using flat_set_ordered_queries [OF std_less.strict_weak_order_axioms, of "[2, 4, 6 :: nat]" 3 4 id True "Builds 4" None 4 13]
  by (simp add: flat_sorted_def std_less_def lower_def upper_def)

text \<open>
  C22: On whole flat containers: \<^verbatim>\<open>swap\<close> exchanges elements and comparators, copies and
  assignments reproduce elements and comparator, a moved-from container is empty,
  \<^verbatim>\<open>clear\<close> destroys every element, and \<^verbatim>\<open>==\<close> and \<^verbatim>\<open><\<close> compare maps by key and then value
  and sets by element, lexicographically and whatever the capacities.
\<close>

theorem flat_whole_containers:
  fixes xs ys :: "('k::linorder \<times> 'v::linorder) list" and us vs :: "'k list" and c1 c2 gone :: "'k \<Rightarrow> 'k \<Rightarrow> bool"
  assumes "length xs \<le> cap" "length ys \<le> cap" "length us \<le> cap" "length vs \<le> cap"
  shows "flat_swap (fl_of cap c1 xs) (fl_of cap c2 ys) = Inr (fl_of cap c2 ys, fl_of cap c1 xs) \<and>
     flat_copy cap (fl_of cap c1 xs) = Inr (fl_of cap c1 xs) \<and>
     flat_move cap gone (fl_of cap c1 xs) = Inr (fl_of cap c1 xs, fl_of cap gone []) \<and>
     flat_copy_assign (fl_of cap c1 xs) (fl_of cap c2 ys) = Inr (fl_of cap c2 ys) \<and>
     flat_move_assign gone (fl_of cap c1 xs) (fl_of cap c2 ys) = Inr (fl_of cap c2 ys, fl_of cap gone []) \<and>
     flat_clear (fl_of cap c1 xs) = Inr (flat_empty cap c1) \<and>
     fm_eq (=) (=) (fl_of cap c1 xs) (fl_of cap c1 ys) = Inr (xs = ys) \<and>
     fm_less (<) (<) (fl_of cap c1 xs) (fl_of cap c1 ys) = Inr ((xs, ys) \<in> lexord entry_order) \<and>
     fs_swap (fl_of cap c1 us) (fl_of cap c2 vs) = Inr (fl_of cap c2 vs, fl_of cap c1 us) \<and>
     fs_copy cap (fl_of cap c1 us) = Inr (fl_of cap c1 us) \<and>
     fs_move cap gone (fl_of cap c1 us) = Inr (fl_of cap c1 us, fl_of cap gone []) \<and>
     fs_eq (=) (fl_of cap c1 us) (fl_of cap c1 vs) = Inr (us = vs) \<and>
     fs_less (<) (fl_of cap c1 us) (fl_of cap c1 vs) = Inr ((us, vs) \<in> lexord {(a, b). a < b})"
proof -
  have "list_all2 (\<lambda>x y. \<not> (\<not> fst x = fst y \<or> \<not> snd x = snd y)) xs ys \<longleftrightarrow> xs = ys"
    by (simp add: prod_eq_iff [symmetric] list.rel_eq)
  then have "fm_eq (=) (=) (fl_of cap c1 xs) (fl_of cap c1 ys) = Inr (xs = ys)"
    by (simp add: fm_eq_def flat_eq_of assms)
  then show ?thesis
    using assms
    by (simp add: flat_swap_of flat_copy_def flat_move_def flat_copy_assign_def flat_move_assign_def flat_empty_of
        flat_append_from_of flat_clear_of fm_less_of fs_less_of flat_eq_of list.rel_eq fs_swap_def fs_copy_def
        fs_move_def fs_eq_def)
qed

theorem flat_whole_containers_witness:
  "flat_swap (fl_of 3 (std_less :: nat \<Rightarrow> nat \<Rightarrow> bool) [(1 :: nat, 2 :: nat), (3, 4)]) (fl_of 3 std_greater [(5, 6)]) =
     Inr (fl_of 3 std_greater [(5, 6)], fl_of 3 std_less [(1, 2), (3, 4)]) \<and>
   fs_less (<) (fl_of 3 (std_less :: nat \<Rightarrow> nat \<Rightarrow> bool) [1, 2 :: nat]) (fl_of 3 std_less [1, 3]) = Inr True"
  using flat_whole_containers [of "[(1 :: nat, 2 :: nat), (3, 4)]" 3 "[(5, 6)]" "[1, 2]" "[1, 3]" std_less std_greater std_less] by simp

end
