(* ===== verification/Handle.thy ===== *)
theory Handle
  imports Bits
begin

text \<open>
  \<^verbatim>\<open>versioned_handle.hpp\<close>: an index of type \<open>'i word\<close> and a generation of type \<open>'g word\<close>
  packed into one \<open>'p word\<close>. The widths are the template parameters \<^verbatim>\<open>IndexT\<close> and
  \<^verbatim>\<open>GenT\<close> and the \<^verbatim>\<open>packed_type\<close> chosen for them, which is at least as wide as both
  together (\<open>fields_fit\<close>). \<^verbatim>\<open>Tag\<close> has no run-time content.
\<close>

record (overloaded) 'p versioned_handle =
  vh_value :: "'p::len word"

definition fields_fit :: "'i::len itself \<Rightarrow> 'g::len itself \<Rightarrow> 'p::len itself \<Rightarrow> bool" where
  "fields_fit ti tg tp \<longleftrightarrow> LENGTH('i) + LENGTH('g) \<le> LENGTH('p)"

definition value_mask :: "'i::len itself \<Rightarrow> 'g::len itself \<Rightarrow> 'p::len word" where
  "value_mask ti tg = low_bits (LENGTH('i) + LENGTH('g))"

definition pack :: "'i::len word \<Rightarrow> 'g::len word \<Rightarrow> 'p::len word" where
  "pack index generation = ucast index OR push_bit LENGTH('i) (ucast generation)"

definition canonical :: "'i::len itself \<Rightarrow> 'g::len itself \<Rightarrow> 'p::len word \<Rightarrow> 'p word" where
  "canonical ti tg raw =
     (let value = raw AND value_mask ti tg;
          keep = 0 - (if drop_bit LENGTH('i) value \<noteq> 0 then 1 else 0)
      in value AND keep)"

definition vh_null :: "'p::len versioned_handle" where
  "vh_null = \<lparr>vh_value = 0\<rparr>"

definition vh_make :: "'i::len word \<Rightarrow> 'g::len word \<Rightarrow> 'p::len versioned_handle" where
  "vh_make index generation =
     \<lparr>vh_value = canonical TYPE('i) TYPE('g) (pack index generation)\<rparr>"

definition vh_issued ::
  "hardening \<Rightarrow> 'i::len word \<Rightarrow> 'g::len word \<Rightarrow> 'p::len versioned_handle outcome" where
  "vh_issued h index generation =
     METL_DASSERT h (generation \<noteq> 0) (Inr (\<lparr>vh_value = pack index generation\<rparr>))"

definition vh_from_packed ::
  "'i::len itself \<Rightarrow> 'g::len itself \<Rightarrow> 'p::len word \<Rightarrow> 'p versioned_handle" where
  "vh_from_packed ti tg packed = \<lparr>vh_value = canonical ti tg packed\<rparr>"

definition vh_packed :: "'p::len versioned_handle \<Rightarrow> 'p word" where
  "vh_packed h = vh_value h"

definition vh_index :: "'p::len versioned_handle \<Rightarrow> 'i::len word" where
  "vh_index h = ucast (vh_value h AND ucast (NOT 0 :: 'i word))"

definition vh_generation :: "'i::len itself \<Rightarrow> 'p::len versioned_handle \<Rightarrow> 'g::len word" where
  "vh_generation ti h = ucast (drop_bit LENGTH('i) (vh_value h))"

definition vh_valid :: "'i::len itself \<Rightarrow> 'g::len itself \<Rightarrow> 'p::len versioned_handle \<Rightarrow> bool" where
  "vh_valid ti tg h \<longleftrightarrow> (vh_generation ti h :: 'g word) \<noteq> 0"

definition vh_eq :: "'p::len versioned_handle \<Rightarrow> 'p versioned_handle \<Rightarrow> bool" where
  "vh_eq lhs rhs \<longleftrightarrow> vh_value lhs = vh_value rhs"

definition vh_less :: "'p::len versioned_handle \<Rightarrow> 'p versioned_handle \<Rightarrow> bool" where
  "vh_less lhs rhs \<longleftrightarrow> vh_value lhs < vh_value rhs"

section \<open>Fields\<close>

lemma value_mask_eq: "value_mask ti tg = mask (LENGTH('i) + LENGTH('g))"
  for ti :: "'i::len itself" and tg :: "'g::len itself"
  by (rule bit_word_eqI) (simp add: value_mask_def low_bits_def mask_eq_exp_minus_1 [symmetric] bit_mask_iff push_bit_of_1)

lemma bit_value_mask [simp]:
  "bit (value_mask ti tg :: 'p::len word) n \<longleftrightarrow> n < LENGTH('i) + LENGTH('g) \<and> n < LENGTH('p)"
  for ti :: "'i::len itself" and tg :: "'g::len itself"
  by (auto simp: value_mask_eq bit_mask_iff)

lemma bit_pack:
  "bit (pack i g :: 'p::len word) n \<longleftrightarrow> n < LENGTH('p) \<and> (bit i n \<or> LENGTH('i) \<le> n \<and> bit g (n - LENGTH('i)))"
  for i :: "'i::len word" and g :: "'g::len word"
  by (auto simp: pack_def bit_or_iff bit_push_bit_iff bit_ucast_iff)

lemma canonical_cases:
  "canonical ti tg raw =
     (if drop_bit LENGTH('i) (raw AND value_mask ti tg) = 0 then 0 else raw AND value_mask ti tg)"
  for ti :: "'i::len itself"
  by (simp add: canonical_def Let_def)

lemma bit_index [simp]: "bit (vh_index h :: 'i::len word) n \<longleftrightarrow> n < LENGTH('i) \<and> bit (vh_value h) n"
  by (auto simp: vh_index_def bit_ucast_iff bit_and_iff bit_not_iff dest: bit_imp_le_length)

lemma bit_generation [simp]:
  "bit (vh_generation ti h :: 'g::len word) n \<longleftrightarrow> n < LENGTH('g) \<and> bit (vh_value h) (LENGTH('i::len) + n)"
  for ti :: "'i::len itself"
  by (auto simp: vh_generation_def bit_ucast_iff bit_drop_bit_eq)

text \<open>The values a handle can have: no bits outside the fields, and all zero without a generation.\<close>

definition vh_ok :: "'i::len itself \<Rightarrow> 'g::len itself \<Rightarrow> 'p::len versioned_handle \<Rightarrow> bool" where
  "vh_ok ti tg h \<longleftrightarrow> canonical ti tg (vh_value h) = vh_value h"

lemma canonical_idem [simp]: "canonical ti tg (canonical ti tg raw) = canonical ti tg raw"
  by (simp add: canonical_cases and.assoc)

lemma vh_ok_made [simp]:
  "vh_ok ti tg vh_null" "vh_ok TYPE('i) TYPE('g) (vh_make i g)" "vh_ok ti tg (vh_from_packed ti tg raw)"
  for i :: "'i::len word" and g :: "'g::len word"
  by (simp_all add: vh_ok_def vh_null_def vh_make_def vh_from_packed_def) (simp add: canonical_cases)

lemma word_zero_bits: "w = 0 \<longleftrightarrow> (\<forall>n. \<not> bit w n)" for w :: "'a::len word"
  by (auto intro: bit_word_eqI)

lemma generation_zero_iff:
  fixes h :: "'p::len versioned_handle"
  assumes "fields_fit TYPE('i::len) TYPE('g::len) TYPE('p)"
  shows "(vh_generation TYPE('i) h :: 'g word) = 0 \<longleftrightarrow>
    drop_bit LENGTH('i) (vh_value h AND value_mask TYPE('i) TYPE('g)) = 0"
proof -
  have "bit (vh_generation TYPE('i) h :: 'g word) n \<longleftrightarrow>
      bit (drop_bit LENGTH('i) (vh_value h AND value_mask TYPE('i) TYPE('g))) n" for n
    using assms by (auto simp: bit_drop_bit_eq bit_and_iff fields_fit_def)
  then show ?thesis by (simp only: word_zero_bits)
qed

lemma pack_masked: "pack i g AND value_mask TYPE('i) TYPE('g) = (pack i g :: 'p::len word)"
  for i :: "'i::len word" and g :: "'g::len word"
  by (rule bit_word_eqI) (auto simp: bit_and_iff bit_pack dest: bit_imp_le_length)

lemma fields_of_pack:
  fixes i :: "'i::len word" and g :: "'g::len word" and h :: "'p::len versioned_handle"
  assumes "fields_fit TYPE('i) TYPE('g) TYPE('p)" "vh_value h = pack i g"
  shows "vh_index h = i \<and> vh_generation TYPE('i) h = g"
proof
  show "vh_index h = i"
    using assms by (intro bit_word_eqI) (auto simp: bit_pack fields_fit_def dest: bit_imp_le_length)
  show "vh_generation TYPE('i) h = g"
    using assms by (intro bit_word_eqI) (auto simp: bit_pack fields_fit_def dest: bit_imp_le_length)
qed

lemma make_cases:
  fixes i :: "'i::len word" and g :: "'g::len word"
  assumes "fields_fit TYPE('i) TYPE('g) TYPE('p::len)"
  shows "(vh_make i g :: 'p versioned_handle) = (if g = 0 then vh_null else \<lparr>vh_value = pack i g\<rparr>)"
proof -
  have "(vh_generation TYPE('i) (\<lparr>vh_value = pack i g\<rparr> :: 'p versioned_handle) :: 'g word) = g"
    using fields_of_pack [OF assms] by simp
  then show ?thesis
    using generation_zero_iff [OF assms, of "\<lparr>vh_value = pack i g\<rparr>"]
    by (simp add: vh_make_def vh_null_def canonical_cases pack_masked)
qed

lemma ok_null_or_packed:
  fixes h :: "'p::len versioned_handle"
  assumes "fields_fit TYPE('i::len) TYPE('g::len) TYPE('p)" "vh_ok TYPE('i) TYPE('g) h"
  shows "h = vh_make (vh_index h :: 'i word) (vh_generation TYPE('i) h :: 'g word)"
proof (cases "(vh_generation TYPE('i) h :: 'g word) = 0")
  case True
  then have "vh_value h = 0"
    using generation_zero_iff [OF assms(1), of h] assms(2) by (simp add: vh_ok_def canonical_cases)
  then show ?thesis using True make_cases [OF assms(1)] by (simp add: vh_null_def)
next
  case False
  then have "vh_value h AND value_mask TYPE('i) TYPE('g) = vh_value h"
    using generation_zero_iff [OF assms(1), of h] assms(2) by (simp add: vh_ok_def canonical_cases split: if_splits)
  then have tail: "\<not> bit (vh_value h) n" if "LENGTH('i) + LENGTH('g) \<le> n" for n
    using that by (metis bit_and_iff bit_value_mask linorder_not_less)
  have "pack (vh_index h :: 'i word) (vh_generation TYPE('i) h :: 'g word) = vh_value h"
  proof (rule bit_word_eqI)
    fix n
    assume "n < LENGTH('p)"
    moreover have "n - LENGTH('i) < LENGTH('g)" if "LENGTH('i) \<le> n" "bit (vh_value h) n"
      using tail [of n] that by linarith
    ultimately show "bit (pack (vh_index h :: 'i word) (vh_generation TYPE('i) h :: 'g word) :: 'p word) n = bit (vh_value h) n"
      by (cases "n < LENGTH('i)") (auto simp: bit_pack)
  qed
  then show ?thesis using False make_cases [OF assms(1), of "vh_index h" "vh_generation TYPE('i) h"] by simp
qed

section \<open>Property\<close>

text \<open>
  C25: Packing and unpacking a handle are inverse, at every width of index and
  generation that fits the packed word: the fields come back as they went in, a
  handle survives \<^verbatim>\<open>packed\<close> and \<^verbatim>\<open>from_packed\<close>, every word becomes a handle of the one
  representation, generation 0 gives the one null handle whatever the index, an
  issuer's short construction builds the same handle, and \<^verbatim>\<open>==\<close> holds exactly when
  index and generation agree.
\<close>

theorem handle_packing_roundtrip:
  fixes i :: "'i::len word" and g :: "'g::len word" and h h' :: "'p::len versioned_handle"
  assumes "fields_fit TYPE('i) TYPE('g) TYPE('p)" "vh_ok TYPE('i) TYPE('g) h" "vh_ok TYPE('i) TYPE('g) h'"
  shows "(g \<noteq> 0 \<longrightarrow> vh_index (vh_make i g :: 'p versioned_handle) = i \<and>
        vh_issued lvl i g = Inr (vh_make i g :: 'p versioned_handle)) \<and>
     (vh_generation TYPE('i) (vh_make i g :: 'p versioned_handle) :: 'g word) = g \<and>
     vh_make i (0 :: 'g word) = (vh_null :: 'p versioned_handle) \<and>
     vh_from_packed TYPE('i) TYPE('g) (vh_packed h) = h \<and>
     vh_ok TYPE('i) TYPE('g) (vh_from_packed TYPE('i) TYPE('g) raw :: 'p versioned_handle) \<and>
     (vh_eq h h' \<longleftrightarrow> (vh_index h :: 'i word) = vh_index h' \<and>
        (vh_generation TYPE('i) h :: 'g word) = vh_generation TYPE('i) h') \<and>
     (\<not> vh_valid TYPE('i) TYPE('g) h \<longleftrightarrow> h = vh_null)"
proof -
  note make = make_cases [OF assms(1), of i g]
  have pack: "vh_index (\<lparr>vh_value = pack i g\<rparr> :: 'p versioned_handle) = i"
    "vh_generation TYPE('i) (\<lparr>vh_value = pack i g\<rparr> :: 'p versioned_handle) = g"
    using fields_of_pack [OF assms(1), of _ i g] by auto
  have null: "(vh_generation TYPE('i) (vh_null :: 'p versioned_handle) :: 'g word) = 0"
    by (simp add: vh_generation_def vh_null_def)
  have eq: "vh_eq h h' \<longleftrightarrow> (vh_index h :: 'i word) = vh_index h' \<and>
        (vh_generation TYPE('i) h :: 'g word) = vh_generation TYPE('i) h'"
    using ok_null_or_packed [OF assms(1,2)] ok_null_or_packed [OF assms(1,3)] unfolding vh_eq_def
    by (metis versioned_handle.equality unit.exhaust)
  have valid: "\<not> vh_valid TYPE('i) TYPE('g) h \<longleftrightarrow> h = vh_null"
    using ok_null_or_packed [OF assms(1,2)] make_cases [OF assms(1), of "vh_index h" "vh_generation TYPE('i) h"] null
    by (auto simp: vh_valid_def)
  show ?thesis
    using make pack null eq valid assms(2) make_cases [OF assms(1), of i 0]
    by (auto simp: vh_issued_def METL_DASSERT_def vh_from_packed_def vh_packed_def vh_ok_def)
qed

theorem handle_packing_roundtrip_witness:
  "vh_index (vh_make (7 :: 16 word) (3 :: 16 word) :: 32 versioned_handle) = (7 :: 16 word) \<and>
   vh_make (7 :: 16 word) (0 :: 16 word) = (vh_null :: 32 versioned_handle)"
  using handle_packing_roundtrip [of "vh_null :: 32 versioned_handle" vh_null "3 :: 16 word" "7 :: 16 word"]
  by (simp add: fields_fit_def)

end
