(* ===== verification/Handle_pool.thy ===== *)
theory Handle_pool
  imports Handle Fixed_vector
begin

text \<open>
  \<^verbatim>\<open>handle_pool.hpp\<close>: fixed storage whose free slots form a linked list through the
  slots themselves, with a generation counter per slot that is odd while the slot
  is live. A slot holds an object, a link written by \<^verbatim>\<open>set_link\<close>, or bytes nobody may
  read. \<open>'g\<close> is \<^verbatim>\<open>GenT\<close> and \<open>'p\<close> the packed type of the handles.
\<close>

datatype 'a pool_slot = Raw | Link "16 word" | Object 'a

record (overloaded) ('a, 'g) handle_pool =
  hp_storage :: "'a pool_slot list"
  hp_generation :: "'g::len word list"
  hp_free_head :: nat
  hp_free_tail :: nat
  hp_size :: nat

section \<open>Slots and links\<close>

definition hp_link :: "nat \<Rightarrow> ('a, 'g::len) handle_pool \<Rightarrow> nat outcome" where
  "hp_link index p =
     bnd (arr_get (hp_storage p) index) (\<lambda>s. case s of
       Link w \<Rightarrow> Inr (unat w) | _ \<Rightarrow> Inl Lifetime_violation)"

definition hp_set_link :: "nat \<Rightarrow> nat \<Rightarrow> ('a, 'g::len) handle_pool \<Rightarrow> ('a, 'g) handle_pool outcome" where
  "hp_set_link index succ p =
     bnd (arr_get (hp_storage p) index) (\<lambda>s. case s of
       Object _ \<Rightarrow> Inl Lifetime_violation
     | _ \<Rightarrow> bnd (arr_set (hp_storage p) index (Link (of_nat succ))) (\<lambda>st. Inr (p\<lparr>hp_storage := st\<rparr>)))"

definition hp_object :: "nat \<Rightarrow> ('a, 'g::len) handle_pool \<Rightarrow> 'a outcome" where
  "hp_object index p =
     bnd (arr_get (hp_storage p) index) (\<lambda>s. case s of
       Object v \<Rightarrow> Inr v | _ \<Rightarrow> Inl Lifetime_violation)"

text \<open>Placement new over bytes without an object; a constructor that throws leaves bytes.\<close>

definition hp_construct ::
  "nat \<Rightarrow> 'a ctor \<Rightarrow> ('a, 'g::len) handle_pool \<Rightarrow> (unit call \<times> ('a, 'g) handle_pool) outcome" where
  "hp_construct index c p =
     bnd (arr_get (hp_storage p) index) (\<lambda>s. case s of
       Object _ \<Rightarrow> Inl Lifetime_violation
     | _ \<Rightarrow> (case c of
           Builds v \<Rightarrow> bnd (arr_set (hp_storage p) index (Object v)) (\<lambda>st. Inr (Returned (), p\<lparr>hp_storage := st\<rparr>))
         | Throws \<Rightarrow> bnd (arr_set (hp_storage p) index Raw) (\<lambda>st. Inr (Threw, p\<lparr>hp_storage := st\<rparr>))))"

definition hp_destroy_object :: "nat \<Rightarrow> ('a, 'g::len) handle_pool \<Rightarrow> ('a, 'g) handle_pool outcome" where
  "hp_destroy_object index p =
     bnd (hp_object index p) (\<lambda>_.
     bnd (arr_set (hp_storage p) index Raw) (\<lambda>st. Inr (p\<lparr>hp_storage := st\<rparr>)))"

definition hp_bump :: "'g::len word \<Rightarrow> nat \<Rightarrow> ('a, 'g) handle_pool \<Rightarrow> ('a, 'g) handle_pool outcome" where
  "hp_bump d index p =
     bnd (arr_get (hp_generation p) index) (\<lambda>g.
     bnd (arr_set (hp_generation p) index (g + d)) (\<lambda>gs. Inr (p\<lparr>hp_generation := gs\<rparr>)))"

section \<open>Operations\<close>

definition hp_new :: "nat \<Rightarrow> ('a, 'g::len) handle_pool outcome" where
  "hp_new cap =
     for_upto 0 cap (\<lambda>i p.
       bnd (hp_set_link i (i + 1) p) (\<lambda>p1.
       bnd (arr_set (hp_generation p1) i 0) (\<lambda>gs. Inr (p1\<lparr>hp_generation := gs\<rparr>))))
       \<lparr>hp_storage = replicate (fv_slots cap) Raw, hp_generation = replicate (fv_slots cap) 0,
        hp_free_head = 0, hp_free_tail = (if cap = 0 then 0 else cap - 1), hp_size = 0\<rparr>"

text \<open>The destructor of \<^verbatim>\<open>return_on_unwind\<close> when the claim was not dismissed.\<close>

definition hp_return_on_unwind :: "nat \<Rightarrow> nat \<Rightarrow> ('a, 'g::len) handle_pool \<Rightarrow> ('a, 'g) handle_pool outcome" where
  "hp_return_on_unwind cap index p =
     bnd (hp_bump (- 1) index p) (\<lambda>p1.
     let p2 = p1\<lparr>hp_size := hp_size p1 - 1\<rparr>;
         p3 = (if hp_free_head p2 \<ge> cap then p2\<lparr>hp_free_tail := index\<rparr> else p2) in
     bnd (hp_set_link index (hp_free_head p3) p3) (\<lambda>p4. Inr (p4\<lparr>hp_free_head := index\<rparr>)))"

definition hp_try_emplace ::
  "hardening \<Rightarrow> nat \<Rightarrow> 'a ctor \<Rightarrow> ('a, 'g::len) handle_pool
     \<Rightarrow> ('p::len versioned_handle call \<times> ('a, 'g) handle_pool) outcome" where
  "hp_try_emplace h cap c p =
     (if hp_free_head p \<ge> cap then Inr (Returned vh_null, p)
      else let index = hp_free_head p in
        bnd (hp_link index p) (\<lambda>succ.
        bnd (hp_bump 1 index (p\<lparr>hp_free_head := succ\<rparr>)) (\<lambda>p1.
        bnd (hp_construct index c (p1\<lparr>hp_size := hp_size p1 + 1\<rparr>)) (\<lambda>(res, p2). case res of
            Threw \<Rightarrow> bnd (hp_return_on_unwind cap index p2) (\<lambda>p3. Inr (Threw, p3))
          | Returned _ \<Rightarrow>
              bnd (arr_get (hp_generation p2) index) (\<lambda>g.
              bnd (vh_issued h (of_nat index :: 16 word) g) (\<lambda>handle. Inr (Returned handle, p2)))))))"

definition hp_emplace ::
  "hardening \<Rightarrow> nat \<Rightarrow> 'a ctor \<Rightarrow> ('a, 'g::len) handle_pool
     \<Rightarrow> ('p::len versioned_handle call \<times> ('a, 'g) handle_pool) outcome" where
  "hp_emplace h cap c p =
     bnd (hp_try_emplace h cap c p) (\<lambda>(res, p1). case res of
         Threw \<Rightarrow> Inr (Threw, p1)
       | Returned handle \<Rightarrow> METL_ASSERT h (vh_valid TYPE(16) TYPE('g) handle) (Inr (Returned handle, p1)))"

definition hp_live_index :: "nat \<Rightarrow> 'p::len versioned_handle \<Rightarrow> ('a, 'g::len) handle_pool \<Rightarrow> nat outcome" where
  "hp_live_index cap handle p =
     (if (vh_generation TYPE(16) handle AND 1 :: 'g word) = 0 then Inr cap
      else let index = unat (vh_index handle :: 16 word) in
        if index \<ge> cap then Inr cap
        else bnd (arr_get (hp_generation p) index) (\<lambda>g.
               if g \<noteq> vh_generation TYPE(16) handle then Inr cap else Inr index))"

definition hp_get :: "nat \<Rightarrow> 'p::len versioned_handle \<Rightarrow> ('a, 'g::len) handle_pool \<Rightarrow> 'a option outcome" where
  "hp_get cap handle p =
     bnd (hp_live_index cap handle p) (\<lambda>index.
       if index < cap then bnd (hp_object index p) (\<lambda>v. Inr (Some v)) else Inr None)"

definition hp_contains :: "nat \<Rightarrow> 'p::len versioned_handle \<Rightarrow> ('a, 'g::len) handle_pool \<Rightarrow> bool outcome" where
  "hp_contains cap handle p = bnd (hp_live_index cap handle p) (\<lambda>index. Inr (index < cap))"

definition hp_append_free :: "nat \<Rightarrow> nat \<Rightarrow> ('a, 'g::len) handle_pool \<Rightarrow> ('a, 'g) handle_pool outcome" where
  "hp_append_free cap index p =
     bnd (hp_set_link index cap p) (\<lambda>p1.
     bnd (if hp_free_head p1 \<ge> cap then Inr (p1\<lparr>hp_free_head := index\<rparr>)
          else hp_set_link (hp_free_tail p1) index p1) (\<lambda>p2. Inr (p2\<lparr>hp_free_tail := index\<rparr>)))"

definition hp_release :: "nat \<Rightarrow> nat \<Rightarrow> ('a, 'g::len) handle_pool \<Rightarrow> ('a, 'g) handle_pool outcome" where
  "hp_release cap index p =
     bnd (hp_bump 1 index p) (\<lambda>p1.
     bnd (hp_destroy_object index (p1\<lparr>hp_size := hp_size p1 - 1\<rparr>)) (\<lambda>p2.
       hp_append_free cap index p2))"

definition hp_destroy ::
  "nat \<Rightarrow> 'p::len versioned_handle \<Rightarrow> ('a, 'g::len) handle_pool \<Rightarrow> (bool \<times> ('a, 'g) handle_pool) outcome" where
  "hp_destroy cap handle p =
     bnd (hp_live_index cap handle p) (\<lambda>index.
       if index \<ge> cap then Inr (False, p) else bnd (hp_release cap index p) (\<lambda>p1. Inr (True, p1)))"

definition hp_clear :: "nat \<Rightarrow> ('a, 'g::len) handle_pool \<Rightarrow> ('a, 'g) handle_pool outcome" where
  "hp_clear cap p =
     for_upto 0 cap (\<lambda>i p.
       bnd (arr_get (hp_generation p) i) (\<lambda>g. if g AND 1 \<noteq> 0 then hp_release cap i p else Inr p)) p"

definition hp_available :: "nat \<Rightarrow> ('a, 'g::len) handle_pool \<Rightarrow> nat" where
  "hp_available cap p = cap - hp_size p"

definition hp_generation_of :: "hardening \<Rightarrow> nat \<Rightarrow> nat \<Rightarrow> ('a, 'g::len) handle_pool \<Rightarrow> 'g word outcome" where
  "hp_generation_of h cap index p =
     METL_ASSERT h (index < cap) (bnd (arr_get (hp_generation p) index) (\<lambda>g. Inr (g OR 1)))"

end
