(* ===== verification/Handle_pool_spec.thy ===== *)
theory Handle_pool_spec
  imports Handle_pool
begin

text \<open>
  What \<^verbatim>\<open>handle_pool\<close> promises. A pool is abstracted to the objects by slot, the
  generation of every slot and the queue of free slots; the free list linked
  through the storage represents that queue. The main consequence is that a
  destroyed handle stays stale until its slot has been reused half the range of
  the generation counter.
\<close>

primrec chain :: "nat \<Rightarrow> 'a pool_slot list \<Rightarrow> nat \<Rightarrow> nat list \<Rightarrow> bool" where
  "chain cap st head [] \<longleftrightarrow> head = cap"
| "chain cap st head (i # fs) \<longleftrightarrow>
     head = i \<and> i < cap \<and> i < length st \<and> (\<exists>w. st ! i = Link w \<and> chain cap st (unat w) fs)"

definition hp_inv :: "nat \<Rightarrow> ('a, 'g::len) handle_pool \<Rightarrow> nat list \<Rightarrow> bool" where
  "hp_inv cap p fs \<longleftrightarrow>
     cap < 2 ^ 16 \<and> length (hp_storage p) = fv_slots cap \<and> length (hp_generation p) = fv_slots cap \<and>
     chain cap (hp_storage p) (hp_free_head p) fs \<and> distinct fs \<and>
     (fs \<noteq> [] \<longrightarrow> hp_free_tail p = last fs) \<and>
     (\<forall>i < cap. i \<in> set fs \<longleftrightarrow> even (hp_generation p ! i)) \<and>
     (\<forall>i < cap. odd (hp_generation p ! i) \<longrightarrow> (\<exists>v. hp_storage p ! i = Object v)) \<and>
     hp_size p + length fs = cap"

definition slot_object :: "('a, 'g::len) handle_pool \<Rightarrow> nat \<Rightarrow> 'a option" where
  "slot_object p i = (case hp_storage p ! i of Object v \<Rightarrow> Some v | _ \<Rightarrow> None)"

definition hp_abs ::
  "nat \<Rightarrow> ('a, 'g::len) handle_pool \<Rightarrow> (nat \<Rightarrow> 'a option) \<Rightarrow> (nat \<Rightarrow> 'g word) \<Rightarrow> nat list \<Rightarrow> bool" where
  "hp_abs cap p A G fs \<longleftrightarrow> hp_inv cap p fs \<and>
     (\<forall>i. A i = (if i < cap then slot_object p i else None)) \<and> (\<forall>i < cap. G i = hp_generation p ! i)"

text \<open>The object a handle names.\<close>

definition resolve ::
  "nat \<Rightarrow> (nat \<Rightarrow> 'a option) \<Rightarrow> (nat \<Rightarrow> 'g::len word) \<Rightarrow> 'p::len versioned_handle \<Rightarrow> 'a option" where
  "resolve cap A G handle =
     (let i = unat (vh_index handle :: 16 word); g = vh_generation TYPE(16) handle in
      if odd g \<and> i < cap \<and> G i = g then A i else None)"

section \<open>The free list\<close>

lemma chain_bound: "chain cap st head fs \<Longrightarrow> i \<in> set fs \<Longrightarrow> i < cap \<and> i < length st \<and> (\<exists>w. st ! i = Link w)"
  by (induction fs arbitrary: head) auto

lemma chain_update [simp]: "i \<notin> set fs \<Longrightarrow> chain cap (st[i := x]) head fs \<longleftrightarrow> chain cap st head fs"
  by (induction fs arbitrary: head) auto

lemma chain_empty_iff: "chain cap st head fs \<Longrightarrow> head \<ge> cap \<longleftrightarrow> fs = []"
  by (cases fs) auto

lemma unat_link [simp]: "n < 2 ^ 16 \<Longrightarrow> unat (of_nat n :: 16 word) = n"
  by (simp add: unat_of_nat take_bit_nat_eq_self)

lemma chain_snoc:
  assumes "chain cap st head fs" "distinct fs" "fs \<noteq> []" "i \<notin> set fs" "i < cap" "i < length st" "cap < 2 ^ 16"
  shows "chain cap (st[i := Link (of_nat cap), last fs := Link (of_nat i)]) head (fs @ [i])"
  using assms
proof (induction fs arbitrary: head)
  case (Cons j fs)
  show ?case
  proof (cases "fs = []")
    case True
    then show ?thesis using Cons.prems by (auto simp: nth_list_update)
  next
    case False
    then have "last (j # fs) = last fs" "j \<noteq> last fs" using Cons.prems by auto
    then show ?thesis using Cons False by (auto simp: nth_list_update)
  qed
qed simp

lemma chain_initial:
  assumes "\<And>j. i \<le> j \<Longrightarrow> j < cap \<Longrightarrow> st ! j = Link (of_nat (j + 1))" "i \<le> cap" "cap < 2 ^ 16" "cap \<le> length st"
  shows "chain cap st i [i..<cap]"
  using assms
proof (induction "cap - i" arbitrary: i)
  case (Suc d)
  then have i: "i < cap" by simp
  have "chain cap st (i + 1) [i + 1..<cap]" using Suc by auto
  moreover have "st ! i = Link (of_nat (i + 1))" using Suc.prems i by simp
  moreover have "unat (of_nat (i + 1) :: 16 word) = i + 1" using i Suc.prems(3) by (intro unat_link) simp
  ultimately show ?case using i Suc.prems by (auto simp: upt_conv_Cons)
qed simp

lemma hp_invD:
  assumes "hp_inv cap p fs"
  shows "cap < 2 ^ 16" "length (hp_storage p) = fv_slots cap" "length (hp_generation p) = fv_slots cap"
    "chain cap (hp_storage p) (hp_free_head p) fs" "distinct fs" "fs \<noteq> [] \<Longrightarrow> hp_free_tail p = last fs"
    "\<And>i. i < cap \<Longrightarrow> i \<in> set fs \<longleftrightarrow> even (hp_generation p ! i)"
    "\<And>i. i < cap \<Longrightarrow> odd (hp_generation p ! i) \<Longrightarrow> \<exists>v. hp_storage p ! i = Object v"
    "hp_size p + length fs = cap"
  using assms unfolding hp_inv_def by auto

section \<open>Operations\<close>

lemma and_1_zero: "g AND 1 = 0 \<longleftrightarrow> even g" for g :: "'g::len word"
  by (simp only: and_one_eq even_iff_mod_2_eq_zero)

lemma hp_live_index_of:
  fixes p :: "('a, 'g::len) handle_pool" and handle :: "'p::len versioned_handle"
  assumes "hp_abs cap p A G fs"
  shows "hp_live_index cap handle p =
    Inr (if resolve cap A G handle = None then cap else unat (vh_index handle :: 16 word))"
    and "resolve cap A G handle = Some v \<Longrightarrow> unat (vh_index handle :: 16 word) < cap \<and>
      odd (hp_generation p ! unat (vh_index handle :: 16 word)) \<and>
      G (unat (vh_index handle :: 16 word)) = vh_generation TYPE(16) handle \<and>
      hp_storage p ! unat (vh_index handle :: 16 word) = Object v"
proof -
  let ?i = "unat (vh_index handle :: 16 word)" and ?g = "vh_generation TYPE(16) handle :: 'g word"
  have inv: "hp_inv cap p fs" and A: "\<And>i. A i = (if i < cap then slot_object p i else None)"
    and G: "\<And>i. i < cap \<Longrightarrow> G i = hp_generation p ! i"
    using assms by (auto simp: hp_abs_def)
  note I = hp_invD [OF inv]
  have len: "i < length (hp_generation p)" if "i < cap" for i using that I(3) by simp
  have obj: "\<exists>v. A i = Some v \<and> hp_storage p ! i = Object v" if "i < cap" "odd (hp_generation p ! i)" for i
    using I(8) [OF that] that(1) by (auto simp: A slot_object_def)
  show "hp_live_index cap handle p = Inr (if resolve cap A G handle = None then cap else ?i)"
    using len [of ?i] obj [of ?i] G [of ?i]
    by (auto simp: hp_live_index_def resolve_def Let_def and_1_zero) blast
  show "resolve cap A G handle = Some v \<Longrightarrow> ?i < cap \<and> odd (hp_generation p ! ?i) \<and> G ?i = ?g \<and> hp_storage p ! ?i = Object v"
    using obj [of ?i] G [of ?i] by (auto simp: resolve_def Let_def split: if_splits)
qed

lemma hp_get_of:
  assumes "hp_abs cap p A G fs"
  shows "hp_get cap handle p = Inr (resolve cap A G handle)"
    and "hp_contains cap handle p = Inr (resolve cap A G handle \<noteq> None)"
proof -
  have len: "length (hp_storage p) = fv_slots cap" using assms by (simp add: hp_abs_def hp_inv_def)
  show "hp_get cap handle p = Inr (resolve cap A G handle)"
    using hp_live_index_of [OF assms, of handle] len
    by (cases "resolve cap A G handle") (auto simp: hp_get_def hp_object_def)
  show "hp_contains cap handle p = Inr (resolve cap A G handle \<noteq> None)"
    using hp_live_index_of [OF assms, of handle]
    by (cases "resolve cap A G handle") (auto simp: hp_contains_def)
qed

lemma hp_size_pos:
  assumes "hp_inv cap p fs" "i < cap" "i \<notin> set fs"
  shows "0 < hp_size p"
proof -
  note I = hp_invD [OF assms(1)]
  have "set fs \<subseteq> {..<cap} - {i}" using chain_bound [OF I(4)] assms(3) by auto
  then have "length fs \<le> card ({..<cap} - {i})"
    using card_mono [of "{..<cap} - {i}" "set fs"] distinct_card [OF I(5)] by simp
  then show ?thesis using I(9) assms(2) by simp
qed

lemma hp_append_free_of:
  fixes p :: "('a, 'g::len) handle_pool"
  assumes "chain cap (hp_storage p) (hp_free_head p) fs" "distinct fs" "fs \<noteq> [] \<Longrightarrow> hp_free_tail p = last fs"
    "i \<notin> set fs" "i < cap" "cap < 2 ^ 16" "length (hp_storage p) = fv_slots cap" "hp_storage p ! i = Raw"
  shows "\<exists>st head. hp_append_free cap i p = Inr (p\<lparr>hp_storage := st, hp_free_head := head, hp_free_tail := i\<rparr>) \<and>
    chain cap st head (fs @ [i]) \<and> length st = fv_slots cap \<and>
    (\<forall>j. j \<notin> set (fs @ [i]) \<longrightarrow> st ! j = hp_storage p ! j)"
proof (cases "fs = []")
  case True
  then have "hp_free_head p \<ge> cap" using assms(1) by simp
  then have "hp_append_free cap i p =
      Inr (p\<lparr>hp_storage := (hp_storage p)[i := Link (of_nat cap)], hp_free_head := i, hp_free_tail := i\<rparr>)"
    using assms(5-8) by (simp add: hp_append_free_def hp_set_link_def)
  then show ?thesis
    using True assms(5-7) by (intro exI [of _ "(hp_storage p)[i := Link (of_nat cap)]"] exI [of _ i]) simp
next
  case False
  let ?t = "last fs"
  have t: "?t < cap" "\<exists>w. hp_storage p ! ?t = Link w" "?t \<noteq> i" "\<not> hp_free_head p \<ge> cap"
    using chain_bound [OF assms(1), of ?t] False assms(4) chain_empty_iff [OF assms(1)] last_in_set [OF False] by auto
  let ?st = "(hp_storage p)[i := Link (of_nat cap), ?t := Link (of_nat i)]"
  have "hp_append_free cap i p = Inr (p\<lparr>hp_storage := ?st, hp_free_head := hp_free_head p, hp_free_tail := i\<rparr>)"
    using assms(3,5-8) t False by (auto simp: hp_append_free_def hp_set_link_def)
  moreover have "chain cap ?st (hp_free_head p) (fs @ [i])"
    using chain_snoc [OF assms(1,2) False assms(4,5) _ assms(6)] assms(5,7) by simp
  moreover have "\<forall>j. j \<notin> set (fs @ [i]) \<longrightarrow> ?st ! j = hp_storage p ! j"
    using last_in_set [OF False] by (metis Un_iff list.set_intros(1) nth_list_update_neq set_append)
  ultimately show ?thesis
    using assms(7) by (intro exI [of _ ?st] exI [of _ "hp_free_head p"]) simp
qed

lemma hp_release_of:
  fixes p :: "('a, 'g::len) handle_pool"
  assumes "hp_abs cap p A G fs" "i < cap" "odd (G i)"
  shows "\<exists>p'. hp_release cap i p = Inr p' \<and> hp_abs cap p' (A(i := None)) (G(i := G i + 1)) (fs @ [i])"
proof -
  have inv: "hp_inv cap p fs" and A: "\<And>i. A i = (if i < cap then slot_object p i else None)"
    and G: "\<And>i. i < cap \<Longrightarrow> G i = hp_generation p ! i"
    using assms by (auto simp: hp_abs_def)
  note I = hp_invD [OF inv]
  have gi: "odd (hp_generation p ! i)" using G assms by simp
  have i: "i \<notin> set fs" using I(7) [OF assms(2)] gi by simp
  obtain v where v: "hp_storage p ! i = Object v" using I(8) [OF assms(2) gi] by blast
  let ?g = "(hp_generation p)[i := hp_generation p ! i + 1]"
  let ?q = "p\<lparr>hp_generation := ?g, hp_size := hp_size p - 1, hp_storage := (hp_storage p)[i := Raw]\<rparr>"
  have rel: "hp_release cap i p = hp_append_free cap i ?q"
    using assms(2) I(2,3) v by (simp add: hp_release_def hp_bump_def hp_destroy_object_def hp_object_def)
  have "chain cap (hp_storage ?q) (hp_free_head ?q) fs" using I(4) i by simp
  from hp_append_free_of [OF this I(5) _ i assms(2) I(1)] obtain st head where
    app: "hp_append_free cap i ?q = Inr (?q\<lparr>hp_storage := st, hp_free_head := head, hp_free_tail := i\<rparr>)"
    and st: "chain cap st head (fs @ [i])" "length st = fv_slots cap"
      "\<And>j. j \<notin> set (fs @ [i]) \<Longrightarrow> st ! j = hp_storage ?q ! j"
    using I(2,6) assms(2) by auto
  let ?p' = "?q\<lparr>hp_storage := st, hp_free_head := head, hp_free_tail := i\<rparr>"
  have parity: "j \<in> set (fs @ [i]) \<longleftrightarrow> even (?g ! j)" if "j < cap" for j
    using I(7) [OF that] I(3) that gi by (cases "j = i") auto
  have keep: "st ! j = hp_storage p ! j" if "j < cap" "odd (?g ! j)" for j
    using st(3) [of j] parity [OF that(1)] that by auto
  have objects: "odd (?g ! j) \<Longrightarrow> odd (hp_generation p ! j)" if "j < cap" for j
    using gi that I(3) by (cases "j = i") auto
  have free: "\<exists>w. st ! j = Link w" if "j \<in> set (fs @ [i])" for j using chain_bound [OF st(1) that] by blast
  have "hp_inv cap ?p' (fs @ [i])"
    using I st(1,2) i parity objects I(8) keep hp_size_pos [OF inv assms(2) i] by (auto simp: hp_inv_def)
  moreover have "(A(i := None)) j = (if j < cap then slot_object ?p' j else None)" for j
  proof (cases "j < cap \<and> odd (?g ! j)")
    case True
    then have "j \<noteq> i" using gi assms(2) I(3) by auto
    then show ?thesis using keep True by (simp add: A slot_object_def)
  next
    case False
    then show ?thesis
    proof (cases "j < cap")
      case True
      then have "j \<in> set (fs @ [i])" using parity False by blast
      then obtain w where "st ! j = Link w" using free by blast
      moreover have "A j = None" if "j \<noteq> i"
        using chain_bound [OF I(4), of j] that \<open>j \<in> set (fs @ [i])\<close> by (auto simp: A slot_object_def)
      ultimately show ?thesis using True by (simp add: slot_object_def)
    qed (use A in auto)
  qed
  moreover have "(G(i := G i + 1)) j = hp_generation ?p' ! j" if "j < cap" for j
    using G that I(3) by (cases "j = i") auto
  ultimately have "hp_abs cap ?p' (A(i := None)) (G(i := G i + 1)) (fs @ [i])" by (simp add: hp_abs_def)
  then show ?thesis using rel app by auto
qed

lemma hp_full_of:
  "hp_abs cap p A G [] \<Longrightarrow> hp_try_emplace h cap c p = Inr (Returned vh_null, p)"
  by (auto simp: hp_abs_def hp_inv_def hp_try_emplace_def)

lemma hp_try_emplace_of:
  fixes p :: "('a, 'g::len) handle_pool"
  assumes "hp_abs cap p A G (i # fs)"
  shows "\<exists>p'. hp_try_emplace h cap (Builds v) p = Inr (Returned \<lparr>vh_value = pack (of_nat i :: 16 word) (G i + 1)\<rparr>, p') \<and>
    hp_abs cap p' (A(i \<mapsto> v)) (G(i := G i + 1)) fs"
proof -
  have inv: "hp_inv cap p (i # fs)" and A: "\<And>i. A i = (if i < cap then slot_object p i else None)"
    and G: "\<And>i. i < cap \<Longrightarrow> G i = hp_generation p ! i"
    using assms by (auto simp: hp_abs_def)
  note I = hp_invD [OF inv]
  obtain w where w: "hp_free_head p = i" "i < cap" "hp_storage p ! i = Link w" "chain cap (hp_storage p) (unat w) fs"
    using I(4) by auto
  have gi: "even (hp_generation p ! i)" using I(7) [OF w(2)] by simp
  then have odd: "hp_generation p ! i + 1 \<noteq> 0" by (metis even_plus_one_iff dvd_0_right)
  let ?g = "(hp_generation p)[i := hp_generation p ! i + 1]"
  let ?p' = "p\<lparr>hp_free_head := unat w, hp_generation := ?g, hp_size := hp_size p + 1,
      hp_storage := (hp_storage p)[i := Object v]\<rparr>"
  have run: "hp_try_emplace h cap (Builds v) p = Inr (Returned \<lparr>vh_value = pack (of_nat i :: 16 word) (G i + 1)\<rparr>, ?p')"
    using w I(2,3) odd G
    by (simp add: hp_try_emplace_def hp_link_def hp_bump_def hp_construct_def vh_issued_def METL_DASSERT_def)
  have parity: "j \<in> set fs \<longleftrightarrow> even (?g ! j)" if "j < cap" for j
    using I(5) I(7) [OF that] I(3) that gi by (cases "j = i") auto
  have object: "\<exists>u. (hp_storage p)[i := Object v] ! j = Object u" if "j < cap" "odd (?g ! j)" for j
    using I(8) [OF that(1)] I(2,3) that by (cases "j = i") auto
  have tail: "hp_free_tail p = last fs" if "fs \<noteq> []" using I(6) that by simp
  have "hp_inv cap ?p' fs"
    using I(1-5,9) w(4) parity object tail by (auto simp: hp_inv_def)
  moreover have "(A(i \<mapsto> v)) j = (if j < cap then slot_object ?p' j else None)" for j
    using w(2) I(2) by (cases "j = i") (auto simp: A slot_object_def)
  moreover have "(G(i := G i + 1)) j = hp_generation ?p' ! j" if "j < cap" for j
    using G that I(3) by (cases "j = i") auto
  ultimately have "hp_abs cap ?p' (A(i \<mapsto> v)) (G(i := G i + 1)) fs" by (simp add: hp_abs_def)
  with run show ?thesis by blast
qed

lemma hp_try_emplace_throws:
  fixes p :: "('a, 'g::len) handle_pool"
  assumes "hp_abs cap p A G (i # fs)"
  shows "hp_try_emplace h cap Throws p = Inr (Threw, p)"
proof -
  have inv: "hp_inv cap p (i # fs)" using assms by (auto simp: hp_abs_def)
  note I = hp_invD [OF inv]
  obtain w where w: "hp_free_head p = i" "i < cap" "hp_storage p ! i = Link w" "chain cap (hp_storage p) (unat w) fs"
    using I(4) by auto
  have same: "(hp_storage p)[i := Link w] = hp_storage p" "(hp_generation p)[i := hp_generation p ! i] = hp_generation p"
    using w(3) by (metis list_update_id)+
  show ?thesis
  proof (cases "fs = []")
    case True
    then have "hp_free_tail p = i" "cap \<le> unat w" using I(6) w(4) by auto
    then show ?thesis
      using w I(2,3) same
      by (simp add: hp_try_emplace_def hp_link_def hp_bump_def hp_construct_def hp_return_on_unwind_def Let_def hp_set_link_def)
  next
    case False
    then have "\<not> cap \<le> unat w" using chain_empty_iff [OF w(4)] by simp
    then show ?thesis
      using w I(2,3) same
      by (simp add: hp_try_emplace_def hp_link_def hp_bump_def hp_construct_def hp_return_on_unwind_def Let_def hp_set_link_def)
  qed
qed

lemma hp_new_of:
  assumes "cap < 2 ^ 16"
  shows "\<exists>p. hp_new cap = Inr p \<and> hp_abs cap p (\<lambda>_. None :: 'a option) (\<lambda>_. 0 :: 'g::len word) [0..<cap]"
proof -
  let ?st = "\<lambda>k. map (\<lambda>j. if j < k then Link (of_nat (j + 1)) else Raw) [0..<fv_slots cap] :: 'a pool_slot list"
  let ?f = "\<lambda>k. \<lparr>hp_storage = ?st k, hp_generation = replicate (fv_slots cap) (0 :: 'g word),
        hp_free_head = 0, hp_free_tail = (if cap = 0 then 0 else cap - 1), hp_size = 0\<rparr>"
  let ?body = "\<lambda>i p. bnd (hp_set_link i (i + 1) p) (\<lambda>p1.
       bnd (arr_set (hp_generation p1) i 0) (\<lambda>gs. Inr (p1\<lparr>hp_generation := gs\<rparr>)))"
  have upd: "(?st k)[k := Link (of_nat (k + 1))] = ?st (Suc k)" if "k < cap" for k
    using that fv_slots_bound(2) [OF that] by (intro nth_equalityI) (auto simp: nth_list_update less_Suc_eq)
  have "?body k (?f k) = Inr (?f (Suc k))" if "k < cap" for k
    using that fv_slots_bound(2) [OF that] upd [OF that] list_update_id [of "replicate (fv_slots cap) (0 :: 'g word)" k]
    by (simp add: hp_set_link_def)
  then have "for_upto 0 cap ?body (?f 0) = Inr (?f cap)" by (intro for_upto_states) auto
  moreover have "?st 0 = replicate (fv_slots cap) Raw" by (intro nth_equalityI) auto
  ultimately have run: "hp_new cap = Inr (?f cap)" unfolding hp_new_def by simp
  have "chain cap (?st cap) 0 [0..<cap]"
    using assms fv_slots_bound(1) [of cap cap] by (intro chain_initial) auto
  then have "hp_abs cap (?f cap) (\<lambda>_. None) (\<lambda>_. 0) [0..<cap]"
    using assms by (auto simp: hp_abs_def hp_inv_def slot_object_def)
  with run show ?thesis by blast
qed

lemma hp_destroy_of:
  assumes "hp_abs cap p A G fs"
  shows "resolve cap A G handle = None \<Longrightarrow> hp_destroy cap handle p = Inr (False, p)"
    and "resolve cap A G handle = Some v \<Longrightarrow> \<exists>p'. hp_destroy cap handle p = Inr (True, p') \<and>
      hp_abs cap p' (A(unat (vh_index handle :: 16 word) := None))
        (G(unat (vh_index handle :: 16 word) := vh_generation TYPE(16) handle + 1)) (fs @ [unat (vh_index handle :: 16 word)])"
proof -
  note index = hp_live_index_of [OF assms, of handle]
  show "resolve cap A G handle = None \<Longrightarrow> hp_destroy cap handle p = Inr (False, p)"
    using index(1) by (simp add: hp_destroy_def)
  assume r: "resolve cap A G handle = Some v"
  have "odd (G (unat (vh_index handle :: 16 word)))"
    using index(2) [OF r] assms by (auto simp: hp_abs_def)
  with hp_release_of [OF assms, of "unat (vh_index handle :: 16 word)"] index(2) [OF r] index(1) r
  show "\<exists>p'. hp_destroy cap handle p = Inr (True, p') \<and>
      hp_abs cap p' (A(unat (vh_index handle :: 16 word) := None))
        (G(unat (vh_index handle :: 16 word) := vh_generation TYPE(16) handle + 1)) (fs @ [unat (vh_index handle :: 16 word)])"
    by (auto simp: hp_destroy_def)
qed

lemma hp_clear_of:
  fixes p :: "('a, 'g::len) handle_pool"
  assumes "hp_abs cap p A G fs"
  shows "\<exists>p' fs'. hp_clear cap p = Inr p' \<and>
    hp_abs cap p' (\<lambda>_. None) (\<lambda>i. if i < cap \<and> odd (G i) then G i + 1 else G i) fs'"
proof -
  let ?G = "\<lambda>k j. if j < k \<and> odd (G j) then G j + 1 else G j"
  let ?Q = "\<lambda>k (q :: ('a, 'g) handle_pool). \<exists>fs'. hp_abs cap q (\<lambda>j. if j < k then None else A j) (?G k) fs'"
  have "\<exists>q. hp_clear cap p = Inr q \<and> ?Q cap q"
    unfolding hp_clear_def
  proof (rule for_upto_inv [where Q = ?Q])
    fix k q
    assume k: "k < cap" and "?Q k q"
    then obtain fs' where q: "hp_abs cap q (\<lambda>j. if j < k then None else A j) (?G k) fs'" by blast
    have gen: "hp_generation q ! k = G k" "length (hp_generation q) = fv_slots cap"
      using q k by (auto simp: hp_abs_def hp_inv_def)
    have G': "(?G k)(k := ?G k k + 1) = ?G (Suc k)" if "odd (G k)" using that by (auto simp: fun_eq_iff less_Suc_eq)
    have G'': "?G k = ?G (Suc k)" if "even (G k)" using that by (auto simp: fun_eq_iff less_Suc_eq)
    have A': "(\<lambda>j. if j < k then None else A j)(k := None) = (\<lambda>j. if j < Suc k then None else A j)"
      by (auto simp: fun_eq_iff less_Suc_eq)
    have A'': "A k = None" if "even (G k)"
    proof -
      have "k \<in> set fs'" using q k gen that by (auto simp: hp_abs_def hp_inv_def)
      then have "\<exists>w. hp_storage q ! k = Link w" using q chain_bound unfolding hp_abs_def hp_inv_def by blast
      moreover have "A k = slot_object q k" using q k unfolding hp_abs_def by (metis less_irrefl)
      ultimately show ?thesis by (auto simp: slot_object_def)
    qed
    show "\<exists>q'. bnd (arr_get (hp_generation q) k) (\<lambda>g. if g AND 1 \<noteq> 0 then hp_release cap k q else Inr q) = Inr q' \<and> ?Q (Suc k) q'"
    proof (cases "odd (G k)")
      case True
      then have "\<exists>q'. hp_release cap k q = Inr q' \<and>
          hp_abs cap q' (\<lambda>j. if j < Suc k then None else A j) (?G (Suc k)) (fs' @ [k])"
        using hp_release_of [OF q k] G' A' by simp
      then show ?thesis using True gen k by (auto simp: and_1_zero)
    next
      case False
      then have even: "even (G k)" by simp
      have none: "(\<lambda>j. if j < k then None else A j) = (\<lambda>j. if j < Suc k then None else A j)"
        using A'' [OF even] by (auto simp: fun_eq_iff less_Suc_eq)
      have "?Q (Suc k) q" using q unfolding none G'' [OF even] by (rule exI)
      then show ?thesis using False gen k by (auto simp: and_1_zero)
    qed
  qed (use assms in auto)
  then obtain q fs' where q: "hp_clear cap p = Inr q" "hp_abs cap q (\<lambda>j. if j < cap then None else A j) (?G cap) fs'" by blast
  have "(\<lambda>j. if j < cap then None else A j) = (\<lambda>_. None)"
    using assms by (auto simp: hp_abs_def fun_eq_iff)
  then show ?thesis using q by auto
qed

section \<open>Client programs\<close>

datatype ('a, 'h) pool_call = Emplace 'a | Emplace_throwing | Destroy 'h | Clear

primrec hp_step ::
  "hardening \<Rightarrow> nat \<Rightarrow> ('a, 'p::len versioned_handle) pool_call \<Rightarrow> ('a, 'g::len) handle_pool \<Rightarrow> ('a, 'g) handle_pool outcome" where
  "hp_step h cap (Emplace v) p =
     bnd (hp_try_emplace h cap (Builds v) p :: ('p versioned_handle call \<times> ('a, 'g) handle_pool) outcome) (\<lambda>(_, p1). Inr p1)"
| "hp_step h cap Emplace_throwing p =
     bnd (hp_try_emplace h cap Throws p :: ('p versioned_handle call \<times> ('a, 'g) handle_pool) outcome) (\<lambda>(_, p1). Inr p1)"
| "hp_step h cap (Destroy handle) p = bnd (hp_destroy cap handle p) (\<lambda>(_, p1). Inr p1)"
| "hp_step h cap Clear p = hp_clear cap p"

primrec hp_run ::
  "hardening \<Rightarrow> nat \<Rightarrow> ('a, 'p::len versioned_handle) pool_call list \<Rightarrow> ('a, 'g::len) handle_pool
     \<Rightarrow> ('a, 'g) handle_pool outcome" where
  "hp_run h cap [] p = Inr p"
| "hp_run h cap (c # cs) p = bnd (hp_step h cap c p) (hp_run h cap cs)"

definition emplacements :: "('a, 'h) pool_call list \<Rightarrow> nat" where
  "emplacements cs = length (filter (\<lambda>c. \<exists>v. c = Emplace v) cs)"

text \<open>A call changes the generation of a slot by at most one, and only an emplacement makes it odd.\<close>

definition gen_step :: "nat \<Rightarrow> (nat \<Rightarrow> 'g::len word) \<Rightarrow> (nat \<Rightarrow> 'g word) \<Rightarrow> bool \<Rightarrow> bool" where
  "gen_step cap G G' emplacing \<longleftrightarrow>
     (\<forall>i < cap. G' i = G i \<or> G' i = G i + 1 \<and> (odd (G i) \<or> emplacing))"

text \<open>Calls that do not end the life of the object a handle names.\<close>

fun spares :: "'g::len itself \<Rightarrow> 'p::len versioned_handle \<Rightarrow> ('a, 'p versioned_handle) pool_call \<Rightarrow> bool" where
  "spares tg handle (Destroy k) \<longleftrightarrow>
     (vh_index k :: 16 word, vh_generation TYPE(16) k :: 'g word) \<noteq> (vh_index handle, vh_generation TYPE(16) handle)"
| "spares tg handle Clear \<longleftrightarrow> False"
| "spares tg handle c \<longleftrightarrow> True"

definition keeps_objects ::
  "nat \<Rightarrow> (nat \<Rightarrow> 'a option) \<Rightarrow> (nat \<Rightarrow> 'g::len word) \<Rightarrow> (nat \<Rightarrow> 'a option) \<Rightarrow> (nat \<Rightarrow> 'g word)
     \<Rightarrow> ('a, 'p::len versioned_handle) pool_call \<Rightarrow> bool" where
  "keeps_objects cap A G A' G' c \<longleftrightarrow> (\<forall>(handle :: 'p versioned_handle) v.
     resolve cap A G handle = Some v \<longrightarrow> spares TYPE('g) handle c \<longrightarrow> resolve cap A' G' handle = Some v)"

lemma keeps_objects_refl [simp]: "keeps_objects cap A G A G c"
  by (simp add: keeps_objects_def)

lemma gen_step_refl [simp]: "gen_step cap G G e"
  by (simp add: gen_step_def)

lemma hp_step_of:
  fixes p :: "('a, 'g::len) handle_pool" and c :: "('a, 'p::len versioned_handle) pool_call"
  assumes "hp_abs cap p A G fs"
  shows "\<exists>p' A' G' fs'. hp_step h cap c p = Inr p' \<and> hp_abs cap p' A' G' fs' \<and>
    gen_step cap G G' (\<exists>v. c = Emplace v) \<and> keeps_objects cap A G A' G' c"
proof (cases c)
  case (Emplace v)
  show ?thesis
  proof (cases fs)
    case Nil
    then have "hp_step h cap c p = Inr p" using assms Emplace by (simp add: hp_full_of)
    then show ?thesis using assms gen_step_refl keeps_objects_refl by blast
  next
    case (Cons i fs')
    obtain p' where p': "hp_try_emplace h cap (Builds v) p =
        Inr (Returned (\<lparr>vh_value = pack (of_nat i :: 16 word) (G i + 1)\<rparr> :: 'p versioned_handle), p')"
      "hp_abs cap p' (A(i \<mapsto> v)) (G(i := G i + 1)) fs'"
      using hp_try_emplace_of [of cap p A G i fs' h v] assms Cons by blast
    have "even (G i)" using assms Cons by (auto simp: hp_abs_def hp_inv_def)
    then have "keeps_objects cap A G (A(i \<mapsto> v)) (G(i := G i + 1)) c"
      by (auto simp: keeps_objects_def resolve_def Let_def split: if_splits)
    moreover have "gen_step cap G (G(i := G i + 1)) (\<exists>v. c = Emplace v)" using Emplace by (auto simp: gen_step_def)
    moreover have "hp_step h cap c p = Inr p'" using p'(1) Emplace by simp
    ultimately show ?thesis using p'(2) by blast
  qed
next
  case Emplace_throwing
  have "hp_step h cap c p = Inr p"
    using assms Emplace_throwing by (cases fs) (simp_all add: hp_full_of hp_try_emplace_throws)
  then show ?thesis using assms gen_step_refl keeps_objects_refl by blast
next
  case (Destroy k)
  show ?thesis
  proof (cases "resolve cap A G k")
    case None
    then have "hp_step h cap c p = Inr p" using hp_destroy_of(1) [OF assms None] Destroy by simp
    then show ?thesis using assms gen_step_refl keeps_objects_refl by blast
  next
    case (Some v)
    let ?i = "unat (vh_index k :: 16 word)" and ?g = "vh_generation TYPE(16) k :: 'g word"
    have g: "G ?i = ?g \<and> odd (G ?i)"
      using hp_live_index_of(2) [OF assms Some] assms by (auto simp: hp_abs_def)
    then have "keeps_objects cap A G (A(?i := None)) (G(?i := ?g + 1)) c"
      using Destroy by (auto simp: keeps_objects_def resolve_def Let_def split: if_splits dest!: unsigned_word_eqI)
    moreover have "gen_step cap G (G(?i := ?g + 1)) (\<exists>v. c = Emplace v)" using g by (auto simp: gen_step_def)
    moreover obtain p' where "hp_step h cap c p = Inr p'" "hp_abs cap p' (A(?i := None)) (G(?i := ?g + 1)) (fs @ [?i])"
      using hp_destroy_of(2) [OF assms Some] Destroy by auto
    ultimately show ?thesis by blast
  qed
next
  case Clear
  obtain p' fs' where p': "hp_clear cap p = Inr p'"
    "hp_abs cap p' (\<lambda>_. None) (\<lambda>i. if i < cap \<and> odd (G i) then G i + 1 else G i) fs'"
    using hp_clear_of [OF assms] by blast
  have "gen_step cap G (\<lambda>i. if i < cap \<and> odd (G i) then G i + 1 else G i) (\<exists>v. c = Emplace v)"
    by (auto simp: gen_step_def)
  moreover have "keeps_objects cap A G (\<lambda>_. None) (\<lambda>i. if i < cap \<and> odd (G i) then G i + 1 else G i) c"
    using Clear by (simp add: keeps_objects_def)
  moreover have "hp_step h cap c p = Inr p'" using Clear p'(1) by simp
  ultimately show ?thesis using p'(2) by blast
qed

lemma hp_run_keeps:
  fixes p :: "('a, 'g::len) handle_pool" and cs :: "('a, 'p::len versioned_handle) pool_call list"
  assumes "hp_abs cap p A G fs" "resolve cap A G handle = Some v" "list_all (spares TYPE('g) handle) cs"
  shows "\<exists>p' A' G' fs'. hp_run h cap cs p = Inr p' \<and> hp_abs cap p' A' G' fs' \<and> resolve cap A' G' handle = Some v"
  using assms
proof (induction cs arbitrary: p A G fs)
  case Nil
  then show ?case by auto
next
  case (Cons c cs)
  obtain p' A' G' fs' where step: "hp_step h cap c p = Inr p'" "hp_abs cap p' A' G' fs'" "keeps_objects cap A G A' G' c"
    using hp_step_of [OF Cons.prems(1)] by blast
  then have "resolve cap A' G' handle = Some v" using Cons.prems(2,3) by (auto simp: keeps_objects_def)
  then show ?case using Cons.IH [OF step(2)] Cons.prems(3) step(1) by auto
qed

text \<open>How far a slot's generation can have come after a number of emplacements.\<close>

lemma hp_run_generations:
  fixes p :: "('a, 'g::len) handle_pool" and cs :: "('a, 'p::len versioned_handle) pool_call list"
  assumes "hp_abs cap p A G fs" "i < cap" "G i = g + of_nat m" "m + of_bool (odd (G i)) \<le> 2 * e"
  shows "\<exists>p' A' G' fs' m'. hp_run h cap cs p = Inr p' \<and> hp_abs cap p' A' G' fs' \<and> G' i = g + of_nat m' \<and>
    m' + of_bool (odd (G' i)) \<le> 2 * (e + emplacements cs)"
  using assms
proof (induction cs arbitrary: p A G fs m e)
  case Nil
  then show ?case
    by (intro exI [of _ p] exI [of _ A] exI [of _ G] exI [of _ fs] exI [of _ m] conjI)
      (simp_all only: hp_run.simps emplacements_def filter.simps list.size add_0_right)
next
  case (Cons c cs)
  let ?E = "\<exists>v. c = Emplace v"
  obtain p' A' G' fs' where step: "hp_step h cap c p = Inr p'" "hp_abs cap p' A' G' fs'" "gen_step cap G G' ?E"
    using hp_step_of [OF Cons.prems(1)] by blast
  obtain m' where m': "G' i = g + of_nat m'" "m' + of_bool (odd (G' i)) \<le> 2 * (e + of_bool ?E)"
  proof (cases "G' i = G i")
    case True
    then show ?thesis using that [of m] Cons.prems(3,4) by (auto simp: algebra_simps)
  next
    case False
    then have g: "G' i = G i + 1" "odd (G i) \<or> ?E" using step(3) Cons.prems(2) by (auto simp: gen_step_def)
    then have "G' i = g + of_nat (m + 1)" using Cons.prems(3) by simp
    moreover have "m + 1 + of_bool (odd (G' i)) \<le> 2 * (e + of_bool ?E)"
      using g Cons.prems(4) by (cases "odd (G i)") auto
    ultimately show ?thesis by (rule that)
  qed
  have "emplacements (c # cs) = of_bool ?E + emplacements cs" by (auto simp: emplacements_def)
  then show ?case using Cons.IH [OF step(2) Cons.prems(2) m'] step(1) by (auto simp: add.assoc)
qed

lemma hp_run_stays_stale:
  fixes p :: "('a, 'g::len) handle_pool" and cs :: "('a, 'p::len versioned_handle) pool_call list"
    and handle :: "'p versioned_handle"
  assumes "hp_abs cap p A G fs" "G (unat (vh_index handle :: 16 word)) = vh_generation TYPE(16) handle + 1"
    "odd (vh_generation TYPE(16) handle :: 'g word)" "emplacements cs < 2 ^ (LENGTH('g) - 1)"
  shows "\<exists>p' A' G' fs'. hp_run h cap cs p = Inr p' \<and> hp_abs cap p' A' G' fs' \<and> resolve cap A' G' handle = None"
proof -
  let ?i = "unat (vh_index handle :: 16 word)" and ?g = "vh_generation TYPE(16) handle :: 'g word"
  have even: "0 + of_bool (odd (G ?i)) \<le> 2 * (0 :: nat)" using assms(2,3) by simp
  show ?thesis
  proof (cases "?i < cap")
    case True
    obtain p' A' G' fs' m where run: "hp_run h cap cs p = Inr p'" "hp_abs cap p' A' G' fs'"
      "G' ?i = ?g + 1 + of_nat m" "m + of_bool (odd (G' ?i)) \<le> 2 * (0 + emplacements cs)"
      using hp_run_generations [OF assms(1) True, of "?g + 1" 0 0 h cs] assms(2) even by auto
    have "m + 1 < 2 ^ LENGTH('g)"
    proof -
      have "2 * emplacements cs + 2 \<le> 2 * 2 ^ (LENGTH('g) - 1)" using assms(4) by simp
      also have "\<dots> = 2 ^ LENGTH('g)" by (simp flip: power_Suc)
      finally show ?thesis using run(4) by simp
    qed
    then have "unat (of_nat (m + 1) :: 'g word) = m + 1" by (simp only: unat_of_nat mod_less)
    then have "of_nat (m + 1) \<noteq> (0 :: 'g word)" by (intro notI) (simp only: unsigned_0)
    then have "G' ?i \<noteq> ?g" using run(3) by (simp add: add.assoc)
    then show ?thesis using run(1,2) by (auto simp: resolve_def Let_def)
  next
    case False
    have "\<exists>p' A' G' fs'. hp_run h cap cs p = Inr p' \<and> hp_abs cap p' A' G' fs'"
      using assms(1)
    proof (induction cs arbitrary: p A G fs)
      case (Cons c cs)
      then show ?case using hp_step_of [OF Cons.prems, of h c] by fastforce
    qed auto
    then show ?thesis using False by (auto simp: resolve_def Let_def)
  qed
qed

lemma hp_emplace_full:
  assumes "hp_abs cap p A G []" "h \<noteq> METL_HARDENING_NONE"
  shows "(hp_emplace h cap c p :: ('p::len versioned_handle call \<times> ('a, 'g::len) handle_pool) outcome) = Inl Check_failed"
proof -
  have "\<not> vh_valid TYPE(16) TYPE('g) (vh_null :: 'p versioned_handle)"
    by (simp add: vh_valid_def vh_generation_def vh_null_def)
  moreover have "h \<ge> METL_HARDENING_FAST" using assms(2) by (cases h) (auto simp: less_eq_hardening_def)
  ultimately show ?thesis by (simp add: hp_emplace_def METL_ASSERT_def hp_full_of [OF assms(1)])
qed

lemma issued_is_made:
  fixes g :: "'g::len word"
  assumes "fields_fit TYPE(16) TYPE('g) TYPE('p::len)" "odd g"
  shows "(\<lparr>vh_value = pack i g\<rparr> :: 'p versioned_handle) = vh_make (i :: 16 word) g"
  using make_cases [OF assms(1), of i g] assms(2) by auto

section \<open>Properties\<close>

text \<open>
  C23: \<^verbatim>\<open>handle_pool\<close> is a fixed set of numbered slots with a queue of free ones:
  construction frees all slots in order, \<^verbatim>\<open>try_emplace\<close> takes the slot freed longest ago
  and issues its index with the next odd generation, a full pool returns the null
  handle (and stops an asserting \<^verbatim>\<open>emplace\<close>), a constructor that throws leaves the pool
  exactly as it was, \<^verbatim>\<open>get\<close>, \<^verbatim>\<open>contains\<close> and \<^verbatim>\<open>destroy\<close> agree on which handles are live,
  \<^verbatim>\<open>destroy\<close> puts the slot at the back of the queue, and \<^verbatim>\<open>clear\<close> ends every object. The
  links through the storage never read an object's bytes or overwrite one.
\<close>

theorem handle_pool_refines_slots:
  fixes p :: "('a, 'g::len) handle_pool" and handle :: "'p::len versioned_handle"
  assumes "fields_fit TYPE(16) TYPE('g) TYPE('p)" "hp_abs cap p A G fs"
  shows "(\<exists>q. hp_new cap = Inr q \<and> hp_abs cap q (\<lambda>_. None :: 'a option) (\<lambda>_. 0 :: 'g word) [0..<cap]) \<and>
     (fs = [] \<longrightarrow> hp_try_emplace h cap c p = Inr (Returned (vh_null :: 'p versioned_handle), p) \<and>
        (h \<noteq> METL_HARDENING_NONE \<longrightarrow>
          (hp_emplace h cap c p :: ('p versioned_handle call \<times> ('a, 'g) handle_pool) outcome) = Inl Check_failed)) \<and>
     (\<forall>i fs'. fs = i # fs' \<longrightarrow>
        (\<exists>p'. hp_try_emplace h cap (Builds v) p = Inr (Returned (vh_make (of_nat i :: 16 word) (G i + 1) :: 'p versioned_handle), p') \<and>
          hp_abs cap p' (A(i \<mapsto> v)) (G(i := G i + 1)) fs') \<and>
        hp_try_emplace h cap Throws p = Inr (Threw :: 'p versioned_handle call, p)) \<and>
     hp_get cap handle p = Inr (resolve cap A G handle) \<and>
     hp_contains cap handle p = Inr (resolve cap A G handle \<noteq> None) \<and>
     (resolve cap A G handle = None \<longrightarrow> hp_destroy cap handle p = Inr (False, p)) \<and>
     (resolve cap A G handle \<noteq> None \<longrightarrow> (\<exists>p' i. i = unat (vh_index handle :: 16 word) \<and> hp_destroy cap handle p = Inr (True, p') \<and>
        hp_abs cap p' (A(i := None)) (G(i := G i + 1)) (fs @ [i]))) \<and>
     (\<exists>p' G' fs'. hp_clear cap p = Inr p' \<and> hp_abs cap p' (\<lambda>_. None) G' fs') \<and>
     hp_available cap p = length fs"
proof -
  have cap: "cap < 2 ^ 16" and avail: "hp_available cap p = length fs"
    using assms(2) by (auto simp: hp_abs_def hp_inv_def hp_available_def)
  have claim: "(\<exists>p'. hp_try_emplace h cap (Builds v) p = Inr (Returned (vh_make (of_nat i :: 16 word) (G i + 1) :: 'p versioned_handle), p') \<and>
          hp_abs cap p' (A(i \<mapsto> v)) (G(i := G i + 1)) fs') \<and>
        hp_try_emplace h cap Throws p = Inr (Threw :: 'p versioned_handle call, p)" if "fs = i # fs'" for i fs'
  proof -
    have abs: "hp_abs cap p A G (i # fs')" using assms(2) that by simp
    then have "odd (G i + 1)" by (auto simp: hp_abs_def hp_inv_def)
    note made = issued_is_made [OF assms(1) this, of "of_nat i"]
    obtain p' where "hp_try_emplace h cap (Builds v) p =
        Inr (Returned (\<lparr>vh_value = pack (of_nat i :: 16 word) (G i + 1)\<rparr> :: 'p versioned_handle), p')"
      "hp_abs cap p' (A(i \<mapsto> v)) (G(i := G i + 1)) fs'"
      using hp_try_emplace_of [OF abs, of h v] by blast
    then show ?thesis unfolding made using hp_try_emplace_throws [OF abs] by blast
  qed
  have gone: "\<exists>p' i. i = unat (vh_index handle :: 16 word) \<and> hp_destroy cap handle p = Inr (True, p') \<and>
        hp_abs cap p' (A(i := None)) (G(i := G i + 1)) (fs @ [i])" if "resolve cap A G handle \<noteq> None"
    using that hp_destroy_of(2) [OF assms(2), of handle] hp_live_index_of(2) [OF assms(2), of handle] by auto
  have full: "hp_try_emplace h cap c p = Inr (Returned (vh_null :: 'p versioned_handle), p)" if "fs = []"
    using assms(2) that by (simp add: hp_full_of)
  have stop: "(hp_emplace h cap c p :: ('p versioned_handle call \<times> ('a, 'g) handle_pool) outcome) = Inl Check_failed"
    if "fs = []" "h \<noteq> METL_HARDENING_NONE"
    using assms(2) that by (intro hp_emplace_full) auto
  show ?thesis
    using hp_new_of [OF cap] full stop claim gone avail hp_get_of [OF assms(2), of handle]
      hp_destroy_of(1) [OF assms(2), of handle] hp_clear_of [OF assms(2)] assms(2) by blast
qed

theorem handle_pool_refines_slots_witness:
  "\<exists>p p' :: (nat, 16) handle_pool. hp_new 2 = Inr p \<and>
     hp_try_emplace METL_HARDENING_FAST 2 (Builds 7) p =
       Inr (Returned (vh_make (0 :: 16 word) (1 :: 16 word) :: 32 versioned_handle), p') \<and>
     hp_available 2 p = 2"
proof -
  have fit: "fields_fit TYPE(16) TYPE(16) TYPE(32)" by (simp add: fields_fit_def)
  obtain p :: "(nat, 16) handle_pool" where p: "hp_new 2 = Inr p" "hp_abs 2 p (\<lambda>_. None) (\<lambda>_. 0) [0..<2]"
    using hp_new_of [of 2] by auto
  then show ?thesis
    using handle_pool_refines_slots [OF fit p(2), of METL_HARDENING_FAST Throws 7 vh_null] by (auto simp: upt_conv_Cons)
qed

text \<open>
  C24: Handles detect reuse. Through any sequence of calls a live handle keeps naming
  its own object until it is destroyed or the pool is cleared; and once destroyed
  it stays stale, for \<^verbatim>\<open>get\<close> and for a second \<^verbatim>\<open>destroy\<close>, through any sequence of calls with
  fewer emplacements than half the range of the generation counter (32768 for the
  default 16-bit counter).
\<close>

theorem handle_lifetime_safety:
  fixes p :: "('a, 'g::len) handle_pool" and handle :: "'p::len versioned_handle"
    and cs :: "('a, 'p versioned_handle) pool_call list"
  assumes "hp_abs cap p A G fs" "hp_get cap handle p = Inr (Some v)"
  shows "(list_all (spares TYPE('g) handle) cs \<longrightarrow>
        (\<exists>p'. hp_run h cap cs p = Inr p' \<and> hp_get cap handle p' = Inr (Some v))) \<and>
     (emplacements cs < 2 ^ (LENGTH('g) - 1) \<longrightarrow>
        (\<exists>p1 p'. hp_destroy cap handle p = Inr (True, p1) \<and> hp_run h cap cs p1 = Inr p' \<and>
           hp_get cap handle p' = Inr None \<and> hp_destroy cap handle p' = Inr (False, p')))"
proof -
  have r: "resolve cap A G handle = Some v" using hp_get_of(1) [OF assms(1), of handle] assms(2) by simp
  have odd: "odd (vh_generation TYPE(16) handle :: 'g word)"
    using r by (auto simp: resolve_def Let_def split: if_splits)
  have keep: "\<exists>p'. hp_run h cap cs p = Inr p' \<and> hp_get cap handle p' = Inr (Some v)"
    if spares: "list_all (spares TYPE('g) handle) cs"
  proof -
    obtain p' A' G' fs' where run: "hp_run h cap cs p = Inr p'" "hp_abs cap p' A' G' fs'" "resolve cap A' G' handle = Some v"
      using hp_run_keeps [OF assms(1) r spares] by blast
    then show ?thesis using hp_get_of(1) [OF run(2), of handle] by simp
  qed
  obtain p1 where p1: "hp_destroy cap handle p = Inr (True, p1)"
    "hp_abs cap p1 (A(unat (vh_index handle :: 16 word) := None))
        (G(unat (vh_index handle :: 16 word) := vh_generation TYPE(16) handle + 1)) (fs @ [unat (vh_index handle :: 16 word)])"
    using hp_destroy_of(2) [OF assms(1) r] by blast
  have "\<exists>p'. hp_run h cap cs p1 = Inr p' \<and> hp_get cap handle p' = Inr None \<and> hp_destroy cap handle p' = Inr (False, p')"
    if few: "emplacements cs < 2 ^ (LENGTH('g) - 1)"
  proof -
    obtain p' A' G' fs' where run: "hp_run h cap cs p1 = Inr p'" "hp_abs cap p' A' G' fs'" "resolve cap A' G' handle = None"
      using hp_run_stays_stale [OF p1(2) _ odd few, of h] by auto
    then show ?thesis using hp_get_of(1) [OF run(2), of handle] hp_destroy_of(1) [OF run(2,3)] by simp
  qed
  with keep p1(1) show ?thesis by blast
qed

theorem handle_lifetime_safety_witness:
  "\<exists>p p1 p' :: (nat, 16) handle_pool. \<exists>handle :: 32 versioned_handle.
     hp_get 2 handle p = Inr (Some 7) \<and> hp_destroy 2 handle p = Inr (True, p1) \<and>
     hp_run METL_HARDENING_FAST 2 ([Emplace 8, Emplace 9, Clear, Emplace 3] :: (nat, 32 versioned_handle) pool_call list) p1 =
       Inr p' \<and> hp_get 2 handle p' = Inr None"
proof -
  let ?h = "vh_make (0 :: 16 word) (1 :: 16 word) :: 32 versioned_handle"
  let ?cs = "[Emplace 8, Emplace 9, Clear, Emplace 3] :: (nat, 32 versioned_handle) pool_call list"
  have fit: "fields_fit TYPE(16) TYPE(16) TYPE(32)" by (simp add: fields_fit_def)
  obtain q :: "(nat, 16) handle_pool" where q: "hp_abs 2 q (\<lambda>_. None) (\<lambda>_. 0) (0 # [1])"
    using hp_new_of [of 2] by (auto simp: upt_conv_Cons)
  then obtain p :: "(nat, 16) handle_pool" where p: "hp_abs 2 p ((\<lambda>_. None)(0 \<mapsto> 7)) ((\<lambda>_. 0)(0 := 1)) [1]"
    using hp_try_emplace_of [OF q, of METL_HARDENING_FAST 7] by auto
  have "vh_index ?h = (0 :: 16 word)" "vh_generation TYPE(16) ?h = (1 :: 16 word)"
    using fields_of_pack [OF fit, of ?h 0 1] make_cases [OF fit, of 0 1] by auto
  then have "hp_get 2 ?h p = Inr (Some 7)" using hp_get_of(1) [OF p, of ?h] by (simp add: resolve_def)
  moreover have "emplacements ?cs < 2 ^ (LENGTH(16) - 1)" by (simp add: emplacements_def)
  ultimately show ?thesis using handle_lifetime_safety [OF p, of ?h 7 ?cs METL_HARDENING_FAST] by blast
qed

end
