(* ===== verification/Format.thy ===== *)
theory Format
  imports Config
begin

text \<open>
  \<^verbatim>\<open>format.hpp\<close>: numbers to text. A \<^verbatim>\<open>span<char>\<close> is the list of characters it covers; a
  formatting function returns the number of characters of the span it returns (0
  is the empty span of a refusal) and the buffer. \<^verbatim>\<open>unsigned long long\<close> is a \<open>64 word\<close>, and
  the value's type \<^verbatim>\<open>T\<close> a \<open>'t word\<close> of at most 64 bits.
\<close>

datatype hex_case = Lower | Upper

function decimal_digits_from :: "64 word \<Rightarrow> nat \<Rightarrow> nat" where
  "decimal_digits_from magnitude digits =
     (if magnitude \<ge> 10 then decimal_digits_from (magnitude div 10) (digits + 1) else digits)"
  by pat_completeness auto
termination
  by (relation "measure (\<lambda>(m, d). unat m)") (auto simp: word_le_nat_alt unat_div_distrib)

declare decimal_digits_from.simps [simp del]

definition decimal_digits :: "64 word \<Rightarrow> nat" where
  "decimal_digits magnitude = decimal_digits_from magnitude 1"

function hex_digits_from :: "64 word \<Rightarrow> nat \<Rightarrow> nat" where
  "hex_digits_from v digits = (if v \<ge> 16 then hex_digits_from (drop_bit 4 v) (digits + 1) else digits)"
  by pat_completeness auto
termination
  by (relation "measure (\<lambda>(v, d). unat v)") (auto simp: word_le_nat_alt drop_bit_eq_div unat_div_distrib)

declare hex_digits_from.simps [simp del]

definition hex_digits :: "64 word \<Rightarrow> nat" where
  "hex_digits v = hex_digits_from v 1"

primrec write_decimal :: "string \<Rightarrow> nat \<Rightarrow> 64 word \<Rightarrow> string outcome" where
  "write_decimal out 0 magnitude = Inr out"
| "write_decimal out (Suc index) magnitude =
     bnd (arr_set out index (char_of (48 + unat (magnitude mod 10)))) (\<lambda>out1.
       write_decimal out1 index (magnitude div 10))"

primrec write_hex :: "string \<Rightarrow> nat \<Rightarrow> 64 word \<Rightarrow> hex_case \<Rightarrow> string outcome" where
  "write_hex out 0 v letters = Inr out"
| "write_hex out (Suc index) v letters =
     (let alphabet_offset = (if letters = Upper then 65 else 97);
          nibble = unat (v AND 15);
          c = char_of (if nibble < 10 then 48 + nibble else alphabet_offset + (nibble - 10)) in
      bnd (arr_set out index c) (\<lambda>out1. write_hex out1 index (drop_bit 4 v) letters))"

definition magnitude_of :: "64 word \<Rightarrow> 64 word" where
  "magnitude_of v = (if sint v < 0 then 0 - v else v)"

definition try_format_uint :: "string \<Rightarrow> 't::len word \<Rightarrow> (nat \<times> string) outcome" where
  "try_format_uint out v =
     (let magnitude = ucast v; cnt = decimal_digits magnitude in
      if cnt > length out then Inr (0, out)
      else bnd (write_decimal out cnt magnitude) (\<lambda>out1. Inr (cnt, out1)))"

definition format_uint :: "hardening \<Rightarrow> string \<Rightarrow> 't::len word \<Rightarrow> (nat \<times> string) outcome" where
  "format_uint h out v = bnd (try_format_uint out v) (\<lambda>(n, out1). METL_ASSERT h (n \<noteq> 0) (Inr (n, out1)))"

text \<open>The signed branch of \<^verbatim>\<open>try_format_int\<close>; \<^verbatim>\<open>out.subspan(1)\<close> aliases the rest of the buffer.\<close>

definition try_format_int :: "string \<Rightarrow> 't::len word \<Rightarrow> (nat \<times> string) outcome" where
  "try_format_int out v =
     (let widened = scast v :: 64 word; magnitude = magnitude_of widened; digits = decimal_digits magnitude;
          cnt = digits + (if sint widened < 0 then 1 else 0) in
      if cnt > length out then Inr (0, out)
      else if sint widened < 0
      then bnd (arr_set out 0 (CHR ''-'')) (\<lambda>out1.
           bnd (write_decimal (drop 1 out1) digits magnitude) (\<lambda>rest. Inr (cnt, take 1 out1 @ rest)))
      else bnd (write_decimal out digits magnitude) (\<lambda>out1. Inr (cnt, out1)))"

definition format_int :: "hardening \<Rightarrow> string \<Rightarrow> 't::len word \<Rightarrow> (nat \<times> string) outcome" where
  "format_int h out v = bnd (try_format_int out v) (\<lambda>(n, out1). METL_ASSERT h (n \<noteq> 0) (Inr (n, out1)))"

definition try_format_hex :: "string \<Rightarrow> 't::len word \<Rightarrow> nat \<Rightarrow> hex_case \<Rightarrow> (nat \<times> string) outcome" where
  "try_format_hex out v digits letters =
     (let widened = ucast v; needed = hex_digits widened; cnt = (if digits = 0 then needed else digits) in
      if cnt > length out \<or> needed > cnt then Inr (0, out)
      else bnd (write_hex out cnt widened letters) (\<lambda>out1. Inr (cnt, out1)))"

definition format_hex :: "hardening \<Rightarrow> string \<Rightarrow> 't::len word \<Rightarrow> nat \<Rightarrow> hex_case \<Rightarrow> (nat \<times> string) outcome" where
  "format_hex h out v digits letters =
     bnd (try_format_hex out v digits letters) (\<lambda>(n, out1). METL_ASSERT h (n \<noteq> 0) (Inr (n, out1)))"

section \<open>The digits of a number\<close>

text \<open>\<open>cnt\<close> digits of \<open>n\<close> in a base, most significant first, padded with zeros.\<close>

primrec digits_of :: "nat \<Rightarrow> nat \<Rightarrow> nat \<Rightarrow> nat list" where
  "digits_of base 0 n = []"
| "digits_of base (Suc cnt) n = digits_of base cnt (n div base) @ [n mod base]"

text \<open>The number of digits a number needs; 0 needs one.\<close>

function num_digits :: "nat \<Rightarrow> nat \<Rightarrow> nat" where
  "num_digits base n = (if 2 \<le> base \<and> base \<le> n then Suc (num_digits base (n div base)) else 1)"
  by pat_completeness auto
termination
  by (relation "measure snd") auto

declare num_digits.simps [simp del]

definition digit_value :: "nat \<Rightarrow> nat list \<Rightarrow> nat" where
  "digit_value base ds = foldl (\<lambda>v d. base * v + d) 0 ds"

lemma length_digits_of [simp]: "length (digits_of base cnt n) = cnt"
  by (induction cnt arbitrary: n) auto

lemma digit_value_snoc [simp]: "digit_value base (ds @ [d]) = base * digit_value base ds + d"
  by (simp add: digit_value_def)

lemma digit_value_digits: "digit_value base (digits_of base cnt n) = n mod base ^ cnt"
proof (induction cnt arbitrary: n)
  case 0
  then show ?case by (simp add: digit_value_def)
next
  case (Suc cnt)
  then show ?case by (simp add: mod_mult2_eq mult.commute add.commute)
qed

lemma num_digits_bound: "2 \<le> base \<Longrightarrow> n < base ^ num_digits base n"
proof (induction base n rule: num_digits.induct)
  case (1 base n)
  show ?case
  proof (cases "base \<le> n")
    case True
    then have "n div base < base ^ num_digits base (n div base)" using 1 by simp
    then have "n < base * base ^ num_digits base (n div base)"
      using 1 by (simp add: less_mult_imp_div_less div_less_iff_less_mult mult.commute)
    then show ?thesis using True 1 by (subst num_digits.simps) simp
  qed (use 1 in \<open>subst num_digits.simps; simp\<close>)
qed

lemma num_digits_value: "2 \<le> base \<Longrightarrow> num_digits base n \<le> cnt \<Longrightarrow> digit_value base (digits_of base cnt n) = n"
proof -
  assume a: "2 \<le> base" "num_digits base n \<le> cnt"
  have "n < base ^ num_digits base n" using a by (simp add: num_digits_bound)
  also have "\<dots> \<le> base ^ cnt" using a by (simp add: power_increasing)
  finally show ?thesis by (simp add: digit_value_digits)
qed

lemma digits_of_bound: "0 < base \<Longrightarrow> d \<in> set (digits_of base cnt n) \<Longrightarrow> d < base"
  by (induction cnt arbitrary: n) auto

lemma num_digits_le:
  assumes "2 \<le> base" "n < base ^ k" "0 < k"
  shows "num_digits base n \<le> k"
  using assms
proof (induction k arbitrary: n)
  case (Suc k)
  show ?case
  proof (cases "base \<le> n")
    case True
    then have "0 < k" using Suc.prems by (cases k) auto
    moreover have "n div base < base ^ k" using Suc.prems by (simp add: div_less_iff_less_mult mult.commute)
    ultimately show ?thesis using Suc True by (subst num_digits.simps) simp
  qed (use Suc in \<open>subst num_digits.simps; simp\<close>)
qed simp

section \<open>What the functions write\<close>

definition decimal_char :: "nat \<Rightarrow> char" where
  "decimal_char d = char_of (48 + d)"

definition hex_char :: "hex_case \<Rightarrow> nat \<Rightarrow> char" where
  "hex_char letters d = char_of (if d < 10 then 48 + d else (if letters = Upper then 65 else 97) + (d - 10))"

definition decimal_text :: "nat \<Rightarrow> string" where
  "decimal_text n = map decimal_char (digits_of 10 (num_digits 10 n) n)"

lemma unat_ten [simp]: "unat (m mod 10) = unat m mod 10" "unat (m div 10) = unat m div 10"
  for m :: "64 word"
  by (simp_all add: unat_mod_distrib unat_div_distrib)

lemma unat_nibble [simp]: "unat (v AND 15) = unat v mod 16" "unat (drop_bit 4 v) = unat v div 16"
  for v :: "64 word"
proof -
  have "v AND 15 = take_bit 4 v" by (simp add: take_bit_eq_mask mask_numeral)
  then show "unat (v AND 15) = unat v mod 16" by (simp add: unsigned_take_bit_eq take_bit_eq_mod unat_mod_distrib)
  show "unat (drop_bit 4 v) = unat v div 16" by (simp add: unsigned_drop_bit_eq drop_bit_eq_div unat_div_distrib)
qed

lemma decimal_digits_from_eq: "decimal_digits_from m (Suc d) = d + num_digits 10 (unat m)"
proof (induction m "Suc d" arbitrary: d rule: decimal_digits_from.induct)
  case (1 m)
  have "(m \<ge> 10) = (10 \<le> unat m)" by (simp add: word_le_nat_alt)
  then show ?case
    using 1 by (subst decimal_digits_from.simps, subst num_digits.simps) auto
qed

lemma decimal_digits_eq: "decimal_digits m = num_digits 10 (unat m)"
  using decimal_digits_from_eq [of m 0] by (simp add: decimal_digits_def)

lemma hex_digits_from_eq: "hex_digits_from m (Suc d) = d + num_digits 16 (unat m)"
proof (induction m "Suc d" arbitrary: d rule: hex_digits_from.induct)
  case (1 m)
  have "(m \<ge> 16) = (16 \<le> unat m)" by (simp add: word_le_nat_alt)
  then show ?case
    using 1 by (subst hex_digits_from.simps, subst num_digits.simps) auto
qed

lemma hex_digits_eq: "hex_digits m = num_digits 16 (unat m)"
  using hex_digits_from_eq [of m 0] by (simp add: hex_digits_def)

lemma drop_update_same: "i < length xs \<Longrightarrow> drop i (xs[i := x]) = x # drop (Suc i) xs"
  by (metis Cons_nth_drop_Suc drop_update_cancel length_list_update lessI nth_list_update_eq)

lemma write_decimal_eq:
  "cnt \<le> length out \<Longrightarrow> write_decimal out cnt m = Inr (map decimal_char (digits_of 10 cnt (unat m)) @ drop cnt out)"
  by (induction cnt arbitrary: out m) (simp_all add: drop_update_same decimal_char_def)

lemma write_hex_eq:
  "cnt \<le> length out \<Longrightarrow>
   write_hex out cnt v letters = Inr (map (hex_char letters) (digits_of 16 cnt (unat v)) @ drop cnt out)"
  by (induction cnt arbitrary: out v) (simp_all add: drop_update_same hex_char_def Let_def)

lemma length_decimal_text [simp]: "length (decimal_text n) = num_digits 10 n"
  by (simp add: decimal_text_def)

lemma num_digits_pos [simp]: "0 < num_digits base n"
  by (subst num_digits.simps) simp

lemma unat_widen: "LENGTH('t) \<le> LENGTH('u) \<Longrightarrow> unat (ucast v :: 'u::len word) = unat v" for v :: "'t::len word"
proof -
  assume "LENGTH('t) \<le> LENGTH('u)"
  then have "(2 :: nat) ^ LENGTH('t) \<le> 2 ^ LENGTH('u)" by (simp add: power_increasing)
  then have "unat v < 2 ^ LENGTH('u)" using unsigned_less [of v] by (metis less_le_trans)
  then show ?thesis by (simp add: unsigned_ucast_eq take_bit_nat_eq_self)
qed

lemma try_format_uint_eq:
  fixes v :: "'t::len word"
  assumes "LENGTH('t) \<le> 64"
  shows "try_format_uint out v =
    (if length (decimal_text (unat v)) > length out then Inr (0, out)
     else Inr (length (decimal_text (unat v)), decimal_text (unat v) @ drop (length (decimal_text (unat v))) out))"
proof -
  have "unat (ucast v :: 64 word) = unat v" using assms by (simp add: unat_widen)
  then show ?thesis
    by (simp add: try_format_uint_def Let_def decimal_digits_eq write_decimal_eq decimal_text_def)
qed

definition int_text :: "int \<Rightarrow> string" where
  "int_text k = (if k < 0 then CHR ''-'' # decimal_text (nat (- k)) else decimal_text (nat k))"

lemma sint_by_sign:
  "sint w = uint w - 2 ^ LENGTH('t) * of_bool (bit w (LENGTH('t) - 1))" for w :: "'t::len word"
proof -
  have "sint w = signed_take_bit (LENGTH('t) - 1) (uint w)" by (simp add: sint_uint)
  also have "\<dots> = take_bit LENGTH('t) (uint w) - 2 ^ LENGTH('t) * of_bool (bit (uint w) (LENGTH('t) - 1))"
    using signed_take_bit_eq_take_bit_minus [of "LENGTH('t) - 1" "uint w"] by simp
  also have "take_bit LENGTH('t) (uint w) = uint w" using unsigned_less [of w] by (intro take_bit_int_eq_self) simp_all
  finally show ?thesis by (simp add: bit_uint_iff)
qed

lemma uint_minus: "w \<noteq> 0 \<Longrightarrow> uint (- w) = 2 ^ LENGTH('t) - uint w" for w :: "'t::len word"
proof -
  assume "w \<noteq> 0"
  then have "0 < uint w" "uint w < 2 ^ LENGTH('t)" using unsigned_less [of w] by (auto simp: less_le uint_0_iff)
  then show ?thesis by (simp add: uint_word_ariths zmod_zminus1_eq_if)
qed

lemma magnitude_of_eq: "unat (magnitude_of w) = nat \<bar>sint w\<bar>"
proof (cases "bit w 63")
  case True
  then have "w \<noteq> 0" by auto
  then have "uint (- w) = 2 ^ 64 - uint w" using uint_minus [of w] by simp
  moreover have "sint w = uint w - 2 ^ 64" using sint_by_sign [of w] True by simp
  moreover have "uint w < 2 ^ 64" using unsigned_less [of w] by simp
  ultimately show ?thesis by (simp add: magnitude_of_def unat_eq_nat_uint)
next
  case False
  then have "sint w = uint w" using sint_by_sign [of w] by simp
  then show ?thesis by (simp add: magnitude_of_def)
qed

lemma try_format_int_eq:
  fixes v :: "'t::len word"
  assumes "LENGTH('t) \<le> 64"
  shows "try_format_int out v =
    (if length (int_text (sint v)) > length out then Inr (0, out)
     else Inr (length (int_text (sint v)), int_text (sint v) @ drop (length (int_text (sint v))) out))"
proof -
  have "signed_take_bit 63 (sint v) = sint v"
    using assms by (subst (1 2) sint_uint) (simp add: signed_take_bit_signed_take_bit min_absorb2)
  then have s: "sint (scast v :: 64 word) = sint v" by (simp add: signed_scast_eq)
  have neg: "drop 1 (out[0 := CHR ''-'']) = drop 1 out" "take 1 (out[0 := CHR ''-'']) = [CHR ''-'']" if "out \<noteq> []"
    using that by (cases out; simp)+
  show ?thesis
    by (cases "sint v < 0"; cases "out = []")
      (auto simp: try_format_int_def Let_def s magnitude_of_eq decimal_digits_eq write_decimal_eq int_text_def
        decimal_text_def neg [unfolded One_nat_def])
qed

lemma try_format_hex_eq:
  fixes v :: "'t::len word"
  assumes "LENGTH('t) \<le> 64"
  shows "try_format_hex out v digits letters =
    (let cnt = (if digits = 0 then num_digits 16 (unat v) else digits) in
     if cnt > length out \<or> num_digits 16 (unat v) > cnt then Inr (0, out)
     else Inr (cnt, map (hex_char letters) (digits_of 16 cnt (unat v)) @ drop cnt out))"
proof -
  have "unat (ucast v :: 64 word) = unat v" using assms by (simp add: unat_widen)
  then show ?thesis by (simp add: try_format_hex_def Let_def hex_digits_eq write_hex_eq)
qed

end
