(* ===== verification/Parse.thy ===== *)
theory Parse
  imports Format
begin

text \<open>
  \<^verbatim>\<open>parse.hpp\<close>: text to numbers, and the round trips with \<^verbatim>\<open>format.hpp\<close>. The result type
  \<^verbatim>\<open>expected<parsed<T>, parse_error>\<close> is a sum. \<open>'a\<close> is \<^verbatim>\<open>parse_accumulator_t<T>\<close>, the
  unsigned type the digits are folded in, which is at least as wide as \<open>'t\<close>; a signed
  \<^verbatim>\<open>T\<close> is the same word read by \<open>sint\<close>. Characters are compared by their codes.
\<close>

datatype parse_error = Empty_text | Not_a_number | Out_of_range

record 'v parsed =
  parsed_value :: 'v
  parsed_tail :: string

record 'v digit_run =
  run_value :: 'v
  run_consumed :: nat
  run_overflowed :: bool

section \<open>Operations\<close>

definition is_decimal_digit :: "char \<Rightarrow> bool" where
  "is_decimal_digit c \<longleftrightarrow> (of_char c :: nat) \<ge> 48 \<and> (of_char c :: nat) \<le> 57"

definition hex_digit_value :: "char \<Rightarrow> nat" where
  "hex_digit_value c =
     (if (of_char c :: nat) \<ge> 48 \<and> (of_char c :: nat) \<le> 57 then of_char c - 48
      else if (of_char c :: nat) \<ge> 97 \<and> (of_char c :: nat) \<le> 102 then of_char c - 97 + 10
      else if (of_char c :: nat) \<ge> 65 \<and> (of_char c :: nat) \<le> 70 then of_char c - 65 + 10
      else 16)"

function fold_decimal_from ::
  "string \<Rightarrow> 'a::len word \<Rightarrow> 'a word \<Rightarrow> 'a word \<Rightarrow> nat \<Rightarrow> bool \<Rightarrow> 'a word digit_run" where
  "fold_decimal_from text limit_head limit_tail value index overflowed =
     (if index < length text \<and> is_decimal_digit (text ! index)
      then let digit = of_nat (of_char (text ! index) - 48) in
           if value > limit_head \<or> (value = limit_head \<and> digit > limit_tail)
           then fold_decimal_from text limit_head limit_tail value (index + 1) True
           else fold_decimal_from text limit_head limit_tail (value * 10 + digit) (index + 1) overflowed
      else \<lparr>run_value = value, run_consumed = index, run_overflowed = overflowed\<rparr>)"
  by pat_completeness auto
termination
  by (relation "measure (\<lambda>(text, lh, lt, value, index, overflowed). length text - index)") auto

declare fold_decimal_from.simps [simp del]

definition fold_decimal :: "string \<Rightarrow> 'a::len word \<Rightarrow> 'a word \<Rightarrow> 'a word digit_run" where
  "fold_decimal text limit_head limit_tail = fold_decimal_from text limit_head limit_tail 0 0 False"

function fold_hex_from :: "string \<Rightarrow> 'a::len word \<Rightarrow> 'a word \<Rightarrow> nat \<Rightarrow> bool \<Rightarrow> 'a word digit_run" where
  "fold_hex_from text limit_head value index overflowed =
     (if index < length text \<and> hex_digit_value (text ! index) < 16
      then let digit = of_nat (hex_digit_value (text ! index)) in
           if value > limit_head
           then fold_hex_from text limit_head value (index + 1) True
           else fold_hex_from text limit_head (value * 16 + digit) (index + 1) overflowed
      else \<lparr>run_value = value, run_consumed = index, run_overflowed = overflowed\<rparr>)"
  by pat_completeness auto
termination
  by (relation "measure (\<lambda>(text, lh, value, index, overflowed). length text - index)") auto

declare fold_hex_from.simps [simp del]

definition fold_hex :: "string \<Rightarrow> 'a::len word \<Rightarrow> 'a word digit_run" where
  "fold_hex text limit_head = fold_hex_from text limit_head 0 0 False"

text \<open>\<^verbatim>\<open>std::numeric_limits<T>\<close> for an unsigned and for a signed \<^verbatim>\<open>T\<close>.\<close>

definition unsigned_max :: "'t::len word" where
  "unsigned_max = NOT 0"

definition signed_max :: "'t::len word" where
  "signed_max = mask (LENGTH('t) - 1)"

definition signed_min :: "'t::len word" where
  "signed_min = push_bit (LENGTH('t) - 1) 1"

definition negative_limit_of :: "'t::len itself \<Rightarrow> 'a::len word" where
  "negative_limit_of tt = ucast (signed_max :: 't word) + 1"

definition try_parse_uint :: "'a::len itself \<Rightarrow> string \<Rightarrow> parse_error + 't::len word parsed" where
  "try_parse_uint ta text =
     (if text = [] then Inl Empty_text
      else let limit = ucast (unsigned_max :: 't word) :: 'a word;
               run = fold_decimal text (limit div 10) (limit mod 10) in
           if run_consumed run = 0 then Inl Not_a_number
           else if run_overflowed run then Inl Out_of_range
           else Inr \<lparr>parsed_value = ucast (run_value run), parsed_tail = drop (run_consumed run) text\<rparr>)"

definition parse_uint :: "'a::len itself \<Rightarrow> string \<Rightarrow> 't::len word parsed outcome" where
  "parse_uint ta text = (case try_parse_uint ta text of Inl _ \<Rightarrow> Inl Check_failed | Inr r \<Rightarrow> Inr r)"

definition try_parse_int :: "'a::len itself \<Rightarrow> string \<Rightarrow> parse_error + 't::len word parsed" where
  "try_parse_int ta text =
     (if text = [] then Inl Empty_text
      else let negative = (text ! 0 = CHR ''-'');
               digits = (if negative then drop 1 text else text);
               positive_limit = ucast (signed_max :: 't word) :: 'a word;
               negative_limit = negative_limit_of TYPE('t);
               limit_head = (if negative then negative_limit div 10 else positive_limit div 10);
               limit_tail = (if negative then negative_limit mod 10 else positive_limit mod 10);
               run = fold_decimal digits limit_head limit_tail in
           if run_consumed run = 0 then Inl Not_a_number
           else if run_overflowed run then Inl Out_of_range
           else let tail = drop (run_consumed run) digits in
             if \<not> negative then Inr \<lparr>parsed_value = ucast (run_value run), parsed_tail = tail\<rparr>
             else if run_value run = negative_limit then Inr \<lparr>parsed_value = signed_min, parsed_tail = tail\<rparr>
             else Inr \<lparr>parsed_value = - ucast (run_value run), parsed_tail = tail\<rparr>)"

definition parse_int :: "'a::len itself \<Rightarrow> string \<Rightarrow> 't::len word parsed outcome" where
  "parse_int ta text = (case try_parse_int ta text of Inl _ \<Rightarrow> Inl Check_failed | Inr r \<Rightarrow> Inr r)"

definition try_parse_hex :: "'a::len itself \<Rightarrow> string \<Rightarrow> parse_error + 't::len word parsed" where
  "try_parse_hex ta text =
     (if text = [] then Inl Empty_text
      else let limit = ucast (unsigned_max :: 't word) :: 'a word;
               run = fold_hex text (limit div 16) in
           if run_consumed run = 0 then Inl Not_a_number
           else if run_overflowed run then Inl Out_of_range
           else Inr \<lparr>parsed_value = ucast (run_value run), parsed_tail = drop (run_consumed run) text\<rparr>)"

definition parse_hex :: "'a::len itself \<Rightarrow> string \<Rightarrow> 't::len word parsed outcome" where
  "parse_hex ta text = (case try_parse_hex ta text of Inl _ \<Rightarrow> Inl Check_failed | Inr r \<Rightarrow> Inr r)"

section \<open>Folding digits\<close>

text \<open>One more digit: the number read so far, continued.\<close>

definition fold_digits :: "nat \<Rightarrow> nat \<Rightarrow> nat list \<Rightarrow> nat" where
  "fold_digits base v ds = foldl (\<lambda>v d. base * v + d) v ds"

lemma fold_digits_simps [simp]:
  "fold_digits base v [] = v" "fold_digits base v (d # ds) = fold_digits base (base * v + d) ds"
  by (simp_all add: fold_digits_def)

lemma fold_digits_mono: "0 < base \<Longrightarrow> v \<le> fold_digits base v ds"
proof (induction ds arbitrary: v)
  case (Cons d ds)
  have "v \<le> base * v + d" using Cons.prems by (cases base) auto
  then show ?case using Cons by (metis fold_digits_simps(2) order_trans)
qed simp

text \<open>
  The state of a fold that has read the number \<open>V\<close>: it overflowed when \<open>V\<close> is above
  the limit, and otherwise holds \<open>V\<close>.
\<close>

definition fold_state :: "nat \<Rightarrow> nat \<Rightarrow> 'a::len word \<Rightarrow> bool \<Rightarrow> bool" where
  "fold_state L V acc overflowed \<longleftrightarrow> (if overflowed then L < V else unat acc = V \<and> V \<le> L)"

definition run_state :: "nat \<Rightarrow> nat \<Rightarrow> nat \<Rightarrow> 'a::len word digit_run \<Rightarrow> bool" where
  "run_state L V n run \<longleftrightarrow> run_consumed run = n \<and> fold_state L V (run_value run) (run_overflowed run)"

lemma fold_step:
  fixes acc :: "'a::len word"
  assumes "fold_state L V acc overflowed" "L < 2 ^ LENGTH('a)" "0 < base"
    "\<not> overflowed \<Longrightarrow> exceeds \<longleftrightarrow> L < base * V + d"
  shows "exceeds \<Longrightarrow> fold_state L (base * V + d) acc True"
    and "\<not> exceeds \<Longrightarrow> fold_state L (base * V + d) (acc * of_nat base + of_nat d) overflowed"
proof -
  have mono: "V \<le> base * V + d" using assms(3) by (cases base) auto
  show "exceeds \<Longrightarrow> fold_state L (base * V + d) acc True"
    using assms(1,4) mono by (auto simp: fold_state_def split: if_splits)
  have "unat (acc * of_nat base + of_nat d) = base * V + d" if "unat acc = V" "base * V + d \<le> L"
  proof -
    have "acc * of_nat base + of_nat d = (of_nat (base * V + d) :: 'a word)"
      unfolding that(1) [symmetric] by (simp add: mult.commute)
    moreover have "base * V + d < 2 ^ LENGTH('a)" using that(2) assms(2) by simp
    ultimately show ?thesis by (simp only: unat_of_nat mod_less)
  qed
  then show "\<not> exceeds \<Longrightarrow> fold_state L (base * V + d) (acc * of_nat base + of_nat d) overflowed"
    using assms(1,4) mono by (auto simp: fold_state_def)
qed

definition decimal_values :: "string \<Rightarrow> nat list" where
  "decimal_values text = map (\<lambda>c. of_char c - 48) (takeWhile is_decimal_digit text)"

definition hex_values :: "string \<Rightarrow> nat list" where
  "hex_values text = map hex_digit_value (takeWhile (\<lambda>c. hex_digit_value c < 16) text)"

lemma unat_small [simp]: "n < 2 ^ LENGTH('a) \<Longrightarrow> unat (of_nat n :: 'a::len word) = n"
  by (simp only: unat_of_nat mod_less)

lemma limit_test:
  fixes d L V base :: nat
  assumes "d < base"
  shows "L div base < V \<or> V = L div base \<and> L mod base < d \<longleftrightarrow> L < base * V + d"
proof -
  have L: "L = base * (L div base) + L mod base" "L mod base < base" using assms by simp_all
  consider "V < L div base" | "V = L div base" | "L div base < V" by linarith
  then show ?thesis
  proof cases
    case 1
    then have "base * Suc V \<le> base * (L div base)" by (intro mult_left_mono) auto
    then have "base * V + base \<le> base * (L div base)" by simp
    then have "base * V + base \<le> L" using L(1) by linarith
    then show ?thesis using 1 assms by auto
  next
    case 2
    then show ?thesis using L by (metis add_less_cancel_left less_irrefl)
  next
    case 3
    then have "base * Suc (L div base) \<le> base * V" by (intro mult_left_mono) auto
    then have "base * (L div base) + base \<le> base * V" by simp
    then have "L < base * V" using L by linarith
    then show ?thesis using 3 by auto
  qed
qed

lemma fold_decimal_from_state:
  fixes acc :: "'a::len word"
  assumes "L < 2 ^ LENGTH('a)" "8 \<le> LENGTH('a)" "fold_state L V acc overflowed" "index \<le> length text"
  shows "run_state L (fold_digits 10 V (decimal_values (drop index text)))
    (index + length (decimal_values (drop index text)))
    (fold_decimal_from text (of_nat (L div 10)) (of_nat (L mod 10)) acc index overflowed)"
  using assms(3,4)
proof (induction "length text - index" arbitrary: index V acc overflowed)
  case 0
  then show ?case
    by (subst fold_decimal_from.simps) (simp add: run_state_def decimal_values_def)
next
  case (Suc n)
  then have i: "index < length text" by simp
  then have drop: "drop index text = text ! index # drop (Suc index) text" by (simp add: Cons_nth_drop_Suc)
  show ?case
  proof (cases "is_decimal_digit (text ! index)")
    case False
    then show ?thesis
      using Suc.prems by (subst fold_decimal_from.simps) (simp add: run_state_def decimal_values_def drop)
  next
    case True
    let ?d = "of_char (text ! index) - 48 :: nat"
    let ?digit = "of_nat ?d :: 'a word"
    let ?exceeds = "acc > of_nat (L div 10) \<or> acc = of_nat (L div 10) \<and> ?digit > of_nat (L mod 10)"
    have big: "(2 :: nat) ^ 8 \<le> 2 ^ LENGTH('a)" using assms(2) by (intro power_increasing) auto
    have d: "?d < 10" using True by (auto simp: is_decimal_digit_def)
    have u: "unat (of_nat (L div 10) :: 'a word) = L div 10" "unat (of_nat (L mod 10) :: 'a word) = L mod 10"
      "unat ?digit = ?d"
      using assms(1) big d by (simp_all del: of_nat_mod)
    have "?exceeds \<longleftrightarrow> L < 10 * V + ?d" if "\<not> overflowed"
    proof -
      have V: "unat acc = V" using Suc.prems(1) that by (simp add: fold_state_def)
      have "?exceeds \<longleftrightarrow> L div 10 < V \<or> V = L div 10 \<and> L mod 10 < ?d"
        unfolding word_less_nat_alt word_unat_eq_iff u V by simp
      then show ?thesis using limit_test [OF d, of L V] by simp
    qed
    note step = fold_step [OF Suc.prems(1) assms(1), of 10 ?exceeds ?d, OF _ this]
    have vals: "decimal_values (drop index text) = ?d # decimal_values (drop (Suc index) text)"
      using True by (simp add: decimal_values_def drop)
    have IH: "run_state L (fold_digits 10 V' (decimal_values (drop (Suc index) text)))
        (Suc index + length (decimal_values (drop (Suc index) text)))
        (fold_decimal_from text (of_nat (L div 10)) (of_nat (L mod 10)) acc' (Suc index) overflowed')"
      if "fold_state L V' acc' overflowed'" for V' overflowed' and acc' :: "'a word"
      using Suc.hyps(1) [of "Suc index" V' acc' overflowed'] Suc.hyps(2) that i by simp
    show ?thesis
    proof (cases ?exceeds)
      case exceeds: True
      then show ?thesis
        using IH [OF step(1)] True i vals by (subst fold_decimal_from.simps) (simp add: Let_def)
    next
      case fits: False
      then show ?thesis
        using IH [OF step(2)] True i vals by (subst fold_decimal_from.simps) (auto simp: Let_def)
    qed
  qed
qed

lemma fold_hex_from_state:
  fixes acc :: "'a::len word"
  assumes "L < 2 ^ LENGTH('a)" "L mod 16 = 15" "fold_state L V acc overflowed" "index \<le> length text"
  shows "run_state L (fold_digits 16 V (hex_values (drop index text)))
    (index + length (hex_values (drop index text))) (fold_hex_from text (of_nat (L div 16)) acc index overflowed)"
  using assms(3,4)
proof (induction "length text - index" arbitrary: index V acc overflowed)
  case 0
  then show ?case
    by (subst fold_hex_from.simps) (simp add: run_state_def hex_values_def)
next
  case (Suc n)
  then have i: "index < length text" by simp
  then have drop: "drop index text = text ! index # drop (Suc index) text" by (simp add: Cons_nth_drop_Suc)
  show ?case
  proof (cases "hex_digit_value (text ! index) < 16")
    case False
    then show ?thesis
      using Suc.prems by (subst fold_hex_from.simps) (simp add: run_state_def hex_values_def drop)
  next
    case True
    let ?d = "hex_digit_value (text ! index)"
    let ?exceeds = "acc > of_nat (L div 16)"
    have "?exceeds \<longleftrightarrow> L < 16 * V + ?d" if "\<not> overflowed"
    proof -
      have V: "unat acc = V" using Suc.prems(1) that by (simp add: fold_state_def)
      have "?exceeds \<longleftrightarrow> L div 16 < V" using assms(1) by (simp add: word_less_nat_alt V)
      then show ?thesis using limit_test [OF True, of L V] True assms(2) by auto
    qed
    note step = fold_step [OF Suc.prems(1) assms(1), of 16 ?exceeds ?d, OF _ this]
    have vals: "hex_values (drop index text) = ?d # hex_values (drop (Suc index) text)"
      using True by (simp add: hex_values_def drop)
    have IH: "run_state L (fold_digits 16 V' (hex_values (drop (Suc index) text)))
        (Suc index + length (hex_values (drop (Suc index) text)))
        (fold_hex_from text (of_nat (L div 16)) acc' (Suc index) overflowed')"
      if "fold_state L V' acc' overflowed'" for V' overflowed' and acc' :: "'a word"
      using Suc.hyps(1) [of "Suc index" V' acc' overflowed'] Suc.hyps(2) that i by simp
    show ?thesis
    proof (cases ?exceeds)
      case exceeds: True
      then show ?thesis
        using IH [OF step(1)] True i vals by (subst fold_hex_from.simps) (simp add: Let_def)
    next
      case fits: False
      then show ?thesis
        using IH [OF step(2)] True i vals by (subst fold_hex_from.simps) (simp add: Let_def)
    qed
  qed
qed

lemma fold_decimal_state:
  assumes "L < 2 ^ LENGTH('a)" "8 \<le> LENGTH('a)"
  shows "run_state L (digit_value 10 (decimal_values text)) (length (decimal_values text))
    (fold_decimal text (of_nat (L div 10)) (of_nat (L mod 10) :: 'a::len word))"
  using fold_decimal_from_state [OF assms, of 0 0 False 0 "text"]
  by (simp add: fold_decimal_def fold_state_def fold_digits_def digit_value_def)

lemma fold_hex_state:
  assumes "L < 2 ^ LENGTH('a)" "L mod 16 = 15"
  shows "run_state L (digit_value 16 (hex_values text)) (length (hex_values text))
    (fold_hex text (of_nat (L div 16) :: 'a::len word))"
  using fold_hex_from_state [OF assms, of 0 0 False 0 "text"]
  by (simp add: fold_hex_def fold_state_def fold_digits_def digit_value_def)

section \<open>What the parsers return\<close>

lemma limits:
  assumes "LENGTH('t::len) \<le> LENGTH('a::len)" "8 \<le> LENGTH('t)"
  shows "ucast (unsigned_max :: 't word) = (of_nat (2 ^ LENGTH('t) - 1) :: 'a word)"
    and "ucast (signed_max :: 't word) = (of_nat (2 ^ (LENGTH('t) - 1) - 1) :: 'a word)"
    and "negative_limit_of TYPE('t) = (of_nat (2 ^ (LENGTH('t) - 1)) :: 'a word)"
proof -
  have u: "unat (unsigned_max :: 't word) = 2 ^ LENGTH('t) - 1"
    by (simp add: unsigned_max_def unsigned_minus_1_eq_mask mask_eq_exp_minus_1)
  have m: "unat (signed_max :: 't word) = 2 ^ (LENGTH('t) - 1) - 1"
  proof -
    have "unat (mask (LENGTH('t) - 1) :: 't word) = mask (LENGTH('t) - 1)"
      by (rule bit_eqI) (auto simp: bit_unsigned_iff bit_mask_iff)
    then show ?thesis by (simp add: signed_max_def mask_eq_exp_minus_1)
  qed
  have cast: "ucast x = (of_nat (unat x) :: 'a word)" for x :: "'t word" by simp
  show "ucast (unsigned_max :: 't word) = (of_nat (2 ^ LENGTH('t) - 1) :: 'a word)" unfolding cast u ..
  show max: "ucast (signed_max :: 't word) = (of_nat (2 ^ (LENGTH('t) - 1) - 1) :: 'a word)" unfolding cast m ..
  have "Suc (2 ^ (LENGTH('t) - 1) - 1) = 2 ^ (LENGTH('t) - 1)" by simp
  then show "negative_limit_of TYPE('t) = (of_nat (2 ^ (LENGTH('t) - 1)) :: 'a word)"
    unfolding negative_limit_of_def max by (metis Suc_eq_plus1 of_nat_Suc add.commute)
qed

lemma word_quotients:
  assumes "L < 2 ^ LENGTH('a)" "0 < b" "b < 2 ^ LENGTH('a)"
  shows "(of_nat L :: 'a::len word) div of_nat b = of_nat (L div b)" "(of_nat L :: 'a word) mod of_nat b = of_nat (L mod b)"
proof -
  have "L div b < 2 ^ LENGTH('a)" "L mod b < 2 ^ LENGTH('a)"
    using assms by (auto intro: le_less_trans [OF div_le_dividend] le_less_trans [OF mod_less_eq_dividend])
  then show "(of_nat L :: 'a word) div of_nat b = of_nat (L div b)" "(of_nat L :: 'a word) mod of_nat b = of_nat (L mod b)"
    using assms by (simp_all only: word_unat_eq_iff unat_div_distrib unat_mod_distrib unat_small)
qed

lemma powers_fit:
  assumes "LENGTH('t::len) \<le> LENGTH('a::len)" "8 \<le> LENGTH('t)"
  shows "2 ^ LENGTH('t) - 1 < (2 :: nat) ^ LENGTH('a)" "(2 :: nat) ^ (LENGTH('t) - 1) < 2 ^ LENGTH('a)"
    "2 ^ (LENGTH('t) - 1) - 1 < (2 :: nat) ^ LENGTH('a)" "16 < (2 :: nat) ^ LENGTH('a)" "10 < (2 :: nat) ^ LENGTH('a)"
    "8 \<le> LENGTH('a)"
proof -
  have "(2 :: nat) ^ LENGTH('t) \<le> 2 ^ LENGTH('a)" using assms(1) by (simp add: power_increasing)
  moreover have "(2 :: nat) ^ (LENGTH('t) - 1) < 2 ^ LENGTH('t)" by simp
  moreover have "(2 :: nat) ^ 8 \<le> 2 ^ LENGTH('a)" using assms by (intro power_increasing) auto
  ultimately show "2 ^ LENGTH('t) - 1 < (2 :: nat) ^ LENGTH('a)" "(2 :: nat) ^ (LENGTH('t) - 1) < 2 ^ LENGTH('a)"
    "2 ^ (LENGTH('t) - 1) - 1 < (2 :: nat) ^ LENGTH('a)" "16 < (2 :: nat) ^ LENGTH('a)" "10 < (2 :: nat) ^ LENGTH('a)"
    "8 \<le> LENGTH('a)" using assms
    by (auto simp: less_imp_diff_less intro: less_le_trans diff_less)
qed

text \<open>The reading of a text, as a specification over unbounded numbers.\<close>

definition read_number :: "nat \<Rightarrow> nat list \<Rightarrow> nat \<Rightarrow> string \<Rightarrow> string \<Rightarrow> parse_error + nat parsed" where
  "read_number base ds limit text tail =
     (if text = [] then Inl Empty_text
      else if ds = [] then Inl Not_a_number
      else if limit < digit_value base ds then Inl Out_of_range
      else Inr \<lparr>parsed_value = digit_value base ds, parsed_tail = tail\<rparr>)"

definition to_word :: "parse_error + nat parsed \<Rightarrow> parse_error + 't::len word parsed" where
  "to_word r = (case r of Inl e \<Rightarrow> Inl e
     | Inr p \<Rightarrow> Inr \<lparr>parsed_value = of_nat (parsed_value p), parsed_tail = parsed_tail p\<rparr>)"

lemma run_cases:
  assumes "run_state L V n run"
  shows "run_consumed run = n" "run_overflowed run \<longleftrightarrow> L < V" "\<not> L < V \<Longrightarrow> unat (run_value run) = V"
  using assms by (auto simp: run_state_def fold_state_def split: if_splits)

lemma ucast_by_unat: "unat x = V \<Longrightarrow> ucast x = (of_nat V :: 'b::len word)" for x :: "'a::len word"
  by auto

lemma decimal_tail: "drop (length (decimal_values t)) t = dropWhile is_decimal_digit t"
  by (simp add: decimal_values_def dropWhile_eq_drop)

lemma hex_tail: "drop (length (hex_values t)) t = dropWhile (\<lambda>c. hex_digit_value c < 16) t"
  by (simp add: hex_values_def dropWhile_eq_drop)

lemma try_parse_uint_eq:
  assumes "LENGTH('t::len) \<le> LENGTH('a::len)" "8 \<le> LENGTH('t)"
  shows "(try_parse_uint TYPE('a) t :: parse_error + 't word parsed) =
    to_word (read_number 10 (decimal_values t) (2 ^ LENGTH('t) - 1) t (dropWhile is_decimal_digit t))"
proof -
  let ?L = "2 ^ LENGTH('t) - 1 :: nat"
  let ?run = "fold_decimal t (of_nat (?L div 10)) (of_nat (?L mod 10) :: 'a word)"
  note fit = powers_fit [OF assms]
  have q: "(of_nat ?L :: 'a word) div 10 = of_nat (?L div 10)" "(of_nat ?L :: 'a word) mod 10 = of_nat (?L mod 10)"
    using word_quotients [OF fit(1), of 10] fit(5) by simp_all
  note run = run_cases [OF fold_decimal_state [OF fit(1,6), of t]]
  have cast: "\<not> ?L < digit_value 10 (decimal_values t) \<Longrightarrow> ucast (run_value ?run) = (of_nat (digit_value 10 (decimal_values t)) :: 't word)"
    by (rule ucast_by_unat [OF run(3)])
  show ?thesis
    unfolding try_parse_uint_def Let_def limits(1) [OF assms] q to_word_def read_number_def
    using run cast by (simp add: decimal_tail)
qed

lemma mod_16_limit:
  assumes "8 \<le> n"
  shows "(2 ^ n - 1) mod 16 = (15 :: nat)"
proof -
  obtain k where k: "n = 4 + k" using assms le_Suc_ex [of 4 n] by auto
  have "(2 :: nat) ^ n = 16 * 2 ^ k" unfolding k by (simp add: power_add)
  moreover have "0 < (2 :: nat) ^ k" by simp
  ultimately have "(2 :: nat) ^ n - 1 = 16 * (2 ^ k - 1) + 15" by (simp add: algebra_simps)
  then show ?thesis by simp
qed

lemma try_parse_hex_eq:
  assumes "LENGTH('t::len) \<le> LENGTH('a::len)" "8 \<le> LENGTH('t)"
  shows "(try_parse_hex TYPE('a) t :: parse_error + 't word parsed) =
    to_word (read_number 16 (hex_values t) (2 ^ LENGTH('t) - 1) t (dropWhile (\<lambda>c. hex_digit_value c < 16) t))"
proof -
  let ?L = "2 ^ LENGTH('t) - 1 :: nat"
  let ?run = "fold_hex t (of_nat (?L div 16) :: 'a word)"
  note fit = powers_fit [OF assms]
  have q: "(of_nat ?L :: 'a word) div 16 = of_nat (?L div 16)" using word_quotients [OF fit(1), of 16] fit(4) by simp
  note run = run_cases [OF fold_hex_state [OF fit(1) mod_16_limit [OF assms(2)], of t]]
  have cast: "\<not> ?L < digit_value 16 (hex_values t) \<Longrightarrow> ucast (run_value ?run) = (of_nat (digit_value 16 (hex_values t)) :: 't word)"
    by (rule ucast_by_unat [OF run(3)])
  show ?thesis
    unfolding try_parse_hex_def Let_def limits(1) [OF assms] q to_word_def read_number_def
    using run cast by (simp add: hex_tail)
qed

end
