(* ===== verification/Number_text.thy ===== *)
theory Number_text
  imports Parse
begin

text \<open>
  What \<^verbatim>\<open>parse.hpp\<close> and \<^verbatim>\<open>format.hpp\<close> promise: the parsers read exactly the numbers their
  type can hold, the formatters write exactly the digits of a number or refuse
  without touching the buffer, and parsing what was formatted gives the number back.
\<close>

section \<open>Signed numbers\<close>

definition read_int :: "nat \<Rightarrow> string \<Rightarrow> parse_error + int parsed" where
  "read_int n t =
     (if t = [] then Inl Empty_text
      else let negative = (t ! 0 = CHR ''-''); body = (if negative then drop 1 t else t);
               v = digit_value 10 (decimal_values body) in
        if decimal_values body = [] then Inl Not_a_number
        else if v > (if negative then 2 ^ (n - 1) else 2 ^ (n - 1) - 1) then Inl Out_of_range
        else Inr \<lparr>parsed_value = (if negative then - int v else int v),
                  parsed_tail = dropWhile is_decimal_digit body\<rparr>)"

definition to_signed_word :: "parse_error + int parsed \<Rightarrow> parse_error + 't::len word parsed" where
  "to_signed_word r = (case r of Inl e \<Rightarrow> Inl e
     | Inr p \<Rightarrow> Inr \<lparr>parsed_value = word_of_int (parsed_value p), parsed_tail = parsed_tail p\<rparr>)"

lemma signed_min_eq: "(signed_min :: 't::len word) = word_of_int (- (2 ^ (LENGTH('t) - 1)))"
proof -
  have double: "2 ^ (LENGTH('t) - 1) + 2 ^ (LENGTH('t) - 1) = (2 :: 't word) ^ LENGTH('t)"
    by (metis Suc_pred' len_gt_0 mult_2 power_Suc)
  have "(2 :: 't word) ^ (LENGTH('t) - 1) = - (2 ^ (LENGTH('t) - 1))"
    using double by (simp add: eq_neg_iff_add_eq_0)
  then show ?thesis by (simp add: signed_min_def push_bit_eq_mult)
qed

lemma unat_half: "unat (x :: 'a::len word) = V \<Longrightarrow> x = of_nat V"
  by auto

lemma try_parse_int_eq:
  assumes "LENGTH('t::len) \<le> LENGTH('a::len)" "8 \<le> LENGTH('t)"
  shows "(try_parse_int TYPE('a) t :: parse_error + 't word parsed) = to_signed_word (read_int LENGTH('t) t)"
proof (cases "t = []")
  case True
  then show ?thesis by (simp add: try_parse_int_def read_int_def to_signed_word_def)
next
  case False
  let ?neg = "t ! 0 = CHR ''-''" and ?n = "LENGTH('t) - 1"
  define body where "body = (if ?neg then drop 1 t else t)"
  define L :: nat where "L = (if ?neg then 2 ^ ?n else 2 ^ ?n - 1)"
  let ?V = "digit_value 10 (decimal_values body)"
  let ?run = "fold_decimal body (of_nat (L div 10)) (of_nat (L mod 10) :: 'a word)"
  note fit = powers_fit [OF assms]
  have L: "L < 2 ^ LENGTH('a)" using fit(2,3) by (simp add: L_def)
  have q: "(of_nat K :: 'a word) div 10 = of_nat (K div 10)" "(of_nat K :: 'a word) mod 10 = of_nat (K mod 10)"
    if "K < 2 ^ LENGTH('a)" for K
    using word_quotients [OF that, of 10] fit(5) by simp_all
  have head: "(if ?neg then (of_nat (2 ^ ?n) :: 'a word) div 10 else of_nat (2 ^ ?n - 1) div 10) = of_nat (L div 10)"
    "(if ?neg then (of_nat (2 ^ ?n) :: 'a word) mod 10 else of_nat (2 ^ ?n - 1) mod 10) = of_nat (L mod 10)"
    using q [OF fit(2)] q [OF fit(3)] by (simp_all only: L_def split: if_split) auto
  note run = run_cases [OF fold_decimal_state [OF L fit(6), of body]]
  have cast: "\<not> L < ?V \<Longrightarrow> ucast (run_value ?run) = (of_nat ?V :: 't word)" by (rule ucast_by_unat [OF run(3)])
  have edge: "run_value ?run = of_nat (2 ^ ?n) \<longleftrightarrow> ?V = 2 ^ ?n" if "\<not> L < ?V"
    by (simp only: word_unat_eq_iff unat_small [OF fit(2)] run(3) [OF that])
  have parse: "(try_parse_int TYPE('a) t :: parse_error + 't word parsed) =
      (if run_consumed ?run = 0 then Inl Not_a_number
       else if run_overflowed ?run then Inl Out_of_range
       else if \<not> ?neg then Inr \<lparr>parsed_value = ucast (run_value ?run), parsed_tail = drop (run_consumed ?run) body\<rparr>
       else if run_value ?run = of_nat (2 ^ ?n) then Inr \<lparr>parsed_value = signed_min, parsed_tail = drop (run_consumed ?run) body\<rparr>
       else Inr \<lparr>parsed_value = - ucast (run_value ?run), parsed_tail = drop (run_consumed ?run) body\<rparr>)"
    unfolding try_parse_int_def Let_def limits(2,3) [OF assms] head body_def [symmetric] using False by simp
  have spec: "to_signed_word (read_int LENGTH('t) t) =
      (if decimal_values body = [] then Inl Not_a_number
       else if L < ?V then Inl Out_of_range
       else Inr \<lparr>parsed_value = word_of_int (if ?neg then - int ?V else int ?V) :: 't word,
                 parsed_tail = dropWhile is_decimal_digit body\<rparr>)"
    unfolding read_int_def Let_def body_def [symmetric] L_def [symmetric] to_signed_word_def using False by simp
  show ?thesis
    unfolding parse spec using run edge cast signed_min_eq [where 't = 't] by (auto simp: decimal_tail)
qed

section \<open>Reading back what was written\<close>

lemma of_decimal_char: "d < 10 \<Longrightarrow> (of_char (decimal_char d) :: nat) = 48 + d"
  by (simp add: decimal_char_def)

lemma hex_digit_char: "d < 16 \<Longrightarrow> hex_digit_value (hex_char letters d) = d"
  by (cases letters) (auto simp: hex_digit_value_def hex_char_def)

lemma decimal_values_written:
  assumes "\<forall>d \<in> set ds. d < 10" "rest = [] \<or> \<not> is_decimal_digit (hd rest)"
  shows "decimal_values (map decimal_char ds @ rest) = ds"
    and "dropWhile is_decimal_digit (map decimal_char ds @ rest) = rest"
proof -
  have all: "\<forall>c \<in> set (map decimal_char ds). is_decimal_digit c"
    using assms(1) by (auto simp: is_decimal_digit_def of_decimal_char)
  have stop: "takeWhile is_decimal_digit rest = []" "dropWhile is_decimal_digit rest = rest"
    using assms(2) by (cases rest; auto)+
  have tw: "takeWhile is_decimal_digit (map decimal_char ds @ rest) = map decimal_char ds"
    using takeWhile_append2 [of "map decimal_char ds" "is_decimal_digit" rest] all stop(1) by auto
  have "map (\<lambda>c. of_char c - 48) (map decimal_char ds) = ds"
    using assms(1) by (auto simp: of_decimal_char intro: map_idI)
  then show "decimal_values (map decimal_char ds @ rest) = ds"
    using tw by (simp only: decimal_values_def)
  show "dropWhile is_decimal_digit (map decimal_char ds @ rest) = rest"
    using dropWhile_append2 [of "map decimal_char ds" "is_decimal_digit" rest] all stop(2) by auto
qed

lemma hex_values_written:
  assumes "\<forall>d \<in> set ds. d < 16" "rest = [] \<or> \<not> hex_digit_value (hd rest) < 16"
  shows "hex_values (map (hex_char letters) ds @ rest) = ds"
    and "dropWhile (\<lambda>c. hex_digit_value c < 16) (map (hex_char letters) ds @ rest) = rest"
proof -
  have all: "\<forall>c \<in> set (map (hex_char letters) ds). hex_digit_value c < 16"
    using assms(1) by (auto simp: hex_digit_char)
  have stop: "takeWhile (\<lambda>c. hex_digit_value c < 16) rest = []" "dropWhile (\<lambda>c. hex_digit_value c < 16) rest = rest"
    using assms(2) by (cases rest; auto)+
  have tw: "takeWhile (\<lambda>c. hex_digit_value c < 16) (map (hex_char letters) ds @ rest) = map (hex_char letters) ds"
    using takeWhile_append2 [of "map (hex_char letters) ds" "(\<lambda>c. hex_digit_value c < 16)" rest] all stop(1) by auto
  have "map hex_digit_value (map (hex_char letters) ds) = ds"
    using assms(1) by (auto simp: hex_digit_char intro: map_idI)
  then show "hex_values (map (hex_char letters) ds @ rest) = ds"
    using tw by (simp only: hex_values_def)
  show "dropWhile (\<lambda>c. hex_digit_value c < 16) (map (hex_char letters) ds @ rest) = rest"
    using dropWhile_append2 [of "map (hex_char letters) ds" "(\<lambda>c. hex_digit_value c < 16)" rest] all stop(2) by auto
qed

lemma decimal_text_read:
  assumes "rest = [] \<or> \<not> is_decimal_digit (hd rest)"
  shows "digit_value 10 (decimal_values (decimal_text n @ rest)) = n"
    and "decimal_values (decimal_text n @ rest) \<noteq> []" and "decimal_text n @ rest \<noteq> []"
    and "dropWhile is_decimal_digit (decimal_text n @ rest) = rest"
proof -
  have d: "\<forall>d \<in> set (digits_of 10 (num_digits 10 n) n). d < 10" by (auto dest: digits_of_bound [rotated])
  note read = decimal_values_written [OF d assms, folded decimal_text_def]
  show "digit_value 10 (decimal_values (decimal_text n @ rest)) = n"
    unfolding read(1) by (rule num_digits_value) auto
  have some: "digits_of 10 (num_digits 10 n) n \<noteq> []"
    using length_digits_of [of 10 "num_digits 10 n" n] num_digits_pos [of 10 n] by (metis length_0_conv less_irrefl)
  then show "decimal_values (decimal_text n @ rest) \<noteq> []" unfolding read(1) .
  show "decimal_text n @ rest \<noteq> []" using some by (simp add: decimal_text_def)
  show "dropWhile is_decimal_digit (decimal_text n @ rest) = rest" by (fact read(2))
qed

lemma text_lengths:
  fixes v :: "'t::len word"
  assumes "LENGTH('t) \<le> 64"
  shows "length (decimal_text (unat v)) \<le> 20" "length (int_text (sint v)) \<le> 20" "num_digits 16 (unat v) \<le> 16"
proof -
  have p: "(2 :: nat) ^ LENGTH('t) \<le> 2 ^ 64" using assms by (intro power_increasing) auto
  then have u: "unat v < 2 ^ 64" using unsigned_less [of v] by (metis less_le_trans)
  have "unat v < 10 ^ 20" using u by (rule less_trans) simp
  then show "length (decimal_text (unat v)) \<le> 20" by (simp add: num_digits_le)
  have "unat v < 16 ^ 16" using u by simp
  then show "num_digits 16 (unat v) \<le> 16" by (simp add: num_digits_le)
  have half: "(2 :: int) ^ (LENGTH('t) - 1) \<le> 2 ^ 63" using assms by (intro power_increasing) auto
  have "- (2 ^ (LENGTH('t) - 1)) \<le> sint v" "sint v < 2 ^ (LENGTH('t) - 1)"
    using sint_greater_eq [of v] sint_less [of v] by auto
  then have s: "nat \<bar>sint v\<bar> \<le> 2 ^ 63" using half by (simp add: abs_le_iff)
  have "nat \<bar>sint v\<bar> < 10 ^ 19" using s by (rule le_less_trans) simp
  then have "num_digits 10 (nat \<bar>sint v\<bar>) \<le> 19" by (intro num_digits_le) auto
  then show "length (int_text (sint v)) \<le> 20" by (auto simp: int_text_def)
qed

lemma sint_of_read:
  assumes "read_int LENGTH('t::len) t = Inr p"
  shows "sint (word_of_int (parsed_value p) :: 't word) = parsed_value p"
proof -
  have low: "int n \<le> 2 ^ k" if "\<not> 2 ^ k < n" for n k
    using that by (metis not_less of_nat_le_iff of_nat_numeral of_nat_power)
  have high: "int n < 2 ^ k" if "\<not> 2 ^ k - Suc 0 < n" for n k
  proof -
    have "(0 :: nat) < 2 ^ k" by simp
    then have "n < 2 ^ k" using that by linarith
    then show ?thesis by (metis of_nat_less_iff of_nat_numeral of_nat_power)
  qed
  define k where "k = LENGTH('t) - 1"
  have signs: "- int m < 2 ^ k" "- (2 ^ k) \<le> int m" for m
    using zero_less_power [of "2 :: int" k] by linarith+
  have "- (2 ^ k) \<le> parsed_value p \<and> parsed_value p < 2 ^ k"
    using assms unfolding read_int_def Let_def k_def [symmetric]
    by (auto split: if_splits dest!: low high intro: signs)
  then show ?thesis by (simp add: k_def signed_of_int signed_take_bit_int_eq_self)
qed

lemma int_text_read:
  assumes "rest = [] \<or> \<not> is_decimal_digit (hd rest)" "- (2 ^ (n - 1)) \<le> k" "k < 2 ^ (n - 1)"
  shows "read_int n (int_text k @ rest) = Inr \<lparr>parsed_value = k, parsed_tail = rest\<rparr>"
proof -
  note read = decimal_text_read [OF assms(1)]
  have up: "m \<le> 2 ^ (n - 1)" if "int m \<le> 2 ^ (n - 1)" for m
    using that by (metis of_nat_le_iff of_nat_numeral of_nat_power)
  have "\<not> 2 ^ (n - 1) < nat (- k)" if "k < 0" using up [of "nat (- k)"] assms(2) that by simp
  moreover have "\<not> 2 ^ (n - 1) - 1 < nat k" if "0 \<le> k"
  proof -
    have "int (nat k + 1) \<le> 2 ^ (n - 1)" using assms(3) that by simp
    then show ?thesis using up [of "nat k + 1"] by simp
  qed
  ultimately show ?thesis
  proof (cases "k < 0")
    case False
    have "decimal_text (nat k) \<noteq> []" by (metis length_decimal_text length_0_conv num_digits_pos less_irrefl)
    then obtain c cs where c: "decimal_text (nat k) = c # cs" by (cases "decimal_text (nat k)") auto
    have "is_decimal_digit c"
    proof (rule ccontr)
      assume "\<not> ?thesis"
      then have "decimal_values (decimal_text (nat k) @ rest) = []" by (simp add: c decimal_values_def)
      then show False using read(2) by simp
    qed
    then have "c \<noteq> CHR ''-''" by (auto simp: is_decimal_digit_def)
    then have "(int_text k @ rest) ! 0 \<noteq> CHR ''-''" "int_text k = decimal_text (nat k)"
      using False by (simp_all add: int_text_def c)
    then show ?thesis
      using False read [of "nat k"] \<open>0 \<le> k \<Longrightarrow> \<not> 2 ^ (n - 1) - 1 < nat k\<close> by (simp add: read_int_def Let_def)
  qed (use read [of "nat (- k)"] in \<open>simp add: read_int_def int_text_def Let_def\<close>)
qed

lemma hex_text_read:
  assumes "rest = [] \<or> \<not> hex_digit_value (hd rest) < 16" "num_digits 16 n \<le> cnt"
  shows "digit_value 16 (hex_values (map (hex_char letters) (digits_of 16 cnt n) @ rest)) = n"
    and "hex_values (map (hex_char letters) (digits_of 16 cnt n) @ rest) \<noteq> []"
    and "map (hex_char letters) (digits_of 16 cnt n) @ rest \<noteq> []"
    and "dropWhile (\<lambda>c. hex_digit_value c < 16) (map (hex_char letters) (digits_of 16 cnt n) @ rest) = rest"
proof -
  have d: "\<forall>d \<in> set (digits_of 16 cnt n). d < 16" by (auto dest: digits_of_bound [rotated])
  note read = hex_values_written [OF d assms(1)]
  show "digit_value 16 (hex_values (map (hex_char letters) (digits_of 16 cnt n) @ rest)) = n"
    unfolding read(1) by (rule num_digits_value) (use assms(2) in auto)
  have some: "digits_of 16 cnt n \<noteq> []"
    using length_digits_of [of 16 cnt n] num_digits_pos [of 16 n] assms(2) by (metis length_0_conv not_le)
  then show "hex_values (map (hex_char letters) (digits_of 16 cnt n) @ rest) \<noteq> []" unfolding read(1) .
  show "map (hex_char letters) (digits_of 16 cnt n) @ rest \<noteq> []" using some by simp
  show "dropWhile (\<lambda>c. hex_digit_value c < 16) (map (hex_char letters) (digits_of 16 cnt n) @ rest) = rest"
    by (fact read(2))
qed

lemma unat_within: "\<not> 2 ^ LENGTH('t) - Suc 0 < unat v" for v :: "'t::len word"
  using unsigned_less [of v, where 'a = nat] by linarith

section \<open>Properties\<close>

text \<open>
  C26: The parsers report exactly what stands in the text, for every text and every
  integer type and accumulator: an empty text and a text without a leading number
  are told apart, a number the type cannot hold is out of range however many
  digits it has (no wrap-around), and otherwise the value and the rest of the text
  after the last digit are returned; the signed range includes the most negative
  number; and the asserting forms stop on every error.
\<close>

theorem parsers_read_exactly:
  assumes "LENGTH('t::len) \<le> LENGTH('a::len)" "8 \<le> LENGTH('t)"
  shows "(try_parse_uint TYPE('a) t :: parse_error + 't word parsed) =
       to_word (read_number 10 (decimal_values t) (2 ^ LENGTH('t) - 1) t (dropWhile is_decimal_digit t)) \<and>
     (try_parse_hex TYPE('a) t :: parse_error + 't word parsed) =
       to_word (read_number 16 (hex_values t) (2 ^ LENGTH('t) - 1) t (dropWhile (\<lambda>c. hex_digit_value c < 16) t)) \<and>
     (try_parse_int TYPE('a) t :: parse_error + 't word parsed) = to_signed_word (read_int LENGTH('t) t) \<and>
     (\<forall>p. read_int LENGTH('t) t = Inr p \<longrightarrow> sint (word_of_int (parsed_value p) :: 't word) = parsed_value p) \<and>
     ((parse_uint TYPE('a) t :: 't word parsed outcome) = Inl Check_failed \<longleftrightarrow>
       (\<exists>e. (try_parse_uint TYPE('a) t :: parse_error + 't word parsed) = Inl e)) \<and>
     ((parse_int TYPE('a) t :: 't word parsed outcome) = Inl Check_failed \<longleftrightarrow>
       (\<exists>e. (try_parse_int TYPE('a) t :: parse_error + 't word parsed) = Inl e)) \<and>
     ((parse_hex TYPE('a) t :: 't word parsed outcome) = Inl Check_failed \<longleftrightarrow>
       (\<exists>e. (try_parse_hex TYPE('a) t :: parse_error + 't word parsed) = Inl e))"
  using try_parse_uint_eq [OF assms, of t] try_parse_hex_eq [OF assms, of t] try_parse_int_eq [OF assms, of t]
    sint_of_read [where 't = 't and t = t]
  by (auto simp: parse_uint_def parse_int_def parse_hex_def split: sum.splits)

theorem parsers_read_exactly_witness:
  "(try_parse_uint TYPE(32) ''256x'' :: parse_error + 8 word parsed) = Inl Out_of_range \<and>
   (try_parse_int TYPE(32) ''-128,'' :: parse_error + 8 word parsed) = Inr \<lparr>parsed_value = 128, parsed_tail = '',''\<rparr>"
  using parsers_read_exactly [where 't = 8 and 'a = 32, of "''256x''"] parsers_read_exactly [where 't = 8 and 'a = 32, of "''-128,''"]
  by (simp add: to_word_def read_number_def to_signed_word_def read_int_def decimal_values_def is_decimal_digit_def
      digit_value_def)

text \<open>
  C27: The formatters write exactly the digits of the number (with its sign, or
  zero-padded to the width asked for) at the front of the buffer and keep the rest;
  where the text does not fit they return the empty span and leave the buffer
  untouched, and the asserting forms stop. Twenty characters hold every decimal
  number of up to 64 bits and sixteen every hex number.
\<close>

theorem formatters_write_exactly:
  fixes v :: "'t::len word"
  assumes "LENGTH('t) \<le> 64"
  shows "try_format_uint out v =
       (let text = decimal_text (unat v) in
        if length text > length out then Inr (0, out) else Inr (length text, text @ drop (length text) out)) \<and>
     try_format_int out v =
       (let text = int_text (sint v) in
        if length text > length out then Inr (0, out) else Inr (length text, text @ drop (length text) out)) \<and>
     try_format_hex out v digits letters =
       (let cnt = (if digits = 0 then num_digits 16 (unat v) else digits) in
        if cnt > length out \<or> num_digits 16 (unat v) > cnt then Inr (0, out)
        else Inr (cnt, map (hex_char letters) (digits_of 16 cnt (unat v)) @ drop cnt out)) \<and>
     length (decimal_text (unat v)) \<le> 20 \<and> length (int_text (sint v)) \<le> 20 \<and> num_digits 16 (unat v) \<le> 16 \<and>
     (h \<noteq> METL_HARDENING_NONE \<longrightarrow> length (decimal_text (unat v)) > length out \<longrightarrow> format_uint h out v = Inl Check_failed) \<and>
     (h \<noteq> METL_HARDENING_NONE \<longrightarrow> length (int_text (sint v)) > length out \<longrightarrow> format_int h out v = Inl Check_failed) \<and>
     (h \<noteq> METL_HARDENING_NONE \<longrightarrow> num_digits 16 (unat v) > length out \<longrightarrow>
        format_hex h out v digits letters = Inl Check_failed)"
proof -
  have "h \<ge> METL_HARDENING_FAST" if "h \<noteq> METL_HARDENING_NONE"
    using that by (cases h) (auto simp: less_eq_hardening_def)
  then show ?thesis
    using try_format_uint_eq [OF assms, of out v] try_format_int_eq [OF assms, of out v]
      try_format_hex_eq [OF assms, of out v digits letters] text_lengths [OF assms, of v]
    by (auto simp: Let_def format_uint_def format_int_def format_hex_def METL_ASSERT_def)
qed

theorem formatters_write_exactly_witness:
  "try_format_int ''......'' (- 128 :: 8 word) = Inr (4, ''-128..'') \<and> try_format_uint ''..'' (255 :: 8 word) = Inr (0, ''..'')"
proof -
  have "int_text (sint (- 128 :: 8 word)) = ''-128''" "decimal_text (unat (255 :: 8 word)) = ''255''" by code_simp+
  then show ?thesis
    using formatters_write_exactly [of "''......''" "- 128 :: 8 word" 0 Lower]
      formatters_write_exactly [of "''..''" "255 :: 8 word" 0 Lower]
    by (simp only: Let_def) simp
qed

text \<open>
  C28: Parsing what was formatted returns the number and exactly the characters
  after it: for unsigned, signed (the most negative number included) and hex
  numbers of every width up to 64 bits, every padding and both letter cases, in
  any buffer of at least 20 characters and before any text that does not continue
  the number.
\<close>

theorem format_parse_roundtrip:
  fixes v :: "'t::len word"
  assumes "LENGTH('t) \<le> LENGTH('a::len)" "8 \<le> LENGTH('t)" "LENGTH('t) \<le> 64" "20 \<le> length out"
    and plain: "rest = [] \<or> \<not> hex_digit_value (hd rest) < 16 \<and> \<not> is_decimal_digit (hd rest)"
    and fits: "digits = 0 \<or> hex_digits (ucast v) \<le> digits \<and> digits \<le> length out"
  shows "(\<exists>n out'. try_format_uint out v = Inr (n, out') \<and>
        try_parse_uint TYPE('a) (take n out' @ rest) = Inr \<lparr>parsed_value = v, parsed_tail = rest\<rparr>) \<and>
     (\<exists>n out'. try_format_int out v = Inr (n, out') \<and>
        try_parse_int TYPE('a) (take n out' @ rest) = Inr \<lparr>parsed_value = v, parsed_tail = rest\<rparr>) \<and>
     (\<exists>n out'. try_format_hex out v digits letters = Inr (n, out') \<and>
        try_parse_hex TYPE('a) (take n out' @ rest) = Inr \<lparr>parsed_value = v, parsed_tail = rest\<rparr>)"
proof (intro conjI)
  have dec: "rest = [] \<or> \<not> is_decimal_digit (hd rest)" and hex: "rest = [] \<or> \<not> hex_digit_value (hd rest) < 16"
    using plain by auto
  note room = text_lengths [OF assms(3), of v]
  let ?d = "decimal_text (unat v)" and ?i = "int_text (sint v)"
  show "\<exists>n out'. try_format_uint out v = Inr (n, out') \<and>
      try_parse_uint TYPE('a) (take n out' @ rest) = Inr \<lparr>parsed_value = v, parsed_tail = rest\<rparr>"
    using try_format_uint_eq [OF assms(3), of out v] room(1) assms(4) decimal_text_read [OF dec] unat_within [of v]
    by (auto simp: try_parse_uint_eq [OF assms(1,2)] read_number_def to_word_def)
  show "\<exists>n out'. try_format_int out v = Inr (n, out') \<and>
      try_parse_int TYPE('a) (take n out' @ rest) = Inr \<lparr>parsed_value = v, parsed_tail = rest\<rparr>"
    using try_format_int_eq [OF assms(3), of out v] room(2) assms(4)
      int_text_read [OF dec, of "LENGTH('t)" "sint v"] sint_greater_eq [of v] sint_less [of v]
    by (auto simp: try_parse_int_eq [OF assms(1,2)] to_signed_word_def)
  define cnt where "cnt = (if digits = 0 then num_digits 16 (unat v) else digits)"
  have "num_digits 16 (unat v) \<le> cnt \<and> cnt \<le> length out \<and> 0 < cnt"
    using fits room(3) assms(3,4) by (auto simp: cnt_def hex_digits_eq unat_widen)
  then show "\<exists>n out'. try_format_hex out v digits letters = Inr (n, out') \<and>
      try_parse_hex TYPE('a) (take n out' @ rest) = Inr \<lparr>parsed_value = v, parsed_tail = rest\<rparr>"
    using try_format_hex_eq [OF assms(3), of out v digits letters] hex_text_read [OF hex, of "unat v" cnt letters] unat_within [of v]
    by (auto simp: Let_def cnt_def [symmetric] try_parse_hex_eq [OF assms(1,2)] read_number_def to_word_def)
qed

theorem format_parse_roundtrip_witness:
  "\<exists>n out'. try_format_int (replicate 20 CHR ''.'') (- 128 :: 8 word) = Inr (n, out') \<and>
     try_parse_int TYPE(32) (take n out' @ '', 7'') = Inr \<lparr>parsed_value = (- 128 :: 8 word), parsed_tail = '', 7''\<rparr>"
  using format_parse_roundtrip [where 'a = 32, of "replicate 20 CHR ''.''" "'', 7''" 0 "- 128 :: 8 word" Lower]
  by (simp add: hex_digit_value_def is_decimal_digit_def)

end
