(* ===== verification/Ticket.thy ===== *)
theory Ticket
  imports Slots
begin

text \<open>
  \<^verbatim>\<open>detail/index_distance.hpp\<close>: free-running counters that wrap around. \<open>'w\<close> is the width
  of \<^verbatim>\<open>size_t\<close>. A counter is thought of as an unbounded number \<open>n\<close> of which the code
  sees \<open>of_nat n\<close>; the lemmas say when the modular arithmetic tells the truth.
\<close>

definition clamped_index_distance :: "'w::len word \<Rightarrow> 'w word \<Rightarrow> 'w word \<Rightarrow> 'w word" where
  "clamped_index_distance head tail capacity =
     (let forward = tail - head in
      if forward > (- 1) div 2 then 0
      else if forward < capacity then forward else capacity)"

definition compare_tickets :: "'w::len word \<Rightarrow> 'w word \<Rightarrow> int" where
  "compare_tickets sequence pos =
     (let distance = sequence - pos in
      if distance = 0 then 0 else if distance > (- 1) div 2 then - 1 else 1)"

text \<open>The index of a counter in an array of a power of two elements.\<close>

definition ring_index :: "nat \<Rightarrow> 'w::len word \<Rightarrow> nat" where
  "ring_index cap n = unat (n AND (of_nat cap - 1))"

text \<open>
  The capacities the queues accept: a power of two of at least two, and, as an array
  has at most \<^verbatim>\<open>PTRDIFF_MAX\<close> bytes, less than half the range of \<^verbatim>\<open>size_t\<close>.
\<close>

definition ring_capacity :: "'w::len itself \<Rightarrow> nat \<Rightarrow> bool" where
  "ring_capacity tw cap \<longleftrightarrow> 2 \<le> cap \<and> power_of_two cap \<and> cap < 2 ^ (LENGTH('w) - 1)"

lemma two_halves: "(2 :: nat) ^ LENGTH('w::len) = 2 * 2 ^ (LENGTH('w) - 1)"
  by (metis Suc_pred' len_gt_0 power_Suc)

lemma ring_capacity_bounds:
  assumes "ring_capacity TYPE('w::len) cap"
  shows "2 \<le> cap" "2 * cap < 2 ^ LENGTH('w)" "cap < 2 ^ (LENGTH('w) - 1)" "cap < 2 ^ LENGTH('w)"
  using assms two_halves [where 'w = 'w] by (auto simp: ring_capacity_def)

lemma ring_capacityE:
  assumes "ring_capacity TYPE('w::len) cap"
  obtains k where "cap = 2 ^ k" "k < LENGTH('w)"
proof -
  obtain k where k: "cap = 2 ^ k" using assms power_of_twoD by (auto simp: ring_capacity_def)
  then have "(2 :: nat) ^ k < 2 ^ LENGTH('w)" using ring_capacity_bounds(4) [OF assms] by simp
  then show ?thesis using that k by simp
qed

lemma ring_index_of_nat:
  assumes "ring_capacity TYPE('w::len) cap"
  shows "ring_index cap (of_nat n :: 'w word) = n mod cap"
proof -
  obtain k where k: "cap = 2 ^ k" "k < LENGTH('w)" using assms by (rule ring_capacityE)
  have "(of_nat cap - 1 :: 'w word) = mask k" by (simp add: k mask_eq_exp_minus_1)
  then have "ring_index cap (of_nat n :: 'w word) = unat (take_bit k (of_nat n :: 'w word))"
    by (simp add: ring_index_def take_bit_eq_mask)
  also have "\<dots> = take_bit k (take_bit LENGTH('w) n)"
    by (simp add: unsigned_take_bit_eq unsigned_of_nat)
  also have "\<dots> = take_bit k n" using k by (simp add: min_def)
  finally show ?thesis by (simp add: k take_bit_eq_mod)
qed

lemma unat_distance:
  assumes "b \<le> a" "a - b < 2 ^ LENGTH('w::len)"
  shows "unat (of_nat a - of_nat b :: 'w word) = a - b"
proof -
  have "(of_nat a - of_nat b :: 'w word) = of_nat (a - b)" using assms by (simp add: of_nat_diff)
  then show ?thesis using assms by (simp only: unsigned_of_nat) (simp add: take_bit_nat_eq_self)
qed

lemma counters_equal:
  assumes "b \<le> a" "a - b < 2 ^ LENGTH('w::len)"
  shows "(of_nat a :: 'w word) = of_nat b \<longleftrightarrow> a = b"
proof
  assume "(of_nat a :: 'w word) = of_nat b"
  then have "unat (of_nat a - of_nat b :: 'w word) = 0" by simp
  then show "a = b" using unat_distance [OF assms] assms(1) by simp
qed simp

lemma half_range: "unat ((- 1 :: 'w::len word) div 2) = 2 ^ (LENGTH('w) - 1) - 1"
proof -
  have "(2 :: nat) ^ LENGTH('w) = 2 * 2 ^ (LENGTH('w) - 1)"
    by (metis Suc_pred' len_gt_0 power_Suc)
  then have "(2 ^ LENGTH('w) - 1) div 2 = (2 :: nat) ^ (LENGTH('w) - 1) - 1" by simp
  moreover have "unat ((- 1 :: 'w word) div 2) = (2 ^ LENGTH('w) - 1) div 2"
  proof (cases "LENGTH('w) = 1")
    case True
    then have "(2 :: 'w word) = 0" by (metis power_one_right word_exp_length_eq_0)
    then show ?thesis using True by simp
  next
    case False
    then have "unat (2 :: 'w word) = 2"
      using len_gt_0 [where 'a = 'w] by (cases "LENGTH('w)") (auto simp: unsigned_numeral take_bit_nat_eq_self_iff)
    moreover have "unat (- 1 :: 'w word) = 2 ^ LENGTH('w) - 1"
      by (simp add: unsigned_minus_1_eq_mask mask_eq_exp_minus_1)
    ultimately show ?thesis by (simp only: unat_div_distrib)
  qed
  ultimately show ?thesis by simp
qed

text \<open>
  A distance of less than half the range is read off exactly, forwards and
  backwards, wherever the counters stand.
\<close>

lemma behind_or_ahead:
  assumes "a < b" "b - a < 2 ^ (LENGTH('w::len) - 1)"
  shows "(of_nat a - of_nat b :: 'w word) > (- 1) div 2" "\<not> (of_nat b - of_nat a :: 'w word) > (- 1) div 2"
    "(of_nat a :: 'w word) \<noteq> of_nat b"
proof -
  note two = two_halves [where 'w = 'w]
  have fwd: "unat (of_nat b - of_nat a :: 'w word) = b - a" using assms two by (intro unat_distance) auto
  then show "\<not> (of_nat b - of_nat a :: 'w word) > (- 1) div 2"
    unfolding word_less_nat_alt half_range using assms(2) by linarith
  show ne: "(of_nat a :: 'w word) \<noteq> of_nat b" using counters_equal [of a b, where 'w = 'w] assms two by auto
  have le: "b \<le> 2 ^ LENGTH('w) + a" using assms two by linarith
  have "(of_nat (2 ^ LENGTH('w) + a) :: 'w word) = of_nat a" by simp
  then have "(of_nat a - of_nat b :: 'w word) = of_nat (2 ^ LENGTH('w) + a - b)"
    by (simp only: of_nat_diff [OF le])
  moreover have "2 ^ LENGTH('w) + a - b < 2 ^ LENGTH('w)" using assms(1) le by linarith
  ultimately have "unat (of_nat a - of_nat b :: 'w word) = 2 ^ LENGTH('w) + a - b"
    by (simp only: unsigned_of_nat) (simp add: take_bit_nat_eq_self)
  then show "(of_nat a - of_nat b :: 'w word) > (- 1) div 2"
    unfolding word_less_nat_alt half_range using assms two by linarith
qed

lemma compare_tickets_exact:
  assumes "a < b + 2 ^ (LENGTH('w::len) - 1)" "b < a + 2 ^ (LENGTH('w) - 1)"
  shows "compare_tickets (of_nat a) (of_nat b :: 'w word) = sgn (int a - int b)"
proof -
  consider "a < b" "b - a < 2 ^ (LENGTH('w) - 1)" | "a = b" | "b < a" "a - b < 2 ^ (LENGTH('w) - 1)"
    using assms by linarith
  then show ?thesis
  proof cases
    case 1
    then show ?thesis using behind_or_ahead(1,3) [OF 1] by (simp add: compare_tickets_def Let_def)
  next
    case 3
    then show ?thesis using behind_or_ahead(2,3) [OF 3] by (simp add: compare_tickets_def Let_def)
  qed (simp add: compare_tickets_def)
qed

lemma clamped_index_distance_exact:
  assumes "H < T + 2 ^ (LENGTH('w::len) - 1)" "T < H + 2 ^ (LENGTH('w) - 1)" "cap < 2 ^ LENGTH('w)"
  shows "unat (clamped_index_distance (of_nat H) (of_nat T) (of_nat cap) :: 'w word) = min (T - H) cap"
proof (cases "T < H")
  case True
  then show ?thesis
    using behind_or_ahead(1) [of T H, where 'w = 'w] assms by (simp add: clamped_index_distance_def)
next
  case False
  note two = two_halves [where 'w = 'w]
  have "unat (of_nat T - of_nat H :: 'w word) = T - H" using False assms two by (intro unat_distance) auto
  moreover have "unat (of_nat cap :: 'w word) = cap" using assms by (simp add: unsigned_of_nat take_bit_nat_eq_self)
  ultimately show ?thesis
    unfolding clamped_index_distance_def Let_def word_less_nat_alt half_range
    using False assms by (auto simp del: of_nat_diff)
qed

lemma clamped_index_distance_bounded:
  assumes "cap < 2 ^ LENGTH('w::len)"
  shows "unat (clamped_index_distance head tail (of_nat cap) :: 'w word) \<le> cap"
proof -
  have "unat (of_nat cap :: 'w word) = cap" using assms by (simp add: unsigned_of_nat take_bit_nat_eq_self)
  then show ?thesis by (auto simp: clamped_index_distance_def Let_def word_less_nat_alt)
qed

lemma step_closer: "head \<noteq> tail \<Longrightarrow> unat (tail - (head + 1)) < unat (tail - head)" for head tail :: "'w::len word"
proof -
  assume "head \<noteq> tail"
  then have "tail - head \<noteq> 0" by simp
  then have "unat (tail - head - 1) < unat (tail - head)" by (rule measure_unat)
  then show ?thesis by (simp add: diff_diff_add)
qed

text \<open>Counters within one capacity of each other have different indices.\<close>

lemma window_inj:
  assumes "(H :: nat) \<le> n" "n < H + cap" "H \<le> m" "m < H + cap" "n mod cap = m mod cap"
  shows "n = m"
proof -
  have "a = b" if "a \<le> b" "b < a + cap" "a mod cap = b mod cap" for a b :: nat
  proof -
    have "(b - a) mod cap = 0" using that by (metis mod_eq_dvd_iff_nat dvd_imp_mod_0)
    moreover have "b - a < cap" using that by linarith
    ultimately show ?thesis using that by simp
  qed
  then show ?thesis using assms by (metis add_le_cancel_right le_cases less_le_trans)
qed

lemma window_update:
  assumes "length slots = cap" "H \<le> m" "m < H + cap" "H \<le> n" "n < H + cap"
  shows "slots[m mod cap := x] ! (n mod cap) = (if n = m then x else slots ! (n mod cap))"
proof -
  have "m mod cap < length slots" using assms by auto
  moreover have "m mod cap = n mod cap \<longleftrightarrow> n = m" using window_inj [of H n cap m] assms by auto
  ultimately show ?thesis by (simp add: nth_list_update)
qed

end
