(* ===== verification/Mpmc_queue.thy ===== *)
theory Mpmc_queue
  imports Ticket
begin

text \<open>
  \<^verbatim>\<open>mpmc_queue.hpp\<close>: a bounded lock-free queue for any number of producers and
  consumers. As for \<^verbatim>\<open>spsc_queue\<close> the operations are cut at their accesses to shared
  memory and the threads, numbered by \<open>nat\<close>, interleave at those cuts. Besides the
  code's variables the state has three auxiliary ones, which no step reads to decide
  anything: \<open>mq_E\<close>, \<open>mq_D\<close> and \<open>mq_S\<close> count the two ticket counters and the cells'
  sequences without wrap-around, and \<open>t_ticket\<close> does so for \<^verbatim>\<open>pos\<close>.

  An atomic load may return an older value. The counters and sequences wrap, so a
  thread that stays behind by half the range of \<^verbatim>\<open>size_t\<close> cannot tell; the steps are
  those of threads that are not overtaken that far (\<open>timely\<close>).
\<close>

section \<open>The queue\<close>

record (overloaded) ('a, 'w) mpmc_queue =
  mq_sequence :: "'w::len word list"
  mq_storage :: "'a slots"
  mq_enqueue_pos :: "'w word"
  mq_dequeue_pos :: "'w word"

definition mq_new :: "nat \<Rightarrow> ('a, 'w::len) mpmc_queue outcome" where
  "mq_new cap =
     bnd (for_upto 0 cap (\<lambda>i seq. arr_set seq i (of_nat i)) (replicate cap 0)) (\<lambda>seq.
       Inr \<lparr>mq_sequence = seq, mq_storage = replicate cap None, mq_enqueue_pos = 0, mq_dequeue_pos = 0\<rparr>)"

text \<open>\<^verbatim>\<open>pos & mask\<close>\<close>

definition mq_index :: "nat \<Rightarrow> 'w::len word \<Rightarrow> nat" where
  "mq_index cap pos = ring_index cap pos"

definition require_constructed ::
  "hardening \<Rightarrow> nat \<Rightarrow> ('a, 'w::len) mpmc_queue \<Rightarrow> 'r outcome \<Rightarrow> 'r outcome" where
  "require_constructed h cap q rest =
     (if cap > 2 then bnd (arr_get (mq_sequence q) 1) (\<lambda>sequence. METL_DASSERT h (sequence \<noteq> 0) rest) else rest)"

section \<open>Threads\<close>

datatype mq_pc = Idle
  | Push_load_sequence | Push_claim | Push_reload | Push_construct | Push_publish
  | Pop_load_sequence | Pop_claim | Pop_reload | Pop_move | Pop_destroy | Pop_publish

record (overloaded) ('a, 'w) mq_thread =
  t_pc :: mq_pc
  t_pos :: "'w::len word"
  t_value :: "'a option"
  t_ticket :: nat

record (overloaded) ('a, 'w) mq_system =
  mq_queue :: "('a, 'w::len) mpmc_queue"
  mq_threads :: "nat \<Rightarrow> ('a, 'w) mq_thread"
  mq_E :: nat
  mq_D :: nat
  mq_S :: "nat list"

datatype 'a mq_event = Step_taken | Claimed 'a | Published | Push_refused | Taken nat | Pop_done nat 'a | Pop_refused

type_synonym ('a, 'w) mq_result = "('a mq_event \<times> ('a, 'w) mq_system) outcome"

definition set_thread :: "nat \<Rightarrow> ('a, 'w::len) mq_thread \<Rightarrow> ('a, 'w) mq_system \<Rightarrow> ('a, 'w) mq_system" where
  "set_thread t th s = s\<lparr>mq_threads := (mq_threads s)(t := th)\<rparr>"

section \<open>The steps of \<^verbatim>\<open>try_claim_and_construct\<close>\<close>

text \<open>\<open>k\<close> is the ticket whose low bits the relaxed load returns.\<close>

definition mq_push_enter :: "hardening \<Rightarrow> nat \<Rightarrow> 'a \<Rightarrow> nat \<Rightarrow> nat \<Rightarrow> ('a, 'w::len) mq_system \<Rightarrow> ('a, 'w) mq_result" where
  "mq_push_enter h cap v k t s =
     require_constructed h cap (mq_queue s)
       (Inr (Step_taken, set_thread t \<lparr>t_pc = Push_load_sequence, t_pos = of_nat k, t_value = Some v, t_ticket = k\<rparr> s))"

definition mq_push_load_sequence :: "'w::len word \<Rightarrow> nat \<Rightarrow> ('a, 'w) mq_system \<Rightarrow> ('a, 'w) mq_result" where
  "mq_push_load_sequence sequence t s =
     (let th = mq_threads s t; difference = compare_tickets sequence (t_pos th) in
      if difference = 0 then Inr (Step_taken, set_thread t (th\<lparr>t_pc := Push_claim\<rparr>) s)
      else if difference < 0 then Inr (Push_refused, set_thread t (th\<lparr>t_pc := Idle\<rparr>) s)
      else Inr (Step_taken, set_thread t (th\<lparr>t_pc := Push_reload\<rparr>) s))"

text \<open>
  The weak compare-exchange may fail spuriously, and a failing one is a relaxed load:
  \<open>k\<close> is the ticket whose low bits it leaves in \<^verbatim>\<open>pos\<close>.
\<close>

definition mq_push_claim :: "bool \<Rightarrow> nat \<Rightarrow> nat \<Rightarrow> ('a, 'w::len) mq_system \<Rightarrow> ('a, 'w) mq_result" where
  "mq_push_claim spurious k t s =
     (let th = mq_threads s t; q = mq_queue s in
      if mq_enqueue_pos q = t_pos th \<and> \<not> spurious
      then Inr (case t_value th of Some v \<Rightarrow> Claimed v | None \<Rightarrow> Step_taken,
                (set_thread t (th\<lparr>t_pc := Push_construct\<rparr>) s)
                  \<lparr>mq_queue := q\<lparr>mq_enqueue_pos := t_pos th + 1\<rparr>, mq_E := mq_E s + 1\<rparr>)
      else Inr (Step_taken, set_thread t
                  (th\<lparr>t_pc := Push_load_sequence, t_pos := of_nat k, t_ticket := k\<rparr>) s))"

definition mq_push_reload :: "nat \<Rightarrow> nat \<Rightarrow> ('a, 'w::len) mq_system \<Rightarrow> ('a, 'w) mq_result" where
  "mq_push_reload k t s =
     Inr (Step_taken, set_thread t ((mq_threads s t)\<lparr>t_pc := Push_load_sequence, t_pos := of_nat k, t_ticket := k\<rparr>) s)"

definition mq_push_construct :: "nat \<Rightarrow> nat \<Rightarrow> ('a, 'w::len) mq_system \<Rightarrow> ('a, 'w) mq_result" where
  "mq_push_construct cap t s =
     (let th = mq_threads s t; q = mq_queue s in
      case t_value th of
        None \<Rightarrow> Inl Lifetime_violation
      | Some v \<Rightarrow>
          bnd (slot_new (mq_storage q) (mq_index cap (t_pos th)) v) (\<lambda>storage.
            Inr (Step_taken, (set_thread t (th\<lparr>t_pc := Push_publish\<rparr>) s)\<lparr>mq_queue := q\<lparr>mq_storage := storage\<rparr>\<rparr>)))"

definition mq_push_publish :: "nat \<Rightarrow> nat \<Rightarrow> ('a, 'w::len) mq_system \<Rightarrow> ('a, 'w) mq_result" where
  "mq_push_publish cap t s =
     (let th = mq_threads s t; q = mq_queue s; i = mq_index cap (t_pos th) in
      bnd (arr_set (mq_sequence q) i (t_pos th + 1)) (\<lambda>sequence.
        Inr (Published, (set_thread t (th\<lparr>t_pc := Idle\<rparr>) s)
               \<lparr>mq_queue := q\<lparr>mq_sequence := sequence\<rparr>, mq_S := (mq_S s)[i := t_ticket th + 1]\<rparr>)))"

section \<open>The steps of \<^verbatim>\<open>try_pop\<close>\<close>

definition mq_pop_enter :: "hardening \<Rightarrow> nat \<Rightarrow> nat \<Rightarrow> nat \<Rightarrow> ('a, 'w::len) mq_system \<Rightarrow> ('a, 'w) mq_result" where
  "mq_pop_enter h cap k t s =
     require_constructed h cap (mq_queue s)
       (Inr (Step_taken, set_thread t \<lparr>t_pc = Pop_load_sequence, t_pos = of_nat k, t_value = None, t_ticket = k\<rparr> s))"

definition mq_pop_load_sequence :: "'w::len word \<Rightarrow> nat \<Rightarrow> ('a, 'w) mq_system \<Rightarrow> ('a, 'w) mq_result" where
  "mq_pop_load_sequence sequence t s =
     (let th = mq_threads s t; difference = compare_tickets sequence (t_pos th + 1) in
      if difference = 0 then Inr (Step_taken, set_thread t (th\<lparr>t_pc := Pop_claim\<rparr>) s)
      else if difference < 0 then Inr (Pop_refused, set_thread t (th\<lparr>t_pc := Idle\<rparr>) s)
      else Inr (Step_taken, set_thread t (th\<lparr>t_pc := Pop_reload\<rparr>) s))"

definition mq_pop_claim :: "bool \<Rightarrow> nat \<Rightarrow> nat \<Rightarrow> ('a, 'w::len) mq_system \<Rightarrow> ('a, 'w) mq_result" where
  "mq_pop_claim spurious k t s =
     (let th = mq_threads s t; q = mq_queue s in
      if mq_dequeue_pos q = t_pos th \<and> \<not> spurious
      then Inr (Taken (t_ticket th), (set_thread t (th\<lparr>t_pc := Pop_move\<rparr>) s)
                  \<lparr>mq_queue := q\<lparr>mq_dequeue_pos := t_pos th + 1\<rparr>, mq_D := mq_D s + 1\<rparr>)
      else Inr (Step_taken, set_thread t
                  (th\<lparr>t_pc := Pop_load_sequence, t_pos := of_nat k, t_ticket := k\<rparr>) s))"

definition mq_pop_reload :: "nat \<Rightarrow> nat \<Rightarrow> ('a, 'w::len) mq_system \<Rightarrow> ('a, 'w) mq_result" where
  "mq_pop_reload k t s =
     Inr (Step_taken, set_thread t ((mq_threads s t)\<lparr>t_pc := Pop_load_sequence, t_pos := of_nat k, t_ticket := k\<rparr>) s)"

definition mq_pop_move :: "nat \<Rightarrow> nat \<Rightarrow> ('a, 'w::len) mq_system \<Rightarrow> ('a, 'w) mq_result" where
  "mq_pop_move cap t s =
     (let th = mq_threads s t in
      bnd (slot_get (mq_storage (mq_queue s)) (mq_index cap (t_pos th))) (\<lambda>v.
        Inr (Step_taken, set_thread t (th\<lparr>t_pc := Pop_destroy, t_value := Some v\<rparr>) s)))"

definition mq_pop_destroy :: "nat \<Rightarrow> nat \<Rightarrow> ('a, 'w::len) mq_system \<Rightarrow> ('a, 'w) mq_result" where
  "mq_pop_destroy cap t s =
     (let th = mq_threads s t; q = mq_queue s in
      bnd (slot_destroy (mq_storage q) (mq_index cap (t_pos th))) (\<lambda>storage.
        Inr (Step_taken, (set_thread t (th\<lparr>t_pc := Pop_publish\<rparr>) s)\<lparr>mq_queue := q\<lparr>mq_storage := storage\<rparr>\<rparr>)))"

definition mq_pop_publish :: "nat \<Rightarrow> nat \<Rightarrow> ('a, 'w::len) mq_system \<Rightarrow> ('a, 'w) mq_result" where
  "mq_pop_publish cap t s =
     (let th = mq_threads s t; q = mq_queue s; i = mq_index cap (t_pos th) in
      bnd (arr_set (mq_sequence q) i (t_pos th + of_nat cap)) (\<lambda>sequence.
        Inr (case t_value th of Some v \<Rightarrow> Pop_done (t_ticket th) v | None \<Rightarrow> Step_taken,
             (set_thread t (th\<lparr>t_pc := Idle\<rparr>) s)
               \<lparr>mq_queue := q\<lparr>mq_sequence := sequence\<rparr>, mq_S := (mq_S s)[i := t_ticket th + cap]\<rparr>)))"

section \<open>All interleavings\<close>

text \<open>
  The values an atomic load of cell \<open>i\<close>'s sequence may return: any value it has had.
  A sequence only moves from a ticket \<open>n\<close> of the cell to \<open>n + 1\<close> and on to \<open>n + cap\<close>.
\<close>

definition sequence_value :: "nat \<Rightarrow> nat \<Rightarrow> nat \<Rightarrow> nat \<Rightarrow> bool" where
  "sequence_value cap i newest v \<longleftrightarrow> v \<le> newest \<and> (v mod cap = i \<or> v mod cap = (i + 1) mod cap)"

definition timely :: "'w::len itself \<Rightarrow> nat \<Rightarrow> nat \<Rightarrow> bool" where
  "timely tw newest old \<longleftrightarrow> newest < old + 2 ^ (LENGTH('w) - 1)"

inductive mq_step ::
  "hardening \<Rightarrow> nat \<Rightarrow> nat \<Rightarrow> ('a, 'w::len) mq_system \<Rightarrow> ('a, 'w) mq_result \<Rightarrow> bool" for h cap t s where
  Push_enter: "t_pc (mq_threads s t) = Idle \<Longrightarrow> k \<le> mq_E s \<Longrightarrow> mq_step h cap t s (mq_push_enter h cap v k t s)"
| Push_load_sequence: "t_pc (mq_threads s t) = Push_load_sequence \<Longrightarrow> k = t_ticket (mq_threads s t) \<Longrightarrow>
    sequence_value cap (k mod cap) (mq_S s ! (k mod cap)) v \<Longrightarrow>
    timely TYPE('w) (mq_E s + cap) k \<Longrightarrow> timely TYPE('w) k v \<Longrightarrow>
    mq_step h cap t s (mq_push_load_sequence (of_nat v) t s)"
| Push_claim: "t_pc (mq_threads s t) = Push_claim \<Longrightarrow> timely TYPE('w) (mq_E s) (t_ticket (mq_threads s t)) \<Longrightarrow>
    k \<le> mq_E s \<Longrightarrow> mq_step h cap t s (mq_push_claim spurious k t s)"
| Push_reload: "t_pc (mq_threads s t) = Push_reload \<Longrightarrow> k \<le> mq_E s \<Longrightarrow> mq_step h cap t s (mq_push_reload k t s)"
| Push_construct: "t_pc (mq_threads s t) = Push_construct \<Longrightarrow> mq_step h cap t s (mq_push_construct cap t s)"
| Push_publish: "t_pc (mq_threads s t) = Push_publish \<Longrightarrow> mq_step h cap t s (mq_push_publish cap t s)"
| Pop_enter: "t_pc (mq_threads s t) = Idle \<Longrightarrow> k \<le> mq_D s \<Longrightarrow> mq_step h cap t s (mq_pop_enter h cap k t s)"
| Pop_load_sequence: "t_pc (mq_threads s t) = Pop_load_sequence \<Longrightarrow> k = t_ticket (mq_threads s t) \<Longrightarrow>
    sequence_value cap (k mod cap) (mq_S s ! (k mod cap)) v \<Longrightarrow>
    timely TYPE('w) (mq_E s + cap) k \<Longrightarrow> timely TYPE('w) (k + 1) v \<Longrightarrow>
    mq_step h cap t s (mq_pop_load_sequence (of_nat v) t s)"
| Pop_claim: "t_pc (mq_threads s t) = Pop_claim \<Longrightarrow> timely TYPE('w) (mq_D s) (t_ticket (mq_threads s t)) \<Longrightarrow>
    k \<le> mq_D s \<Longrightarrow> mq_step h cap t s (mq_pop_claim spurious k t s)"
| Pop_reload: "t_pc (mq_threads s t) = Pop_reload \<Longrightarrow> k \<le> mq_D s \<Longrightarrow> mq_step h cap t s (mq_pop_reload k t s)"
| Pop_move: "t_pc (mq_threads s t) = Pop_move \<Longrightarrow> mq_step h cap t s (mq_pop_move cap t s)"
| Pop_destroy: "t_pc (mq_threads s t) = Pop_destroy \<Longrightarrow> mq_step h cap t s (mq_pop_destroy cap t s)"
| Pop_publish: "t_pc (mq_threads s t) = Pop_publish \<Longrightarrow> mq_step h cap t s (mq_pop_publish cap t s)"

definition mq_start :: "nat \<Rightarrow> ('a, 'w::len) mpmc_queue \<Rightarrow> ('a, 'w) mq_system" where
  "mq_start cap q = \<lparr>mq_queue = q, mq_threads = (\<lambda>_. \<lparr>t_pc = Idle, t_pos = 0, t_value = None, t_ticket = 0\<rparr>),
     mq_E = 0, mq_D = 0, mq_S = [0..<cap]\<rparr>"

inductive mpmc_run :: "hardening \<Rightarrow> nat \<Rightarrow> 'a mq_event list \<Rightarrow> ('a, 'w::len) mq_system \<Rightarrow> bool" for h cap where
  Start: "mq_new cap = Inr q \<Longrightarrow> mpmc_run h cap [] (mq_start cap q)"
| Step: "mpmc_run h cap evs s \<Longrightarrow> mq_step h cap t s (Inr (ev, s')) \<Longrightarrow> mpmc_run h cap (evs @ [ev]) s'"

inductive_cases mq_stepE: "mq_step h cap t s r"

section \<open>The operations without interference\<close>

text \<open>
  The claiming loops run until a ticket is claimed or the queue turns out full or
  empty; \<open>None\<close> is a loop that does not end.
\<close>

partial_function (option) mq_push_loop ::
  "nat \<Rightarrow> 'w::len word \<Rightarrow> ('a, 'w) mpmc_queue \<Rightarrow> 'w word option outcome option" where
  "mq_push_loop cap pos q =
     (case arr_get (mq_sequence q) (mq_index cap pos) of
        Inl e \<Rightarrow> Some (Inl e)
      | Inr sequence \<Rightarrow>
          if compare_tickets sequence pos = 0
          then (if mq_enqueue_pos q = pos then Some (Inr (Some pos)) else mq_push_loop cap (mq_enqueue_pos q) q)
          else if compare_tickets sequence pos < 0 then Some (Inr None)
          else mq_push_loop cap (mq_enqueue_pos q) q)"

partial_function (option) mq_pop_loop ::
  "nat \<Rightarrow> 'w::len word \<Rightarrow> ('a, 'w) mpmc_queue \<Rightarrow> 'w word option outcome option" where
  "mq_pop_loop cap pos q =
     (case arr_get (mq_sequence q) (mq_index cap pos) of
        Inl e \<Rightarrow> Some (Inl e)
      | Inr sequence \<Rightarrow>
          if compare_tickets sequence (pos + 1) = 0
          then (if mq_dequeue_pos q = pos then Some (Inr (Some pos)) else mq_pop_loop cap (mq_dequeue_pos q) q)
          else if compare_tickets sequence (pos + 1) < 0 then Some (Inr None)
          else mq_pop_loop cap (mq_dequeue_pos q) q)"

definition try_claim_and_construct ::
  "hardening \<Rightarrow> nat \<Rightarrow> 'a \<Rightarrow> ('a, 'w::len) mpmc_queue \<Rightarrow> (bool call \<times> ('a, 'w) mpmc_queue) outcome" where
  "try_claim_and_construct h cap v q =
     require_constructed h cap q
       (bnd (of_loop (mq_push_loop cap (mq_enqueue_pos q) q)) (\<lambda>r. bnd r (\<lambda>claim. case claim of
           None \<Rightarrow> Inr (Returned False, q)
         | Some pos \<Rightarrow>
             bnd (slot_new (mq_storage q) (mq_index cap pos) v) (\<lambda>storage.
             bnd (arr_set (mq_sequence q) (mq_index cap pos) (pos + 1)) (\<lambda>sequence.
               Inr (Returned True, q\<lparr>mq_enqueue_pos := pos + 1, mq_storage := storage, mq_sequence := sequence\<rparr>))))))"

text \<open>
  A constructor that may throw runs before a ticket is claimed; one that cannot runs
  in the slot.
\<close>

definition mq_try_emplace ::
  "hardening \<Rightarrow> nat \<Rightarrow> 'a ctor \<Rightarrow> ('a, 'w::len) mpmc_queue \<Rightarrow> (bool call \<times> ('a, 'w) mpmc_queue) outcome" where
  "mq_try_emplace h cap c q =
     (case c of Throws \<Rightarrow> Inr (Threw, q) | Builds v \<Rightarrow> try_claim_and_construct h cap v q)"

definition mq_try_push ::
  "hardening \<Rightarrow> nat \<Rightarrow> 'a \<Rightarrow> ('a, 'w::len) mpmc_queue \<Rightarrow> (bool call \<times> ('a, 'w) mpmc_queue) outcome" where
  "mq_try_push h cap v q = mq_try_emplace h cap (Builds v) q"

definition mq_try_pop ::
  "hardening \<Rightarrow> nat \<Rightarrow> ('a, 'w::len) mpmc_queue \<Rightarrow> ('a option \<times> ('a, 'w) mpmc_queue) outcome" where
  "mq_try_pop h cap q =
     require_constructed h cap q
       (bnd (of_loop (mq_pop_loop cap (mq_dequeue_pos q) q)) (\<lambda>r. bnd r (\<lambda>claim. case claim of
           None \<Rightarrow> Inr (None, q)
         | Some pos \<Rightarrow>
             bnd (slot_get (mq_storage q) (mq_index cap pos)) (\<lambda>v.
             bnd (slot_destroy (mq_storage q) (mq_index cap pos)) (\<lambda>storage.
             bnd (arr_set (mq_sequence q) (mq_index cap pos) (pos + of_nat cap)) (\<lambda>sequence.
               Inr (Some v, q\<lparr>mq_dequeue_pos := pos + 1, mq_storage := storage, mq_sequence := sequence\<rparr>)))))))"

text \<open>
  The size queries, as functions of what their two relaxed loads return. These may be
  old values, and values of different moments.
\<close>

definition mq_size_approx :: "nat \<Rightarrow> 'w::len word \<Rightarrow> 'w word \<Rightarrow> 'w word" where
  "mq_size_approx cap head tail = clamped_index_distance head tail (of_nat cap)"

definition mq_empty :: "nat \<Rightarrow> 'w::len word \<Rightarrow> 'w word \<Rightarrow> bool" where
  "mq_empty cap head tail \<longleftrightarrow> mq_size_approx cap head tail = 0"

definition mq_full :: "nat \<Rightarrow> 'w::len word \<Rightarrow> 'w word \<Rightarrow> bool" where
  "mq_full cap head tail \<longleftrightarrow> mq_size_approx cap head tail \<ge> of_nat cap"

function mq_drain :: "nat \<Rightarrow> 'w::len word \<Rightarrow> 'w word \<Rightarrow> 'a slots \<Rightarrow> 'a slots outcome" where
  "mq_drain cap pos end_pos storage =
     (if pos \<noteq> end_pos then bnd (slot_destroy storage (mq_index cap pos)) (mq_drain cap (pos + 1) end_pos) else Inr storage)"
  by pat_completeness auto
termination
  by (relation "measure (\<lambda>(cap, pos, end_pos, storage). unat (end_pos - pos))") (auto simp: step_closer)

declare mq_drain.simps [simp del]

definition mq_delete :: "nat \<Rightarrow> ('a, 'w::len) mpmc_queue \<Rightarrow> 'a slots outcome" where
  "mq_delete cap q = mq_drain cap (mq_dequeue_pos q) (mq_enqueue_pos q) (mq_storage q)"

end
