(* ===== verification/Channel.thy ===== *)
theory Channel
  imports Slots
begin

text \<open>
  The contract of a bounded channel, as the users of the lock-free queues see it when
  calls do not overlap: \<^verbatim>\<open>try_push\<close> appends unless \<open>cap\<close> elements are stored, \<^verbatim>\<open>try_pop\<close>
  removes the oldest element if there is one. Neither stops the program.
\<close>

datatype 'v channel_call = Send 'v | Receive

datatype 'v channel_result = Sent bool | Received "'v option"

fun channel_run ::
  "('v \<Rightarrow> 's \<Rightarrow> (bool call \<times> 's) outcome) \<Rightarrow> ('s \<Rightarrow> ('v option \<times> 's) outcome)
     \<Rightarrow> 'v channel_call list \<Rightarrow> 's \<Rightarrow> ('v channel_result list \<times> 's) outcome" where
  "channel_run push pop [] s = Inr ([], s)"
| "channel_run push pop (Send v # calls) s =
     bnd (push v s) (\<lambda>(res, s1). case res of
         Threw \<Rightarrow> channel_run push pop calls s1
       | Returned b \<Rightarrow> bnd (channel_run push pop calls s1) (\<lambda>(obs, s2). Inr (Sent b # obs, s2)))"
| "channel_run push pop (Receive # calls) s =
     bnd (pop s) (\<lambda>(r, s1). bnd (channel_run push pop calls s1) (\<lambda>(obs, s2). Inr (Received r # obs, s2)))"

fun channel_spec :: "nat \<Rightarrow> 'v channel_call list \<Rightarrow> 'v list \<Rightarrow> 'v channel_result list" where
  "channel_spec cap [] xs = []"
| "channel_spec cap (Send v # calls) xs =
     (if length xs < cap then Sent True # channel_spec cap calls (xs @ [v]) else Sent False # channel_spec cap calls xs)"
| "channel_spec cap (Receive # calls) xs =
     (case xs of [] \<Rightarrow> Received None # channel_spec cap calls []
      | x # ys \<Rightarrow> Received (Some x) # channel_spec cap calls ys)"

locale bounded_channel =
  fixes push :: "'v \<Rightarrow> 's \<Rightarrow> (bool call \<times> 's) outcome"
    and pop :: "'s \<Rightarrow> ('v option \<times> 's) outcome"
    and repr :: "'s \<Rightarrow> 'v list \<Rightarrow> bool"
    and cap :: nat
  assumes push_law: "repr s xs \<Longrightarrow> length xs < cap \<Longrightarrow> \<exists>s'. push v s = Inr (Returned True, s') \<and> repr s' (xs @ [v])"
    and push_full: "repr s xs \<Longrightarrow> \<not> length xs < cap \<Longrightarrow> \<exists>s'. push v s = Inr (Returned False, s') \<and> repr s' xs"
    and pop_law: "repr s (x # xs) \<Longrightarrow> \<exists>s'. pop s = Inr (Some x, s') \<and> repr s' xs"
    and pop_empty: "repr s [] \<Longrightarrow> \<exists>s'. pop s = Inr (None, s') \<and> repr s' []"
begin

lemma run_observes_channel:
  "repr s xs \<Longrightarrow> \<exists>s' ys. channel_run push pop calls s = Inr (channel_spec cap calls xs, s') \<and> repr s' ys"
proof (induction calls arbitrary: s xs)
  case (Cons c calls)
  show ?case
  proof (cases c)
    case (Send v)
    show ?thesis
    proof (cases "length xs < cap")
      case True
      then obtain s1 where s1: "push v s = Inr (Returned True, s1)" "repr s1 (xs @ [v])"
        using push_law [OF Cons.prems] by blast
      then show ?thesis using Cons.IH [OF s1(2)] True Send by auto
    next
      case False
      then obtain s1 where s1: "push v s = Inr (Returned False, s1)" "repr s1 xs"
        using push_full [OF Cons.prems] by blast
      then show ?thesis using Cons.IH [OF s1(2)] False Send by auto
    qed
  next
    case Receive
    show ?thesis
    proof (cases "xs = []")
      case True
      then obtain s1 where s1: "pop s = Inr (None, s1)" "repr s1 []" using pop_empty Cons.prems by blast
      then show ?thesis using Cons.IH [OF s1(2)] True Receive by auto
    next
      case False
      then obtain x ys where xs: "xs = x # ys" by (cases xs) auto
      then obtain s1 where s1: "pop s = Inr (Some x, s1)" "repr s1 ys" using pop_law Cons.prems by blast
      then show ?thesis using Cons.IH [OF s1(2)] xs Receive by auto
    qed
  qed
qed auto

end

end
