(* ===== verification/Mpmc_spec.thy ===== *)
theory Mpmc_spec
  imports Mpmc_queue Channel
begin

text \<open>
  What \<^verbatim>\<open>mpmc_queue.hpp\<close> promises in every interleaving of any number of threads. A
  ticket \<open>n\<close> belongs to the cell \<open>n mod cap\<close>; a cell waits for the producer of ticket \<open>n\<close>
  while its sequence is \<open>n\<close>, and for the consumer of ticket \<open>n\<close> while it is \<open>n + 1\<close>.
\<close>

section \<open>The invariant\<close>

definition owns_push :: "('a, 'w::len) mq_thread \<Rightarrow> bool" where
  "owns_push th \<longleftrightarrow> t_pc th \<in> {Push_construct, Push_publish}"

definition owns_pop :: "('a, 'w::len) mq_thread \<Rightarrow> bool" where
  "owns_pop th \<longleftrightarrow> t_pc th \<in> {Pop_move, Pop_destroy, Pop_publish}"

definition producing :: "(nat \<Rightarrow> ('a, 'w::len) mq_thread) \<Rightarrow> nat \<Rightarrow> bool" where
  "producing T n \<longleftrightarrow> (\<exists>t. owns_push (T t) \<and> t_ticket (T t) = n)"

definition built :: "(nat \<Rightarrow> ('a, 'w::len) mq_thread) \<Rightarrow> nat \<Rightarrow> bool" where
  "built T n \<longleftrightarrow> (\<exists>t. t_pc (T t) = Push_publish \<and> t_ticket (T t) = n)"

definition taking :: "(nat \<Rightarrow> ('a, 'w::len) mq_thread) \<Rightarrow> nat \<Rightarrow> bool" where
  "taking T n \<longleftrightarrow> (\<exists>t. owns_pop (T t) \<and> t_ticket (T t) = n)"

definition reading :: "(nat \<Rightarrow> ('a, 'w::len) mq_thread) \<Rightarrow> nat \<Rightarrow> bool" where
  "reading T n \<longleftrightarrow> (\<exists>t. t_pc (T t) \<in> {Pop_move, Pop_destroy} \<and> t_ticket (T t) = n)"

definition waits ::
  "nat \<Rightarrow> nat \<Rightarrow> nat \<Rightarrow> (nat \<Rightarrow> ('a, 'w::len) mq_thread) \<Rightarrow> 'a list \<Rightarrow> nat \<Rightarrow> nat \<Rightarrow> 'a option \<Rightarrow> bool" where
  "waits cap E D T log n sq st \<longleftrightarrow> D \<le> n \<and> n < D + cap \<and> sq = n \<and> (n < E \<longrightarrow> producing T n) \<and>
     st = (if built T n then Some (log ! n) else None)"

definition offers ::
  "nat \<Rightarrow> nat \<Rightarrow> nat \<Rightarrow> (nat \<Rightarrow> ('a, 'w::len) mq_thread) \<Rightarrow> 'a list \<Rightarrow> nat \<Rightarrow> nat \<Rightarrow> 'a option \<Rightarrow> bool" where
  "offers cap E D T log n sq st \<longleftrightarrow> n < E \<and> E \<le> n + cap \<and> sq = n + 1 \<and> (n < D \<longrightarrow> taking T n) \<and>
     st = (if D \<le> n \<or> reading T n then Some (log ! n) else None)"

definition cell_ok ::
  "nat \<Rightarrow> nat \<Rightarrow> nat \<Rightarrow> (nat \<Rightarrow> ('a, 'w::len) mq_thread) \<Rightarrow> 'a list \<Rightarrow> nat \<Rightarrow> nat \<Rightarrow> 'a option \<Rightarrow> bool" where
  "cell_ok cap E D T log i sq st \<longleftrightarrow>
     (\<exists>n. n mod cap = i \<and> (waits cap E D T log n sq st \<or> offers cap E D T log n sq st))"

definition thread_ok :: "nat \<Rightarrow> nat \<Rightarrow> nat \<Rightarrow> nat list \<Rightarrow> 'a list \<Rightarrow> ('a, 'w::len) mq_thread \<Rightarrow> bool" where
  "thread_ok cap E D S log th \<longleftrightarrow>
     (let n = t_ticket th; pc = t_pc th in
      (pc \<noteq> Idle \<longrightarrow> t_pos th = of_nat n) \<and>
      (pc \<in> {Push_load_sequence, Push_claim, Push_reload} \<longrightarrow> n \<le> E \<and> t_value th \<noteq> None) \<and>
      (pc \<in> {Pop_load_sequence, Pop_claim, Pop_reload} \<longrightarrow> n \<le> D) \<and>
      (pc = Push_claim \<longrightarrow> n \<le> S ! (n mod cap)) \<and>
      (pc = Pop_claim \<longrightarrow> n + 1 \<le> S ! (n mod cap)) \<and>
      (owns_push th \<longrightarrow> n < E \<and> S ! (n mod cap) = n \<and> t_value th = Some (log ! n)) \<and>
      (owns_pop th \<longrightarrow> n < D \<and> S ! (n mod cap) = n + 1) \<and>
      (pc \<in> {Pop_destroy, Pop_publish} \<longrightarrow> t_value th = Some (log ! n)))"

definition single_owners :: "(nat \<Rightarrow> ('a, 'w::len) mq_thread) \<Rightarrow> bool" where
  "single_owners T \<longleftrightarrow> (\<forall>t u. t_ticket (T t) = t_ticket (T u) \<longrightarrow>
     (owns_push (T t) \<and> owns_push (T u) \<or> owns_pop (T t) \<and> owns_pop (T u)) \<longrightarrow> t = u)"

definition mq_inv :: "nat \<Rightarrow> 'a list \<Rightarrow> ('a, 'w::len) mq_system \<Rightarrow> bool" where
  "mq_inv cap log s \<longleftrightarrow>
     (let q = mq_queue s; E = mq_E s; D = mq_D s; S = mq_S s; T = mq_threads s in
      ring_capacity TYPE('w) cap \<and> length (mq_sequence q) = cap \<and> length (mq_storage q) = cap \<and> length S = cap \<and>
      mq_enqueue_pos q = of_nat E \<and> mq_dequeue_pos q = of_nat D \<and> (\<forall>i<cap. mq_sequence q ! i = of_nat (S ! i)) \<and>
      length log = E \<and> D \<le> E \<and> E \<le> D + cap \<and>
      (\<forall>i<cap. cell_ok cap E D T log i (S ! i) (mq_storage q ! i)) \<and>
      (\<forall>t. thread_ok cap E D S log (T t)) \<and> single_owners T)"

lemma mq_invD:
  assumes "mq_inv cap log (s :: ('a, 'w::len) mq_system)"
  shows "ring_capacity TYPE('w) cap" "length (mq_sequence (mq_queue s)) = cap" "length (mq_storage (mq_queue s)) = cap"
    "length (mq_S s) = cap" "mq_enqueue_pos (mq_queue s) = of_nat (mq_E s)" "mq_dequeue_pos (mq_queue s) = of_nat (mq_D s)"
    "\<And>i. i < cap \<Longrightarrow> mq_sequence (mq_queue s) ! i = of_nat (mq_S s ! i)"
    "length log = mq_E s" "mq_D s \<le> mq_E s" "mq_E s \<le> mq_D s + cap"
    "\<And>i. i < cap \<Longrightarrow> cell_ok cap (mq_E s) (mq_D s) (mq_threads s) log i (mq_S s ! i) (mq_storage (mq_queue s) ! i)"
    "\<And>t. thread_ok cap (mq_E s) (mq_D s) (mq_S s) log (mq_threads s t)" "single_owners (mq_threads s)" "2 \<le> cap"
  using assms ring_capacity_bounds(1) [of cap, where 'w = 'w] by (auto simp: mq_inv_def Let_def)

lemma mq_invI:
  assumes "ring_capacity TYPE('w::len) cap" "length (mq_sequence (mq_queue s)) = cap" "length (mq_storage (mq_queue s)) = cap"
    "length (mq_S s) = cap" "mq_enqueue_pos (mq_queue s) = of_nat (mq_E s)" "mq_dequeue_pos (mq_queue s) = of_nat (mq_D s)"
    "\<And>i. i < cap \<Longrightarrow> mq_sequence (mq_queue s) ! i = of_nat (mq_S s ! i)"
    "length log = mq_E s" "mq_D s \<le> mq_E s" "mq_E s \<le> mq_D s + cap"
    "\<And>i. i < cap \<Longrightarrow> cell_ok cap (mq_E s) (mq_D s) (mq_threads s) log i (mq_S s ! i) (mq_storage (mq_queue s) ! i)"
    "\<And>t. thread_ok cap (mq_E s) (mq_D s) (mq_S s) log (mq_threads s t)" "single_owners (mq_threads s)"
  shows "mq_inv cap log (s :: ('a, 'w) mq_system)"
  using assms by (auto simp: mq_inv_def Let_def)

section \<open>Reading a cell\<close>

lemma next_cell: "2 \<le> (cap :: nat) \<Longrightarrow> (n + 1) mod cap \<noteq> n mod cap"
  by (metis One_nat_def Suc_eq_plus1 le_antisym lessI mod_Suc n_not_Suc_n nat_le_linear not_less_eq_eq numeral_2_eq_2 zero_neq_one)

lemma waits_sq: "waits cap E D T log n sq st \<Longrightarrow> sq = n"
  by (simp add: waits_def)

lemma offers_sq: "offers cap E D T log n sq st \<Longrightarrow> sq = n + 1"
  by (simp add: offers_def)

lemma cell_okE:
  assumes "cell_ok cap E D T log i sq st"
  obtains n where "n mod cap = i" "waits cap E D T log n sq st" | n where "n mod cap = i" "offers cap E D T log n sq st"
  using assms by (auto simp: cell_ok_def)

lemma cell_waits:
  assumes "cell_ok cap E D T log i n st" "n mod cap = i" "2 \<le> cap"
  shows "waits cap E D T log n n st"
  using assms(1)
proof (cases rule: cell_okE)
  case (1 m)
  then show ?thesis using waits_sq [OF 1(2)] by simp
next
  case (2 m)
  then show ?thesis using offers_sq [OF 2(2)] next_cell [OF assms(3), of m] assms(2) by metis
qed

lemma cell_offers:
  assumes "cell_ok cap E D T log i (n + 1) st" "n mod cap = i" "2 \<le> cap"
  shows "offers cap E D T log n (n + 1) st"
  using assms(1)
proof (cases rule: cell_okE)
  case (1 m)
  then show ?thesis using waits_sq [OF 1(2)] next_cell [OF assms(3), of n] assms(2) by metis
next
  case (2 m)
  then have "m = n" using offers_sq [OF 2(2)] by simp
  then show ?thesis using 2 by simp
qed

lemma same_cell: "(a :: nat) \<le> b \<Longrightarrow> b < a + cap \<Longrightarrow> a mod cap = b mod cap \<Longrightarrow> a = b"
  by (metis add_diff_cancel_left' dvd_imp_le le_add_diff_inverse less_diff_conv2 mod_eq_dvd_iff_nat not_le zero_less_diff le_neq_implies_less nat_add_left_cancel_less)

text \<open>The cell of the next ticket, once its sequence has come this far.\<close>

lemma cell_reached_push:
  assumes "cell_ok cap E D T log (E mod cap) sq st" "E \<le> sq" "2 \<le> cap" "D \<le> E"
  shows "sq = E" "waits cap E D T log E E st"
proof -
  show "sq = E"
    using assms(1)
  proof (cases rule: cell_okE)
    case (1 n)
    then have "E \<le> n" "n < E + cap" using assms(2,4) by (auto simp: waits_def)
    then show ?thesis using same_cell [of E n cap] 1 waits_sq [OF 1(2)] by simp
  next
    case (2 n)
    then have "n + 1 = E" using assms(2) by (auto simp: offers_def)
    then show ?thesis using next_cell [OF assms(3), of n] 2(1) by simp
  qed
  then show "waits cap E D T log E E st" using cell_waits [OF _ refl assms(3)] assms(1) by simp
qed

lemma cell_reached_pop:
  assumes "cell_ok cap E D T log (D mod cap) sq st" "D + 1 \<le> sq" "2 \<le> cap" "E \<le> D + cap"
  shows "sq = D + 1" "offers cap E D T log D (D + 1) st"
proof -
  show "sq = D + 1"
    using assms(1)
  proof (cases rule: cell_okE)
    case (1 n)
    then have "D \<le> n" "n < D + cap" "sq = n" by (auto simp: waits_def)
    then show ?thesis using same_cell [of D n cap] 1 assms(2) by simp
  next
    case (2 n)
    then have "D \<le> n" "n < D + cap" "sq = n + 1" using assms(2,4) by (auto simp: offers_def)
    then show ?thesis using same_cell [of D n cap] 2 by simp
  qed
  then show "offers cap E D T log D (D + 1) st" using cell_offers [OF _ refl assms(3)] assms(1) by simp
qed

section \<open>Steps of threads that own no cell\<close>

lemma ex_quiet: "\<not> P (T t) \<Longrightarrow> \<not> P th \<Longrightarrow> (\<exists>u. P ((T(t := th)) u)) \<longleftrightarrow> (\<exists>u. P (T u))"
  by (metis fun_upd_other fun_upd_same)

lemma quiet_sets:
  assumes "\<not> owns_push (T t)" "\<not> owns_pop (T t)" "\<not> owns_push th" "\<not> owns_pop th"
  shows "producing (T(t := th)) = producing T" "built (T(t := th)) = built T"
    "taking (T(t := th)) = taking T" "reading (T(t := th)) = reading T"
  unfolding producing_def built_def taking_def reading_def
  by (rule ext, rule ex_quiet; use assms in \<open>simp add: owns_push_def owns_pop_def\<close>)+

lemma single_owners_quiet:
  assumes "single_owners T" "\<not> owns_push th" "\<not> owns_pop th"
  shows "single_owners (T(t := th))"
  unfolding single_owners_def
proof (intro allI impI)
  fix a b
  let ?T = "T(t := th)"
  assume same: "t_ticket (?T a) = t_ticket (?T b)"
    and own: "owns_push (?T a) \<and> owns_push (?T b) \<or> owns_pop (?T a) \<and> owns_pop (?T b)"
  have "a \<noteq> t" "b \<noteq> t" using own assms(2,3) by fastforce+
  then show "a = b" using assms(1) same own unfolding single_owners_def fun_upd_apply by metis
qed

lemma cell_ok_cong:
  assumes "producing T' = producing T" "built T' = built T" "taking T' = taking T" "reading T' = reading T"
  shows "cell_ok cap E D T' log i sq st = cell_ok cap E D T log i sq st"
  using assms by (simp add: cell_ok_def waits_def offers_def)

lemma quiet_inv:
  assumes "mq_inv cap log s" "\<not> owns_push (mq_threads s t)" "\<not> owns_pop (mq_threads s t)" "\<not> owns_push th" "\<not> owns_pop th"
    and "thread_ok cap (mq_E s) (mq_D s) (mq_S s) log th"
  shows "mq_inv cap log (set_thread t th s)"
proof -
  note d = mq_invD [OF assms(1)]
  note q = quiet_sets [where T = "mq_threads s", OF assms(2-5)]
  show ?thesis
    by (rule mq_invI)
      (use d(1-10) d(11) [unfolded cell_ok_cong [OF q, symmetric]] d(12) assms(6) single_owners_quiet [OF d(13) assms(4,5)] in
        \<open>simp_all add: set_thread_def\<close>)
qed

lemmas owner_defs = owns_push_def owns_pop_def

lemma constructed_passes:
  fixes s :: "('a, 'w::len) mq_system"
  assumes "mq_inv cap log s"
  shows "require_constructed h cap (mq_queue s) rest = rest"
proof (cases "cap > 2")
  case True
  note d = mq_invD [OF assms]
  have "mq_S s ! 1 mod cap = 1 \<or> mq_S s ! 1 mod cap = 2"
    using d(11) [of 1] True by (auto elim!: cell_okE dest!: waits_sq offers_sq simp: mod_Suc)
  then have "ring_index cap (of_nat (mq_S s ! 1) :: 'w word) \<noteq> 0" by (auto simp: ring_index_of_nat [OF d(1)])
  then have "(of_nat (mq_S s ! 1) :: 'w word) \<noteq> 0" by (metis (no_types) and_zero_eq ring_index_def unsigned_0 and.commute)
  then show ?thesis using d(2) d(7) [of 1] True by (simp add: require_constructed_def)
qed (simp add: require_constructed_def)

lemma sequence_bound: "mq_inv cap log s \<Longrightarrow> i < cap \<Longrightarrow> mq_S s ! i \<le> mq_E s + cap"
  using mq_invD(11) [of cap log s i] mq_invD(9) [of cap log s]
  by (auto elim!: cell_okE simp: waits_def offers_def)

lemma thread_ok_other:
  assumes "thread_ok cap E D S log th"
    and "pc = Idle \<or> pc = Push_reload \<and> t_pc th = Push_load_sequence \<or> pc = Pop_reload \<and> t_pc th = Pop_load_sequence \<or>
      pc = Push_claim \<and> t_pc th = Push_load_sequence \<and> t_ticket th \<le> S ! (t_ticket th mod cap) \<or>
      pc = Pop_claim \<and> t_pc th = Pop_load_sequence \<and> t_ticket th + 1 \<le> S ! (t_ticket th mod cap)"
  shows "thread_ok cap E D S log (th\<lparr>t_pc := pc\<rparr>)"
  using assms(2) assms(1) by (elim disjE conjE) (simp_all add: thread_ok_def Let_def owner_defs)

lemma mq_push_enter_inv:
  assumes "mq_inv cap log s" "t_pc (mq_threads s t) = Idle" "k \<le> mq_E s"
  shows "\<exists>s'. mq_push_enter h cap v k t s = Inr (Step_taken, s') \<and> mq_inv cap log s'"
  unfolding mq_push_enter_def constructed_passes [OF assms(1)]
  using assms by (simp, intro quiet_inv) (auto simp: owner_defs thread_ok_def)

lemma mq_pop_enter_inv:
  assumes "mq_inv cap log s" "t_pc (mq_threads s t) = Idle" "k \<le> mq_D s"
  shows "\<exists>s'. mq_pop_enter h cap k t s = Inr (Step_taken, s') \<and> mq_inv cap log s'"
  unfolding mq_pop_enter_def constructed_passes [OF assms(1)]
  using assms by (simp, intro quiet_inv) (auto simp: owner_defs thread_ok_def)

lemma mq_push_reload_inv:
  assumes "mq_inv cap log s" "t_pc (mq_threads s t) = Push_reload" "k \<le> mq_E s"
  shows "\<exists>s'. mq_push_reload k t s = Inr (Step_taken, s') \<and> mq_inv cap log s'"
  unfolding mq_push_reload_def
  using assms mq_invD(12) [OF assms(1), of t] by (simp, intro quiet_inv) (auto simp: owner_defs thread_ok_def Let_def)

lemma mq_pop_reload_inv:
  assumes "mq_inv cap log s" "t_pc (mq_threads s t) = Pop_reload" "k \<le> mq_D s"
  shows "\<exists>s'. mq_pop_reload k t s = Inr (Step_taken, s') \<and> mq_inv cap log s'"
  unfolding mq_pop_reload_def
  using assms mq_invD(12) [OF assms(1), of t] by (simp, intro quiet_inv) (auto simp: owner_defs thread_ok_def Let_def)

lemma sgn_cases: "sgn (int a - int b) = 0 \<longleftrightarrow> a = b" "sgn (int a - int b) < 0 \<longleftrightarrow> a < b"
  by (auto simp: sgn_if)

lemma mq_push_load_sequence_inv:
  fixes s :: "('a, 'w::len) mq_system"
  assumes "mq_inv cap log s" "t_pc (mq_threads s t) = Push_load_sequence" "k = t_ticket (mq_threads s t)"
    and "v \<le> mq_S s ! (k mod cap)" "timely TYPE('w) (mq_E s + cap) k" "timely TYPE('w) k v"
  shows "\<exists>ev s'. mq_push_load_sequence (of_nat v) t s = Inr (ev, s') \<and> mq_inv cap log s' \<and> ev \<in> {Step_taken, Push_refused}"
proof -
  note d = mq_invD [OF assms(1)]
  have "v \<le> mq_E s + cap" using assms(4) sequence_bound [OF assms(1), of "k mod cap"] d(14) by (simp add: le_trans)
  then have "compare_tickets (of_nat v) (of_nat k :: 'w word) = sgn (int v - int k)"
    using assms(5,6) by (intro compare_tickets_exact) (auto simp: timely_def)
  moreover have "t_pos (mq_threads s t) = of_nat k" using d(12) [of t] assms(2,3) by (auto simp: thread_ok_def Let_def)
  ultimately have diff: "compare_tickets (of_nat v) (t_pos (mq_threads s t)) = sgn (int v - int k)" by simp
  have inv: "mq_inv cap log (set_thread t ((mq_threads s t)\<lparr>t_pc := pc\<rparr>) s)"
    if "pc = Idle \<or> pc = Push_reload \<or> pc = Push_claim \<and> k \<le> v" for pc
    using assms that by (intro quiet_inv thread_ok_other d(12)) (auto simp: owner_defs)
  show ?thesis
    using inv [of Idle] inv [of Push_reload] inv [of Push_claim]
    unfolding mq_push_load_sequence_def Let_def diff sgn_cases by auto
qed

lemma mq_pop_load_sequence_inv:
  fixes s :: "('a, 'w::len) mq_system"
  assumes "mq_inv cap log s" "t_pc (mq_threads s t) = Pop_load_sequence" "k = t_ticket (mq_threads s t)"
    and "v \<le> mq_S s ! (k mod cap)" "timely TYPE('w) (mq_E s + cap) k" "timely TYPE('w) (k + 1) v"
  shows "\<exists>ev s'. mq_pop_load_sequence (of_nat v) t s = Inr (ev, s') \<and> mq_inv cap log s' \<and> ev \<in> {Step_taken, Pop_refused}"
proof -
  note d = mq_invD [OF assms(1)]
  have "v \<le> mq_E s + cap" using assms(4) sequence_bound [OF assms(1), of "k mod cap"] d(14) by (simp add: le_trans)
  then have "compare_tickets (of_nat v) (of_nat (k + 1) :: 'w word) = sgn (int v - int (k + 1))"
    using assms(5,6) by (intro compare_tickets_exact) (auto simp: timely_def)
  moreover have "t_pos (mq_threads s t) + 1 = of_nat (k + 1)"
    using d(12) [of t] assms(2,3) by (auto simp: thread_ok_def Let_def)
  ultimately have diff: "compare_tickets (of_nat v) (t_pos (mq_threads s t) + 1) = sgn (int v - int (k + 1))" by (simp only:)
  have inv: "mq_inv cap log (set_thread t ((mq_threads s t)\<lparr>t_pc := pc\<rparr>) s)"
    if "pc = Idle \<or> pc = Pop_reload \<or> pc = Pop_claim \<and> k + 1 \<le> v" for pc
    using assms that by (intro quiet_inv thread_ok_other d(12)) (auto simp: owner_defs)
  show ?thesis
    using inv [of Idle] inv [of Pop_reload] inv [of Pop_claim]
    unfolding mq_pop_load_sequence_def Let_def diff sgn_cases by auto
qed

section \<open>Steps of threads that own a cell\<close>

lemma ex_upd: "(\<exists>u. Q ((T(t := th)) u)) \<longleftrightarrow> Q th \<or> (\<exists>u. u \<noteq> t \<and> Q (T u))"
  unfolding fun_upd_apply by (metis (full_types))

lemma ex_free:
  assumes "\<not> P (T t)"
  shows "(\<exists>u. P ((T(t := th)) u) \<and> t_ticket ((T(t := th)) u) = m) \<longleftrightarrow>
    P th \<and> t_ticket th = m \<or> (\<exists>u. P (T u) \<and> t_ticket (T u) = m)"
proof -
  have "(\<exists>u. u \<noteq> t \<and> P (T u) \<and> t_ticket (T u) = m) \<longleftrightarrow> (\<exists>u. P (T u) \<and> t_ticket (T u) = m)" using assms by metis
  then show ?thesis
    using ex_upd [where Q = "\<lambda>x. P x \<and> t_ticket x = m" and T = T and t = t and th = th] by (simp only:)
qed

lemma ex_owner:
  assumes "\<And>u. P (T u) \<Longrightarrow> t_ticket (T u) = t_ticket (T t) \<Longrightarrow> u = t"
  shows "(\<exists>u. P ((T(t := th)) u) \<and> t_ticket ((T(t := th)) u) = m) \<longleftrightarrow>
    P th \<and> t_ticket th = m \<or> (\<exists>u. P (T u) \<and> t_ticket (T u) = m) \<and> m \<noteq> t_ticket (T t)"
proof -
  have "(\<exists>u. u \<noteq> t \<and> P (T u) \<and> t_ticket (T u) = m) \<longleftrightarrow> (\<exists>u. P (T u) \<and> t_ticket (T u) = m) \<and> m \<noteq> t_ticket (T t)"
    using assms by metis
  then show ?thesis
    using ex_upd [where Q = "\<lambda>x. P x \<and> t_ticket x = m" and T = T and t = t and th = th] by (simp only:)
qed

lemma single_ownersD:
  assumes "single_owners T"
  shows "owns_push (T t) \<Longrightarrow> owns_push (T u) \<Longrightarrow> t_ticket (T u) = t_ticket (T t) \<Longrightarrow> u = t"
    and "owns_pop (T t) \<Longrightarrow> owns_pop (T u) \<Longrightarrow> t_ticket (T u) = t_ticket (T t) \<Longrightarrow> u = t"
  using assms unfolding single_owners_def by metis+

text \<open>A producer's move: which tickets are being produced and which are built.\<close>

lemma push_owner_sets:
  assumes "single_owners T" "owns_push (T t)" "t_ticket th = t_ticket (T t)" "\<not> owns_pop th"
  shows "producing (T(t := th)) m \<longleftrightarrow> (if m = t_ticket (T t) then owns_push th else producing T m)"
    and "built (T(t := th)) m \<longleftrightarrow> (if m = t_ticket (T t) then t_pc th = Push_publish else built T m)"
    and "taking (T(t := th)) = taking T" "reading (T(t := th)) = reading T"
proof -
  have no_pop: "\<not> owns_pop (T t)" using assms(2) by (auto simp: owner_defs)
  have unique: "u = t" if "owns_push (T u)" "t_ticket (T u) = t_ticket (T t)" for u
    using single_ownersD(1) [OF assms(1,2)] that by blast
  show "producing (T(t := th)) m \<longleftrightarrow> (if m = t_ticket (T t) then owns_push th else producing T m)"
    unfolding producing_def using ex_owner [where P = owns_push and T = T and t = t and th = th and m = m] unique assms(3) by auto
  have unique': "u = t" if "t_pc (T u) = Push_publish" "t_ticket (T u) = t_ticket (T t)" for u
    using unique that by (simp add: owner_defs)
  show "built (T(t := th)) m \<longleftrightarrow> (if m = t_ticket (T t) then t_pc th = Push_publish else built T m)"
    unfolding built_def
    using ex_owner [where P = "\<lambda>x. t_pc x = Push_publish" and T = T and t = t and th = th and m = m] unique' assms(3) by auto
  show "taking (T(t := th)) = taking T"
    unfolding taking_def using ex_free [where P = owns_pop and T = T and t = t and th = th] no_pop assms(4) by auto
  show "reading (T(t := th)) = reading T"
    unfolding reading_def
    using ex_free [where P = "\<lambda>x. t_pc x \<in> {Pop_move, Pop_destroy}" and T = T and t = t and th = th] no_pop assms(4)
    by (auto simp: owner_defs)
qed

lemma pop_owner_sets:
  assumes "single_owners T" "owns_pop (T t)" "t_ticket th = t_ticket (T t)" "\<not> owns_push th"
  shows "taking (T(t := th)) m \<longleftrightarrow> (if m = t_ticket (T t) then owns_pop th else taking T m)"
    and "reading (T(t := th)) m \<longleftrightarrow> (if m = t_ticket (T t) then t_pc th \<in> {Pop_move, Pop_destroy} else reading T m)"
    and "producing (T(t := th)) = producing T" "built (T(t := th)) = built T"
proof -
  have no_push: "\<not> owns_push (T t)" using assms(2) by (auto simp: owner_defs)
  have unique: "u = t" if "owns_pop (T u)" "t_ticket (T u) = t_ticket (T t)" for u
    using single_ownersD(2) [OF assms(1,2)] that by blast
  show "taking (T(t := th)) m \<longleftrightarrow> (if m = t_ticket (T t) then owns_pop th else taking T m)"
    unfolding taking_def using ex_owner [where P = owns_pop and T = T and t = t and th = th and m = m] unique assms(3) by auto
  have unique': "u = t" if "t_pc (T u) \<in> {Pop_move, Pop_destroy}" "t_ticket (T u) = t_ticket (T t)" for u
    using unique that by (auto simp: owner_defs)
  show "reading (T(t := th)) m \<longleftrightarrow> (if m = t_ticket (T t) then t_pc th \<in> {Pop_move, Pop_destroy} else reading T m)"
    unfolding reading_def
    using ex_owner [where P = "\<lambda>x. t_pc x \<in> {Pop_move, Pop_destroy}" and T = T and t = t and th = th and m = m] unique' assms(3)
    by auto
  show "producing (T(t := th)) = producing T"
    unfolding producing_def using ex_free [where P = owns_push and T = T and t = t and th = th] no_push assms(4) by auto
  show "built (T(t := th)) = built T"
    unfolding built_def
    using ex_free [where P = "\<lambda>x. t_pc x = Push_publish" and T = T and t = t and th = th] no_push assms(4)
    by (auto simp: owner_defs)
qed

lemma single_owners_upd:
  assumes "single_owners T"
    and "\<And>u. u \<noteq> t \<Longrightarrow> owns_push th \<Longrightarrow> owns_push (T u) \<Longrightarrow> t_ticket (T u) \<noteq> t_ticket th"
    and "\<And>u. u \<noteq> t \<Longrightarrow> owns_pop th \<Longrightarrow> owns_pop (T u) \<Longrightarrow> t_ticket (T u) \<noteq> t_ticket th"
  shows "single_owners (T(t := th))"
  unfolding single_owners_def
proof (intro allI impI)
  fix a b
  let ?T = "T(t := th)"
  assume same: "t_ticket (?T a) = t_ticket (?T b)"
    and own: "owns_push (?T a) \<and> owns_push (?T b) \<or> owns_pop (?T a) \<and> owns_pop (?T b)"
  show "a = b"
  proof (cases "a = t \<or> b = t")
    case True
    then show ?thesis using assms(2,3) same own by (metis fun_upd_apply)
  next
    case False
    then show ?thesis using assms(1) same own unfolding single_owners_def fun_upd_apply by metis
  qed
qed

lemma thread_okD:
  assumes "thread_ok cap E D S log th"
  shows "t_pc th \<noteq> Idle \<Longrightarrow> t_pos th = of_nat (t_ticket th)"
    and "t_pc th \<in> {Push_load_sequence, Push_claim, Push_reload} \<Longrightarrow> t_ticket th \<le> E \<and> t_value th \<noteq> None"
    and "t_pc th \<in> {Pop_load_sequence, Pop_claim, Pop_reload} \<Longrightarrow> t_ticket th \<le> D"
    and "t_pc th = Push_claim \<Longrightarrow> t_ticket th \<le> S ! (t_ticket th mod cap)"
    and "t_pc th = Pop_claim \<Longrightarrow> t_ticket th + 1 \<le> S ! (t_ticket th mod cap)"
    and "owns_push th \<Longrightarrow> t_ticket th < E \<and> S ! (t_ticket th mod cap) = t_ticket th \<and> t_value th = Some (log ! t_ticket th)"
    and "owns_pop th \<Longrightarrow> t_ticket th < D \<and> S ! (t_ticket th mod cap) = t_ticket th + 1"
    and "t_pc th \<in> {Pop_destroy, Pop_publish} \<Longrightarrow> t_value th = Some (log ! t_ticket th)"
  using assms unfolding thread_ok_def Let_def by blast+

lemma thread_ok_mono:
  assumes "thread_ok cap E D S log th" "length log = E" "D \<le> E" "E \<le> E'" "D \<le> D'"
    and "S ! (t_ticket th mod cap) \<le> S' ! (t_ticket th mod cap)"
    and "owns_push th \<or> owns_pop th \<Longrightarrow> S' ! (t_ticket th mod cap) = S ! (t_ticket th mod cap)"
  shows "thread_ok cap E' D' S' (log @ xs) th"
proof -
  note ok = thread_okD [OF assms(1)]
  have log: "(log @ xs) ! t_ticket th = log ! t_ticket th" if "owns_push th \<or> owns_pop th"
  proof -
    have "t_ticket th < length log" using that ok(6,7) assms(2,3) by linarith
    then show ?thesis by (rule nth_append_left)
  qed
  have own: "t_pc th \<in> {Pop_destroy, Pop_publish} \<Longrightarrow> owns_pop th" by (auto simp: owner_defs)
  show ?thesis
    unfolding thread_ok_def Let_def
  proof (intro conjI impI)
    assume "t_pc th = Pop_claim"
    then show "t_ticket th + 1 \<le> S' ! (t_ticket th mod cap)" using ok(5) assms(6) by linarith
  next
    assume "t_pc th \<in> {Pop_destroy, Pop_publish}"
    then show "t_value th = Some ((log @ xs) ! t_ticket th)" using ok(8) own log by simp
  qed (use ok log assms in \<open>auto intro: le_trans less_le_trans\<close>)
qed

lemma cap_less: "2 \<le> (cap :: nat) \<Longrightarrow> n mod cap < cap"
  by simp

text \<open>A ticket that is built or being read is an owned one.\<close>

lemma owned_tickets:
  assumes "mq_inv cap log s"
  shows "producing (mq_threads s) n \<Longrightarrow> n < mq_E s" "built (mq_threads s) n \<Longrightarrow> n < mq_E s"
    "taking (mq_threads s) n \<Longrightarrow> n < mq_D s" "reading (mq_threads s) n \<Longrightarrow> n < mq_D s"
proof -
  note ok = thread_okD(6,7) [OF mq_invD(12) [OF assms]]
  show "producing (mq_threads s) n \<Longrightarrow> n < mq_E s" using ok by (auto simp: producing_def)
  show "built (mq_threads s) n \<Longrightarrow> n < mq_E s" using ok by (force simp: built_def owner_defs)
  show "taking (mq_threads s) n \<Longrightarrow> n < mq_D s" using ok by (auto simp: taking_def)
  show "reading (mq_threads s) n \<Longrightarrow> n < mq_D s" using ok by (force simp: reading_def owner_defs)
qed

end
