(* ===== verification/Mpmc_steps.thy ===== *)
theory Mpmc_steps
  imports Mpmc_spec
begin

text \<open>
  The steps of \<^verbatim>\<open>mpmc_queue.hpp\<close> that claim, fill, empty or release a cell keep the
  invariant.
\<close>

lemma cell_frame:
  assumes ok: "cell_ok cap E D T log i sq st"
    and sets: "\<And>n. n mod cap = i \<Longrightarrow> producing T' n = producing T n" "\<And>n. n mod cap = i \<Longrightarrow> built T' n = built T n"
      "\<And>n. n mod cap = i \<Longrightarrow> taking T' n = taking T n" "\<And>n. n mod cap = i \<Longrightarrow> reading T' n = reading T n"
    and E: "E' = E \<or> E' = E + 1 \<and> E mod cap \<noteq> i"
    and D: "D' = D \<or> D' = D + 1 \<and> D mod cap \<noteq> i"
    and bt: "\<And>n. built T n \<Longrightarrow> n < E"
    and log: "\<And>n. n < E \<Longrightarrow> log' ! n = log ! n"
  shows "cell_ok cap E' D' T' log' i sq st"
  using ok
proof (cases rule: cell_okE)
  case (1 n)
  note w = 1(2) [unfolded waits_def]
  have "n < E' \<longrightarrow> n < E" using E 1(1) by (cases "n = E") auto
  moreover have "D' \<le> n" "n < D' + cap" using D w 1(1) by (cases "n = D"; auto)+
  moreover have "st = (if built T' n then Some (log' ! n) else None)" using w sets(2) [OF 1(1)] bt [of n] log [of n] by auto
  ultimately have "waits cap E' D' T' log' n sq st" using w sets(1) [OF 1(1)] by (simp add: waits_def)
  then show ?thesis using 1(1) by (auto simp: cell_ok_def)
next
  case (2 n)
  note o = 2(2) [unfolded offers_def]
  have "n < E'" using E o by auto
  moreover have "E' \<le> n + cap" using E o 2(1) by (cases "E = n + cap") auto
  moreover have d: "n < D' \<longleftrightarrow> n < D" using D 2(1) by (cases "n = D") auto
  moreover have "st = (if D' \<le> n \<or> reading T' n then Some (log' ! n) else None)"
    using o sets(4) [OF 2(1)] log [of n] d by (auto simp: not_less [symmetric])
  ultimately have "offers cap E' D' T' log' n sq st" using o sets(3) [OF 2(1)] by (simp add: offers_def)
  then show ?thesis using 2(1) by (auto simp: cell_ok_def)
qed

lemma claim_sets:
  assumes "\<not> owns_push (T t)" "\<not> owns_pop (T t)"
  shows "producing (T(t := th)) m \<longleftrightarrow> owns_push th \<and> t_ticket th = m \<or> producing T m"
    and "built (T(t := th)) m \<longleftrightarrow> t_pc th = Push_publish \<and> t_ticket th = m \<or> built T m"
    and "taking (T(t := th)) m \<longleftrightarrow> owns_pop th \<and> t_ticket th = m \<or> taking T m"
    and "reading (T(t := th)) m \<longleftrightarrow> t_pc th \<in> {Pop_move, Pop_destroy} \<and> t_ticket th = m \<or> reading T m"
proof -
  have pc: "t_pc (T t) \<noteq> Push_publish" "t_pc (T t) \<notin> {Pop_move, Pop_destroy}" using assms by (auto simp: owner_defs)
  show "producing (T(t := th)) m \<longleftrightarrow> owns_push th \<and> t_ticket th = m \<or> producing T m"
    unfolding producing_def by (rule ex_free [where P = owns_push]) (rule assms(1))
  show "built (T(t := th)) m \<longleftrightarrow> t_pc th = Push_publish \<and> t_ticket th = m \<or> built T m"
    unfolding built_def by (rule ex_free [where P = "\<lambda>x. t_pc x = Push_publish"]) (rule pc(1))
  show "taking (T(t := th)) m \<longleftrightarrow> owns_pop th \<and> t_ticket th = m \<or> taking T m"
    unfolding taking_def by (rule ex_free [where P = owns_pop]) (rule assms(2))
  show "reading (T(t := th)) m \<longleftrightarrow> t_pc th \<in> {Pop_move, Pop_destroy} \<and> t_ticket th = m \<or> reading T m"
    unfolding reading_def by (rule ex_free [where P = "\<lambda>x. t_pc x \<in> {Pop_move, Pop_destroy}"]) (rule pc(2))
qed

lemma timely_near:
  assumes "timely TYPE('w::len) newest old"
  shows "newest - old < 2 ^ LENGTH('w)"
proof -
  have "(0 :: nat) < 2 ^ (LENGTH('w) - 1)" by simp
  then show ?thesis using assms two_halves [where 'w = 'w] unfolding timely_def by linarith
qed

lemma mq_push_claim_inv:
  fixes s :: "('a, 'w::len) mq_system"
  assumes "mq_inv cap log s" "t_pc (mq_threads s t) = Push_claim" "timely TYPE('w) (mq_E s) (t_ticket (mq_threads s t))"
    and "k \<le> mq_E s"
  shows "\<exists>ev s'. mq_push_claim spurious k t s = Inr (ev, s') \<and>
    (ev = Step_taken \<and> mq_inv cap log s' \<or> (\<exists>v. ev = Claimed v \<and> mq_inv cap (log @ [v]) s'))"
proof -
  note d = mq_invD [OF assms(1)]
  let ?T = "mq_threads s" and ?th = "mq_threads s t" and ?E = "mq_E s" and ?D = "mq_D s" and ?q = "mq_queue s"
  define n where "n = t_ticket ?th"
  note ok = thread_okD [OF d(12) [of t]]
  have free: "\<not> owns_push ?th" "\<not> owns_pop ?th" using assms(2) by (auto simp: owner_defs)
  have pos: "t_pos ?th = of_nat n" "n \<le> ?E" "n \<le> mq_S s ! (n mod cap)" and val: "t_value ?th \<noteq> None"
    using ok(1,2,4) assms(2) by (auto simp: n_def)
  then obtain v where v: "t_value ?th = Some v" by auto
  show ?thesis
  proof (cases "mq_enqueue_pos ?q = t_pos ?th \<and> \<not> spurious")
    case False
    have "mq_inv cap log (set_thread t (?th\<lparr>t_pc := Push_load_sequence, t_pos := of_nat k, t_ticket := k\<rparr>) s)"
      using assms(1,4) free v by (intro quiet_inv) (auto simp: owner_defs thread_ok_def Let_def)
    then show ?thesis using False by (auto simp: mq_push_claim_def Let_def)
  next
    case True
    have "?E - n < 2 ^ LENGTH('w)" using timely_near [OF assms(3)] by (simp add: n_def)
    from counters_equal [OF pos(2) this] have n: "n = ?E" using True d(5) pos(1) by simp
    let ?t' = "?th\<lparr>t_pc := Push_construct\<rparr>"
    let ?s = "(set_thread t ?t' s)\<lparr>mq_queue := ?q\<lparr>mq_enqueue_pos := t_pos ?th + 1\<rparr>, mq_E := ?E + 1\<rparr>"
    note sets = claim_sets [where T = ?T, OF free, of ?t']
    have sets: "producing (?T(t := ?t')) m \<longleftrightarrow> m = ?E \<or> producing ?T m" "built (?T(t := ?t')) m = built ?T m"
      "taking (?T(t := ?t')) m = taking ?T m" "reading (?T(t := ?t')) m = reading ?T m" for m
      unfolding sets using n by (auto simp: owner_defs n_def)
    have here: "mq_S s ! (?E mod cap) = ?E" "waits cap ?E ?D ?T log ?E ?E (mq_storage ?q ! (?E mod cap))"
      using cell_reached_push [OF d(11) [OF cap_less [OF d(14)]] pos(3) [unfolded n] d(14,9)] by auto
    have "mq_inv cap (log @ [v]) ?s"
    proof (rule mq_invI)
      show "mq_enqueue_pos (mq_queue ?s) = of_nat (mq_E ?s)" using pos(1) n by simp
      show "mq_E ?s \<le> mq_D ?s + cap" using here(2) by (simp add: waits_def set_thread_def)
    next
      fix i assume i: "i < cap"
      show "cell_ok cap (mq_E ?s) (mq_D ?s) (mq_threads ?s) (log @ [v]) i (mq_S ?s ! i) (mq_storage (mq_queue ?s) ! i)"
      proof (cases "i = ?E mod cap")
        case True
        have "\<not> built ?T ?E" using owned_tickets(2) [OF assms(1), of ?E] by auto
        then have "waits cap (?E + 1) ?D (?T(t := ?t')) (log @ [v]) ?E ?E (mq_storage ?q ! i)"
          using here(2) sets True by (simp add: waits_def)
        then show ?thesis using True here(1) by (auto simp: cell_ok_def set_thread_def)
      next
        case False
        then show ?thesis
          using d(11) [OF i] d(8) sets owned_tickets(2) [OF assms(1)]
          by (simp add: set_thread_def) (rule cell_frame, auto simp: nth_append)
      qed
    next
      fix u
      show "thread_ok cap (mq_E ?s) (mq_D ?s) (mq_S ?s) (log @ [v]) (mq_threads ?s u)"
      proof (cases "u = t")
        case True
        then show ?thesis
          using pos(1) n here(1) v d(8) by (simp add: set_thread_def thread_ok_def Let_def owner_defs n_def [symmetric] nth_append)
      next
        case False
        then show ?thesis
          using thread_ok_mono [OF d(12) [of u] d(8,9), of "?E + 1" ?D "mq_S s" "[v]"] by (simp add: set_thread_def)
      qed
    next
      have "t_ticket (?T u) \<noteq> ?E" if "owns_push (?T u)" for u using thread_okD(6) [OF d(12) [of u]] that by auto
      then show "single_owners (mq_threads ?s)"
        using n by (simp add: set_thread_def) (rule single_owners_upd [OF d(13)], auto simp: owner_defs n_def)
    qed (use d in \<open>simp_all add: set_thread_def\<close>)
    then show ?thesis using True v by (auto simp: mq_push_claim_def Let_def)
  qed
qed

lemma mq_pop_claim_inv:
  fixes s :: "('a, 'w::len) mq_system"
  assumes "mq_inv cap log s" "t_pc (mq_threads s t) = Pop_claim" "timely TYPE('w) (mq_D s) (t_ticket (mq_threads s t))"
    and "k \<le> mq_D s"
  shows "\<exists>ev s'. mq_pop_claim spurious k t s = Inr (ev, s') \<and> mq_inv cap log s' \<and>
    (ev = Step_taken \<and> mq_D s' = mq_D s \<or> ev = Taken (mq_D s) \<and> mq_D s' = mq_D s + 1)"
proof -
  note d = mq_invD [OF assms(1)]
  let ?T = "mq_threads s" and ?th = "mq_threads s t" and ?E = "mq_E s" and ?D = "mq_D s" and ?q = "mq_queue s"
  define n where "n = t_ticket ?th"
  note ok = thread_okD [OF d(12) [of t]]
  have free: "\<not> owns_push ?th" "\<not> owns_pop ?th" using assms(2) by (auto simp: owner_defs)
  have pos: "t_pos ?th = of_nat n" "n \<le> ?D" "n + 1 \<le> mq_S s ! (n mod cap)"
    using ok(1,3,5) assms(2) by (auto simp: n_def)
  show ?thesis
  proof (cases "mq_dequeue_pos ?q = t_pos ?th \<and> \<not> spurious")
    case False
    have "mq_inv cap log (set_thread t (?th\<lparr>t_pc := Pop_load_sequence, t_pos := of_nat k, t_ticket := k\<rparr>) s)"
      using assms(1,4) free by (intro quiet_inv) (auto simp: owner_defs thread_ok_def Let_def)
    then show ?thesis using False by (auto simp: mq_pop_claim_def Let_def set_thread_def)
  next
    case True
    have "?D - n < 2 ^ LENGTH('w)" using timely_near [OF assms(3)] by (simp add: n_def)
    from counters_equal [OF pos(2) this] have n: "n = ?D" using True d(6) pos(1) by simp
    let ?t' = "?th\<lparr>t_pc := Pop_move\<rparr>"
    let ?s = "(set_thread t ?t' s)\<lparr>mq_queue := ?q\<lparr>mq_dequeue_pos := t_pos ?th + 1\<rparr>, mq_D := ?D + 1\<rparr>"
    note sets = claim_sets [where T = ?T, OF free, of ?t']
    have sets: "producing (?T(t := ?t')) m = producing ?T m" "built (?T(t := ?t')) m = built ?T m"
      "taking (?T(t := ?t')) m \<longleftrightarrow> m = ?D \<or> taking ?T m" "reading (?T(t := ?t')) m \<longleftrightarrow> m = ?D \<or> reading ?T m" for m
      unfolding sets using n by (auto simp: owner_defs n_def)
    have here: "mq_S s ! (?D mod cap) = ?D + 1" "offers cap ?E ?D ?T log ?D (?D + 1) (mq_storage ?q ! (?D mod cap))"
      using cell_reached_pop [OF d(11) [OF cap_less [OF d(14)]] pos(3) [unfolded n] d(14,10)] by auto
    have "mq_inv cap log ?s"
    proof (rule mq_invI)
      show "mq_dequeue_pos (mq_queue ?s) = of_nat (mq_D ?s)" using pos(1) n by simp
      show "mq_D ?s \<le> mq_E ?s" using here(2) by (simp add: offers_def set_thread_def)
    next
      fix i assume i: "i < cap"
      show "cell_ok cap (mq_E ?s) (mq_D ?s) (mq_threads ?s) log i (mq_S ?s ! i) (mq_storage (mq_queue ?s) ! i)"
      proof (cases "i = ?D mod cap")
        case True
        then have "offers cap ?E (?D + 1) (?T(t := ?t')) log ?D (?D + 1) (mq_storage ?q ! i)"
          using here(2) sets by (simp add: offers_def)
        then show ?thesis using True here(1) by (auto simp: cell_ok_def set_thread_def)
      next
        case False
        then show ?thesis
          using d(11) [OF i] sets owned_tickets(2) [OF assms(1)]
          by (simp add: set_thread_def) (rule cell_frame, auto)
      qed
    next
      fix u
      show "thread_ok cap (mq_E ?s) (mq_D ?s) (mq_S ?s) log (mq_threads ?s u)"
      proof (cases "u = t")
        case True
        then show ?thesis
          using pos(1) n here(1) by (simp add: set_thread_def thread_ok_def Let_def owner_defs n_def [symmetric])
      next
        case False
        then show ?thesis
          using thread_ok_mono [OF d(12) [of u] d(8,9), of ?E "?D + 1" "mq_S s" "[]"] by (simp add: set_thread_def)
      qed
    next
      have "t_ticket (?T u) \<noteq> ?D" if "owns_pop (?T u)" for u using thread_okD(7) [OF d(12) [of u]] that by auto
      then show "single_owners (mq_threads ?s)"
        using n by (simp add: set_thread_def) (rule single_owners_upd [OF d(13)], auto simp: owner_defs n_def)
    qed (use d in \<open>simp_all add: set_thread_def\<close>)
    then show ?thesis using True n by (auto simp: mq_pop_claim_def Let_def n_def)
  qed
qed

section \<open>Steps inside an owned cell\<close>

lemma cell_exclusive:
  assumes "mq_inv cap log s" "owns_push (mq_threads s t) \<or> owns_pop (mq_threads s t)"
    and "owns_push (mq_threads s u) \<or> owns_pop (mq_threads s u)"
    and "t_ticket (mq_threads s u) mod cap = t_ticket (mq_threads s t) mod cap"
  shows "u = t"
proof -
  note d = mq_invD [OF assms(1)]
  note ok = thread_okD(6,7) [OF d(12) [of t]] thread_okD(6,7) [OF d(12) [of u]]
  note nxt = next_cell [OF d(14), of "t_ticket (mq_threads s t)"] next_cell [OF d(14), of "t_ticket (mq_threads s u)"]
  show ?thesis
    using assms(2,3)
  proof (elim disjE)
    assume "owns_push (mq_threads s t)" "owns_push (mq_threads s u)"
    then show ?thesis using ok(1,3) assms(4) single_ownersD(1) [OF d(13)] by metis
  next
    assume "owns_pop (mq_threads s t)" "owns_pop (mq_threads s u)"
    then show ?thesis using ok(2,4) assms(4) single_ownersD(2) [OF d(13)] by (metis add_right_cancel)
  next
    assume "owns_push (mq_threads s t)" "owns_pop (mq_threads s u)"
    then show ?thesis using ok(1,4) assms(4) nxt(2) by metis
  next
    assume "owns_pop (mq_threads s t)" "owns_push (mq_threads s u)"
    then show ?thesis using ok(2,3) assms(4) nxt(1) by metis
  qed
qed

lemma owned_step_inv:
  fixes s :: "('a, 'w::len) mq_system"
  assumes inv: "mq_inv cap log s" and own: "owns_push (mq_threads s t) \<or> owns_pop (mq_threads s t)"
    and i: "i = t_ticket (mq_threads s t) mod cap"
    and th: "t_ticket th = t_ticket (mq_threads s t)" "owns_push th \<longrightarrow> owns_push (mq_threads s t)"
      "owns_pop th \<longrightarrow> owns_pop (mq_threads s t)"
    and S: "mq_S s ! i \<le> x"
    and cell: "cell_ok cap (mq_E s) (mq_D s) ((mq_threads s)(t := th)) log i x y"
    and sets: "\<And>m. m \<noteq> t_ticket th \<Longrightarrow> producing ((mq_threads s)(t := th)) m = producing (mq_threads s) m"
      "\<And>m. m \<noteq> t_ticket th \<Longrightarrow> built ((mq_threads s)(t := th)) m = built (mq_threads s) m"
      "\<And>m. m \<noteq> t_ticket th \<Longrightarrow> taking ((mq_threads s)(t := th)) m = taking (mq_threads s) m"
      "\<And>m. m \<noteq> t_ticket th \<Longrightarrow> reading ((mq_threads s)(t := th)) m = reading (mq_threads s) m"
    and ok: "thread_ok cap (mq_E s) (mq_D s) ((mq_S s)[i := x]) log th"
    and q: "q = (mq_queue s)\<lparr>mq_sequence := (mq_sequence (mq_queue s))[i := of_nat x], mq_storage := (mq_storage (mq_queue s))[i := y]\<rparr>"
  shows "mq_inv cap log ((set_thread t th s)\<lparr>mq_queue := q, mq_S := (mq_S s)[i := x]\<rparr>)"
proof (rule mq_invI)
  note d = mq_invD [OF inv]
  let ?s = "(set_thread t th s)\<lparr>mq_queue := q, mq_S := (mq_S s)[i := x]\<rparr>"
  have lt: "i < cap" using i d(14) by simp
  {
    fix j assume j: "j < cap"
    show "mq_sequence (mq_queue ?s) ! j = of_nat (mq_S ?s ! j)"
      using j d(2,4) d(7) [OF j] by (cases "j = i") (simp_all add: q)
    show "cell_ok cap (mq_E ?s) (mq_D ?s) (mq_threads ?s) log j (mq_S ?s ! j) (mq_storage (mq_queue ?s) ! j)"
    proof (cases "j = i")
      case True
      then show ?thesis using cell lt d(3,4) by (simp add: q set_thread_def)
    next
      case False
      have other: "m mod cap = j \<Longrightarrow> m \<noteq> t_ticket th" for m using False i th(1) by auto
      have "cell_ok cap (mq_E s) (mq_D s) ((mq_threads s)(t := th)) log j (mq_S s ! j) (mq_storage (mq_queue s) ! j)"
        by (rule cell_frame [OF d(11) [OF j]]) (use sets other owned_tickets(2) [OF inv] in auto)
      then show ?thesis using False by (simp add: q set_thread_def)
    qed
  }
  fix u
  show "thread_ok cap (mq_E ?s) (mq_D ?s) (mq_S ?s) log (mq_threads ?s u)"
  proof (cases "u = t")
    case True
    then show ?thesis using ok by (simp add: set_thread_def)
  next
    case False
    let ?u = "mq_threads s u"
    have apart: "t_ticket ?u mod cap \<noteq> i" if "owns_push ?u \<or> owns_pop ?u"
      using cell_exclusive [OF inv own that] False i by auto
    have le: "mq_S s ! (t_ticket ?u mod cap) \<le> (mq_S s)[i := x] ! (t_ticket ?u mod cap)"
      using S lt d(4) by (cases "t_ticket ?u mod cap = i") simp_all
    have keep: "(mq_S s)[i := x] ! (t_ticket ?u mod cap) = mq_S s ! (t_ticket ?u mod cap)" if "owns_push ?u \<or> owns_pop ?u"
      using apart [OF that] by simp
    show ?thesis
      using thread_ok_mono [OF d(12) [of u] d(8,9) order_refl order_refl le keep, of "[]"] False by (simp add: set_thread_def)
  qed
next
  note d = mq_invD [OF inv]
  have "single_owners ((mq_threads s)(t := th))"
  proof (rule single_owners_upd [OF d(13)])
    fix u assume u: "u \<noteq> t"
    show "owns_push th \<Longrightarrow> owns_push (mq_threads s u) \<Longrightarrow> t_ticket (mq_threads s u) \<noteq> t_ticket th"
      using single_ownersD(1) [OF d(13)] th u by metis
    show "owns_pop th \<Longrightarrow> owns_pop (mq_threads s u) \<Longrightarrow> t_ticket (mq_threads s u) \<noteq> t_ticket th"
      using single_ownersD(2) [OF d(13)] th u by metis
  qed
  then show "single_owners (mq_threads ((set_thread t th s)\<lparr>mq_queue := q, mq_S := (mq_S s)[i := x]\<rparr>))"
    by (simp add: set_thread_def)
qed (use mq_invD [OF inv] in \<open>simp_all add: q set_thread_def\<close>)

lemma owned_cell:
  fixes s :: "('a, 'w::len) mq_system"
  assumes "mq_inv cap log s" "n = t_ticket (mq_threads s t)"
  shows "n mod cap < cap" "t_pc (mq_threads s t) \<noteq> Idle \<Longrightarrow> mq_index cap (t_pos (mq_threads s t)) = n mod cap"
    and "owns_push (mq_threads s t) \<Longrightarrow> mq_S s ! (n mod cap) = n \<and>
      waits cap (mq_E s) (mq_D s) (mq_threads s) log n n (mq_storage (mq_queue s) ! (n mod cap))"
    and "owns_pop (mq_threads s t) \<Longrightarrow> mq_S s ! (n mod cap) = n + 1 \<and>
      offers cap (mq_E s) (mq_D s) (mq_threads s) log n (n + 1) (mq_storage (mq_queue s) ! (n mod cap))"
proof -
  note d = mq_invD [OF assms(1)] and ok = thread_okD [OF mq_invD(12) [OF assms(1)], of t]
  show lt: "n mod cap < cap" using d(14) by simp
  show "t_pc (mq_threads s t) \<noteq> Idle \<Longrightarrow> mq_index cap (t_pos (mq_threads s t)) = n mod cap"
    using ok(1) assms(2) by (simp add: mq_index_def ring_index_of_nat [OF d(1)])
  show "owns_push (mq_threads s t) \<Longrightarrow> mq_S s ! (n mod cap) = n \<and>
      waits cap (mq_E s) (mq_D s) (mq_threads s) log n n (mq_storage (mq_queue s) ! (n mod cap))"
    using ok(6) assms(2) cell_waits [OF _ refl d(14), of _ _ _ _ n] d(11) [OF lt] by auto
  show "owns_pop (mq_threads s t) \<Longrightarrow> mq_S s ! (n mod cap) = n + 1 \<and>
      offers cap (mq_E s) (mq_D s) (mq_threads s) log n (n + 1) (mq_storage (mq_queue s) ! (n mod cap))"
    using ok(7) assms(2) cell_offers [OF _ refl d(14), of _ _ _ _ n] d(11) [OF lt] by auto
qed

lemma same_sequence:
  assumes "mq_inv cap log s" "i < cap"
  shows "(mq_S s)[i := mq_S s ! i] = mq_S s"
    "(mq_sequence (mq_queue s))[i := of_nat (mq_S s ! i)] = mq_sequence (mq_queue s)"
  using mq_invD(7) [OF assms] by (simp, metis list_update_id)

lemma keep_S: "(set_thread t th s)\<lparr>mq_queue := q, mq_S := mq_S s\<rparr> = (set_thread t th s)\<lparr>mq_queue := q\<rparr>"
  by (cases s) (simp add: set_thread_def)

lemma keep_storage:
  "q\<lparr>mq_sequence := sq, mq_storage := (mq_storage q)[i := mq_storage q ! i]\<rparr> = q\<lparr>mq_sequence := sq\<rparr>"
  by (cases q) simp

lemma keep_sequence: "q\<lparr>mq_sequence := mq_sequence q, mq_storage := st\<rparr> = q\<lparr>mq_storage := st\<rparr>"
  by (cases q) simp

lemma built_by_owner:
  assumes "mq_inv cap log s" "owns_push (mq_threads s t)"
  shows "built (mq_threads s) (t_ticket (mq_threads s t)) \<longleftrightarrow> t_pc (mq_threads s t) = Push_publish"
proof
  assume "built (mq_threads s) (t_ticket (mq_threads s t))"
  then obtain u where u: "t_pc (mq_threads s u) = Push_publish" "t_ticket (mq_threads s u) = t_ticket (mq_threads s t)"
    by (auto simp: built_def)
  then have "u = t" using single_ownersD(1) [OF mq_invD(13) [OF assms(1)] assms(2)] by (simp add: owner_defs)
  then show "t_pc (mq_threads s t) = Push_publish" using u by simp
qed (auto simp: built_def)

lemma read_by_owner:
  assumes "mq_inv cap log s" "owns_pop (mq_threads s t)"
  shows "reading (mq_threads s) (t_ticket (mq_threads s t)) \<longleftrightarrow> t_pc (mq_threads s t) \<noteq> Pop_publish"
proof
  assume "reading (mq_threads s) (t_ticket (mq_threads s t))"
  then obtain u where u: "t_pc (mq_threads s u) \<in> {Pop_move, Pop_destroy}" "t_ticket (mq_threads s u) = t_ticket (mq_threads s t)"
    by (auto simp: reading_def)
  then have "u = t" using single_ownersD(2) [OF mq_invD(13) [OF assms(1)] assms(2)] by (auto simp: owner_defs)
  then show "t_pc (mq_threads s t) \<noteq> Pop_publish" using u by auto
next
  assume "t_pc (mq_threads s t) \<noteq> Pop_publish"
  then have "t_pc (mq_threads s t) \<in> {Pop_move, Pop_destroy}" using assms(2) by (auto simp: owner_defs)
  then show "reading (mq_threads s) (t_ticket (mq_threads s t))" by (auto simp: reading_def)
qed

lemma mq_push_construct_inv:
  fixes s :: "('a, 'w::len) mq_system"
  assumes "mq_inv cap log s" "t_pc (mq_threads s t) = Push_construct"
  shows "\<exists>s'. mq_push_construct cap t s = Inr (Step_taken, s') \<and> mq_inv cap log s'"
proof -
  note d = mq_invD [OF assms(1)]
  let ?T = "mq_threads s" and ?th = "mq_threads s t" and ?q = "mq_queue s"
  define n where "n = t_ticket ?th"
  let ?i = "n mod cap" and ?t' = "?th\<lparr>t_pc := Push_publish\<rparr>"
  have own: "owns_push ?th" using assms(2) by (simp add: owner_defs)
  note cell = owned_cell [OF assms(1) n_def]
  have S: "mq_S s ! ?i = n" and w: "waits cap (mq_E s) (mq_D s) ?T log n n (mq_storage ?q ! ?i)" using cell(3) own by auto
  have val: "t_value ?th = Some (log ! n)" and pos: "t_pos ?th = of_nat n"
    using thread_okD(1,6) [OF d(12) [of t]] own assms(2) by (auto simp: n_def)
  have "\<not> built ?T n" using built_by_owner [OF assms(1) own] assms(2) by (simp add: n_def)
  then have empty: "mq_storage ?q ! ?i = None" using w by (simp add: waits_def)
  note sets = push_owner_sets [OF d(13) own, of ?t']
  have new: "waits cap (mq_E s) (mq_D s) (?T(t := ?t')) log n n (Some (log ! n))"
    using w sets by (simp add: waits_def n_def owner_defs)
  have "mq_inv cap log ((set_thread t ?t' s)\<lparr>mq_queue := ?q\<lparr>mq_storage := (mq_storage ?q)[?i := Some (log ! n)]\<rparr>, mq_S := (mq_S s)[?i := mq_S s ! ?i]\<rparr>)"
  proof (rule owned_step_inv [OF assms(1)])
    show "cell_ok cap (mq_E s) (mq_D s) (?T(t := ?t')) log ?i (mq_S s ! ?i) (Some (log ! n))"
      unfolding S cell_ok_def using new by blast
    show "thread_ok cap (mq_E s) (mq_D s) ((mq_S s)[?i := mq_S s ! ?i]) log ?t'"
      unfolding same_sequence(1) [OF assms(1) cell(1)]
      using thread_okD(6) [OF d(12) [of t]] own val pos by (simp add: thread_ok_def Let_def owner_defs n_def)
  qed (use own sets same_sequence [OF assms(1) cell(1)] in \<open>auto simp: n_def owner_defs\<close>)
  moreover have "slot_new (mq_storage ?q) (mq_index cap (t_pos ?th)) (log ! n) = Inr ((mq_storage ?q)[?i := Some (log ! n)])"
    using cell(1,2) assms(2) empty d(3) by (simp add: slot_new_def)
  ultimately show ?thesis
    using val same_sequence(1) [OF assms(1) cell(1)] by (simp add: mq_push_construct_def Let_def keep_S)
qed

lemma mq_push_publish_inv:
  fixes s :: "('a, 'w::len) mq_system"
  assumes "mq_inv cap log s" "t_pc (mq_threads s t) = Push_publish"
  shows "\<exists>s'. mq_push_publish cap t s = Inr (Published, s') \<and> mq_inv cap log s'"
proof -
  note d = mq_invD [OF assms(1)]
  let ?T = "mq_threads s" and ?th = "mq_threads s t" and ?q = "mq_queue s"
  define n where "n = t_ticket ?th"
  let ?i = "n mod cap" and ?t' = "?th\<lparr>t_pc := Idle\<rparr>"
  have own: "owns_push ?th" using assms(2) by (simp add: owner_defs)
  note cell = owned_cell [OF assms(1) n_def]
  have S: "mq_S s ! ?i = n" and w: "waits cap (mq_E s) (mq_D s) ?T log n n (mq_storage ?q ! ?i)" using cell(3) own by auto
  have pos: "t_pos ?th + 1 = of_nat (n + 1)" "n < mq_E s"
    using thread_okD(1,6) [OF d(12) [of t]] own assms(2) by (auto simp: n_def)
  have "built ?T n" using built_by_owner [OF assms(1) own] assms(2) by (simp add: n_def)
  then have full: "mq_storage ?q ! ?i = Some (log ! n)" using w by (simp add: waits_def)
  have "offers cap (mq_E s) (mq_D s) (?T(t := ?t')) log n (n + 1) (Some (log ! n))"
    using w pos(2) d(10) by (simp add: offers_def waits_def)
  then have new: "cell_ok cap (mq_E s) (mq_D s) (?T(t := ?t')) log ?i (n + 1) (mq_storage ?q ! ?i)"
    unfolding full cell_ok_def by blast
  have "mq_inv cap log ((set_thread t ?t' s)\<lparr>mq_queue := ?q\<lparr>mq_sequence := (mq_sequence ?q)[?i := of_nat (n + 1)]\<rparr>, mq_S := (mq_S s)[?i := n + 1]\<rparr>)"
    by (rule owned_step_inv [OF assms(1) _ _ _ _ _ _ new])
      (use own push_owner_sets [OF d(13) own, of ?t'] S in \<open>auto simp: n_def owner_defs thread_ok_def keep_storage\<close>)
  then show ?thesis
    using cell(1,2) assms(2) d(2) unfolding mq_push_publish_def Let_def pos(1) by (simp add: n_def)
qed

lemma mq_pop_move_inv:
  fixes s :: "('a, 'w::len) mq_system"
  assumes "mq_inv cap log s" "t_pc (mq_threads s t) = Pop_move"
  shows "\<exists>s'. mq_pop_move cap t s = Inr (Step_taken, s') \<and> mq_inv cap log s' \<and> mq_D s' = mq_D s"
proof -
  note d = mq_invD [OF assms(1)]
  let ?T = "mq_threads s" and ?th = "mq_threads s t" and ?q = "mq_queue s"
  define n where "n = t_ticket ?th"
  let ?i = "n mod cap" and ?t' = "?th\<lparr>t_pc := Pop_destroy, t_value := Some (log ! n)\<rparr>"
  have own: "owns_pop ?th" using assms(2) by (simp add: owner_defs)
  note cell = owned_cell [OF assms(1) n_def]
  have S: "mq_S s ! ?i = n + 1" and o: "offers cap (mq_E s) (mq_D s) ?T log n (n + 1) (mq_storage ?q ! ?i)"
    using cell(4) own by auto
  have pos: "t_pos ?th = of_nat n" "n < mq_D s" using thread_okD(1,7) [OF d(12) [of t]] own assms(2) by (auto simp: n_def)
  have "reading ?T n" using read_by_owner [OF assms(1) own] assms(2) by (simp add: n_def)
  then have full: "mq_storage ?q ! ?i = Some (log ! n)" using o by (simp add: offers_def)
  note sets = pop_owner_sets [OF d(13) own, of ?t']
  have "offers cap (mq_E s) (mq_D s) (?T(t := ?t')) log n (n + 1) (mq_storage ?q ! ?i)"
    using o sets full by (simp add: offers_def n_def owner_defs)
  then have new: "cell_ok cap (mq_E s) (mq_D s) (?T(t := ?t')) log ?i (mq_S s ! ?i) (mq_storage ?q ! ?i)"
    unfolding S cell_ok_def by blast
  have "mq_inv cap log ((set_thread t ?t' s)\<lparr>mq_queue := ?q, mq_S := (mq_S s)[?i := mq_S s ! ?i]\<rparr>)"
  proof (rule owned_step_inv [OF assms(1) _ _ _ _ _ _ new])
    show "thread_ok cap (mq_E s) (mq_D s) ((mq_S s)[?i := mq_S s ! ?i]) log ?t'"
      unfolding same_sequence(1) [OF assms(1) cell(1)] using S pos by (simp add: thread_ok_def Let_def owner_defs n_def)
    show "?q = ?q\<lparr>mq_sequence := (mq_sequence ?q)[?i := of_nat (mq_S s ! ?i)], mq_storage := (mq_storage ?q)[?i := mq_storage ?q ! ?i]\<rparr>"
      unfolding same_sequence(2) [OF assms(1) cell(1)] by (simp add: keep_storage)
  qed (use own sets in \<open>auto simp: n_def owner_defs\<close>)
  then have "mq_inv cap log (set_thread t ?t' s)"
    unfolding same_sequence(1) [OF assms(1) cell(1)] keep_S by (simp add: set_thread_def)
  moreover have "slot_get (mq_storage ?q) (mq_index cap (t_pos ?th)) = Inr (log ! n)"
    using cell(1,2) assms(2) full d(3) by (simp add: slot_get_def)
  ultimately show ?thesis by (simp add: mq_pop_move_def Let_def set_thread_def)
qed

lemma mq_pop_destroy_inv:
  fixes s :: "('a, 'w::len) mq_system"
  assumes "mq_inv cap log s" "t_pc (mq_threads s t) = Pop_destroy"
  shows "\<exists>s'. mq_pop_destroy cap t s = Inr (Step_taken, s') \<and> mq_inv cap log s' \<and> mq_D s' = mq_D s"
proof -
  note d = mq_invD [OF assms(1)]
  let ?T = "mq_threads s" and ?th = "mq_threads s t" and ?q = "mq_queue s"
  define n where "n = t_ticket ?th"
  let ?i = "n mod cap" and ?t' = "?th\<lparr>t_pc := Pop_publish\<rparr>"
  have own: "owns_pop ?th" using assms(2) by (simp add: owner_defs)
  note cell = owned_cell [OF assms(1) n_def]
  have S: "mq_S s ! ?i = n + 1" and o: "offers cap (mq_E s) (mq_D s) ?T log n (n + 1) (mq_storage ?q ! ?i)"
    using cell(4) own by auto
  have pos: "t_pos ?th = of_nat n" "n < mq_D s" "t_value ?th = Some (log ! n)"
    using thread_okD(1,7,8) [OF d(12) [of t]] own assms(2) by (auto simp: n_def)
  have "reading ?T n" using read_by_owner [OF assms(1) own] assms(2) by (simp add: n_def)
  then have full: "mq_storage ?q ! ?i = Some (log ! n)" using o by (simp add: offers_def)
  note sets = pop_owner_sets [OF d(13) own, of ?t']
  have "offers cap (mq_E s) (mq_D s) (?T(t := ?t')) log n (n + 1) None"
    using o sets pos(2) by (simp add: offers_def n_def owner_defs)
  then have new: "cell_ok cap (mq_E s) (mq_D s) (?T(t := ?t')) log ?i (mq_S s ! ?i) None"
    unfolding S cell_ok_def by blast
  have "mq_inv cap log ((set_thread t ?t' s)\<lparr>mq_queue := ?q\<lparr>mq_storage := (mq_storage ?q)[?i := None]\<rparr>, mq_S := (mq_S s)[?i := mq_S s ! ?i]\<rparr>)"
  proof (rule owned_step_inv [OF assms(1) _ _ _ _ _ _ new])
    show "thread_ok cap (mq_E s) (mq_D s) ((mq_S s)[?i := mq_S s ! ?i]) log ?t'"
      unfolding same_sequence(1) [OF assms(1) cell(1)] using S pos by (simp add: thread_ok_def Let_def owner_defs n_def)
    show "?q\<lparr>mq_storage := (mq_storage ?q)[?i := None]\<rparr> =
        ?q\<lparr>mq_sequence := (mq_sequence ?q)[?i := of_nat (mq_S s ! ?i)], mq_storage := (mq_storage ?q)[?i := None]\<rparr>"
      unfolding same_sequence(2) [OF assms(1) cell(1)] by (simp add: keep_sequence)
  qed (use own sets in \<open>auto simp: n_def owner_defs\<close>)
  then have "mq_inv cap log ((set_thread t ?t' s)\<lparr>mq_queue := ?q\<lparr>mq_storage := (mq_storage ?q)[?i := None]\<rparr>\<rparr>)"
    unfolding same_sequence(1) [OF assms(1) cell(1)] keep_S .
  moreover have "slot_destroy (mq_storage ?q) (mq_index cap (t_pos ?th)) = Inr ((mq_storage ?q)[?i := None])"
    using cell(1,2) assms(2) full d(3) by (simp add: slot_destroy_def)
  ultimately show ?thesis by (simp add: mq_pop_destroy_def Let_def set_thread_def)
qed

lemma mq_pop_publish_inv:
  fixes s :: "('a, 'w::len) mq_system"
  assumes "mq_inv cap log s" "t_pc (mq_threads s t) = Pop_publish"
  shows "\<exists>s' n. mq_pop_publish cap t s = Inr (Pop_done n (log ! n), s') \<and> n < mq_D s \<and> mq_inv cap log s' \<and> mq_D s' = mq_D s"
proof -
  note d = mq_invD [OF assms(1)]
  let ?T = "mq_threads s" and ?th = "mq_threads s t" and ?q = "mq_queue s"
  define n where "n = t_ticket ?th"
  let ?i = "n mod cap" and ?t' = "?th\<lparr>t_pc := Idle\<rparr>"
  have own: "owns_pop ?th" using assms(2) by (simp add: owner_defs)
  note cell = owned_cell [OF assms(1) n_def]
  have S: "mq_S s ! ?i = n + 1" and o: "offers cap (mq_E s) (mq_D s) ?T log n (n + 1) (mq_storage ?q ! ?i)"
    using cell(4) own by auto
  have pos: "t_pos ?th + of_nat cap = of_nat (n + cap)" "n < mq_D s" "t_value ?th = Some (log ! n)"
    using thread_okD(1,7,8) [OF d(12) [of t]] own assms(2) by (auto simp: n_def)
  have "\<not> reading ?T n" using read_by_owner [OF assms(1) own] assms(2) by (simp add: n_def)
  then have none: "mq_storage ?q ! ?i = None" using o pos(2) by (simp add: offers_def)
  note sets = pop_owner_sets [OF d(13) own, of ?t']
  have "\<not> built ?T (n + cap)" using owned_tickets(2) [OF assms(1), of "n + cap"] o by (auto simp: offers_def)
  then have "waits cap (mq_E s) (mq_D s) (?T(t := ?t')) log (n + cap) (n + cap) (mq_storage ?q ! ?i)"
    using o sets pos(2) d(9) none by (simp add: waits_def offers_def owner_defs)
  then have new: "cell_ok cap (mq_E s) (mq_D s) (?T(t := ?t')) log ?i (n + cap) (mq_storage ?q ! ?i)"
    unfolding cell_ok_def by (metis mod_add_self2)
  have "mq_inv cap log ((set_thread t ?t' s)\<lparr>mq_queue := ?q\<lparr>mq_sequence := (mq_sequence ?q)[?i := of_nat (n + cap)]\<rparr>, mq_S := (mq_S s)[?i := n + cap]\<rparr>)"
    by (rule owned_step_inv [OF assms(1) _ _ _ _ _ _ new])
      (use own sets S d(14) in \<open>auto simp: n_def owner_defs thread_ok_def keep_storage\<close>)
  then show ?thesis
    using cell(1,2) assms(2) d(2) pos(2,3) unfolding mq_pop_publish_def Let_def pos(1) by (simp add: n_def set_thread_def)
qed

end
