(* ===== verification/Spsc_queue.thy ===== *)
theory Spsc_queue
  imports Ticket
begin

text \<open>
  \<^verbatim>\<open>spsc_queue.hpp\<close>: a lock-free queue between one producer and one consumer. The two
  operations are cut at their accesses to shared memory, and the threads interleave
  at those cuts. A thread reads the other side's index with an acquire load; such a
  load may return the newest value or any older one this thread has not yet gone
  past. An index only ever moves up by one, so the values a load can return are
  those from the thread's cached copy up to the current one.
\<close>

section \<open>The queue\<close>

record (overloaded) ('a, 'w) spsc_queue =
  sq_head :: "'w::len word"
  sq_cached_tail :: "'w word"
  sq_tail :: "'w word"
  sq_cached_head :: "'w word"
  sq_slots :: "'a slots"

definition sq_new :: "nat \<Rightarrow> ('a, 'w::len) spsc_queue" where
  "sq_new cap = \<lparr>sq_head = 0, sq_cached_tail = 0, sq_tail = 0, sq_cached_head = 0, sq_slots = replicate cap None\<rparr>"

text \<open>\<^verbatim>\<open>slot\<close>\<close>

definition sq_slot :: "nat \<Rightarrow> 'w::len word \<Rightarrow> nat" where
  "sq_slot cap index = ring_index cap index"

text \<open>The test \<^verbatim>\<open>next - cached_head_ > Capacity\<close>.\<close>

definition sq_looks_full :: "nat \<Rightarrow> 'w::len word \<Rightarrow> ('a, 'w) spsc_queue \<Rightarrow> bool" where
  "sq_looks_full cap tail q \<longleftrightarrow> (tail + 1) - sq_cached_head q > of_nat cap"

section \<open>The steps of the two operations\<close>

datatype producer_pc = Producer_idle | Reload_head | Construct | Store_tail

datatype consumer_pc = Consumer_idle | Reload_tail | Move_out | Destroy | Store_head

text \<open>The local variables of a running \<^verbatim>\<open>try_emplace\<close> and \<^verbatim>\<open>try_pop\<close>.\<close>

record (overloaded) ('a, 'w) sq_producer =
  p_pc :: producer_pc
  p_args :: "'a ctor"
  p_tail :: "'w::len word"

record (overloaded) ('a, 'w) sq_consumer =
  c_pc :: consumer_pc
  c_head :: "'w::len word"
  c_out :: "'a option"

record (overloaded) ('a, 'w) sq_system =
  sq_queue :: "('a, 'w::len) spsc_queue"
  sq_prod :: "('a, 'w) sq_producer"
  sq_cons :: "('a, 'w) sq_consumer"

text \<open>What a step lets the outside see.\<close>

datatype 'a sq_event = Silent | Enqueued 'a | Refused | Emplace_threw | Dequeued 'a | Found_empty

type_synonym ('a, 'w) sq_result = "('a sq_event \<times> ('a, 'w) sq_system) outcome"

definition emplace_enter :: "nat \<Rightarrow> 'a ctor \<Rightarrow> ('a, 'w::len) sq_system \<Rightarrow> ('a, 'w) sq_result" where
  "emplace_enter cap c s =
     (let q = sq_queue s; tail = sq_tail q in
      Inr (Silent, s\<lparr>sq_prod := \<lparr>p_pc = (if sq_looks_full cap tail q then Reload_head else Construct),
                                 p_args = c, p_tail = tail\<rparr>\<rparr>))"

definition emplace_reload :: "nat \<Rightarrow> 'w::len word \<Rightarrow> ('a, 'w) sq_system \<Rightarrow> ('a, 'w) sq_result" where
  "emplace_reload cap head s =
     (let q = (sq_queue s)\<lparr>sq_cached_head := head\<rparr> in
      if sq_looks_full cap (p_tail (sq_prod s)) q
      then Inr (Refused, s\<lparr>sq_queue := q, sq_prod := (sq_prod s)\<lparr>p_pc := Producer_idle\<rparr>\<rparr>)
      else Inr (Silent, s\<lparr>sq_queue := q, sq_prod := (sq_prod s)\<lparr>p_pc := Construct\<rparr>\<rparr>))"

definition emplace_construct :: "nat \<Rightarrow> ('a, 'w::len) sq_system \<Rightarrow> ('a, 'w) sq_result" where
  "emplace_construct cap s =
     (case p_args (sq_prod s) of
        Throws \<Rightarrow> Inr (Emplace_threw, s\<lparr>sq_prod := (sq_prod s)\<lparr>p_pc := Producer_idle\<rparr>\<rparr>)
      | Builds v \<Rightarrow>
          bnd (slot_new (sq_slots (sq_queue s)) (sq_slot cap (p_tail (sq_prod s))) v) (\<lambda>slots.
            Inr (Silent, s\<lparr>sq_queue := (sq_queue s)\<lparr>sq_slots := slots\<rparr>,
                           sq_prod := (sq_prod s)\<lparr>p_pc := Store_tail\<rparr>\<rparr>)))"

definition emplace_publish :: "('a, 'w::len) sq_system \<Rightarrow> ('a, 'w) sq_result" where
  "emplace_publish s =
     Inr ((case p_args (sq_prod s) of Builds v \<Rightarrow> Enqueued v | Throws \<Rightarrow> Silent),
          s\<lparr>sq_queue := (sq_queue s)\<lparr>sq_tail := p_tail (sq_prod s) + 1\<rparr>,
            sq_prod := (sq_prod s)\<lparr>p_pc := Producer_idle\<rparr>\<rparr>)"

definition pop_enter :: "('a, 'w::len) sq_system \<Rightarrow> ('a, 'w) sq_result" where
  "pop_enter s =
     (let q = sq_queue s; head = sq_head q in
      Inr (Silent, s\<lparr>sq_cons := \<lparr>c_pc = (if head = sq_cached_tail q then Reload_tail else Move_out),
                                 c_head = head, c_out = None\<rparr>\<rparr>))"

definition pop_reload :: "'w::len word \<Rightarrow> ('a, 'w) sq_system \<Rightarrow> ('a, 'w) sq_result" where
  "pop_reload tail s =
     (let q = (sq_queue s)\<lparr>sq_cached_tail := tail\<rparr> in
      if c_head (sq_cons s) = tail
      then Inr (Found_empty, s\<lparr>sq_queue := q, sq_cons := (sq_cons s)\<lparr>c_pc := Consumer_idle\<rparr>\<rparr>)
      else Inr (Silent, s\<lparr>sq_queue := q, sq_cons := (sq_cons s)\<lparr>c_pc := Move_out\<rparr>\<rparr>))"

definition pop_move :: "nat \<Rightarrow> ('a, 'w::len) sq_system \<Rightarrow> ('a, 'w) sq_result" where
  "pop_move cap s =
     bnd (slot_get (sq_slots (sq_queue s)) (sq_slot cap (c_head (sq_cons s)))) (\<lambda>v.
       Inr (Silent, s\<lparr>sq_cons := (sq_cons s)\<lparr>c_pc := Destroy, c_out := Some v\<rparr>\<rparr>))"

definition pop_destroy :: "nat \<Rightarrow> ('a, 'w::len) sq_system \<Rightarrow> ('a, 'w) sq_result" where
  "pop_destroy cap s =
     bnd (slot_destroy (sq_slots (sq_queue s)) (sq_slot cap (c_head (sq_cons s)))) (\<lambda>slots.
       Inr (Silent, s\<lparr>sq_queue := (sq_queue s)\<lparr>sq_slots := slots\<rparr>,
                      sq_cons := (sq_cons s)\<lparr>c_pc := Store_head\<rparr>\<rparr>))"

definition pop_publish :: "('a, 'w::len) sq_system \<Rightarrow> ('a, 'w) sq_result" where
  "pop_publish s =
     Inr ((case c_out (sq_cons s) of Some v \<Rightarrow> Dequeued v | None \<Rightarrow> Silent),
          s\<lparr>sq_queue := (sq_queue s)\<lparr>sq_head := c_head (sq_cons s) + 1\<rparr>,
            sq_cons := (sq_cons s)\<lparr>c_pc := Consumer_idle\<rparr>\<rparr>)"

section \<open>All interleavings\<close>

definition sq_start :: "nat \<Rightarrow> ('a, 'w::len) sq_system" where
  "sq_start cap = \<lparr>sq_queue = sq_new cap,
     sq_prod = \<lparr>p_pc = Producer_idle, p_args = Throws, p_tail = 0\<rparr>,
     sq_cons = \<lparr>c_pc = Consumer_idle, c_head = 0, c_out = None\<rparr>\<rparr>"

inductive producer_step :: "nat \<Rightarrow> ('a, 'w::len) sq_system \<Rightarrow> ('a, 'w) sq_result \<Rightarrow> bool" for cap where
  Enter: "p_pc (sq_prod s) = Producer_idle \<Longrightarrow> producer_step cap s (emplace_enter cap c s)"
| Reload: "p_pc (sq_prod s) = Reload_head \<Longrightarrow> d \<le> sq_head (sq_queue s) - sq_cached_head (sq_queue s) \<Longrightarrow>
    producer_step cap s (emplace_reload cap (sq_cached_head (sq_queue s) + d) s)"
| Construct: "p_pc (sq_prod s) = Construct \<Longrightarrow> producer_step cap s (emplace_construct cap s)"
| Publish: "p_pc (sq_prod s) = Store_tail \<Longrightarrow> producer_step cap s (emplace_publish s)"

inductive consumer_step :: "nat \<Rightarrow> ('a, 'w::len) sq_system \<Rightarrow> ('a, 'w) sq_result \<Rightarrow> bool" for cap where
  Enter: "c_pc (sq_cons s) = Consumer_idle \<Longrightarrow> consumer_step cap s (pop_enter s)"
| Reload: "c_pc (sq_cons s) = Reload_tail \<Longrightarrow> d \<le> sq_tail (sq_queue s) - sq_cached_tail (sq_queue s) \<Longrightarrow>
    consumer_step cap s (pop_reload (sq_cached_tail (sq_queue s) + d) s)"
| Move: "c_pc (sq_cons s) = Move_out \<Longrightarrow> consumer_step cap s (pop_move cap s)"
| Destroy: "c_pc (sq_cons s) = Destroy \<Longrightarrow> consumer_step cap s (pop_destroy cap s)"
| Publish: "c_pc (sq_cons s) = Store_head \<Longrightarrow> consumer_step cap s (pop_publish s)"

inductive spsc_run :: "nat \<Rightarrow> 'a sq_event list \<Rightarrow> ('a, 'w::len) sq_system \<Rightarrow> bool" for cap where
  Start: "spsc_run cap [] (sq_start cap)"
| Step: "spsc_run cap evs s \<Longrightarrow> producer_step cap s (Inr (ev, s')) \<or> consumer_step cap s (Inr (ev, s')) \<Longrightarrow>
    spsc_run cap (evs @ [ev]) s'"

inductive_cases producer_stepE: "producer_step cap s r"
inductive_cases consumer_stepE: "consumer_step cap s r"

section \<open>The operations without interruption\<close>

definition sq_try_emplace ::
  "nat \<Rightarrow> 'a ctor \<Rightarrow> ('a, 'w::len) spsc_queue \<Rightarrow> (bool call \<times> ('a, 'w) spsc_queue) outcome" where
  "sq_try_emplace cap c q =
     (let tail = sq_tail q; nxt = tail + 1;
          q1 = (if nxt - sq_cached_head q > of_nat cap then q\<lparr>sq_cached_head := sq_head q\<rparr> else q) in
      if nxt - sq_cached_head q1 > of_nat cap then Inr (Returned False, q1)
      else case c of
        Throws \<Rightarrow> Inr (Threw, q1)
      | Builds v \<Rightarrow> bnd (slot_new (sq_slots q1) (sq_slot cap tail) v) (\<lambda>slots.
          Inr (Returned True, q1\<lparr>sq_slots := slots, sq_tail := nxt\<rparr>)))"

definition sq_try_push :: "nat \<Rightarrow> 'a \<Rightarrow> ('a, 'w::len) spsc_queue \<Rightarrow> (bool call \<times> ('a, 'w) spsc_queue) outcome" where
  "sq_try_push cap v q = sq_try_emplace cap (Builds v) q"

definition sq_try_pop :: "nat \<Rightarrow> ('a, 'w::len) spsc_queue \<Rightarrow> ('a option \<times> ('a, 'w) spsc_queue) outcome" where
  "sq_try_pop cap q =
     (let head = sq_head q;
          q1 = (if head = sq_cached_tail q then q\<lparr>sq_cached_tail := sq_tail q\<rparr> else q) in
      if head = sq_cached_tail q1 then Inr (None, q1)
      else bnd (slot_get (sq_slots q1) (sq_slot cap head)) (\<lambda>v.
           bnd (slot_destroy (sq_slots q1) (sq_slot cap head)) (\<lambda>slots.
             Inr (Some v, q1\<lparr>sq_slots := slots, sq_head := head + 1\<rparr>))))"

text \<open>
  The size queries load the two indices one after the other, with relaxed loads. They
  may return old values, and values of different moments, so the queries are
  functions of the two values loaded.
\<close>

definition sq_size_approx :: "nat \<Rightarrow> 'w::len word \<Rightarrow> 'w word \<Rightarrow> 'w word" where
  "sq_size_approx cap head tail = clamped_index_distance head tail (of_nat cap)"

definition sq_empty :: "'w::len word \<Rightarrow> 'w word \<Rightarrow> bool" where
  "sq_empty tail head \<longleftrightarrow> tail = head"

definition sq_full :: "nat \<Rightarrow> 'w::len word \<Rightarrow> 'w word \<Rightarrow> bool" where
  "sq_full cap head tail \<longleftrightarrow> sq_size_approx cap head tail = of_nat cap"

text \<open>The destructor: a loop from \<^verbatim>\<open>head_\<close> to \<^verbatim>\<open>tail_\<close>, which ends for any two indices.\<close>

function sq_drain :: "nat \<Rightarrow> 'w::len word \<Rightarrow> 'w word \<Rightarrow> 'a slots \<Rightarrow> 'a slots outcome" where
  "sq_drain cap head tail slots =
     (if head \<noteq> tail then bnd (slot_destroy slots (sq_slot cap head)) (sq_drain cap (head + 1) tail) else Inr slots)"
  by pat_completeness auto
termination
  by (relation "measure (\<lambda>(cap, head, tail, slots). unat (tail - head))") (auto simp: step_closer)

declare sq_drain.simps [simp del]

definition sq_delete :: "nat \<Rightarrow> ('a, 'w::len) spsc_queue \<Rightarrow> 'a slots outcome" where
  "sq_delete cap q = sq_drain cap (sq_head q) (sq_tail q) (sq_slots q)"

end
