(* ===== verification/Spsc_spec.thy ===== *)
theory Spsc_spec
  imports Spsc_queue Channel
begin

text \<open>
  What \<^verbatim>\<open>spsc_queue.hpp\<close> promises in every interleaving of its producer and consumer,
  for every width of \<^verbatim>\<open>size_t\<close> and however often the indices have wrapped. The
  invariant \<open>sq_inv\<close> counts the indices without wrap-around: \<open>H\<close> and \<open>T\<close> for the head
  and the tail, \<open>CH\<close> and \<open>CT\<close> for the cached copies.
\<close>

section \<open>The invariant\<close>

definition sq_expected :: "nat \<Rightarrow> nat \<Rightarrow> ('a, 'w::len) sq_system \<Rightarrow> 'a list \<Rightarrow> nat \<Rightarrow> 'a option" where
  "sq_expected H T s xs n =
     (if n < T then (if n = H \<and> c_pc (sq_cons s) = Store_head then None else Some (xs ! (n - H)))
      else if n = T \<and> p_pc (sq_prod s) = Store_tail
           then (case p_args (sq_prod s) of Builds v \<Rightarrow> Some v | Throws \<Rightarrow> None) else None)"

definition sq_counts :: "nat \<Rightarrow> nat \<Rightarrow> nat \<Rightarrow> nat \<Rightarrow> nat \<Rightarrow> ('a, 'w::len) spsc_queue \<Rightarrow> bool" where
  "sq_counts cap H T CH CT q \<longleftrightarrow>
     sq_head q = of_nat H \<and> sq_tail q = of_nat T \<and> sq_cached_head q = of_nat CH \<and> sq_cached_tail q = of_nat CT \<and>
     CH \<le> H \<and> H \<le> CT \<and> CT \<le> T \<and> T \<le> CH + cap"

definition producer_ok :: "nat \<Rightarrow> nat \<Rightarrow> nat \<Rightarrow> ('a, 'w::len) sq_producer \<Rightarrow> bool" where
  "producer_ok cap T CH p \<longleftrightarrow>
     (p_pc p \<noteq> Producer_idle \<longrightarrow> p_tail p = of_nat T) \<and>
     (p_pc p \<in> {Construct, Store_tail} \<longrightarrow> T < CH + cap) \<and>
     (p_pc p = Store_tail \<longrightarrow> (\<exists>v. p_args p = Builds v))"

definition consumer_ok :: "nat \<Rightarrow> nat \<Rightarrow> 'a list \<Rightarrow> ('a, 'w::len) sq_consumer \<Rightarrow> bool" where
  "consumer_ok H CT xs c \<longleftrightarrow>
     (c_pc c \<noteq> Consumer_idle \<longrightarrow> c_head c = of_nat H) \<and>
     (c_pc c \<in> {Move_out, Destroy, Store_head} \<longrightarrow> H < CT) \<and>
     (c_pc c \<in> {Destroy, Store_head} \<longrightarrow> c_out c = Some (xs ! 0))"

definition sq_inv :: "nat \<Rightarrow> nat \<Rightarrow> nat \<Rightarrow> nat \<Rightarrow> nat \<Rightarrow> 'a list \<Rightarrow> ('a, 'w::len) sq_system \<Rightarrow> bool" where
  "sq_inv cap H T CH CT xs s \<longleftrightarrow>
     sq_counts cap H T CH CT (sq_queue s) \<and> producer_ok cap T CH (sq_prod s) \<and> consumer_ok H CT xs (sq_cons s) \<and>
     length xs = T - H \<and> length (sq_slots (sq_queue s)) = cap \<and>
     (\<forall>n. H \<le> n \<longrightarrow> n < H + cap \<longrightarrow> sq_slots (sq_queue s) ! (n mod cap) = sq_expected H T s xs n)"

lemmas sq_inv_defs = sq_inv_def sq_counts_def producer_ok_def consumer_ok_def

lemma looks_full_iff:
  assumes "ring_capacity TYPE('w::len) cap" "sq_cached_head q = (of_nat CH :: 'w word)" "CH \<le> T" "T \<le> CH + cap"
  shows "sq_looks_full cap (of_nat T) q \<longleftrightarrow> T = CH + cap"
proof -
  note b = ring_capacity_bounds [OF assms(1)]
  have "unat (of_nat (T + 1) - of_nat CH :: 'w word) = T + 1 - CH" using assms b by (intro unat_distance) auto
  moreover have "unat (of_nat cap :: 'w word) = cap" using b by (simp add: unsigned_of_nat take_bit_nat_eq_self)
  ultimately have "(of_nat cap :: 'w word) < of_nat (T + 1) - of_nat CH \<longleftrightarrow> cap < T + 1 - CH"
    by (simp only: word_less_nat_alt)
  then show ?thesis using assms by (auto simp: sq_looks_full_def add.commute)
qed

text \<open>A load between the cached copy and the newest value.\<close>

lemma stale_load:
  assumes "(d :: 'w::len word) \<le> of_nat H - of_nat C" "C \<le> H" "H - C < 2 ^ LENGTH('w)"
  obtains C' where "C \<le> C'" "C' \<le> H" "of_nat C + d = of_nat C'"
proof -
  have "unat d \<le> H - C" using assms unat_distance [of C H, where 'w = 'w] by (simp add: word_le_nat_alt)
  then show ?thesis using that [of "C + unat d"] assms(2) by simp
qed

section \<open>The steps keep the invariant\<close>

lemma sq_slot_of_nat: "ring_capacity TYPE('w::len) cap \<Longrightarrow> sq_slot cap (of_nat n :: 'w word) = n mod cap"
  by (simp add: sq_slot_def ring_index_of_nat)

lemma expected_cong:
  assumes "c_pc (sq_cons s) = Store_head \<longleftrightarrow> c_pc (sq_cons s') = Store_head"
    and "p_pc (sq_prod s) \<noteq> Store_tail" "p_pc (sq_prod s') \<noteq> Store_tail"
  shows "sq_expected H T s' xs n = sq_expected H T s xs n"
  using assms by (auto simp: sq_expected_def)

lemma emplace_enter_inv:
  fixes s :: "('a, 'w::len) sq_system"
  assumes "ring_capacity TYPE('w) cap" "sq_inv cap H T CH CT xs s" "p_pc (sq_prod s) = Producer_idle"
  shows "\<exists>s'. emplace_enter cap c s = Inr (Silent, s') \<and> sq_inv cap H T CH CT xs s'"
proof -
  have "sq_looks_full cap (of_nat T) (sq_queue s) \<longleftrightarrow> T = CH + cap"
    using assms(2) by (intro looks_full_iff [OF assms(1)]) (auto simp: sq_inv_defs)
  then show ?thesis
    using assms by (auto simp: emplace_enter_def Let_def sq_inv_defs sq_expected_def)
qed

lemma emplace_reload_inv:
  fixes s :: "('a, 'w::len) sq_system"
  assumes "ring_capacity TYPE('w) cap" "sq_inv cap H T CH CT xs s" "p_pc (sq_prod s) = Reload_head"
    and "d \<le> sq_head (sq_queue s) - sq_cached_head (sq_queue s)"
  shows "\<exists>ev s' CH'. emplace_reload cap (sq_cached_head (sq_queue s) + d) s = Inr (ev, s') \<and> sq_inv cap H T CH' CT xs s' \<and>
    ev \<in> {Silent, Refused} \<and>
    (ev = Refused \<longrightarrow> sq_cached_head (sq_queue s) + d = sq_head (sq_queue s) \<longrightarrow> length xs = cap)"
proof -
  note b = ring_capacity_bounds [OF assms(1)]
  have c: "sq_head (sq_queue s) = of_nat H" "sq_cached_head (sq_queue s) = of_nat CH" "CH \<le> H" "H \<le> T" "T \<le> CH + cap"
    "p_tail (sq_prod s) = of_nat T" "length xs = T - H"
    using assms(2,3) by (auto simp: sq_inv_defs)
  have near: "H - CH < 2 ^ LENGTH('w)" using c b by linarith
  have "d \<le> of_nat H - of_nat CH" using assms(4) c by simp
  then obtain CH' where CH': "CH \<le> CH'" "CH' \<le> H" "of_nat CH + d = of_nat CH'"
    using c(3) near by (rule stale_load)
  let ?q = "(sq_queue s)\<lparr>sq_cached_head := of_nat CH'\<rparr>"
  have full: "sq_looks_full cap (of_nat T) ?q \<longleftrightarrow> T = CH' + cap"
    using c CH' by (intro looks_full_iff [OF assms(1)]) auto
  have fresh: "CH' = H" if "of_nat CH' = (of_nat H :: 'w word)"
  proof -
    have "H - CH' < 2 ^ LENGTH('w)" using near CH' by linarith
    from counters_equal [OF CH'(2) this] show ?thesis using that by metis
  qed
  have inv: "sq_inv cap H T CH' CT xs (s\<lparr>sq_queue := ?q, sq_prod := (sq_prod s)\<lparr>p_pc := pc\<rparr>\<rparr>)"
    if "pc = Producer_idle \<or> pc = Construct \<and> T < CH' + cap" for pc
    using assms(2,3) c CH' that by (auto simp: sq_inv_defs sq_expected_def)
  show ?thesis
  proof (cases "T = CH' + cap")
    case True
    then show ?thesis
      using full inv [of Producer_idle] fresh c(7) unfolding c(2) CH'(3) c(1) emplace_reload_def Let_def c(6)
      by auto
  next
    case False
    then have "T < CH' + cap" using c CH' by linarith
    then show ?thesis
      using False full inv [of Construct] unfolding c(2) CH'(3) emplace_reload_def Let_def c(6) by auto
  qed
qed

lemma emplace_construct_inv:
  fixes s :: "('a, 'w::len) sq_system"
  assumes "ring_capacity TYPE('w) cap" "sq_inv cap H T CH CT xs s" "p_pc (sq_prod s) = Construct"
  shows "\<exists>ev s'. emplace_construct cap s = Inr (ev, s') \<and> sq_inv cap H T CH CT xs s' \<and> ev \<in> {Silent, Emplace_threw}"
proof (cases "p_args (sq_prod s)")
  case Throws
  then show ?thesis
    using assms by (auto simp: emplace_construct_def sq_inv_defs sq_expected_def)
next
  case (Builds v)
  let ?slots = "sq_slots (sq_queue s)"
  have c: "p_tail (sq_prod s) = of_nat T" "H \<le> T" "T < H + cap" "length ?slots = cap"
    "\<And>n. H \<le> n \<Longrightarrow> n < H + cap \<Longrightarrow> ?slots ! (n mod cap) = sq_expected H T s xs n"
    using assms(2,3) by (auto simp: sq_inv_defs)
  have pos: "T mod cap < cap" using c by auto
  have "?slots ! (T mod cap) = None" using c(5) [of T] c(2,3) assms(3) by (simp add: sq_expected_def)
  then have new: "slot_new ?slots (sq_slot cap (p_tail (sq_prod s))) v = Inr (?slots[T mod cap := Some v])"
    using c pos by (simp add: slot_new_def sq_slot_of_nat [OF assms(1)])
  let ?s = "s\<lparr>sq_queue := (sq_queue s)\<lparr>sq_slots := ?slots[T mod cap := Some v]\<rparr>,
              sq_prod := (sq_prod s)\<lparr>p_pc := Store_tail\<rparr>\<rparr>"
  have win: "?slots[T mod cap := Some v] ! (n mod cap) = sq_expected H T ?s xs n" if "H \<le> n" "n < H + cap" for n
    unfolding window_update [OF c(4,2,3) that] c(5) [OF that] using assms(3) by (simp add: sq_expected_def Builds)
  have "sq_inv cap H T CH CT xs ?s"
    using assms(2,3) win by (simp add: sq_inv_defs Builds)
  then show ?thesis by (simp add: emplace_construct_def Builds new)
qed

lemma emplace_publish_inv:
  fixes s :: "('a, 'w::len) sq_system"
  assumes "sq_inv cap H T CH CT xs s" "p_pc (sq_prod s) = Store_tail"
  shows "\<exists>v s'. emplace_publish s = Inr (Enqueued v, s') \<and> sq_inv cap H (Suc T) CH CT (xs @ [v]) s'"
proof -
  obtain v where v: "p_args (sq_prod s) = Builds v" using assms by (auto simp: sq_inv_defs)
  let ?s = "s\<lparr>sq_queue := (sq_queue s)\<lparr>sq_tail := of_nat T + 1\<rparr>, sq_prod := (sq_prod s)\<lparr>p_pc := Producer_idle\<rparr>\<rparr>"
  have c: "length xs = T - H" "H \<le> T" "p_tail (sq_prod s) = of_nat T" "T < CH + cap" "H < CT \<longrightarrow> xs \<noteq> []"
    "c_pc (sq_cons s) = Store_head \<longrightarrow> H < T" "c_pc (sq_cons s) = Destroy \<longrightarrow> H < T"
    using assms by (auto simp: sq_inv_defs)
  have "sq_expected H T s xs n = sq_expected H (Suc T) ?s (xs @ [v]) n" if "H \<le> n" for n
    using c that assms(2) by (auto simp: sq_expected_def v nth_append)
  then have "sq_inv cap H (Suc T) CH CT (xs @ [v]) ?s"
    using assms c by (simp add: sq_inv_defs nth_append Suc_diff_le add.commute)
  then show ?thesis by (simp add: emplace_publish_def v c)
qed

lemma pop_enter_inv:
  fixes s :: "('a, 'w::len) sq_system"
  assumes "ring_capacity TYPE('w) cap" "sq_inv cap H T CH CT xs s" "c_pc (sq_cons s) = Consumer_idle"
  shows "\<exists>s'. pop_enter s = Inr (Silent, s') \<and> sq_inv cap H T CH CT xs s'"
proof -
  note b = ring_capacity_bounds [OF assms(1)]
  have c: "sq_head (sq_queue s) = of_nat H" "sq_cached_tail (sq_queue s) = of_nat CT" "H \<le> CT" "CT \<le> H + cap"
    using assms(2) by (auto simp: sq_inv_defs)
  have "CT - H < 2 ^ LENGTH('w)" using c b by linarith
  note seen = counters_equal [OF c(3) this]
  have inv: "sq_inv cap H T CH CT xs (s\<lparr>sq_cons := \<lparr>c_pc = pc, c_head = of_nat H, c_out = None\<rparr>\<rparr>)"
    if "pc = Reload_tail \<or> pc = Move_out \<and> H < CT" for pc
    using assms(2,3) that by (auto simp: sq_inv_defs sq_expected_def)
  show ?thesis
  proof (cases "H = CT")
    case True
    then show ?thesis using inv [of Reload_tail] unfolding pop_enter_def Let_def c by simp
  next
    case False
    then have "H < CT" "of_nat H \<noteq> (of_nat CT :: 'w word)" using c(3) seen by (linarith, metis)
    then show ?thesis using inv [of Move_out] unfolding pop_enter_def Let_def c by simp
  qed
qed

lemma pop_reload_inv:
  fixes s :: "('a, 'w::len) sq_system"
  assumes "ring_capacity TYPE('w) cap" "sq_inv cap H T CH CT xs s" "c_pc (sq_cons s) = Reload_tail"
    and "d \<le> sq_tail (sq_queue s) - sq_cached_tail (sq_queue s)"
  shows "\<exists>ev s' CT'. pop_reload (sq_cached_tail (sq_queue s) + d) s = Inr (ev, s') \<and> sq_inv cap H T CH CT' xs s' \<and>
    ev \<in> {Silent, Found_empty} \<and>
    (ev = Found_empty \<longrightarrow> sq_cached_tail (sq_queue s) + d = sq_tail (sq_queue s) \<longrightarrow> xs = [])"
proof -
  note b = ring_capacity_bounds [OF assms(1)]
  have c: "sq_tail (sq_queue s) = of_nat T" "sq_cached_tail (sq_queue s) = of_nat CT" "CT \<le> T" "H \<le> CT"
    "c_head (sq_cons s) = of_nat H" "length xs = T - H" "T \<le> H + cap"
    using assms(2,3) by (auto simp: sq_inv_defs)
  have near: "T - CT < 2 ^ LENGTH('w)" using c b by linarith
  have "d \<le> of_nat T - of_nat CT" using assms(4) c by simp
  then obtain CT' where CT': "CT \<le> CT'" "CT' \<le> T" "of_nat CT + d = of_nat CT'"
    using c(3) near by (rule stale_load)
  have "H \<le> CT'" "CT' - H < 2 ^ LENGTH('w)" using c CT' b by linarith+
  note seen = counters_equal [OF this]
  have "T - CT' < 2 ^ LENGTH('w)" using near CT' by linarith
  note fresh = counters_equal [OF CT'(2) this]
  have inv: "sq_inv cap H T CH CT' xs (s\<lparr>sq_queue := (sq_queue s)\<lparr>sq_cached_tail := of_nat CT'\<rparr>, sq_cons := (sq_cons s)\<lparr>c_pc := pc\<rparr>\<rparr>)"
    if "pc = Consumer_idle \<or> pc = Move_out \<and> H < CT'" for pc
    using assms(2,3) c CT' \<open>H \<le> CT'\<close> that by (auto simp: sq_inv_defs sq_expected_def)
  show ?thesis
  proof (cases "H = CT'")
    case True
    then show ?thesis
      using inv [of Consumer_idle] fresh c(6) unfolding c(2) CT'(3) c(1) pop_reload_def Let_def c(5) by auto
  next
    case False
    then have "H < CT'" "of_nat H \<noteq> (of_nat CT' :: 'w word)" using \<open>H \<le> CT'\<close> seen by (linarith, metis)
    then show ?thesis
      using inv [of Move_out] unfolding c(2) CT'(3) pop_reload_def Let_def c(5) by auto
  qed
qed

lemma pop_move_inv:
  fixes s :: "('a, 'w::len) sq_system"
  assumes "ring_capacity TYPE('w) cap" "sq_inv cap H T CH CT xs s" "c_pc (sq_cons s) = Move_out"
  shows "\<exists>s'. pop_move cap s = Inr (Silent, s') \<and> sq_inv cap H T CH CT xs s'"
proof -
  let ?slots = "sq_slots (sq_queue s)"
  have c: "c_head (sq_cons s) = of_nat H" "H < T" "0 < cap" "length ?slots = cap" "?slots ! (H mod cap) = Some (xs ! 0)"
    using assms(2,3) by (auto simp: sq_inv_defs sq_expected_def)
  then have "slot_get ?slots (sq_slot cap (c_head (sq_cons s))) = Inr (xs ! 0)"
    by (simp add: slot_get_def sq_slot_of_nat [OF assms(1)])
  moreover have "sq_inv cap H T CH CT xs (s\<lparr>sq_cons := (sq_cons s)\<lparr>c_pc := Destroy, c_out := Some (xs ! 0)\<rparr>\<rparr>)"
    using assms(2,3) by (auto simp: sq_inv_defs sq_expected_def)
  ultimately show ?thesis by (simp add: pop_move_def)
qed

lemma pop_destroy_inv:
  fixes s :: "('a, 'w::len) sq_system"
  assumes "ring_capacity TYPE('w) cap" "sq_inv cap H T CH CT xs s" "c_pc (sq_cons s) = Destroy"
  shows "\<exists>s'. pop_destroy cap s = Inr (Silent, s') \<and> sq_inv cap H T CH CT xs s'"
proof -
  let ?slots = "sq_slots (sq_queue s)"
  have c: "c_head (sq_cons s) = of_nat H" "H < T" "0 < cap" "length ?slots = cap" "?slots ! (H mod cap) = Some (xs ! 0)"
    "\<And>n. H \<le> n \<Longrightarrow> n < H + cap \<Longrightarrow> ?slots ! (n mod cap) = sq_expected H T s xs n"
    using assms(2,3) by (auto simp: sq_inv_defs sq_expected_def)
  then have gone: "slot_destroy ?slots (sq_slot cap (c_head (sq_cons s))) = Inr (?slots[H mod cap := None])"
    by (simp add: slot_destroy_def sq_slot_of_nat [OF assms(1)])
  let ?s = "s\<lparr>sq_queue := (sq_queue s)\<lparr>sq_slots := ?slots[H mod cap := None]\<rparr>, sq_cons := (sq_cons s)\<lparr>c_pc := Store_head\<rparr>\<rparr>"
  have win: "?slots[H mod cap := None] ! (n mod cap) = sq_expected H T ?s xs n" if "H \<le> n" "n < H + cap" for n
    unfolding window_update [OF c(4) le_refl _ that] c(6) [OF that] using assms(3) c(2,3)
    by (simp add: window_update [OF c(4) le_refl _ that] c(6) [OF that] sq_expected_def)
  have "sq_inv cap H T CH CT xs ?s" using assms(2,3) win by (simp add: sq_inv_defs)
  then show ?thesis by (simp add: pop_destroy_def gone)
qed

lemma pop_publish_inv:
  fixes s :: "('a, 'w::len) sq_system"
  assumes "sq_inv cap H T CH CT xs s" "c_pc (sq_cons s) = Store_head"
  shows "\<exists>v ys s'. pop_publish s = Inr (Dequeued v, s') \<and> xs = v # ys \<and> sq_inv cap (Suc H) T CH CT ys s'"
proof -
  let ?slots = "sq_slots (sq_queue s)"
  have c: "c_head (sq_cons s) = of_nat H" "H < CT" "CT \<le> T" "0 < cap" "c_out (sq_cons s) = Some (xs ! 0)" "length xs = T - H"
    "T \<le> CH + cap" "CH \<le> H" "p_pc (sq_prod s) = Store_tail \<longrightarrow> T < CH + cap"
    "\<And>n. H \<le> n \<Longrightarrow> n < H + cap \<Longrightarrow> ?slots ! (n mod cap) = sq_expected H T s xs n"
    using assms by (auto simp: sq_inv_defs)
  then obtain v ys where xs: "xs = v # ys" by (cases xs) auto
  let ?s = "s\<lparr>sq_queue := (sq_queue s)\<lparr>sq_head := of_nat H + 1\<rparr>, sq_cons := (sq_cons s)\<lparr>c_pc := Consumer_idle\<rparr>\<rparr>"
  have "?slots ! (n mod cap) = sq_expected (Suc H) T ?s ys n" if n: "Suc H \<le> n" "n < Suc H + cap" for n
  proof (cases "n = H + cap")
    case True
    have "?slots ! (H mod cap) = None" using c(10) [of H] c(2,3,4) assms(2) by (simp add: sq_expected_def)
    moreover have "sq_expected (Suc H) T ?s ys n = None" using True c by (auto simp: sq_expected_def)
    ultimately show ?thesis using True by simp
  next
    case False
    obtain k where "n = Suc H + k" using n(1) le_Suc_ex by blast
    then have "xs ! (n - H) = ys ! (n - Suc H)" by (simp add: xs)
    then show ?thesis using False n c(10) [of n] by (simp add: sq_expected_def)
  qed
  moreover have "length ys = T - Suc H" using c(6) xs by (cases T) auto
  ultimately have "sq_inv cap (Suc H) T CH CT ys ?s"
    using assms c xs by (simp add: sq_inv_defs add.commute)
  then show ?thesis using c(5) by (simp add: pop_publish_def c(1) xs)
qed

section \<open>Runs\<close>

primrec enqueued :: "'a sq_event list \<Rightarrow> 'a list" where
  "enqueued [] = []"
| "enqueued (e # evs) = (case e of Enqueued v \<Rightarrow> v # enqueued evs | _ \<Rightarrow> enqueued evs)"

primrec dequeued :: "'a sq_event list \<Rightarrow> 'a list" where
  "dequeued [] = []"
| "dequeued (e # evs) = (case e of Dequeued v \<Rightarrow> v # dequeued evs | _ \<Rightarrow> dequeued evs)"

lemma enqueued_append [simp]: "enqueued (a @ b) = enqueued a @ enqueued b"
  by (induction a) (auto split: sq_event.splits)

lemma dequeued_append [simp]: "dequeued (a @ b) = dequeued a @ dequeued b"
  by (induction a) (auto split: sq_event.splits)

definition sq_reaches :: "nat \<Rightarrow> 'a sq_event list \<Rightarrow> 'a list \<Rightarrow> ('a, 'w::len) sq_system \<Rightarrow> bool" where
  "sq_reaches cap evs xs s \<longleftrightarrow>
     (\<exists>T CH CT. sq_inv cap (length (dequeued evs)) T CH CT xs s) \<and> enqueued evs = dequeued evs @ xs"

lemma sq_reachesI:
  "sq_inv cap H T CH CT xs s \<Longrightarrow> H = length (dequeued evs) \<and> enqueued evs = dequeued evs @ xs \<Longrightarrow> sq_reaches cap evs xs s"
  by (auto simp: sq_reaches_def)

lemma quiet_step:
  "H = length (dequeued evs) \<and> enqueued evs = dequeued evs @ xs \<Longrightarrow> ev \<in> {Silent, Refused, Emplace_threw, Found_empty} \<Longrightarrow>
   H = length (dequeued (evs @ [ev])) \<and> enqueued (evs @ [ev]) = dequeued (evs @ [ev]) @ xs"
  by auto

lemma producer_step_reaches:
  fixes s :: "('a, 'w::len) sq_system"
  assumes "ring_capacity TYPE('w) cap" "sq_reaches cap evs xs s" "producer_step cap s r"
  shows "\<exists>ev s' xs'. r = Inr (ev, s') \<and> sq_reaches cap (evs @ [ev]) xs' s'"
proof -
  obtain H T CH CT where inv: "sq_inv cap H T CH CT xs s" and evs: "H = length (dequeued evs) \<and> enqueued evs = dequeued evs @ xs"
    using assms(2) by (auto simp: sq_reaches_def)
  from assms(3) show ?thesis
  proof (cases rule: producer_step.cases)
    case (Enter c)
    then show ?thesis using emplace_enter_inv [OF assms(1) inv, of c] quiet_step [OF evs] by (blast intro: sq_reachesI)
  next
    case (Reload d)
    then show ?thesis using emplace_reload_inv [OF assms(1) inv, of d] quiet_step [OF evs] by (blast intro: sq_reachesI)
  next
    case Construct
    then show ?thesis using emplace_construct_inv [OF assms(1) inv] quiet_step [OF evs] by (blast intro: sq_reachesI)
  next
    case Publish
    then obtain v s' where step: "emplace_publish s = Inr (Enqueued v, s')" "sq_inv cap H (Suc T) CH CT (xs @ [v]) s'"
      using emplace_publish_inv [OF inv] by blast
    have "sq_reaches cap (evs @ [Enqueued v]) (xs @ [v]) s'" using step evs by (auto intro: sq_reachesI)
    then show ?thesis using step Publish by blast
  qed
qed

lemma consumer_step_reaches:
  fixes s :: "('a, 'w::len) sq_system"
  assumes "ring_capacity TYPE('w) cap" "sq_reaches cap evs xs s" "consumer_step cap s r"
  shows "\<exists>ev s' xs'. r = Inr (ev, s') \<and> sq_reaches cap (evs @ [ev]) xs' s'"
proof -
  obtain H T CH CT where inv: "sq_inv cap H T CH CT xs s" and evs: "H = length (dequeued evs) \<and> enqueued evs = dequeued evs @ xs"
    using assms(2) by (auto simp: sq_reaches_def)
  from assms(3) show ?thesis
  proof (cases rule: consumer_step.cases)
    case Enter
    then show ?thesis using pop_enter_inv [OF assms(1) inv] quiet_step [OF evs] by (blast intro: sq_reachesI)
  next
    case (Reload d)
    then show ?thesis using pop_reload_inv [OF assms(1) inv, of d] quiet_step [OF evs] by (blast intro: sq_reachesI)
  next
    case Move
    then show ?thesis using pop_move_inv [OF assms(1) inv] quiet_step [OF evs] by (blast intro: sq_reachesI)
  next
    case Destroy
    then show ?thesis using pop_destroy_inv [OF assms(1) inv] quiet_step [OF evs] by (blast intro: sq_reachesI)
  next
    case Publish
    then obtain v ys s' where step: "pop_publish s = Inr (Dequeued v, s')" "xs = v # ys" "sq_inv cap (Suc H) T CH CT ys s'"
      using pop_publish_inv [OF inv] by blast
    have "sq_reaches cap (evs @ [Dequeued v]) ys s'" using step evs by (auto intro: sq_reachesI)
    then show ?thesis using step Publish by blast
  qed
qed

lemma sq_start_inv: "ring_capacity TYPE('w) cap \<Longrightarrow> sq_inv cap 0 0 0 0 [] (sq_start cap :: ('a, 'w::len) sq_system)"
  using ring_capacity_bounds(1) [of cap, where 'w = 'w]
  by (auto simp: sq_inv_defs sq_start_def sq_new_def sq_expected_def)

lemma spsc_run_reaches:
  fixes s :: "('a, 'w::len) sq_system"
  assumes "ring_capacity TYPE('w) cap"
  shows "spsc_run cap evs s \<Longrightarrow> \<exists>xs. sq_reaches cap evs xs s"
proof (induction rule: spsc_run.induct)
  case Start
  then show ?case using sq_start_inv [OF assms] by (auto intro!: exI [of _ "[]"] sq_reachesI)
next
  case (Step evs s ev s')
  then show ?case using producer_step_reaches [OF assms] consumer_step_reaches [OF assms] by blast
qed

section \<open>Size queries, uninterrupted calls and the destructor\<close>

text \<open>
  What the size queries make of an index loaded after \<open>k\<close> pops and one loaded after \<open>l\<close>
  pushes: a tail read behind the head counts as no elements, and one read further
  ahead than the capacity as a full queue.
\<close>

lemma sq_queries_of_counts:
  assumes "ring_capacity TYPE('w::len) cap" "k < l + 2 ^ (LENGTH('w) - 1)" "l < k + 2 ^ (LENGTH('w) - 1)"
  shows "unat (sq_size_approx cap (of_nat k) (of_nat l) :: 'w word) = min (l - k) cap"
    "sq_empty (of_nat l) (of_nat k :: 'w word) \<longleftrightarrow> l = k" "sq_full cap (of_nat k) (of_nat l :: 'w word) \<longleftrightarrow> k + cap \<le> l"
proof -
  note b = ring_capacity_bounds [OF assms(1)] and two = two_halves [where 'w = 'w]
  show size: "unat (sq_size_approx cap (of_nat k) (of_nat l) :: 'w word) = min (l - k) cap"
    unfolding sq_size_approx_def using assms b two by (intro clamped_index_distance_exact) auto
  show "sq_empty (of_nat l) (of_nat k :: 'w word) \<longleftrightarrow> l = k"
  proof (cases "k \<le> l")
    case True
    have "l - k < 2 ^ LENGTH('w)" using assms two by linarith
    from counters_equal [OF True this] show ?thesis by (auto simp: sq_empty_def)
  next
    case False
    then have "l \<le> k" "k - l < 2 ^ LENGTH('w)" using assms two by linarith+
    from counters_equal [OF this] show ?thesis by (auto simp: sq_empty_def)
  qed
  have "unat (of_nat cap :: 'w word) = cap" using b by (simp add: unsigned_of_nat take_bit_nat_eq_self)
  then show "sq_full cap (of_nat k) (of_nat l :: 'w word) \<longleftrightarrow> k + cap \<le> l"
    unfolding sq_full_def word_unat_eq_iff size using b by auto
qed

lemma sq_inv_counts:
  assumes "sq_inv cap H T CH CT xs s"
  shows "sq_head (sq_queue s) = of_nat H" "sq_tail (sq_queue s) = of_nat T" "H \<le> T" "T \<le> H + cap" "length xs = T - H"
  using assms by (auto simp: sq_inv_defs)

lemma sq_reaches_counts:
  fixes s :: "('a, 'w::len) sq_system"
  assumes "sq_reaches cap evs xs s"
  shows "sq_head (sq_queue s) = of_nat (length (dequeued evs))" "sq_tail (sq_queue s) = of_nat (length (enqueued evs))"
    "length xs \<le> cap"
proof -
  obtain T CH CT where inv: "sq_inv cap (length (dequeued evs)) T CH CT xs s" and evs: "enqueued evs = dequeued evs @ xs"
    using assms by (auto simp: sq_reaches_def)
  from inv have c: "sq_head (sq_queue s) = of_nat (length (dequeued evs))" "sq_tail (sq_queue s) = of_nat T"
    "length (dequeued evs) \<le> T" "T \<le> length (dequeued evs) + cap" "length xs = T - length (dequeued evs)"
    by (rule sq_inv_counts)+
  then have "T = length (enqueued evs)" using evs by simp
  with c show "sq_head (sq_queue s) = of_nat (length (dequeued evs))" "sq_tail (sq_queue s) = of_nat (length (enqueued evs))"
    "length xs \<le> cap" by auto
qed

text \<open>The steps of one call in a row, with loads that see the newest value.\<close>

definition solo_emplace :: "nat \<Rightarrow> 'a ctor \<Rightarrow> ('a, 'w::len) sq_system \<Rightarrow> (bool call \<times> ('a, 'w) sq_system) outcome" where
  "solo_emplace cap c s =
     bnd (emplace_enter cap c s) (\<lambda>(_, s1).
     bnd (if p_pc (sq_prod s1) = Reload_head then emplace_reload cap (sq_head (sq_queue s1)) s1 else Inr (Silent, s1))
       (\<lambda>(e2, s2). case e2 of
           Refused \<Rightarrow> Inr (Returned False, s2)
         | _ \<Rightarrow> bnd (emplace_construct cap s2) (\<lambda>(e3, s3). case e3 of
               Emplace_threw \<Rightarrow> Inr (Threw, s3)
             | _ \<Rightarrow> bnd (emplace_publish s3) (\<lambda>(_, s4). Inr (Returned True, s4)))))"

definition solo_pop :: "nat \<Rightarrow> ('a, 'w::len) sq_system \<Rightarrow> ('a option \<times> ('a, 'w) sq_system) outcome" where
  "solo_pop cap s =
     bnd (pop_enter s) (\<lambda>(_, s1).
     bnd (if c_pc (sq_cons s1) = Reload_tail then pop_reload (sq_tail (sq_queue s1)) s1 else Inr (Silent, s1))
       (\<lambda>(e2, s2). case e2 of
           Found_empty \<Rightarrow> Inr (None, s2)
         | _ \<Rightarrow> bnd (pop_move cap s2) (\<lambda>(_, s3).
                bnd (pop_destroy cap s3) (\<lambda>(_, s4).
                bnd (pop_publish s4) (\<lambda>(_, s5). Inr (c_out (sq_cons s5), s5))))))"

lemma sq_try_emplace_steps:
  "sq_try_emplace cap c (sq_queue s) = bnd (solo_emplace cap c s) (\<lambda>(r, s'). Inr (r, sq_queue s'))"
  by (auto simp: sq_try_emplace_def solo_emplace_def emplace_enter_def emplace_reload_def emplace_construct_def
      emplace_publish_def sq_looks_full_def Let_def bnd_assoc split: ctor.splits)

lemma sq_try_pop_steps:
  "sq_try_pop cap (sq_queue s) = bnd (solo_pop cap s) (\<lambda>(r, s'). Inr (r, sq_queue s'))"
  by (auto simp: sq_try_pop_def solo_pop_def pop_enter_def pop_reload_def pop_move_def pop_destroy_def
      pop_publish_def Let_def bnd_assoc)

definition sq_repr :: "nat \<Rightarrow> ('a, 'w::len) spsc_queue \<Rightarrow> 'a list \<Rightarrow> bool" where
  "sq_repr cap q xs \<longleftrightarrow> ring_capacity TYPE('w) cap \<and>
     (\<exists>s H T CH CT. sq_inv cap H T CH CT xs s \<and> sq_queue s = q \<and> p_pc (sq_prod s) = Producer_idle \<and> c_pc (sq_cons s) = Consumer_idle)"

lemma sq_reprE:
  assumes "sq_repr cap (q :: ('a, 'w::len) spsc_queue) xs"
  obtains s H T CH CT where "ring_capacity TYPE('w) cap" "sq_inv cap H T CH CT xs s" "sq_queue s = q"
    "p_pc (sq_prod s) = Producer_idle" "c_pc (sq_cons s) = Consumer_idle"
  using assms by (auto simp: sq_repr_def)

lemma sq_reprI:
  "ring_capacity TYPE('w) cap \<Longrightarrow> sq_inv cap H T CH CT xs s \<Longrightarrow> p_pc (sq_prod s) = Producer_idle \<Longrightarrow>
   c_pc (sq_cons s) = Consumer_idle \<Longrightarrow> sq_repr cap (sq_queue s) xs" for s :: "('a, 'w::len) sq_system"
  unfolding sq_repr_def by blast

lemma solo_emplace_of:
  fixes s :: "('a, 'w::len) sq_system"
  assumes "ring_capacity TYPE('w) cap" "sq_inv cap H T CH CT xs s" "p_pc (sq_prod s) = Producer_idle"
  shows "\<exists>s' H' T' CH' CT'. sq_cons s' = sq_cons s \<and> p_pc (sq_prod s') = Producer_idle \<and>
    (if length xs = cap then solo_emplace cap c s = Inr (Returned False, s') \<and> sq_inv cap H' T' CH' CT' xs s'
     else case c of
       Builds v \<Rightarrow> solo_emplace cap c s = Inr (Returned True, s') \<and> sq_inv cap H' T' CH' CT' (xs @ [v]) s'
     | Throws \<Rightarrow> solo_emplace cap c s = Inr (Threw, s') \<and> sq_inv cap H' T' CH' CT' xs s')"
proof -
  have room: "length xs \<noteq> cap" if "sq_inv cap H T C CT xs t" "p_pc (sq_prod t) = Construct" for C and t :: "('a, 'w) sq_system"
    using that by (auto simp: sq_inv_defs)
  obtain s1 where s1: "emplace_enter cap c s = Inr (Silent, s1)" "sq_inv cap H T CH CT xs s1"
    using emplace_enter_inv [OF assms] by blast
  have pc1: "p_pc (sq_prod s1) = Reload_head \<or> p_pc (sq_prod s1) = Construct" "sq_cons s1 = sq_cons s" "p_args (sq_prod s1) = c"
    using s1(1) by (auto simp: emplace_enter_def Let_def split: if_splits)
  have build: ?thesis if load: "(if p_pc (sq_prod s1) = Reload_head then emplace_reload cap (sq_head (sq_queue s1)) s1
      else Inr (Silent, s1)) = Inr (Silent, s2)" and s2: "sq_inv cap H T C CT xs s2" "p_pc (sq_prod s2) = Construct"
      "sq_cons s2 = sq_cons s" "p_args (sq_prod s2) = c" for C s2
  proof -
    obtain e3 s3 where s3: "emplace_construct cap s2 = Inr (e3, s3)" "sq_inv cap H T C CT xs s3"
      using emplace_construct_inv [OF assms(1) s2(1,2)] by blast
    have solo: "solo_emplace cap c s = (case e3 of Emplace_threw \<Rightarrow> Inr (Threw, s3)
        | _ \<Rightarrow> bnd (emplace_publish s3) (\<lambda>(_, s4). Inr (Returned True, s4)))"
      by (simp add: solo_emplace_def s1(1) load s3(1))
    show ?thesis
    proof (cases c)
      case Throws
      then have e3: "e3 = Emplace_threw" "p_pc (sq_prod s3) = Producer_idle" "sq_cons s3 = sq_cons s"
        using s3(1) s2 by (auto simp: emplace_construct_def)
      show ?thesis
        by (intro exI [of _ s3] exI [of _ H] exI [of _ T] exI [of _ C] exI [of _ CT])
          (use Throws e3 s3 solo room [OF s2(1,2)] in simp)
    next
      case (Builds v)
      then have e3: "e3 = Silent" "p_pc (sq_prod s3) = Store_tail" "sq_cons s3 = sq_cons s" "p_args (sq_prod s3) = Builds v"
        using s3(1) s2 by (auto simp: emplace_construct_def bnd_eq_Inr)
      obtain s4 where s4: "emplace_publish s3 = Inr (Enqueued v, s4)" "sq_inv cap H (Suc T) C CT (xs @ [v]) s4"
        using emplace_publish_inv [OF s3(2) e3(2)] e3(4) by (auto simp: emplace_publish_def)
      have "p_pc (sq_prod s4) = Producer_idle" "sq_cons s4 = sq_cons s" using s4(1) e3 by (auto simp: emplace_publish_def)
      then show ?thesis
        by (intro exI [of _ s4] exI [of _ H] exI [of _ "Suc T"] exI [of _ C] exI [of _ CT])
          (use Builds e3 s4 solo room [OF s2(1,2)] in simp)
    qed
  qed
  show ?thesis
  proof (cases "p_pc (sq_prod s1) = Construct")
    case True
    then show ?thesis using build [of s1 CH] s1(2) pc1 by simp
  next
    case False
    then have pc: "p_pc (sq_prod s1) = Reload_head" using pc1 by simp
    define d where "d = sq_head (sq_queue s1) - sq_cached_head (sq_queue s1)"
    have dd: "sq_cached_head (sq_queue s1) + d = sq_head (sq_queue s1)" by (simp add: d_def)
    obtain e2 s2 CH' where s2: "emplace_reload cap (sq_head (sq_queue s1)) s1 = Inr (e2, s2)" "sq_inv cap H T CH' CT xs s2"
      "e2 \<in> {Silent, Refused}" "e2 = Refused \<longrightarrow> length xs = cap"
      using emplace_reload_inv [OF assms(1) s1(2) pc, of d] unfolding dd by (auto simp: d_def)
    show ?thesis
    proof (cases "e2 = Refused")
      case True
      then have "p_pc (sq_prod s2) = Producer_idle" "sq_cons s2 = sq_cons s"
        using s2(1) pc1 by (auto simp: emplace_reload_def Let_def split: if_splits)
      then show ?thesis
        by (intro exI [of _ s2] exI [of _ H] exI [of _ T] exI [of _ CH'] exI [of _ CT])
          (use True s2 pc in \<open>simp add: solo_emplace_def s1(1)\<close>)
    next
      case False
      then have "p_pc (sq_prod s2) = Construct" "sq_cons s2 = sq_cons s" "p_args (sq_prod s2) = c" "e2 = Silent"
        using s2(1,3) pc1 by (auto simp: emplace_reload_def Let_def split: if_splits)
      then show ?thesis using build [of s2 CH'] s2 pc by simp
    qed
  qed
qed

lemma solo_pop_of:
  fixes s :: "('a, 'w::len) sq_system"
  assumes "ring_capacity TYPE('w) cap" "sq_inv cap H T CH CT xs s" "c_pc (sq_cons s) = Consumer_idle"
  shows "\<exists>s' H' T' CH' CT'. sq_prod s' = sq_prod s \<and> c_pc (sq_cons s') = Consumer_idle \<and>
    (case xs of
       [] \<Rightarrow> solo_pop cap s = Inr (None, s') \<and> sq_inv cap H' T' CH' CT' [] s'
     | x # ys \<Rightarrow> solo_pop cap s = Inr (Some x, s') \<and> sq_inv cap H' T' CH' CT' ys s')"
proof -
  obtain s1 where s1: "pop_enter s = Inr (Silent, s1)" "sq_inv cap H T CH CT xs s1"
    using pop_enter_inv [OF assms] by blast
  have pc1: "c_pc (sq_cons s1) = Reload_tail \<or> c_pc (sq_cons s1) = Move_out" "sq_prod s1 = sq_prod s"
    using s1(1) by (auto simp: pop_enter_def Let_def split: if_splits)
  have take: ?thesis if load: "(if c_pc (sq_cons s1) = Reload_tail then pop_reload (sq_tail (sq_queue s1)) s1
      else Inr (Silent, s1)) = Inr (Silent, s2)" and s2: "sq_inv cap H T CH C xs s2" "c_pc (sq_cons s2) = Move_out"
      "sq_prod s2 = sq_prod s" for C s2
  proof -
    obtain s3 where s3: "pop_move cap s2 = Inr (Silent, s3)" "sq_inv cap H T CH C xs s3"
      using pop_move_inv [OF assms(1) s2(1,2)] by blast
    have pc3: "c_pc (sq_cons s3) = Destroy" "sq_prod s3 = sq_prod s" using s3(1) s2 by (auto simp: pop_move_def bnd_eq_Inr)
    obtain s4 where s4: "pop_destroy cap s3 = Inr (Silent, s4)" "sq_inv cap H T CH C xs s4"
      using pop_destroy_inv [OF assms(1) s3(2) pc3(1)] by blast
    have pc4: "c_pc (sq_cons s4) = Store_head" "sq_prod s4 = sq_prod s" using s4(1) pc3 by (auto simp: pop_destroy_def bnd_eq_Inr)
    obtain v ys s5 where s5: "pop_publish s4 = Inr (Dequeued v, s5)" "xs = v # ys" "sq_inv cap (Suc H) T CH C ys s5"
      using pop_publish_inv [OF s4(2) pc4(1)] by blast
    have "c_pc (sq_cons s5) = Consumer_idle" "sq_prod s5 = sq_prod s" "c_out (sq_cons s5) = Some v"
      using s5(1) pc4 by (auto simp: pop_publish_def split: option.splits)
    then show ?thesis
      by (intro exI [of _ s5] exI [of _ "Suc H"] exI [of _ T] exI [of _ CH] exI [of _ C])
        (use s5 in \<open>simp add: solo_pop_def s1(1) load s3(1) s4(1)\<close>)
  qed
  show ?thesis
  proof (cases "c_pc (sq_cons s1) = Move_out")
    case True
    then show ?thesis using take [of s1 CT] s1(2) pc1 by simp
  next
    case False
    then have pc: "c_pc (sq_cons s1) = Reload_tail" using pc1 by simp
    define d where "d = sq_tail (sq_queue s1) - sq_cached_tail (sq_queue s1)"
    have dd: "sq_cached_tail (sq_queue s1) + d = sq_tail (sq_queue s1)" by (simp add: d_def)
    obtain e2 s2 CT' where s2: "pop_reload (sq_tail (sq_queue s1)) s1 = Inr (e2, s2)" "sq_inv cap H T CH CT' xs s2"
      "e2 \<in> {Silent, Found_empty}" "e2 = Found_empty \<longrightarrow> xs = []"
      using pop_reload_inv [OF assms(1) s1(2) pc, of d] unfolding dd by (auto simp: d_def)
    show ?thesis
    proof (cases "e2 = Found_empty")
      case True
      then have "c_pc (sq_cons s2) = Consumer_idle" "sq_prod s2 = sq_prod s"
        using s2(1) pc1 by (auto simp: pop_reload_def Let_def split: if_splits)
      then show ?thesis
        by (intro exI [of _ s2] exI [of _ H] exI [of _ T] exI [of _ CH] exI [of _ CT'])
          (use True s2 pc in \<open>simp add: solo_pop_def s1(1)\<close>)
    next
      case False
      then have "c_pc (sq_cons s2) = Move_out" "sq_prod s2 = sq_prod s" "e2 = Silent"
        using s2(1,3) pc1 by (auto simp: pop_reload_def Let_def split: if_splits)
      then show ?thesis using take [of s2 CT'] s2 pc by simp
    qed
  qed
qed

lemma sq_drain_of:
  assumes "ring_capacity TYPE('w::len) cap" "length slots = cap" "B \<le> H" "H \<le> T" "T \<le> B + cap"
    and "\<And>n. B \<le> n \<Longrightarrow> n < B + cap \<Longrightarrow> slots ! (n mod cap) \<noteq> None \<longleftrightarrow> H \<le> n \<and> n < T"
  shows "sq_drain cap (of_nat H :: 'w word) (of_nat T) slots = Inr (replicate cap None)"
  using assms
proof (induction "T - H" arbitrary: H slots)
  case 0
  have "slots ! i = None" if "i < cap" for i
  proof -
    define n where "n = B + (i + cap - B mod cap) mod cap"
    have "n mod cap = i"
    proof -
      have "n mod cap = (B mod cap + (i + cap - B mod cap)) mod cap" by (simp add: n_def mod_add_left_eq mod_add_right_eq)
      also have "B mod cap + (i + cap - B mod cap) = i + cap"
        using that mod_less_divisor [of cap B] by linarith
      finally show ?thesis using that by simp
    qed
    moreover have "B \<le> n" "n < B + cap" using that by (auto simp: n_def)
    ultimately show ?thesis using "0.prems"(6) [of n] "0.hyps" by auto
  qed
  then have "slots = replicate cap None" using "0.prems"(2) by (auto simp: list_eq_iff_nth_eq)
  moreover have "H = T" using 0 by simp
  ultimately show ?case by (subst sq_drain.simps) simp
next
  case (Suc k)
  note b = ring_capacity_bounds [OF assms(1)]
  have lt: "H < T" using Suc.hyps(2) by simp
  have "T - H < 2 ^ LENGTH('w)" using Suc.prems b by linarith
  then have "(of_nat H :: 'w word) \<noteq> of_nat T" using counters_equal [of H T, where 'w = 'w] lt by (metis less_imp_le less_irrefl)
  moreover have "slot_destroy slots (H mod cap) = Inr (slots[H mod cap := None])"
    using Suc.prems(6) [of H] Suc.prems(2,3,5) lt b by (auto simp: slot_destroy_def)
  ultimately have "sq_drain cap (of_nat H :: 'w word) (of_nat T) slots = sq_drain cap (of_nat (Suc H) :: 'w word) (of_nat T) (slots[H mod cap := None])"
    by (subst sq_drain.simps) (simp add: sq_slot_of_nat [OF assms(1)] add.commute)
  also have "\<dots> = Inr (replicate cap None)"
  proof (rule Suc.hyps(1))
    fix n assume n: "B \<le> n" "n < B + cap"
    show "slots[H mod cap := None] ! (n mod cap) \<noteq> None \<longleftrightarrow> Suc H \<le> n \<and> n < T"
      using window_update [OF Suc.prems(2,3) _ n, of None] Suc.prems(6) [OF n] lt Suc.prems(5) by auto
  qed (use Suc.prems Suc.hyps(2) lt in auto)
  finally show ?case .
qed

lemma sq_delete_of:
  fixes q :: "('a, 'w::len) spsc_queue"
  assumes "sq_repr cap q xs"
  shows "sq_delete cap q = Inr (replicate cap None)"
proof -
  obtain s H T CH CT where s: "ring_capacity TYPE('w) cap" "sq_inv cap H T CH CT xs s" "sq_queue s = q"
    "p_pc (sq_prod s) = Producer_idle" "c_pc (sq_cons s) = Consumer_idle"
    using assms by (rule sq_reprE)
  have "sq_head q = of_nat H" "sq_tail q = of_nat T" "H \<le> T" "T \<le> H + cap" "length (sq_slots q) = cap"
    and slots: "\<And>n. H \<le> n \<Longrightarrow> n < H + cap \<Longrightarrow> sq_slots q ! (n mod cap) \<noteq> None \<longleftrightarrow> H \<le> n \<and> n < T"
    using s(2-5) by (auto simp: sq_inv_defs sq_expected_def)
  then show ?thesis using sq_drain_of [OF s(1), of "sq_slots q" H H T] by (simp add: sq_delete_def)
qed

lemma sq_new_repr: "ring_capacity TYPE('w::len) cap \<Longrightarrow> sq_repr cap (sq_new cap :: ('a, 'w) spsc_queue) []"
  using sq_start_inv [of cap, where 'w = 'w] unfolding sq_repr_def by (fastforce simp: sq_start_def)

interpretation spsc_channel: bounded_channel "sq_try_push cap" "sq_try_pop cap" "sq_repr cap" cap
proof
  fix q :: "('a, 'w::len) spsc_queue" and xs :: "'a list" and x v :: 'a
  {
    assume "sq_repr cap q xs"
    then obtain s H T CH CT where s: "ring_capacity TYPE('w) cap" "sq_inv cap H T CH CT xs s" "sq_queue s = q"
      "p_pc (sq_prod s) = Producer_idle" "c_pc (sq_cons s) = Consumer_idle"
      by (rule sq_reprE)
    have le: "length xs \<le> cap" using sq_inv_counts [OF s(2)] by linarith
    have push: "sq_try_push cap v q = bnd (solo_emplace cap (Builds v) s) (\<lambda>(r, s'). Inr (r, sq_queue s'))"
      using sq_try_emplace_steps [of cap "Builds v" s] s(3) by (simp add: sq_try_push_def)
    obtain s' H' T' CH' CT' where "sq_cons s' = sq_cons s" "p_pc (sq_prod s') = Producer_idle"
      "if length xs = cap then solo_emplace cap (Builds v) s = Inr (Returned False, s') \<and> sq_inv cap H' T' CH' CT' xs s'
       else solo_emplace cap (Builds v) s = Inr (Returned True, s') \<and> sq_inv cap H' T' CH' CT' (xs @ [v]) s'"
      using solo_emplace_of [OF s(1,2,4), of "Builds v", unfolded ctor.case] by blast
    then have "\<exists>q'. sq_try_push cap v q = Inr (Returned (length xs < cap), q') \<and> sq_repr cap q' (if length xs < cap then xs @ [v] else xs)"
      using push le s(1,5) by (cases "length xs = cap") (auto intro: sq_reprI)
  }
  note push = this
  show "sq_repr cap q xs \<Longrightarrow> length xs < cap \<Longrightarrow> \<exists>q'. sq_try_push cap v q = Inr (Returned True, q') \<and> sq_repr cap q' (xs @ [v])"
    using push by simp
  show "sq_repr cap q xs \<Longrightarrow> \<not> length xs < cap \<Longrightarrow> \<exists>q'. sq_try_push cap v q = Inr (Returned False, q') \<and> sq_repr cap q' xs"
    using push by simp
  have pop: "\<exists>q'. sq_try_pop cap q = Inr (case ys of [] \<Rightarrow> None | y # _ \<Rightarrow> Some y, q') \<and> sq_repr cap q' (tl ys)" if ys: "sq_repr cap q ys" for ys
  proof -
    obtain s H T CH CT where s: "ring_capacity TYPE('w) cap" "sq_inv cap H T CH CT ys s" "sq_queue s = q"
      "p_pc (sq_prod s) = Producer_idle" "c_pc (sq_cons s) = Consumer_idle"
      using ys by (rule sq_reprE)
    have pop: "sq_try_pop cap q = bnd (solo_pop cap s) (\<lambda>(r, s'). Inr (r, sq_queue s'))"
      using sq_try_pop_steps [of cap s] s(3) by simp
    show ?thesis using solo_pop_of [OF s(1,2,5)] pop s(1,4) by (cases ys) (auto intro!: sq_reprI)
  qed
  show "sq_repr cap q (x # xs) \<Longrightarrow> \<exists>q'. sq_try_pop cap q = Inr (Some x, q') \<and> sq_repr cap q' xs"
    using pop [of "x # xs"] by simp
  show "sq_repr cap q [] \<Longrightarrow> \<exists>q'. sq_try_pop cap q = Inr (None, q') \<and> sq_repr cap q' []"
    using pop [of "[]"] by simp
qed

primrec producer_left :: "producer_pc \<Rightarrow> nat" where
  "producer_left Producer_idle = 0" | "producer_left Reload_head = 3"
| "producer_left Construct = 2" | "producer_left Store_tail = 1"

primrec consumer_left :: "consumer_pc \<Rightarrow> nat" where
  "consumer_left Consumer_idle = 0" | "consumer_left Reload_tail = 4" | "consumer_left Move_out = 3"
| "consumer_left Destroy = 2" | "consumer_left Store_head = 1"

lemmas emplace_steps = emplace_enter_def emplace_reload_def emplace_construct_def emplace_publish_def
lemmas pop_steps = pop_enter_def pop_reload_def pop_move_def pop_destroy_def pop_publish_def

lemma Inr_eq_bnd: "Inr w = bnd m k \<longleftrightarrow> (\<exists>v. m = Inr v \<and> k v = Inr w)"
  by (metis bnd_eq_Inr)

lemma producer_progress:
  "(\<exists>r. producer_step cap s r) \<and>
   (producer_step cap s (Inr (ev, s')) \<longrightarrow> sq_cons s' = sq_cons s \<and>
      (if p_pc (sq_prod s) = Producer_idle then producer_left (p_pc (sq_prod s')) \<le> 3
       else producer_left (p_pc (sq_prod s')) < producer_left (p_pc (sq_prod s))))"
proof
  show "\<exists>r. producer_step cap s r"
    by (cases "p_pc (sq_prod s)") (blast intro: producer_step.intros order_refl)+
  show "producer_step cap s (Inr (ev, s')) \<longrightarrow> sq_cons s' = sq_cons s \<and>
      (if p_pc (sq_prod s) = Producer_idle then producer_left (p_pc (sq_prod s')) \<le> 3
       else producer_left (p_pc (sq_prod s')) < producer_left (p_pc (sq_prod s)))"
    by (auto elim!: producer_stepE simp: emplace_steps Let_def Inr_eq_bnd split: if_splits ctor.splits)
qed

lemma consumer_progress:
  "(\<exists>r. consumer_step cap s r) \<and>
   (consumer_step cap s (Inr (ev, s')) \<longrightarrow> sq_prod s' = sq_prod s \<and>
      (if c_pc (sq_cons s) = Consumer_idle then consumer_left (c_pc (sq_cons s')) \<le> 4
       else consumer_left (c_pc (sq_cons s')) < consumer_left (c_pc (sq_cons s))))"
proof
  show "\<exists>r. consumer_step cap s r"
    by (cases "c_pc (sq_cons s)") (blast intro: consumer_step.intros order_refl)+
  show "consumer_step cap s (Inr (ev, s')) \<longrightarrow> sq_prod s' = sq_prod s \<and>
      (if c_pc (sq_cons s) = Consumer_idle then consumer_left (c_pc (sq_cons s')) \<le> 4
       else consumer_left (c_pc (sq_cons s')) < consumer_left (c_pc (sq_cons s)))"
    by (auto elim!: consumer_stepE simp: pop_steps Let_def Inr_eq_bnd split: if_splits)
qed

text \<open>A run: the producer sends 7 while the consumer enters \<^verbatim>\<open>try_pop\<close> and has to reload the tail.\<close>

lemma spsc_example:
  "\<exists>s :: (nat, 32) sq_system. spsc_run 2 [Silent, Silent, Silent, Enqueued 7] s \<and>
     p_pc (sq_prod s) = Producer_idle \<and> c_pc (sq_cons s) = Reload_tail"
proof -
  let ?s0 = "sq_start 2 :: (nat, 32) sq_system"
  let ?s1 = "?s0\<lparr>sq_prod := \<lparr>p_pc = Construct, p_args = Builds 7, p_tail = 0\<rparr>\<rparr>"
  let ?s2 = "?s1\<lparr>sq_cons := \<lparr>c_pc = Reload_tail, c_head = 0, c_out = None\<rparr>\<rparr>"
  let ?s3 = "?s2\<lparr>sq_queue := (sq_new 2)\<lparr>sq_slots := [Some 7, None]\<rparr>, sq_prod := \<lparr>p_pc = Store_tail, p_args = Builds 7, p_tail = 0\<rparr>\<rparr>"
  let ?s4 = "?s3\<lparr>sq_queue := (sq_new 2)\<lparr>sq_slots := [Some 7, None], sq_tail := 1\<rparr>,
                 sq_prod := \<lparr>p_pc = Producer_idle, p_args = Builds 7, p_tail = 0\<rparr>\<rparr>"
  have "producer_step 2 ?s0 (emplace_enter 2 (Builds 7) ?s0)" by (rule producer_step.Enter) (simp add: sq_start_def)
  then have 1: "producer_step 2 ?s0 (Inr (Silent, ?s1))"
    by (simp add: emplace_enter_def sq_looks_full_def sq_start_def sq_new_def Let_def)
  have "consumer_step 2 ?s1 (pop_enter ?s1)" by (rule consumer_step.Enter) (simp add: sq_start_def)
  then have 2: "consumer_step 2 ?s1 (Inr (Silent, ?s2))" by (simp add: pop_enter_def sq_start_def sq_new_def Let_def)
  have "producer_step 2 ?s2 (emplace_construct 2 ?s2)" by (rule producer_step.Construct) simp
  then have 3: "producer_step 2 ?s2 (Inr (Silent, ?s3))"
    by (simp add: emplace_construct_def sq_start_def sq_new_def slot_new_def sq_slot_def ring_index_def numeral_2_eq_2)
  have "producer_step 2 ?s3 (emplace_publish ?s3)" by (rule producer_step.Publish) simp
  then have 4: "producer_step 2 ?s3 (Inr (Enqueued 7, ?s4))"
    by (simp add: emplace_publish_def sq_start_def sq_new_def)
  have "spsc_run 2 ((([] @ [Silent]) @ [Silent]) @ [Silent]) ?s3"
    using 1 2 3 by (blast intro: spsc_run.intros)
  then have "spsc_run 2 ([Silent, Silent, Silent] @ [Enqueued 7]) ?s4" using 4 spsc_run.Step by fastforce
  then show ?thesis by (intro exI [of _ ?s4]) simp
qed

section \<open>Properties\<close>

text \<open>
  C29: In every interleaving of one producer and one consumer of \<^verbatim>\<open>spsc_queue\<close>, with
  acquire loads that may return older values, for every width of \<^verbatim>\<open>size_t\<close> and across
  its wrap-around: the values taken out are the values put in, in order, and at
  most \<^verbatim>\<open>Capacity\<close> of them are in between; no step builds over a live element or reads
  or destroys a missing one; the two threads never work on the same slot at the
  same time; and when both threads are done, the destructor destroys exactly the
  elements left. The size queries are hints: whatever two values their relaxed
  loads return, \<^verbatim>\<open>size_approx\<close> is at most \<^verbatim>\<open>Capacity\<close>. If the loads, at whatever two
  moments, return the index after \<open>k\<close> pops and the one after \<open>l\<close> pushes, less than half
  the range of \<^verbatim>\<open>size_t\<close> apart, the answer is \<open>l - k\<close>, cut off at 0 and \<^verbatim>\<open>Capacity\<close>; and if
  both return the current values, it is the number of elements.
\<close>

theorem spsc_all_interleavings:
  fixes s :: "('a, 'w::len) sq_system"
  assumes "ring_capacity TYPE('w) cap" "spsc_run cap evs s"
  shows "\<exists>xs. enqueued evs = dequeued evs @ xs \<and> length xs \<le> cap \<and>
     (\<forall>r. producer_step cap s r \<or> consumer_step cap s r \<longrightarrow> (\<exists>ev s'. r = Inr (ev, s'))) \<and>
     (p_pc (sq_prod s) = Construct \<and> c_pc (sq_cons s) \<in> {Move_out, Destroy} \<longrightarrow>
        sq_slot cap (p_tail (sq_prod s)) \<noteq> sq_slot cap (c_head (sq_cons s))) \<and>
     (p_pc (sq_prod s) = Producer_idle \<and> c_pc (sq_cons s) = Consumer_idle \<longrightarrow>
        sq_delete cap (sq_queue s) = Inr (replicate cap None)) \<and>
     sq_head (sq_queue s) = of_nat (length (dequeued evs)) \<and> sq_tail (sq_queue s) = of_nat (length (enqueued evs)) \<and>
     (\<forall>head tail :: 'w word. unat (sq_size_approx cap head tail) \<le> cap) \<and>
     (\<forall>k l. k \<le> length (dequeued evs) \<and> l \<le> length (enqueued evs) \<and>
        k < l + 2 ^ (LENGTH('w) - 1) \<and> l < k + 2 ^ (LENGTH('w) - 1) \<longrightarrow>
        unat (sq_size_approx cap (of_nat k) (of_nat l) :: 'w word) = min (l - k) cap \<and>
        (sq_empty (of_nat l) (of_nat k :: 'w word) \<longleftrightarrow> l = k) \<and>
        (sq_full cap (of_nat k) (of_nat l :: 'w word) \<longleftrightarrow> k + cap \<le> l)) \<and>
     unat (sq_size_approx cap (sq_head (sq_queue s)) (sq_tail (sq_queue s))) = length xs \<and>
     (sq_empty (sq_tail (sq_queue s)) (sq_head (sq_queue s)) \<longleftrightarrow> xs = []) \<and>
     (sq_full cap (sq_head (sq_queue s)) (sq_tail (sq_queue s)) \<longleftrightarrow> length xs = cap)"
proof -
  obtain xs where r: "sq_reaches cap evs xs s" using spsc_run_reaches [OF assms] by blast
  then obtain H T CH CT where inv: "sq_inv cap H T CH CT xs s" and evs: "enqueued evs = dequeued evs @ xs"
    by (auto simp: sq_reaches_def)
  have race: "sq_slot cap (p_tail (sq_prod s)) \<noteq> sq_slot cap (c_head (sq_cons s))"
    if "p_pc (sq_prod s) = Construct" "c_pc (sq_cons s) \<in> {Move_out, Destroy}"
  proof -
    have "p_tail (sq_prod s) = of_nat T" "c_head (sq_cons s) = of_nat H" "H < T" "T < H + cap"
      using inv that by (auto simp: sq_inv_defs)
    then show ?thesis using window_inj [of H H cap T] by (auto simp: sq_slot_of_nat [OF assms(1)])
  qed
  have steps: "\<exists>ev s'. x = Inr (ev, s')" if "producer_step cap s x \<or> consumer_step cap s x" for x
    using that producer_step_reaches [OF assms(1) r] consumer_step_reaches [OF assms(1) r] by blast
  have delete: "sq_delete cap (sq_queue s) = Inr (replicate cap None)"
    if "p_pc (sq_prod s) = Producer_idle \<and> c_pc (sq_cons s) = Consumer_idle"
    using sq_delete_of [OF sq_reprI [OF assms(1) inv]] that by blast
  note counts = sq_reaches_counts [OF r] and b = ring_capacity_bounds [OF assms(1)]
  have clamp: "unat (sq_size_approx cap head tail) \<le> cap" for head tail :: "'w word"
    unfolding sq_size_approx_def using b by (intro clamped_index_distance_bounded) simp
  have near: "length (dequeued evs) < length (enqueued evs) + 2 ^ (LENGTH('w) - 1)"
    "length (enqueued evs) < length (dequeued evs) + 2 ^ (LENGTH('w) - 1)"
    using evs counts(3) b by (auto simp: add.commute intro: le_less_trans)
  note now = sq_queries_of_counts [OF assms(1) near, folded counts(1,2)]
  have "unat (sq_size_approx cap (sq_head (sq_queue s)) (sq_tail (sq_queue s))) = length xs"
    "sq_empty (sq_tail (sq_queue s)) (sq_head (sq_queue s)) \<longleftrightarrow> xs = []"
    "sq_full cap (sq_head (sq_queue s)) (sq_tail (sq_queue s)) \<longleftrightarrow> length xs = cap"
    unfolding now using evs counts(3) by auto
  then show ?thesis
    using evs counts race steps delete clamp sq_queries_of_counts [OF assms(1)]
    by (intro exI [of _ xs] conjI allI impI) blast+
qed

theorem spsc_all_interleavings_witness:
  "\<exists>s :: (nat, 32) sq_system. spsc_run 2 [Silent, Silent, Silent, Enqueued 7] s \<and>
     unat (sq_size_approx 2 (sq_head (sq_queue s)) (sq_tail (sq_queue s))) = 1 \<and>
     unat (sq_size_approx 2 5 (3 :: 32 word)) \<le> 2"
proof -
  obtain s :: "(nat, 32) sq_system" where s: "spsc_run 2 [Silent, Silent, Silent, Enqueued 7] s"
    using spsc_example by blast
  have "ring_capacity TYPE(32) 2" by (simp add: ring_capacity_def power_of_two_def)
  from spsc_all_interleavings [OF this s] show ?thesis using s by auto
qed

text \<open>
  C30: Both operations of \<^verbatim>\<open>spsc_queue\<close> are wait-free: whatever the other thread does, or if
  it never runs again, a producer or consumer can always take its next step, its
  steps leave the other thread's variables alone, and a call ends after at most
  four or five steps of its own. An undisturbed \<^verbatim>\<open>try_emplace\<close> then succeeds exactly when
  there is room and \<^verbatim>\<open>try_pop\<close> returns the oldest element exactly when there is one,
  even if the other thread is stopped in the middle of a call.
\<close>

theorem spsc_wait_free:
  fixes s :: "('a, 'w::len) sq_system"
  assumes "ring_capacity TYPE('w) cap" "spsc_run cap evs s"
  shows "(\<exists>r. producer_step cap s r) \<and> (\<exists>r. consumer_step cap s r) \<and>
     (\<forall>ev s'. producer_step cap s (Inr (ev, s')) \<longrightarrow> sq_cons s' = sq_cons s \<and>
        (if p_pc (sq_prod s) = Producer_idle then producer_left (p_pc (sq_prod s')) \<le> 3
         else producer_left (p_pc (sq_prod s')) < producer_left (p_pc (sq_prod s)))) \<and>
     (\<forall>ev s'. consumer_step cap s (Inr (ev, s')) \<longrightarrow> sq_prod s' = sq_prod s \<and>
        (if c_pc (sq_cons s) = Consumer_idle then consumer_left (c_pc (sq_cons s')) \<le> 4
         else consumer_left (c_pc (sq_cons s')) < consumer_left (c_pc (sq_cons s)))) \<and>
     (\<exists>xs. enqueued evs = dequeued evs @ xs \<and>
        (p_pc (sq_prod s) = Producer_idle \<longrightarrow>
          (\<exists>q. sq_try_push cap v (sq_queue s) = Inr (Returned (length xs < cap), q))) \<and>
        (c_pc (sq_cons s) = Consumer_idle \<longrightarrow>
          (\<exists>q. sq_try_pop cap (sq_queue s) = Inr (case xs of [] \<Rightarrow> None | x # _ \<Rightarrow> Some x, q))))"
proof -
  obtain xs H T CH CT where inv: "sq_inv cap H T CH CT xs s" and evs: "enqueued evs = dequeued evs @ xs"
    using spsc_run_reaches [OF assms] by (auto simp: sq_reaches_def)
  have "length xs \<le> cap" using sq_inv_counts [OF inv] by linarith
  then have "\<exists>q. sq_try_push cap v (sq_queue s) = Inr (Returned (length xs < cap), q)" if "p_pc (sq_prod s) = Producer_idle"
    using solo_emplace_of [OF assms(1) inv that, of "Builds v", unfolded ctor.case]
    unfolding sq_try_push_def sq_try_emplace_steps by (cases "length xs = cap") auto
  moreover have "\<exists>q. sq_try_pop cap (sq_queue s) = Inr (case xs of [] \<Rightarrow> None | x # _ \<Rightarrow> Some x, q)"
    if "c_pc (sq_cons s) = Consumer_idle"
    using solo_pop_of [OF assms(1) inv that] unfolding sq_try_pop_steps by (cases xs) auto
  ultimately show ?thesis using producer_progress [of cap s] consumer_progress [of cap s] evs by blast
qed

theorem spsc_wait_free_witness:
  "\<exists>(s :: (nat, 32) sq_system) q. spsc_run 2 [Silent, Silent, Silent, Enqueued 7] s \<and> c_pc (sq_cons s) = Reload_tail \<and>
     sq_try_push 2 8 (sq_queue s) = Inr (Returned True, q)"
proof -
  obtain s :: "(nat, 32) sq_system" where s: "spsc_run 2 [Silent, Silent, Silent, Enqueued 7] s"
    "p_pc (sq_prod s) = Producer_idle" "c_pc (sq_cons s) = Reload_tail"
    using spsc_example by blast
  have "ring_capacity TYPE(32) 2" by (simp add: ring_capacity_def power_of_two_def)
  from spsc_wait_free [OF this s(1), of 8] show ?thesis using s by auto
qed

end
