(* ===== verification/Mpmc_runs.thy ===== *)
theory Mpmc_runs
  imports Mpmc_steps Spsc_spec
begin

text \<open>
  Runs of \<^verbatim>\<open>mpmc_queue.hpp\<close>: any number of threads, each in any order. The values claimed
  form a log; the consumer that takes ticket \<open>n\<close> delivers the \<open>n\<close>th value of it.
\<close>

section \<open>Traces\<close>

primrec claimed :: "'a mq_event list \<Rightarrow> 'a list" where
  "claimed [] = []"
| "claimed (e # evs) = (case e of Claimed v \<Rightarrow> v # claimed evs | _ \<Rightarrow> claimed evs)"

primrec taken :: "'a mq_event list \<Rightarrow> nat list" where
  "taken [] = []"
| "taken (e # evs) = (case e of Taken n \<Rightarrow> n # taken evs | _ \<Rightarrow> taken evs)"

primrec delivered :: "'a mq_event list \<Rightarrow> (nat \<times> 'a) list" where
  "delivered [] = []"
| "delivered (e # evs) = (case e of Pop_done n v \<Rightarrow> (n, v) # delivered evs | _ \<Rightarrow> delivered evs)"

lemma trace_append [simp]:
  "claimed (a @ b) = claimed a @ claimed b" "taken (a @ b) = taken a @ taken b"
  "delivered (a @ b) = delivered a @ delivered b"
  by (induction a) (auto split: mq_event.splits)

definition mq_reaches :: "nat \<Rightarrow> 'a mq_event list \<Rightarrow> ('a, 'w::len) mq_system \<Rightarrow> bool" where
  "mq_reaches cap evs s \<longleftrightarrow> mq_inv cap (claimed evs) s \<and> taken evs = [0..<mq_D s] \<and>
     distinct (map fst (delivered evs)) \<and>
     fst ` set (delivered evs) = {n. n < mq_D s \<and> \<not> taking (mq_threads s) n} \<and>
     (\<forall>(n, v) \<in> set (delivered evs). v = claimed evs ! n)"

lemma taking_same:
  assumes "owns_pop th \<longleftrightarrow> owns_pop (T t)" "owns_pop th \<longrightarrow> t_ticket th = t_ticket (T t)"
  shows "taking (T(t := th)) = taking T"
proof (rule ext)
  fix m
  show "taking (T(t := th)) m = taking T m"
    using ex_upd [where Q = "\<lambda>x. owns_pop x \<and> t_ticket x = m" and T = T and t = t and th = th] assms
    unfolding taking_def by metis
qed

lemma mq_steps_taking:
  fixes s :: "('a, 'w::len) mq_system"
  assumes "mq_inv cap log s" "mq_step h cap t s (Inr (ev, s'))" "\<And>n. ev \<noteq> Taken n" "\<And>n v. ev \<noteq> Pop_done n v"
  shows "taking (mq_threads s') = taking (mq_threads s) \<and> mq_D s' = mq_D s"
proof -
  have "\<exists>th. mq_threads s' = (mq_threads s)(t := th) \<and> (owns_pop th \<longleftrightarrow> owns_pop (mq_threads s t)) \<and>
      (owns_pop th \<longrightarrow> t_ticket th = t_ticket (mq_threads s t)) \<and> mq_D s' = mq_D s"
    using assms(2)
  proof (cases rule: mq_step.cases)
    case Pop_publish
    obtain s1 n where "mq_pop_publish cap t s = Inr (Pop_done n (log ! n), s1)"
      using mq_pop_publish_inv [OF assms(1)] Pop_publish by blast
    then show ?thesis using assms(4) Pop_publish by simp
  qed (use assms(3) in \<open>auto simp: mq_push_enter_def mq_pop_enter_def constructed_passes [OF assms(1)] mq_push_load_sequence_def
      mq_pop_load_sequence_def mq_push_claim_def mq_pop_claim_def mq_push_reload_def mq_pop_reload_def mq_push_construct_def
      mq_push_publish_def mq_pop_move_def mq_pop_destroy_def Let_def set_thread_def owner_defs Inr_eq_bnd
      split: if_splits option.splits\<close>)
  then show ?thesis using taking_same by metis
qed

lemma mq_reaches_quiet:
  assumes "mq_reaches cap evs s" "mq_step h cap t s (Inr (ev, s'))" "mq_inv cap (claimed evs) s'"
    and "ev \<in> {Step_taken, Published, Push_refused, Pop_refused}"
  shows "mq_reaches cap (evs @ [ev]) s'"
proof -
  have "mq_inv cap (claimed evs) s" using assms(1) by (simp add: mq_reaches_def)
  from mq_steps_taking [OF this assms(2)] have "taking (mq_threads s') = taking (mq_threads s)" "mq_D s' = mq_D s"
    using assms(4) by auto
  then show ?thesis using assms(1,3,4) by (auto simp: mq_reaches_def)
qed

lemma mq_reaches_claimed:
  assumes "mq_reaches cap evs s" "mq_step h cap t s (Inr (Claimed v, s'))" "mq_inv cap (claimed evs @ [v]) s'"
  shows "mq_reaches cap (evs @ [Claimed v]) s'"
proof -
  have inv: "mq_inv cap (claimed evs) s" using assms(1) by (simp add: mq_reaches_def)
  from mq_steps_taking [OF this assms(2)] have same: "taking (mq_threads s') = taking (mq_threads s)" "mq_D s' = mq_D s" by auto
  have "n < length (claimed evs)" if "(n, w) \<in> set (delivered evs)" for n w
  proof -
    have "n < mq_D s" using assms(1) that by (force simp: mq_reaches_def)
    then show ?thesis using mq_invD(8,9) [OF inv] by simp
  qed
  then have "w = (claimed evs @ [v]) ! n" if "(n, w) \<in> set (delivered evs)" for n w
    using assms(1) that by (force simp: mq_reaches_def nth_append_left)
  then show ?thesis using assms(1,3) same by (auto simp: mq_reaches_def)
qed

lemma mq_reaches_taken:
  assumes "mq_reaches cap evs s" "mq_pop_claim spurious k t s = Inr (Taken (mq_D s), s')" "t_pc (mq_threads s t) = Pop_claim"
    and "mq_inv cap (claimed evs) s'" "mq_D s' = mq_D s + 1"
  shows "mq_reaches cap (evs @ [Taken (mq_D s)]) s'"
proof -
  let ?th = "mq_threads s t"
  have inv: "mq_inv cap (claimed evs) s" using assms(1) by (simp add: mq_reaches_def)
  have T: "mq_threads s' = (mq_threads s)(t := ?th\<lparr>t_pc := Pop_move\<rparr>)" "t_ticket ?th = mq_D s"
    using assms(2) by (auto simp: mq_pop_claim_def Let_def set_thread_def split: if_splits)
  have free: "\<not> owns_push ?th" "\<not> owns_pop ?th" using assms(3) by (auto simp: owner_defs)
  have "taking (mq_threads s') m \<longleftrightarrow> m = mq_D s \<or> taking (mq_threads s) m" for m
    unfolding T(1) claim_sets(3) [where T = "mq_threads s", OF free] using T(2) by (auto simp: owner_defs)
  then have "{n. n < mq_D s' \<and> \<not> taking (mq_threads s') n} = {n. n < mq_D s \<and> \<not> taking (mq_threads s) n}"
    unfolding assms(5) by (auto simp: less_Suc_eq)
  then show ?thesis using assms(1,4,5) by (auto simp: mq_reaches_def)
qed

lemma mq_reaches_done:
  assumes "mq_reaches cap evs s" "mq_pop_publish cap t s = Inr (Pop_done n (claimed evs ! n), s')"
    and "t_pc (mq_threads s t) = Pop_publish" "n < mq_D s" "mq_inv cap (claimed evs) s'" "mq_D s' = mq_D s"
  shows "mq_reaches cap (evs @ [Pop_done n (claimed evs ! n)]) s'"
proof -
  let ?th = "mq_threads s t"
  have inv: "mq_inv cap (claimed evs) s" using assms(1) by (simp add: mq_reaches_def)
  have own: "owns_pop ?th" using assms(3) by (simp add: owner_defs)
  have T: "mq_threads s' = (mq_threads s)(t := ?th\<lparr>t_pc := Idle\<rparr>)" "t_ticket ?th = n"
    using assms(2) by (auto simp: mq_pop_publish_def Let_def set_thread_def bnd_eq_Inr split: option.splits)
  have taking: "taking (mq_threads s') m \<longleftrightarrow> m \<noteq> n \<and> taking (mq_threads s) m" for m
    unfolding T(1) using pop_owner_sets(1) [OF mq_invD(13) [OF inv] own, of "?th\<lparr>t_pc := Idle\<rparr>" m] T(2) by (simp add: owner_defs)
  have "taking (mq_threads s) n" using own T(2) by (auto simp: taking_def)
  then have fresh: "n \<notin> fst ` set (delivered evs)" using assms(1) by (simp add: mq_reaches_def)
  have "{m. m < mq_D s' \<and> \<not> taking (mq_threads s') m} = insert n {m. m < mq_D s \<and> \<not> taking (mq_threads s) m}"
    using taking assms(4,6) by auto
  then show ?thesis using assms(1,5,6) fresh by (auto simp: mq_reaches_def)
qed

lemma mq_step_reaches:
  fixes s :: "('a, 'w::len) mq_system"
  assumes "mq_reaches cap evs s" "mq_step h cap t s r"
  shows "\<exists>ev s'. r = Inr (ev, s') \<and> mq_reaches cap (evs @ [ev]) s'"
proof -
  have inv: "mq_inv cap (claimed evs) s" using assms(1) by (simp add: mq_reaches_def)
  have quiet: ?thesis if "\<exists>ev s'. r = Inr (ev, s') \<and> mq_inv cap (claimed evs) s' \<and> ev \<in> {Step_taken, Published, Push_refused, Pop_refused}"
    using that mq_reaches_quiet [OF assms(1)] assms(2) by blast
  from assms(2) show ?thesis
  proof (cases rule: mq_step.cases)
    case (Push_claim k spurious)
    obtain ev s' where step: "r = Inr (ev, s')"
      "ev = Step_taken \<and> mq_inv cap (claimed evs) s' \<or> (\<exists>v. ev = Claimed v \<and> mq_inv cap (claimed evs @ [v]) s')"
      using mq_push_claim_inv [OF inv Push_claim(2-4), of spurious] unfolding Push_claim(1) by blast
    from step(2) show ?thesis
      using quiet mq_reaches_claimed [OF assms(1)] assms(2) step(1) by (elim disjE exE) auto
  next
    case (Pop_claim k spurious)
    obtain ev s' where step: "mq_pop_claim spurious k t s = Inr (ev, s')" "mq_inv cap (claimed evs) s'"
      "ev = Step_taken \<or> ev = Taken (mq_D s) \<and> mq_D s' = mq_D s + 1"
      using mq_pop_claim_inv [OF inv Pop_claim(2-4), of spurious] by blast
    from step(3) show ?thesis
      using quiet mq_reaches_taken [OF assms(1) _ Pop_claim(2)] step(1,2) Pop_claim(1) by (elim disjE conjE) auto
  next
    case Pop_publish
    then show ?thesis
      using mq_pop_publish_inv [OF inv Pop_publish(2)] mq_reaches_done [OF assms(1) _ Pop_publish(2)] by metis
  next
    case (Push_load_sequence k v)
    show ?thesis
      by (rule quiet)
        (use mq_push_load_sequence_inv [OF inv Push_load_sequence(2,3) _ Push_load_sequence(5,6)] Push_load_sequence in
          \<open>auto simp: sequence_value_def\<close>)
  next
    case (Pop_load_sequence k v)
    show ?thesis
      by (rule quiet)
        (use mq_pop_load_sequence_inv [OF inv Pop_load_sequence(2,3) _ Pop_load_sequence(5,6)] Pop_load_sequence in
          \<open>auto simp: sequence_value_def\<close>)
  next
    case (Push_enter k v)
    show ?thesis by (rule quiet) (use mq_push_enter_inv [OF inv Push_enter(2,3), of h v] in \<open>auto simp: Push_enter(1)\<close>)
  next
    case (Push_reload k)
    show ?thesis by (rule quiet) (use mq_push_reload_inv [OF inv Push_reload(2,3)] in \<open>auto simp: Push_reload(1)\<close>)
  next
    case Push_construct
    show ?thesis by (rule quiet) (use mq_push_construct_inv [OF inv Push_construct(2)] in \<open>auto simp: Push_construct(1)\<close>)
  next
    case Push_publish
    show ?thesis by (rule quiet) (use mq_push_publish_inv [OF inv Push_publish(2)] in \<open>auto simp: Push_publish(1)\<close>)
  next
    case (Pop_enter k)
    show ?thesis by (rule quiet) (use mq_pop_enter_inv [OF inv Pop_enter(2,3), of h] in \<open>auto simp: Pop_enter(1)\<close>)
  next
    case (Pop_reload k)
    show ?thesis by (rule quiet) (use mq_pop_reload_inv [OF inv Pop_reload(2,3)] in \<open>auto simp: Pop_reload(1)\<close>)
  next
    case Pop_move
    show ?thesis by (rule quiet) (use mq_pop_move_inv [OF inv Pop_move(2)] in \<open>auto simp: Pop_move(1)\<close>)
  next
    case Pop_destroy
    show ?thesis by (rule quiet) (use mq_pop_destroy_inv [OF inv Pop_destroy(2)] in \<open>auto simp: Pop_destroy(1)\<close>)
  qed
qed

section \<open>The start\<close>

lemma mq_new_eq: "mq_new cap = Inr \<lparr>mq_sequence = map of_nat [0..<cap], mq_storage = replicate cap None,
    mq_enqueue_pos = 0, mq_dequeue_pos = (0 :: 'w::len word)\<rparr>"
proof -
  let ?f = "\<lambda>k. map of_nat [0..<k] @ replicate (cap - k) (0 :: 'w word)"
  have "for_upto 0 cap (\<lambda>i seq. arr_set seq i (of_nat i)) (?f 0) = Inr (?f cap)"
  proof (rule for_upto_states)
    fix k assume "k < cap"
    then obtain m where "cap - k = Suc m" "cap - Suc k = m" by (cases "cap - k") auto
    then show "arr_set (?f k) k (of_nat k) = Inr (?f (Suc k))" using \<open>k < cap\<close> by (simp add: list_update_append)
  qed simp
  then show ?thesis by (simp add: mq_new_def)
qed

lemma mq_start_inv:
  assumes "ring_capacity TYPE('w::len) cap" "mq_new cap = Inr q"
  shows "mq_inv cap [] (mq_start cap q :: ('a, 'w) mq_system)"
proof -
  have q: "q = \<lparr>mq_sequence = map of_nat [0..<cap], mq_storage = replicate cap None, mq_enqueue_pos = 0, mq_dequeue_pos = 0\<rparr>"
    using assms(2) unfolding mq_new_eq by simp
  have "cell_ok cap 0 0 (mq_threads (mq_start cap q)) [] i i None" if "i < cap" for i
    using that by (auto simp: cell_ok_def waits_def built_def mq_start_def intro!: exI [of _ i])
  then show ?thesis
    using assms(1) by (intro mq_invI) (simp_all add: q mq_start_def thread_ok_def single_owners_def owner_defs)
qed

lemma mpmc_run_reaches:
  fixes s :: "('a, 'w::len) mq_system"
  assumes "ring_capacity TYPE('w) cap"
  shows "mpmc_run h cap evs s \<Longrightarrow> mq_reaches cap evs s"
proof (induction rule: mpmc_run.induct)
  case (Start q)
  then show ?case using mq_start_inv [OF assms, of q] by (simp add: mq_reaches_def) (simp add: mq_start_def)
next
  case (Step evs s t ev s')
  then show ?case using mq_step_reaches by blast
qed

section \<open>The next cells\<close>

lemma back_one_lap:
  assumes "n mod cap = m mod cap" "n < m" "m \<le> n + cap"
  shows "(m :: nat) = n + cap"
  using assms same_cell [of n m cap] by (cases "m = n + cap") auto

lemma push_cell:
  assumes "mq_inv cap log s"
  shows "mq_S s ! (mq_E s mod cap) = mq_E s \<and> mq_E s < mq_D s + cap \<or>
    (\<exists>n. mq_E s = n + cap \<and> mq_S s ! (mq_E s mod cap) \<in> {n, n + 1} \<and> (mq_E s = mq_D s + cap \<or> taking (mq_threads s) n))"
proof -
  note d = mq_invD [OF assms]
  have "cell_ok cap (mq_E s) (mq_D s) (mq_threads s) log (mq_E s mod cap) (mq_S s ! (mq_E s mod cap)) (mq_storage (mq_queue s) ! (mq_E s mod cap))"
    using d(14) by (intro d(11)) simp
  then show ?thesis
  proof (cases rule: cell_okE)
    case (1 n)
    note w = 1(2) [unfolded waits_def]
    show ?thesis
    proof (cases "n < mq_E s")
      case True
      then have "mq_E s = n + cap" using back_one_lap [OF 1(1)] w d(10) by linarith
      then show ?thesis using w d(10) by auto
    next
      case False
      then have "n = mq_E s" using same_cell [of "mq_E s" n cap] 1(1) w d(9) by simp
      then show ?thesis using w by auto
    qed
  next
    case (2 n)
    note o = 2(2) [unfolded offers_def]
    have "mq_E s = n + cap" using back_one_lap [OF 2(1)] o by linarith
    then show ?thesis using o d(10) by (cases "n < mq_D s") auto
  qed
qed

lemma pop_cell:
  assumes "mq_inv cap log s"
  shows "mq_S s ! (mq_D s mod cap) = mq_D s + 1 \<and> mq_D s < mq_E s \<or>
    mq_S s ! (mq_D s mod cap) \<le> mq_D s \<and> mq_D s < mq_S s ! (mq_D s mod cap) + cap \<and> (mq_D s = mq_E s \<or> producing (mq_threads s) (mq_D s))"
proof -
  note d = mq_invD [OF assms]
  have "cell_ok cap (mq_E s) (mq_D s) (mq_threads s) log (mq_D s mod cap) (mq_S s ! (mq_D s mod cap)) (mq_storage (mq_queue s) ! (mq_D s mod cap))"
    using d(14) by (intro d(11)) simp
  then show ?thesis
  proof (cases rule: cell_okE)
    case (1 n)
    note w = 1(2) [unfolded waits_def]
    have "n = mq_D s" using same_cell [of "mq_D s" n cap] 1(1) w by simp
    then show ?thesis using w d(9,14) by auto
  next
    case (2 n)
    note o = 2(2) [unfolded offers_def]
    show ?thesis
    proof (cases "n < mq_D s")
      case True
      then have "mq_D s = n + cap" using back_one_lap [OF 2(1)] o d(9) by linarith
      then show ?thesis using o d(9,14) by auto
    next
      case False
      then have "n = mq_D s" using same_cell [of "mq_D s" n cap] 2(1) o d(10) by simp
      then show ?thesis using o by auto
    qed
  qed
qed

end
