(* ===== verification/Mpmc_whole.thy ===== *)
theory Mpmc_whole
  imports Mpmc_runs
begin

text \<open>
  The whole operations of \<^verbatim>\<open>mpmc_queue.hpp\<close> when no other thread moves meanwhile, and the
  properties. Other threads may be stopped in the middle of their calls.
\<close>

section \<open>Undisturbed operations\<close>

lemma compare_same: "compare_tickets x (x :: 'w::len word) = 0"
  by (simp add: compare_tickets_def)

lemma solo_push:
  fixes s :: "('a, 'w::len) mq_system"
  assumes "mq_inv cap log s" "t_pc (mq_threads s t) = Idle" "mq_S s ! (mq_E s mod cap) = mq_E s"
  shows "\<exists>s' th. mq_try_push h cap v (mq_queue s) = Inr (Returned True, mq_queue s') \<and> mq_inv cap (log @ [v]) s' \<and>
    mq_D s' = mq_D s \<and> mq_threads s' = (mq_threads s)(t := th) \<and> t_pc th = Idle"
proof -
  note d = mq_invD [OF assms(1)]
  let ?q = "mq_queue s" and ?E = "mq_E s" and ?i = "mq_E s mod cap"
  let ?th = "\<lambda>pc. \<lparr>t_pc = pc, t_pos = of_nat ?E, t_value = Some v, t_ticket = ?E\<rparr> :: ('a, 'w) mq_thread"
  have i: "?i < cap" "mq_index cap (of_nat ?E :: 'w word) = ?i" using d(14) by (simp_all add: mq_index_def ring_index_of_nat [OF d(1)])
  have now: "timely TYPE('w) (?E + cap) ?E" "timely TYPE('w) ?E ?E" using ring_capacity_bounds(3) [OF d(1)] by (auto simp: timely_def)
  let ?s1 = "set_thread t (?th Push_load_sequence) s" and ?s2 = "set_thread t (?th Push_claim) s"
  have inv1: "mq_inv cap log ?s1"
    using mq_push_enter_inv [OF assms(1,2) order_refl, of h v] by (simp add: mq_push_enter_def constructed_passes [OF assms(1)])
  have inv2: "mq_inv cap log ?s2"
    using mq_push_load_sequence_inv [OF inv1, of t ?E ?E] now assms(3)
    by (simp add: mq_push_load_sequence_def compare_same set_thread_def)
  let ?s3 = "(set_thread t (?th Push_construct) s)\<lparr>mq_queue := ?q\<lparr>mq_enqueue_pos := of_nat ?E + 1\<rparr>, mq_E := ?E + 1\<rparr>"
  have inv3: "mq_inv cap (log @ [v]) ?s3"
    using mq_push_claim_inv [OF inv2, of t ?E False] now(2) d(5) by (simp add: mq_push_claim_def set_thread_def)
  obtain s4 where s4: "mq_push_construct cap t ?s3 = Inr (Step_taken, s4)" "mq_inv cap (log @ [v]) s4"
    using mq_push_construct_inv [OF inv3, of t] by (auto simp: set_thread_def)
  obtain st where st: "slot_new (mq_storage ?q) ?i v = Inr st"
    and s4': "s4 = (set_thread t (?th Push_publish) s)\<lparr>mq_queue := ?q\<lparr>mq_enqueue_pos := of_nat ?E + 1, mq_storage := st\<rparr>, mq_E := ?E + 1\<rparr>"
    using s4(1) i(2) by (auto simp: mq_push_construct_def set_thread_def bnd_eq_Inr)
  obtain s5 where s5: "mq_push_publish cap t s4 = Inr (Published, s5)" "mq_inv cap (log @ [v]) s5"
    using mq_push_publish_inv [OF s4(2), of t] by (auto simp: s4' set_thread_def)
  have s5': "mq_queue s5 = ?q\<lparr>mq_enqueue_pos := of_nat ?E + 1, mq_storage := st, mq_sequence := (mq_sequence ?q)[?i := of_nat ?E + 1]\<rparr>"
    "mq_threads s5 = (mq_threads s)(t := ?th Idle)" "mq_D s5 = mq_D s"
    using s5(1) i d(2) by (auto simp: mq_push_publish_def Let_def s4' set_thread_def)
  have seq: "arr_get (mq_sequence ?q) ?i = Inr (of_nat ?E)" using d(2) d(7) [OF i(1)] i(1) assms(3) by simp
  have "mq_push_loop cap (mq_enqueue_pos ?q) ?q = Some (Inr (Some (of_nat ?E)))"
    by (subst mq_push_loop.simps) (simp add: d(5) i(2) seq compare_same)
  then have "mq_try_push h cap v ?q = Inr (Returned True, mq_queue s5)"
    using st i d(2)
    by (simp add: mq_try_push_def mq_try_emplace_def try_claim_and_construct_def constructed_passes [OF assms(1)] s5')
  then show ?thesis using s5(2) s5' by (intro exI [of _ s5] exI [of _ "?th Idle"]) simp
qed

lemma solo_pop_taken:
  fixes s :: "('a, 'w::len) mq_system"
  assumes "mq_inv cap log s" "t_pc (mq_threads s t) = Idle" "mq_S s ! (mq_D s mod cap) = mq_D s + 1"
  shows "\<exists>s' th. mq_try_pop h cap (mq_queue s) = Inr (Some (log ! mq_D s), mq_queue s') \<and> mq_inv cap log s' \<and>
    mq_D s' = mq_D s + 1 \<and> mq_E s' = mq_E s \<and> mq_threads s' = (mq_threads s)(t := th) \<and> t_pc th = Idle"
proof -
  note d = mq_invD [OF assms(1)]
  let ?q = "mq_queue s" and ?D = "mq_D s" and ?i = "mq_D s mod cap"
  let ?th = "\<lambda>pc v. \<lparr>t_pc = pc, t_pos = of_nat ?D, t_value = v, t_ticket = ?D\<rparr> :: ('a, 'w) mq_thread"
  have i: "?i < cap" "mq_index cap (of_nat ?D :: 'w word) = ?i" using d(14) by (simp_all add: mq_index_def ring_index_of_nat [OF d(1)])
  have lt: "?D < mq_E s" using pop_cell [OF assms(1)] assms(3) by auto
  have now: "timely TYPE('w) ?D ?D" "timely TYPE('w) (?D + 1) (?D + 1)" by (auto simp: timely_def)
  let ?s2 = "set_thread t (?th Pop_claim None) s"
  have inv2: "mq_inv cap log ?s2"
    using assms d(6) by (intro quiet_inv) (auto simp: owner_defs thread_ok_def)
  let ?s3 = "(set_thread t (?th Pop_move None) s)\<lparr>mq_queue := ?q\<lparr>mq_dequeue_pos := of_nat ?D + 1\<rparr>, mq_D := ?D + 1\<rparr>"
  have inv3: "mq_inv cap log ?s3"
    using mq_pop_claim_inv [OF inv2, of t ?D False] now(1) d(6) by (simp add: mq_pop_claim_def set_thread_def)
  obtain s4 where s4: "mq_pop_move cap t ?s3 = Inr (Step_taken, s4)" "mq_inv cap log s4"
    using mq_pop_move_inv [OF inv3, of t] by (auto simp: set_thread_def)
  obtain v where v: "slot_get (mq_storage ?q) ?i = Inr v"
    and s4': "s4 = (set_thread t (?th Pop_destroy (Some v)) s)\<lparr>mq_queue := ?q\<lparr>mq_dequeue_pos := of_nat ?D + 1\<rparr>, mq_D := ?D + 1\<rparr>"
    using s4(1) i(2) by (auto simp: mq_pop_move_def set_thread_def bnd_eq_Inr)
  obtain s5 where s5: "mq_pop_destroy cap t s4 = Inr (Step_taken, s5)" "mq_inv cap log s5"
    using mq_pop_destroy_inv [OF s4(2), of t] by (auto simp: s4' set_thread_def)
  obtain st where st: "slot_destroy (mq_storage ?q) ?i = Inr st"
    and s5': "s5 = (set_thread t (?th Pop_publish (Some v)) s)\<lparr>mq_queue := ?q\<lparr>mq_dequeue_pos := of_nat ?D + 1, mq_storage := st\<rparr>, mq_D := ?D + 1\<rparr>"
    using s5(1) i(2) by (auto simp: mq_pop_destroy_def s4' set_thread_def bnd_eq_Inr)
  obtain s6 n where s6: "mq_pop_publish cap t s5 = Inr (Pop_done n (log ! n), s6)" "mq_inv cap log s6"
    using mq_pop_publish_inv [OF s5(2), of t] by (auto simp: s5' set_thread_def)
  have s6': "n = ?D" "log ! n = v" "mq_D s6 = ?D + 1" "mq_E s6 = mq_E s" "mq_threads s6 = (mq_threads s)(t := ?th Idle (Some v))"
    "mq_queue s6 = ?q\<lparr>mq_dequeue_pos := of_nat ?D + 1, mq_storage := st, mq_sequence := (mq_sequence ?q)[?i := of_nat ?D + of_nat cap]\<rparr>"
    using s6(1) i d(2) by (auto simp: mq_pop_publish_def Let_def s5' set_thread_def)
  have seq: "arr_get (mq_sequence ?q) ?i = Inr (of_nat ?D + 1)" using d(2) d(7) [OF i(1)] i(1) assms(3) by (simp add: add.commute)
  have "mq_pop_loop cap (mq_dequeue_pos ?q) ?q = Some (Inr (Some (of_nat ?D)))"
    by (subst mq_pop_loop.simps) (simp add: d(6) i(2) seq compare_same)
  then have "mq_try_pop h cap ?q = Inr (Some (log ! ?D), mq_queue s6)"
    using st v i d(2) s6' by (simp add: mq_try_pop_def constructed_passes [OF assms(1)])
  then show ?thesis using s6(2) s6' by (intro exI [of _ s6] exI [of _ "?th Idle (Some v)"]) simp
qed

lemma solo_push_full:
  fixes s :: "('a, 'w::len) mq_system"
  assumes "mq_inv cap log s" "mq_S s ! (mq_E s mod cap) \<noteq> mq_E s"
  shows "mq_try_push h cap v (mq_queue s) = Inr (Returned False, mq_queue s)"
proof -
  note d = mq_invD [OF assms(1)]
  let ?q = "mq_queue s" and ?E = "mq_E s" and ?i = "mq_E s mod cap"
  have i: "?i < cap" "mq_index cap (of_nat ?E :: 'w word) = ?i" using d(14) by (simp_all add: mq_index_def ring_index_of_nat [OF d(1)])
  have S: "mq_S s ! ?i < ?E" "?E \<le> mq_S s ! ?i + cap" using push_cell [OF assms(1)] assms(2) d(14) by auto
  have "compare_tickets (of_nat (mq_S s ! ?i)) (of_nat ?E :: 'w word) = sgn (int (mq_S s ! ?i) - int ?E)"
    using S ring_capacity_bounds(3) [OF d(1)] by (intro compare_tickets_exact) linarith+
  then have "compare_tickets (of_nat (mq_S s ! ?i)) (of_nat ?E :: 'w word) = - 1" using S by simp
  then have "mq_push_loop cap (mq_enqueue_pos ?q) ?q = Some (Inr None)"
    using d(2) d(7) [OF i(1)] i by (subst mq_push_loop.simps) (simp add: d(5))
  then show ?thesis
    by (simp add: mq_try_push_def mq_try_emplace_def try_claim_and_construct_def constructed_passes [OF assms(1)])
qed

lemma solo_pop_empty:
  fixes s :: "('a, 'w::len) mq_system"
  assumes "mq_inv cap log s" "mq_S s ! (mq_D s mod cap) \<noteq> mq_D s + 1"
  shows "mq_try_pop h cap (mq_queue s) = Inr (None, mq_queue s)"
proof -
  note d = mq_invD [OF assms(1)]
  let ?q = "mq_queue s" and ?D = "mq_D s" and ?i = "mq_D s mod cap"
  have i: "?i < cap" "mq_index cap (of_nat ?D :: 'w word) = ?i" using d(14) by (simp_all add: mq_index_def ring_index_of_nat [OF d(1)])
  have S: "mq_S s ! ?i \<le> ?D" "?D < mq_S s ! ?i + cap" using pop_cell [OF assms(1)] assms(2) by auto
  have "compare_tickets (of_nat (mq_S s ! ?i)) (of_nat (?D + 1) :: 'w word) = sgn (int (mq_S s ! ?i) - int (?D + 1))"
    using S ring_capacity_bounds(3) [OF d(1)] by (intro compare_tickets_exact) linarith+
  then have "compare_tickets (of_nat (mq_S s ! ?i)) (of_nat ?D + 1 :: 'w word) = - 1" using S by (simp add: add.commute)
  then have "mq_pop_loop cap (mq_dequeue_pos ?q) ?q = Some (Inr None)"
    using d(2) d(7) [OF i(1)] i by (subst mq_pop_loop.simps) (simp add: d(6))
  then show ?thesis by (simp add: mq_try_pop_def constructed_passes [OF assms(1)])
qed

section \<open>Queues at rest\<close>

definition all_idle :: "('a, 'w::len) mq_system \<Rightarrow> bool" where
  "all_idle s \<longleftrightarrow> (\<forall>t. t_pc (mq_threads s t) = Idle)"

lemma idle_sets:
  assumes "all_idle s"
  shows "\<not> producing (mq_threads s) n" "\<not> built (mq_threads s) n" "\<not> taking (mq_threads s) n" "\<not> reading (mq_threads s) n"
  using assms by (auto simp: all_idle_def producing_def built_def taking_def reading_def owner_defs)

definition mq_repr :: "nat \<Rightarrow> ('a, 'w::len) mpmc_queue \<Rightarrow> 'a list \<Rightarrow> bool" where
  "mq_repr cap q xs \<longleftrightarrow> (\<exists>s log. mq_inv cap log s \<and> all_idle s \<and> mq_queue s = q \<and> xs = drop (mq_D s) log)"

lemma mq_new_repr:
  assumes "ring_capacity TYPE('w::len) cap" "mq_new cap = Inr (q :: ('a, 'w) mpmc_queue)"
  shows "mq_repr cap q []"
  unfolding mq_repr_def
  using mq_start_inv [OF assms] by (intro exI [of _ "mq_start cap q"] exI [of _ "[]"]) (simp add: all_idle_def mq_start_def)

interpretation mpmc_channel: bounded_channel "mq_try_push h cap" "mq_try_pop h cap" "mq_repr cap" cap
proof
  fix q :: "('a, 'w::len) mpmc_queue" and xs :: "'a list" and x v :: 'a
  assume "mq_repr cap q xs"
  then obtain s log where s: "mq_inv cap log s" "all_idle s" "mq_queue s = q" "xs = drop (mq_D s) log" by (auto simp: mq_repr_def)
  note d = mq_invD [OF s(1)]
  have len: "length xs = mq_E s - mq_D s" using s(4) d(8) by simp
  {
    assume "length xs < cap"
    then have "mq_S s ! (mq_E s mod cap) = mq_E s" using push_cell [OF s(1)] idle_sets [OF s(2)] len d(9) by auto
    then obtain s' th where s': "mq_try_push h cap v q = Inr (Returned True, mq_queue s')" "mq_inv cap (log @ [v]) s'"
      "mq_D s' = mq_D s" "mq_threads s' = (mq_threads s)(0 := th)" "t_pc th = Idle"
      using solo_push [OF s(1), of 0] s(2,3) unfolding all_idle_def by metis
    have "all_idle s'" using s(2) s'(4,5) by (simp add: all_idle_def)
    moreover have "xs @ [v] = drop (mq_D s') (log @ [v])" using s(4) s'(3) d(8,9) by simp
    ultimately show "\<exists>q'. mq_try_push h cap v q = Inr (Returned True, q') \<and> mq_repr cap q' (xs @ [v])"
      using s'(1,2) unfolding mq_repr_def by blast
  }
  assume full: "\<not> length xs < cap"
  then have "mq_S s ! (mq_E s mod cap) \<noteq> mq_E s" using push_cell [OF s(1)] len d(10,14) by auto
  then show "\<exists>q'. mq_try_push h cap v q = Inr (Returned False, q') \<and> mq_repr cap q' xs"
    using solo_push_full [OF s(1), of h v] s unfolding mq_repr_def by blast
next
  fix q :: "('a, 'w::len) mpmc_queue" and xs :: "'a list" and x :: 'a
  assume "mq_repr cap q (x # xs)"
  then obtain s log where s: "mq_inv cap log s" "all_idle s" "mq_queue s = q" "x # xs = drop (mq_D s) log" by (auto simp: mq_repr_def)
  note d = mq_invD [OF s(1)]
  have "mq_D s < mq_E s" using s(4) d(8) by (metis drop_eq_Nil list.distinct(1) not_le)
  then have "mq_S s ! (mq_D s mod cap) = mq_D s + 1" using pop_cell [OF s(1)] idle_sets [OF s(2)] by auto
  then obtain s' th where s': "mq_try_pop h cap q = Inr (Some (log ! mq_D s), mq_queue s')" "mq_inv cap log s'"
    "mq_D s' = mq_D s + 1" "mq_threads s' = (mq_threads s)(0 := th)" "t_pc th = Idle"
    using solo_pop_taken [OF s(1), of 0] s(2,3) unfolding all_idle_def by metis
  have "all_idle s'" using s(2) s'(4,5) by (simp add: all_idle_def)
  moreover have "x # xs = log ! mq_D s # drop (mq_D s + 1) log"
    using s(4) Cons_nth_drop_Suc [of "mq_D s" log] \<open>mq_D s < mq_E s\<close> d(8) by (metis Suc_eq_plus1)
  then have "log ! mq_D s = x" "xs = drop (mq_D s') log" using s'(3) by auto
  ultimately show "\<exists>q'. mq_try_pop h cap q = Inr (Some x, q') \<and> mq_repr cap q' xs"
    using s'(1,2) unfolding mq_repr_def by blast
next
  fix q :: "('a, 'w::len) mpmc_queue"
  assume "mq_repr cap q []"
  then obtain s log where s: "mq_inv cap log s" "all_idle s" "mq_queue s = q" "[] = drop (mq_D s) log" by (auto simp: mq_repr_def)
  have "mq_D s = mq_E s" using s(4) mq_invD(8,9) [OF s(1)] by simp
  then have "mq_S s ! (mq_D s mod cap) \<noteq> mq_D s + 1" using pop_cell [OF s(1)] by auto
  then show "\<exists>q'. mq_try_pop h cap q = Inr (None, q') \<and> mq_repr cap q' []"
    using solo_pop_empty [OF s(1), of h] s unfolding mq_repr_def by blast
qed

section \<open>Sizes, the destructor and retries\<close>

text \<open>The size queries on a position loaded after \<open>k\<close> takings and one loaded after \<open>l\<close> claims.\<close>

lemma mq_queries_of_counts:
  assumes "ring_capacity TYPE('w::len) cap" "k < l + 2 ^ (LENGTH('w) - 1)" "l < k + 2 ^ (LENGTH('w) - 1)"
  shows "unat (mq_size_approx cap (of_nat k) (of_nat l) :: 'w word) = min (l - k) cap"
    "mq_empty cap (of_nat k) (of_nat l :: 'w word) \<longleftrightarrow> l \<le> k" "mq_full cap (of_nat k) (of_nat l :: 'w word) \<longleftrightarrow> k + cap \<le> l"
proof -
  note b = ring_capacity_bounds [OF assms(1)] and two = two_halves [where 'w = 'w]
  show size: "unat (mq_size_approx cap (of_nat k) (of_nat l) :: 'w word) = min (l - k) cap"
    unfolding mq_size_approx_def using assms b two by (intro clamped_index_distance_exact) auto
  show "mq_empty cap (of_nat k) (of_nat l :: 'w word) \<longleftrightarrow> l \<le> k"
    unfolding mq_empty_def word_unat_eq_iff size using b by auto
  have "unat (of_nat cap :: 'w word) = cap" using b by (simp add: unsigned_of_nat take_bit_nat_eq_self)
  then show "mq_full cap (of_nat k) (of_nat l :: 'w word) \<longleftrightarrow> k + cap \<le> l"
    unfolding mq_full_def word_le_nat_alt size using b by auto
qed

lemma mq_inv_near:
  fixes s :: "('a, 'w::len) mq_system"
  assumes "mq_inv cap log s"
  shows "mq_D s < mq_E s + 2 ^ (LENGTH('w) - 1)" "mq_E s < mq_D s + 2 ^ (LENGTH('w) - 1)"
  using mq_invD(9,10) [OF assms] ring_capacity_bounds [OF mq_invD(1) [OF assms]] by (auto intro: le_less_trans)

text \<open>In a run too short to come near the wrap-around every thread is timely.\<close>

lemma timely_early: "newest < 2 ^ (LENGTH('w::len) - 1) \<Longrightarrow> timely TYPE('w) newest old"
  by (simp add: timely_def)

lemma mq_drain_eq: "mq_drain cap pos end_pos st = sq_drain cap pos end_pos st"
proof (induction cap pos end_pos st rule: mq_drain.induct)
  case (1 cap pos end_pos st)
  then show ?case
    by (subst mq_drain.simps, subst sq_drain.simps)
      (cases "slot_destroy st (mq_index cap pos)", auto simp: mq_index_def sq_slot_def)
qed

lemma mq_delete_idle:
  fixes s :: "('a, 'w::len) mq_system"
  assumes "mq_inv cap log s" "all_idle s"
  shows "mq_delete cap (mq_queue s) = Inr (replicate cap None)"
proof -
  note d = mq_invD [OF assms(1)]
  have "mq_storage (mq_queue s) ! (n mod cap) \<noteq> None \<longleftrightarrow> mq_D s \<le> n \<and> n < mq_E s" if n: "mq_D s \<le> n" "n < mq_D s + cap" for n
  proof -
    have "cell_ok cap (mq_E s) (mq_D s) (mq_threads s) log (n mod cap) (mq_S s ! (n mod cap)) (mq_storage (mq_queue s) ! (n mod cap))"
      using d(14) by (intro d(11)) simp
    then show ?thesis
    proof (cases rule: cell_okE)
      case (1 m)
      note w = 1(2) [unfolded waits_def]
      have "m = n" using window_inj [of "mq_D s" m cap n] 1(1) w n by simp
      then show ?thesis using w idle_sets [OF assms(2)] by auto
    next
      case (2 m)
      note o = 2(2) [unfolded offers_def]
      then have "mq_D s \<le> m" using idle_sets [OF assms(2)] by auto
      then have "m = n" using window_inj [of "mq_D s" m cap n] 2(1) o n d(10) by simp
      then show ?thesis using o idle_sets [OF assms(2)] by auto
    qed
  qed
  then show ?thesis
    using sq_drain_of [OF d(1,3) order_refl d(9,10)] by (simp add: mq_delete_def mq_drain_eq d(5,6))
qed

text \<open>A thread only goes round its loop when another has claimed the ticket it wanted.\<close>

lemma passed_push:
  assumes "mq_inv cap log s" "k < mq_S s ! (k mod cap)" "k \<le> mq_E s"
  shows "k < mq_E s"
proof (rule ccontr)
  assume "\<not> ?thesis"
  then have "k = mq_E s" using assms(3) by simp
  then show False using push_cell [OF assms(1)] assms(2) mq_invD(14) [OF assms(1)] by auto
qed

lemma passed_pop:
  assumes "mq_inv cap log s" "k + 1 < mq_S s ! (k mod cap)" "k \<le> mq_D s"
  shows "k < mq_D s"
proof (rule ccontr)
  assume "\<not> ?thesis"
  then have "k = mq_D s" using assms(3) by simp
  then show False using pop_cell [OF assms(1)] assms(2) by auto
qed

lemma push_retries:
  fixes s :: "('a, 'w::len) mq_system"
  assumes "mq_inv cap log s"
    and "mq_step h cap t s (Inr (ev, s'))" "t_pc (mq_threads s t) = Push_load_sequence" "t_pc (mq_threads s' t) = Push_reload"
  shows "t_ticket (mq_threads s t) < mq_E s"
  using assms(2)
proof (cases rule: mq_step.cases)
  case (Push_load_sequence k v)
  note d = mq_invD [OF assms(1)]
  have le: "v \<le> mq_S s ! (k mod cap)" using Push_load_sequence(4) by (simp add: sequence_value_def)
  have pos: "t_pos (mq_threads s t) = of_nat k" "k \<le> mq_E s"
    using thread_okD(1,2) [OF d(12) [of t]] assms(3) Push_load_sequence(3) by auto
  have "mq_S s ! (k mod cap) \<le> mq_E s + cap" using sequence_bound [OF assms(1)] d(14) by simp
  then have "compare_tickets (of_nat v) (of_nat k :: 'w word) = sgn (int v - int k)"
    using Push_load_sequence(5,6) le by (intro compare_tickets_exact) (auto simp: timely_def)
  then have "k < v"
    using Push_load_sequence(1) assms(4) pos(1)
    by (auto simp: mq_push_load_sequence_def Let_def set_thread_def sgn_if split: if_splits)
  then show ?thesis using passed_push [OF assms(1), of k] le pos(2) Push_load_sequence(3) by simp
qed (use assms(3) in auto)

lemma pop_retries:
  fixes s :: "('a, 'w::len) mq_system"
  assumes "mq_inv cap log s"
    and "mq_step h cap t s (Inr (ev, s'))" "t_pc (mq_threads s t) = Pop_load_sequence" "t_pc (mq_threads s' t) = Pop_reload"
  shows "t_ticket (mq_threads s t) < mq_D s"
  using assms(2)
proof (cases rule: mq_step.cases)
  case (Pop_load_sequence k v)
  note d = mq_invD [OF assms(1)]
  have le: "v \<le> mq_S s ! (k mod cap)" using Pop_load_sequence(4) by (simp add: sequence_value_def)
  have pos: "t_pos (mq_threads s t) + 1 = of_nat (k + 1)" "k \<le> mq_D s"
    using thread_okD(1,3) [OF d(12) [of t]] assms(3) Pop_load_sequence(3) by auto
  have "mq_S s ! (k mod cap) \<le> mq_E s + cap" using sequence_bound [OF assms(1)] d(14) by simp
  then have cmp: "compare_tickets (of_nat v) (of_nat (k + 1) :: 'w word) = sgn (int v - int (k + 1))"
    using Pop_load_sequence(5,6) le by (intro compare_tickets_exact) (auto simp: timely_def)
  have "k + 1 < v"
    using Pop_load_sequence(1) assms(4) unfolding mq_pop_load_sequence_def Let_def pos(1) cmp
    by (auto simp: set_thread_def sgn_if split: if_splits)
  then show ?thesis using passed_pop [OF assms(1), of k] le pos(2) Pop_load_sequence(3) by simp
qed (use assms(3) in auto)

lemma lost_claims:
  fixes s :: "('a, 'w::len) mq_system"
  assumes "mq_inv cap log s"
  shows "t_pc (mq_threads s t) = Push_claim \<Longrightarrow> mq_push_claim False k t s = Inr (Step_taken, s') \<Longrightarrow> t_ticket (mq_threads s t) < mq_E s"
    and "t_pc (mq_threads s t) = Pop_claim \<Longrightarrow> mq_pop_claim False k t s = Inr (Step_taken, s') \<Longrightarrow> t_ticket (mq_threads s t) < mq_D s"
proof -
  note d = mq_invD [OF assms] and ok = thread_okD(1,2,3) [OF mq_invD(12) [OF assms], of t]
  show "t_ticket (mq_threads s t) < mq_E s" if "t_pc (mq_threads s t) = Push_claim" "mq_push_claim False k t s = Inr (Step_taken, s')"
    using that ok d(5) by (cases "t_ticket (mq_threads s t) = mq_E s") (auto simp: mq_push_claim_def Let_def)
  show "t_ticket (mq_threads s t) < mq_D s" if "t_pc (mq_threads s t) = Pop_claim" "mq_pop_claim False k t s = Inr (Step_taken, s')"
    using that ok d(6) by (cases "t_ticket (mq_threads s t) = mq_D s") (auto simp: mq_pop_claim_def Let_def)
qed

text \<open>A run: thread 3 claims the first ticket for the value 7.\<close>

lemma mpmc_example:
  "\<exists>s :: (nat, 32) mq_system. mpmc_run METL_HARDENING_DEBUG 2 [Step_taken, Step_taken, Claimed 7] s \<and> t_pc (mq_threads s 0) = Idle"
proof -
  obtain q :: "(nat, 32) mpmc_queue" where q: "mq_new 2 = Inr q" using mq_new_eq by blast
  have q': "mq_sequence q = [0, 1]" "mq_enqueue_pos q = 0" using q unfolding mq_new_eq by (auto simp: numeral_2_eq_2)
  let ?h = METL_HARDENING_DEBUG and ?s0 = "mq_start 2 q"
  let ?th = "\<lambda>pc. \<lparr>t_pc = pc, t_pos = 0, t_value = Some 7, t_ticket = 0\<rparr> :: (nat, 32) mq_thread"
  let ?s1 = "set_thread 3 (?th Push_load_sequence) ?s0" and ?s2 = "set_thread 3 (?th Push_claim) ?s0"
  let ?s3 = "(set_thread 3 (?th Push_construct) ?s0)\<lparr>mq_queue := q\<lparr>mq_enqueue_pos := 1\<rparr>, mq_E := 1\<rparr>"
  have 0: "mpmc_run ?h 2 [] ?s0" using q by (rule mpmc_run.Start)
  have "mq_step ?h 2 3 ?s0 (mq_push_enter ?h 2 7 0 3 ?s0)" by (rule mq_step.Push_enter) (simp_all add: mq_start_def)
  then have "mq_step ?h 2 3 ?s0 (Inr (Step_taken, ?s1))" by (simp add: mq_push_enter_def require_constructed_def mq_start_def)
  with 0 have 1: "mpmc_run ?h 2 ([] @ [Step_taken]) ?s1" by (rule mpmc_run.Step)
  have "mq_step ?h 2 3 ?s1 (mq_push_load_sequence (of_nat 0) 3 ?s1)"
    by (rule mq_step.Push_load_sequence [where k = 0]) (simp_all add: set_thread_def mq_start_def sequence_value_def timely_def)
  then have "mq_step ?h 2 3 ?s1 (Inr (Step_taken, ?s2))"
    by (simp add: mq_push_load_sequence_def compare_same set_thread_def)
  with 1 have 2: "mpmc_run ?h 2 (([] @ [Step_taken]) @ [Step_taken]) ?s2" by (rule mpmc_run.Step)
  have "mq_step ?h 2 3 ?s2 (mq_push_claim False 0 3 ?s2)"
    by (rule mq_step.Push_claim) (simp_all add: set_thread_def mq_start_def timely_def)
  then have "mq_step ?h 2 3 ?s2 (Inr (Claimed 7, ?s3))"
    by (simp add: mq_push_claim_def set_thread_def mq_start_def q')
  with 2 have "mpmc_run ?h 2 ((([] @ [Step_taken]) @ [Step_taken]) @ [Claimed 7]) ?s3" by (rule mpmc_run.Step)
  then show ?thesis by (intro exI [of _ ?s3]) (simp add: set_thread_def mq_start_def)
qed

section \<open>Properties\<close>

text \<open>
  C31: In every interleaving of any number of producers and consumers of \<^verbatim>\<open>mpmc_queue\<close>
  in which no thread is overtaken by half the range of \<^verbatim>\<open>size_t\<close> between two of its
  steps (the premises \<open>timely\<close> of a step, which hold by themselves while fewer than
  half the range's values, less \<^verbatim>\<open>Capacity\<close>, have been pushed), at every hardening level,
  for every width of \<^verbatim>\<open>size_t\<close> and across its wrap-around, with loads that may return
  older values and compare-exchanges that may fail spuriously: tickets are taken in
  order, the value delivered for a ticket is the value claimed under it, no ticket
  is delivered twice, and at most \<^verbatim>\<open>Capacity\<close> values are in between; no step builds over
  a live element, reads or destroys a missing one, or fails the check that the
  constructor has run; two threads never work on the same cell; and when all threads
  are done every taken ticket has been delivered and the destructor destroys exactly
  what is left. The size queries are hints: whatever two values their relaxed loads
  return, \<^verbatim>\<open>size_approx\<close> is at most \<^verbatim>\<open>Capacity\<close>. If the loads, at whatever two moments, return
  the position after \<open>k\<close> pops and the one after \<open>l\<close> pushes have claimed their tickets,
  less than half the range apart, the answer is \<open>l - k\<close>, cut off at 0 and \<^verbatim>\<open>Capacity\<close>; and
  if both return the current values, it is the number of tickets in between.
\<close>

theorem mpmc_all_interleavings:
  fixes s :: "('a, 'w::len) mq_system"
  assumes "ring_capacity TYPE('w) cap" "mpmc_run h cap evs s"
  shows "taken evs = [0..<length (taken evs)] \<and>
     length (taken evs) \<le> length (claimed evs) \<and> length (claimed evs) \<le> length (taken evs) + cap \<and>
     distinct (map fst (delivered evs)) \<and> fst ` set (delivered evs) \<subseteq> set (taken evs) \<and>
     (\<forall>n v. (n, v) \<in> set (delivered evs) \<longrightarrow> v = claimed evs ! n) \<and>
     (\<forall>t r. mq_step h cap t s r \<longrightarrow> (\<exists>ev s'. r = Inr (ev, s'))) \<and>
     (\<forall>t u. t \<noteq> u \<longrightarrow> {t_pc (mq_threads s t), t_pc (mq_threads s u)} \<subseteq>
          {Push_construct, Push_publish, Pop_move, Pop_destroy, Pop_publish} \<longrightarrow>
        mq_index cap (t_pos (mq_threads s t)) \<noteq> mq_index cap (t_pos (mq_threads s u))) \<and>
     (all_idle s \<longrightarrow> fst ` set (delivered evs) = set (taken evs) \<and> mq_delete cap (mq_queue s) = Inr (replicate cap None)) \<and>
     (length (claimed evs) + cap < 2 ^ (LENGTH('w) - 1) \<longrightarrow> (\<forall>newest old. newest \<le> mq_E s + cap \<longrightarrow> timely TYPE('w) newest old)) \<and>
     mq_dequeue_pos (mq_queue s) = of_nat (length (taken evs)) \<and> mq_enqueue_pos (mq_queue s) = of_nat (length (claimed evs)) \<and>
     (\<forall>head tail :: 'w word. unat (mq_size_approx cap head tail) \<le> cap) \<and>
     (\<forall>k l. k \<le> length (taken evs) \<and> l \<le> length (claimed evs) \<and>
        k < l + 2 ^ (LENGTH('w) - 1) \<and> l < k + 2 ^ (LENGTH('w) - 1) \<longrightarrow>
        unat (mq_size_approx cap (of_nat k) (of_nat l) :: 'w word) = min (l - k) cap \<and>
        (mq_empty cap (of_nat k) (of_nat l :: 'w word) \<longleftrightarrow> l \<le> k) \<and>
        (mq_full cap (of_nat k) (of_nat l :: 'w word) \<longleftrightarrow> k + cap \<le> l)) \<and>
     unat (mq_size_approx cap (mq_dequeue_pos (mq_queue s)) (mq_enqueue_pos (mq_queue s))) = length (claimed evs) - length (taken evs) \<and>
     (mq_empty cap (mq_dequeue_pos (mq_queue s)) (mq_enqueue_pos (mq_queue s)) \<longleftrightarrow> length (claimed evs) = length (taken evs)) \<and>
     (mq_full cap (mq_dequeue_pos (mq_queue s)) (mq_enqueue_pos (mq_queue s)) \<longleftrightarrow> length (claimed evs) = length (taken evs) + cap)"
proof -
  have r: "mq_reaches cap evs s" using mpmc_run_reaches [OF assms] .
  then have inv: "mq_inv cap (claimed evs) s" and tk: "taken evs = [0..<mq_D s]" by (simp_all add: mq_reaches_def)
  note d = mq_invD [OF inv]
  have steps: "\<exists>ev s'. x = Inr (ev, s')" if "mq_step h cap t s x" for t x using mq_step_reaches [OF r that] by blast
  have race: "mq_index cap (t_pos (mq_threads s t)) \<noteq> mq_index cap (t_pos (mq_threads s u))"
    if "t \<noteq> u" "{t_pc (mq_threads s t), t_pc (mq_threads s u)} \<subseteq> {Push_construct, Push_publish, Pop_move, Pop_destroy, Pop_publish}" for t u
  proof -
    have own: "owns_push (mq_threads s x) \<or> owns_pop (mq_threads s x)" "t_pc (mq_threads s x) \<noteq> Idle" if "x \<in> {t, u}" for x
      using that \<open>{t_pc (mq_threads s t), t_pc (mq_threads s u)} \<subseteq> _\<close> by (auto simp: owner_defs)
    then show ?thesis
      using cell_exclusive [OF inv, of u t] that(1) owned_cell(2) [OF inv refl, of t] owned_cell(2) [OF inv refl, of u] by auto
  qed
  have idle: "fst ` set (delivered evs) = set (taken evs)" if "all_idle s"
    using r idle_sets(3) [OF that] tk by (auto simp: mq_reaches_def)
  have counts: "length (taken evs) = mq_D s" "length (claimed evs) = mq_E s" using tk d(8) by simp_all
  have pos: "mq_dequeue_pos (mq_queue s) = of_nat (mq_D s)" "mq_enqueue_pos (mq_queue s) = of_nat (mq_E s)" using d(6,5) .
  have clamp: "unat (mq_size_approx cap head tail) \<le> cap" for head tail :: "'w word"
    unfolding mq_size_approx_def using ring_capacity_bounds [OF assms(1)] by (intro clamped_index_distance_bounded) simp
  note now = mq_queries_of_counts [OF assms(1) mq_inv_near [OF inv]]
  show ?thesis
    unfolding counts pos now
    using r tk d(9,10) clamp mq_queries_of_counts [OF assms(1)] timely_early [where 'w = 'w] steps race idle mq_delete_idle [OF inv]
    by (intro conjI allI impI) (auto simp: mq_reaches_def)
qed

theorem mpmc_all_interleavings_witness:
  "\<exists>s :: (nat, 32) mq_system. mpmc_run METL_HARDENING_DEBUG 2 [Step_taken, Step_taken, Claimed 7] s \<and>
     unat (mq_size_approx 2 (mq_dequeue_pos (mq_queue s)) (mq_enqueue_pos (mq_queue s))) = 1 \<and>
     unat (mq_size_approx 2 5 (3 :: 32 word)) \<le> 2"
proof -
  obtain s :: "(nat, 32) mq_system" where s: "mpmc_run METL_HARDENING_DEBUG 2 [Step_taken, Step_taken, Claimed 7] s"
    using mpmc_example by blast
  have "ring_capacity TYPE(32) 2" by (simp add: ring_capacity_def power_of_two_def)
  from mpmc_all_interleavings [OF this s] show ?thesis using s by auto
qed

text \<open>
  C32: \<^verbatim>\<open>mpmc_queue\<close> is lock-free: a producer or consumer goes round its loop again only when
  another thread has claimed the ticket it was after (or a weak compare-exchange
  failed spuriously). From every reachable state, with any threads stopped
  anywhere, an undisturbed \<^verbatim>\<open>try_push\<close> or \<^verbatim>\<open>try_pop\<close> returns after at most one attempt; the push
  fails only when the queue is full or a consumer has stopped inside the cell it
  needs, and the pop, which returns the oldest value, only when the queue is empty
  or a producer has stopped inside the cell it needs.
\<close>

theorem mpmc_lock_free:
  fixes s :: "('a, 'w::len) mq_system"
  assumes "ring_capacity TYPE('w) cap" "mpmc_run h cap evs s"
  shows "(\<forall>t ev s'. mq_step h cap t s (Inr (ev, s')) \<longrightarrow>
        (t_pc (mq_threads s t) = Push_load_sequence \<and> t_pc (mq_threads s' t) = Push_reload \<longrightarrow> t_ticket (mq_threads s t) < mq_E s) \<and>
        (t_pc (mq_threads s t) = Pop_load_sequence \<and> t_pc (mq_threads s' t) = Pop_reload \<longrightarrow> t_ticket (mq_threads s t) < mq_D s)) \<and>
     (\<forall>t k s'. t_pc (mq_threads s t) = Push_claim \<and> mq_push_claim False k t s = Inr (Step_taken, s') \<longrightarrow> t_ticket (mq_threads s t) < mq_E s) \<and>
     (\<forall>t k s'. t_pc (mq_threads s t) = Pop_claim \<and> mq_pop_claim False k t s = Inr (Step_taken, s') \<longrightarrow> t_ticket (mq_threads s t) < mq_D s) \<and>
     (\<forall>t. t_pc (mq_threads s t) = Idle \<longrightarrow>
        (\<exists>q ok. mq_try_push h cap v (mq_queue s) = Inr (Returned ok, q) \<and>
           (\<not> ok \<longrightarrow> mq_E s = mq_D s + cap \<or> (\<exists>n. mq_E s = n + cap \<and> taking (mq_threads s) n))) \<and>
        (\<exists>q r. mq_try_pop h cap (mq_queue s) = Inr (r, q) \<and>
           (r = Some (claimed evs ! length (taken evs)) \<or> r = None \<and> (mq_D s = mq_E s \<or> producing (mq_threads s) (mq_D s)))))"
proof -
  have r: "mq_reaches cap evs s" using mpmc_run_reaches [OF assms] .
  then have inv: "mq_inv cap (claimed evs) s" and tk: "length (taken evs) = mq_D s" by (simp_all add: mq_reaches_def)
  have push: "\<exists>q ok. mq_try_push h cap v (mq_queue s) = Inr (Returned ok, q) \<and>
      (\<not> ok \<longrightarrow> mq_E s = mq_D s + cap \<or> (\<exists>n. mq_E s = n + cap \<and> taking (mq_threads s) n))" if "t_pc (mq_threads s t) = Idle" for t
  proof (cases "mq_S s ! (mq_E s mod cap) = mq_E s")
    case True
    then show ?thesis using solo_push [OF inv that True, of h v] by blast
  next
    case False
    then show ?thesis using solo_push_full [OF inv False, of h v] push_cell [OF inv] by blast
  qed
  have pop: "\<exists>q r. mq_try_pop h cap (mq_queue s) = Inr (r, q) \<and>
      (r = Some (claimed evs ! length (taken evs)) \<or> r = None \<and> (mq_D s = mq_E s \<or> producing (mq_threads s) (mq_D s)))"
    if "t_pc (mq_threads s t) = Idle" for t
  proof (cases "mq_S s ! (mq_D s mod cap) = mq_D s + 1")
    case True
    then show ?thesis using solo_pop_taken [OF inv that True, of h] tk by auto
  next
    case False
    then show ?thesis using solo_pop_empty [OF inv False, of h] pop_cell [OF inv] by auto
  qed
  show ?thesis using push pop push_retries [OF inv] pop_retries [OF inv] lost_claims [OF inv] by blast
qed

theorem mpmc_lock_free_witness:
  "\<exists>(s :: (nat, 32) mq_system) q r. mpmc_run METL_HARDENING_DEBUG 2 [Step_taken, Step_taken, Claimed 7] s \<and>
     mq_try_pop METL_HARDENING_DEBUG 2 (mq_queue s) = Inr (r, q)"
proof -
  obtain s :: "(nat, 32) mq_system" where s: "mpmc_run METL_HARDENING_DEBUG 2 [Step_taken, Step_taken, Claimed 7] s"
    "t_pc (mq_threads s 0) = Idle"
    using mpmc_example by blast
  have "ring_capacity TYPE(32) 2" by (simp add: ring_capacity_def power_of_two_def)
  from mpmc_lock_free [OF this s(1)] show ?thesis using s by blast
qed

end
