(* ===== verification/Crc.thy ===== *)
theory Crc
  imports Config
begin

text \<open>
  \<^verbatim>\<open>detail/crc.hpp\<close>, \<^verbatim>\<open>crc8.hpp\<close>, \<^verbatim>\<open>crc16.hpp\<close> and \<^verbatim>\<open>crc32.hpp\<close>: checksums, one bit at a time or
  through a table of sixteen entries (\<^verbatim>\<open>METL_CRC_TABLE\<close>, the argument \<open>table\<close>). A register
  of any width is a word; a byte span is a list.
\<close>

unbundle bit_operations_syntax

section \<open>One bit and one nibble\<close>

text \<open>The body of the bit loops, least and most significant bit first.\<close>

definition reflected_step :: "'w::len word \<Rightarrow> 'w word \<Rightarrow> 'w word" where
  "reflected_step polynomial crc =
     (if crc AND 1 \<noteq> 0 then drop_bit 1 crc XOR polynomial else drop_bit 1 crc)"

definition forward_step :: "'w::len word \<Rightarrow> 'w word \<Rightarrow> 'w word" where
  "forward_step polynomial crc =
     (if crc AND push_bit (LENGTH('w) - 1) 1 \<noteq> 0 then push_bit 1 crc XOR polynomial else push_bit 1 crc)"

definition make_crc_nibble_table_reflected :: "'w::len word \<Rightarrow> 'w word list" where
  "make_crc_nibble_table_reflected polynomial =
     map (\<lambda>index. (reflected_step polynomial ^^ 4) (of_nat index)) [0..<16]"

definition make_crc_nibble_table_forward :: "'w::len word \<Rightarrow> 'w word list" where
  "make_crc_nibble_table_forward polynomial =
     map (\<lambda>index. (forward_step polynomial ^^ 4) (push_bit (LENGTH('w) - 4) (of_nat index))) [0..<16]"

definition crc_update_byte_reflected :: "'w::len word \<Rightarrow> 'w word \<Rightarrow> 8 word \<Rightarrow> 'w word" where
  "crc_update_byte_reflected polynomial crc byte =
     (let entries = make_crc_nibble_table_reflected polynomial;
          crc = crc XOR ucast byte;
          crc = drop_bit 4 crc XOR entries ! unat (crc AND 0x0F)
      in drop_bit 4 crc XOR entries ! unat (crc AND 0x0F))"

definition crc_update_byte_forward :: "'w::len word \<Rightarrow> 'w word \<Rightarrow> 8 word \<Rightarrow> 'w word" where
  "crc_update_byte_forward polynomial crc byte =
     (let entries = make_crc_nibble_table_forward polynomial;
          crc = crc XOR push_bit (LENGTH('w) - 8) (ucast byte);
          crc = push_bit 4 crc XOR entries ! unat (drop_bit (LENGTH('w) - 4) crc AND 0x0F)
      in push_bit 4 crc XOR entries ! unat (drop_bit (LENGTH('w) - 4) crc AND 0x0F))"

section \<open>Messages\<close>

text \<open>\<open>text\<close> is the memory from the pointer on; a string without a NUL is read past its end.\<close>

fun crc_string_length :: "8 word list \<Rightarrow> nat outcome" where
  "crc_string_length [] = Inl Out_of_bounds"
| "crc_string_length (c # cs) = (if c \<noteq> 0 then bnd (crc_string_length cs) (\<lambda>n. Inr (1 + n)) else Inr 0)"

definition crc_fold_bytes :: "8 word list \<Rightarrow> 'w::len word \<Rightarrow> 'w word \<Rightarrow> ('w word \<Rightarrow> 8 word \<Rightarrow> 'w word) \<Rightarrow> 'w word" where
  "crc_fold_bytes bytes initial final_xor update = foldl update initial bytes XOR final_xor"

definition crc_fold_text ::
  "8 word list \<Rightarrow> 'w::len word \<Rightarrow> 'w word \<Rightarrow> ('w word \<Rightarrow> 8 word \<Rightarrow> 'w word) \<Rightarrow> 'w word outcome" where
  "crc_fold_text text initial final_xor update =
     bnd (crc_string_length text) (\<lambda>len. Inr (foldl update initial (take len text) XOR final_xor))"

record (overloaded) 'w crc_params =
  crc_initial :: "'w::len word"
  crc_final_xor :: "'w word"

section \<open>The three checksums\<close>

definition crc8_polynomial :: "8 word" where "crc8_polynomial = 0x07"
definition crc16_polynomial :: "16 word" where "crc16_polynomial = 0x1021"
definition crc32_polynomial :: "32 word" where "crc32_polynomial = 0xEDB88320"

definition crc8_params :: "8 crc_params" where "crc8_params = \<lparr>crc_initial = 0x00, crc_final_xor = 0x00\<rparr>"
definition crc16_params :: "16 crc_params" where "crc16_params = \<lparr>crc_initial = 0xFFFF, crc_final_xor = 0x0000\<rparr>"
definition crc32_params :: "32 crc_params" where "crc32_params = \<lparr>crc_initial = 0xFFFFFFFF, crc_final_xor = 0xFFFFFFFF\<rparr>"

definition crc8_update_byte :: "bool \<Rightarrow> 8 word \<Rightarrow> 8 word \<Rightarrow> 8 word" where
  "crc8_update_byte table crc byte =
     (if table then crc_update_byte_forward crc8_polynomial crc byte
      else ((\<lambda>crc. if crc AND 0x80 \<noteq> 0 then push_bit 1 crc XOR crc8_polynomial else push_bit 1 crc) ^^ 8) (crc XOR byte))"

definition crc16_update_byte :: "bool \<Rightarrow> 16 word \<Rightarrow> 8 word \<Rightarrow> 16 word" where
  "crc16_update_byte table crc byte =
     (if table then crc_update_byte_forward crc16_polynomial crc byte
      else ((\<lambda>crc. if crc AND 0x8000 \<noteq> 0 then push_bit 1 crc XOR crc16_polynomial else push_bit 1 crc) ^^ 8)
             (crc XOR push_bit 8 (ucast byte)))"

definition crc32_update_byte :: "bool \<Rightarrow> 32 word \<Rightarrow> 8 word \<Rightarrow> 32 word" where
  "crc32_update_byte table crc byte =
     (if table then crc_update_byte_reflected crc32_polynomial crc byte
      else ((\<lambda>crc. if crc AND 1 \<noteq> 0 then drop_bit 1 crc XOR crc32_polynomial else drop_bit 1 crc) ^^ 8)
             (crc XOR ucast byte))"

definition crc8 :: "bool \<Rightarrow> 8 crc_params \<Rightarrow> 8 word list \<Rightarrow> 8 word" where
  "crc8 table params bytes = crc_fold_bytes bytes (crc_initial params) (crc_final_xor params) (crc8_update_byte table)"

definition crc16 :: "bool \<Rightarrow> 16 crc_params \<Rightarrow> 8 word list \<Rightarrow> 16 word" where
  "crc16 table params bytes = crc_fold_bytes bytes (crc_initial params) (crc_final_xor params) (crc16_update_byte table)"

definition crc32 :: "bool \<Rightarrow> 32 crc_params \<Rightarrow> 8 word list \<Rightarrow> 32 word" where
  "crc32 table params bytes = crc_fold_bytes bytes (crc_initial params) (crc_final_xor params) (crc32_update_byte table)"

definition crc8_text :: "bool \<Rightarrow> 8 crc_params \<Rightarrow> 8 word list \<Rightarrow> 8 word outcome" where
  "crc8_text table params text = crc_fold_text text (crc_initial params) (crc_final_xor params) (crc8_update_byte table)"

definition crc16_text :: "bool \<Rightarrow> 16 crc_params \<Rightarrow> 8 word list \<Rightarrow> 16 word outcome" where
  "crc16_text table params text = crc_fold_text text (crc_initial params) (crc_final_xor params) (crc16_update_byte table)"

definition crc32_text :: "bool \<Rightarrow> 32 crc_params \<Rightarrow> 8 word list \<Rightarrow> 32 word outcome" where
  "crc32_text table params text = crc_fold_text text (crc_initial params) (crc_final_xor params) (crc32_update_byte table)"

section \<open>The steps are linear\<close>

lemma and_one_test: "(x :: 'w::len word) AND 1 \<noteq> 0 \<longleftrightarrow> bit x 0"
  by (simp add: and_one_eq mod_2_eq_odd bit_0)

lemma and_top_test: "(x :: 'w::len word) AND push_bit n 1 \<noteq> 0 \<longleftrightarrow> bit x n"
  by (simp add: push_bit_of_1 and_exp_eq_0_iff_not_bit)

lemma reflected_step_xor: "reflected_step p (a XOR b) = reflected_step p a XOR reflected_step p b"
  by (rule bit_word_eqI) (auto simp: reflected_step_def and_one_test bit_xor_iff bit_drop_bit_eq)

lemma forward_step_bit: "forward_step p x = push_bit 1 x XOR (if bit x (LENGTH('w) - 1) then p else 0)"
  for x :: "'w::len word"
  unfolding forward_step_def and_top_test by simp

lemma forward_step_xor: "forward_step p (a XOR b) = forward_step p a XOR forward_step p b" for a :: "'w::len word"
  unfolding forward_step_bit push_bit_xor bit_xor_iff
  by (cases "bit a (LENGTH('w) - 1)"; cases "bit b (LENGTH('w) - 1)") (simp_all add: ac_simps)

lemma reflected_steps_xor: "(reflected_step p ^^ k) (a XOR b) = (reflected_step p ^^ k) a XOR (reflected_step p ^^ k) b"
  by (induction k) (simp_all add: reflected_step_xor)

lemma forward_steps_xor: "(forward_step p ^^ k) (a XOR b) = (forward_step p ^^ k) a XOR (forward_step p ^^ k) b"
  by (induction k) (simp_all add: forward_step_xor)

text \<open>Zero bits are shifted out unchanged.\<close>

lemma reflected_steps_zeros:
  "(\<And>i. i < k \<Longrightarrow> \<not> bit x i) \<Longrightarrow> (reflected_step p ^^ k) x = drop_bit k x"
proof (induction k arbitrary: x)
  case (Suc k)
  have "reflected_step p x = drop_bit 1 x" using Suc.prems [of 0] by (simp add: reflected_step_def and_one_test)
  moreover have "(reflected_step p ^^ k) (drop_bit 1 x) = drop_bit k (drop_bit 1 x)"
    using Suc.prems by (intro Suc.IH) (simp add: bit_drop_bit_eq)
  ultimately show ?case by (simp add: funpow_Suc_right del: funpow.simps)
qed simp

lemma forward_steps_zeros:
  fixes x :: "'w::len word"
  shows "k \<le> LENGTH('w) \<Longrightarrow> (\<And>i. LENGTH('w) - k \<le> i \<Longrightarrow> \<not> bit x i) \<Longrightarrow> (forward_step p ^^ k) x = push_bit k x"
proof (induction k arbitrary: x)
  case (Suc k)
  have "\<not> bit x (LENGTH('w) - 1)" using Suc.prems by simp
  then have "forward_step p x = push_bit 1 x" by (simp only: forward_step_bit) simp
  moreover have "(forward_step p ^^ k) (push_bit 1 x) = push_bit k (push_bit 1 x)"
  proof (rule Suc.IH)
    fix i assume "LENGTH('w) - k \<le> i"
    then show "\<not> bit (push_bit 1 x) i" unfolding bit_push_bit_iff using Suc.prems(2) [of "i - 1"] by auto
  qed (use Suc.prems in simp)
  ultimately show ?case by (simp only: funpow_Suc_right comp_apply push_bit_push_bit) (simp add: add.commute)
qed simp

lemma bit_nibble: "bit (15 :: 'w::len word) i \<longleftrightarrow> i < 4 \<and> i < LENGTH('w)"
proof -
  have fifteen: "(15 :: 'w word) = mask 4" by (simp add: mask_numeral)
  show ?thesis unfolding fifteen bit_mask_iff by auto
qed

lemma nibble_index: "unat (x AND 15 :: 'w::len word) < 16"
proof -
  have "x AND 15 = take_bit 4 x" by (simp add: take_bit_eq_mask mask_numeral)
  then have "unat (x AND 15) = take_bit 4 (unat x)" by (simp only: unsigned_take_bit_eq)
  then show ?thesis using take_bit_nat_less_exp [of 4 "unat x"] by simp
qed

text \<open>Four bits at once.\<close>

lemma reflected_nibble:
  "(reflected_step p ^^ 4) crc = drop_bit 4 crc XOR make_crc_nibble_table_reflected p ! unat (crc AND 15)"
proof -
  let ?high = "push_bit 4 (drop_bit 4 crc)"
  have high: "bit ?high i \<longleftrightarrow> 4 \<le> i \<and> bit crc i" for i
    by (auto simp: bit_push_bit_iff bit_drop_bit_eq dest: bit_imp_le_length)
  have "crc = ?high XOR (crc AND 15)"
    by (rule bit_word_eqI) (unfold bit_xor_iff bit_and_iff bit_nibble high, auto)
  then have "(reflected_step p ^^ 4) crc = (reflected_step p ^^ 4) ?high XOR (reflected_step p ^^ 4) (crc AND 15)"
    by (metis reflected_steps_xor)
  also have "(reflected_step p ^^ 4) ?high = drop_bit 4 ?high"
    by (rule reflected_steps_zeros) (simp add: high)
  also have "drop_bit 4 ?high = drop_bit 4 crc"
    by (rule bit_word_eqI) (simp only: bit_drop_bit_eq comp_apply high, simp)
  also have "(reflected_step p ^^ 4) (crc AND 15) = make_crc_nibble_table_reflected p ! unat (crc AND 15)"
    using nibble_index [of crc] by (simp add: make_crc_nibble_table_reflected_def)
  finally show ?thesis .
qed

lemma forward_entry:
  "unat x < 16 \<Longrightarrow> make_crc_nibble_table_forward p ! unat x = (forward_step p ^^ 4) (push_bit (LENGTH('w) - 4) x)"
  for x :: "'w::len word"
  by (simp add: make_crc_nibble_table_forward_def)

lemma forward_nibble:
  fixes crc :: "'w::len word"
  assumes "4 \<le> LENGTH('w)"
  shows "(forward_step p ^^ 4) crc =
    push_bit 4 crc XOR make_crc_nibble_table_forward p ! unat (drop_bit (LENGTH('w) - 4) crc AND 15)"
proof -
  let ?n = "LENGTH('w) - 4"
  let ?top = "push_bit ?n (drop_bit ?n crc AND 15)"
  have top: "bit ?top i \<longleftrightarrow> ?n \<le> i \<and> bit crc i" for i
    unfolding bit_push_bit_iff bit_and_iff bit_drop_bit_eq bit_nibble comp_apply
    using assms by (auto dest: bit_imp_le_length)
  have "crc = take_bit ?n crc XOR ?top"
    by (rule bit_word_eqI) (unfold bit_xor_iff bit_take_bit_iff top, auto)
  then have "(forward_step p ^^ 4) crc = (forward_step p ^^ 4) (take_bit ?n crc) XOR (forward_step p ^^ 4) ?top"
    by (metis forward_steps_xor)
  also have "(forward_step p ^^ 4) (take_bit ?n crc) = push_bit 4 (take_bit ?n crc)"
    using assms by (intro forward_steps_zeros) (auto simp: bit_take_bit_iff)
  also have "push_bit 4 (take_bit ?n crc) = push_bit 4 crc"
    by (rule bit_word_eqI) (unfold bit_push_bit_iff bit_take_bit_iff, auto)
  also have "(forward_step p ^^ 4) ?top = make_crc_nibble_table_forward p ! unat (drop_bit ?n crc AND 15)"
    by (rule forward_entry [OF nibble_index, symmetric])
  finally show ?thesis .
qed

lemma reflected_table: "crc_update_byte_reflected p crc byte = (reflected_step p ^^ 8) (crc XOR ucast byte)"
proof -
  have "(reflected_step p ^^ 8) x = (reflected_step p ^^ 4) ((reflected_step p ^^ 4) x)" for x
    by (metis comp_apply funpow_add numeral_Bit0)
  then show ?thesis by (simp only: crc_update_byte_reflected_def Let_def reflected_nibble)
qed

lemma forward_table:
  fixes crc :: "'w::len word"
  assumes "8 \<le> LENGTH('w)"
  shows "crc_update_byte_forward p crc byte = (forward_step p ^^ 8) (crc XOR push_bit (LENGTH('w) - 8) (ucast byte))"
proof -
  have "(forward_step p ^^ 8) x = (forward_step p ^^ 4) ((forward_step p ^^ 4) x)" for x :: "'w word"
    by (metis comp_apply funpow_add numeral_Bit0)
  moreover have "4 \<le> LENGTH('w)" using assms by simp
  ultimately show ?thesis by (simp only: crc_update_byte_forward_def Let_def forward_nibble)
qed

section \<open>The steps lose nothing\<close>

lemma linear_inj:
  assumes "\<And>a b. f (a XOR b) = f a XOR (f b :: 'w::len word)" "\<And>x. f x = 0 \<Longrightarrow> x = 0" "f a = f b"
  shows "a = (b :: 'w word)"
proof -
  have "f (a XOR b) = 0" using assms(1,3) by simp
  then have "a XOR b = 0" by (rule assms(2))
  then show ?thesis by (metis xor.assoc xor.left_neutral xor.right_neutral xor_self_eq)
qed

lemma reflected_step_inj:
  fixes p :: "'w::len word"
  assumes "bit p (LENGTH('w) - 1)" "reflected_step p a = reflected_step p b"
  shows "a = b"
proof (rule linear_inj [of "reflected_step p", OF reflected_step_xor _ assms(2)])
  fix x assume zero: "reflected_step p x = 0"
  have "\<not> bit x 0"
  proof
    assume "bit x 0"
    then have "bit (drop_bit 1 x XOR p) (LENGTH('w) - 1) = bit (0 :: 'w word) (LENGTH('w) - 1)"
      using zero by (simp add: reflected_step_def and_one_test)
    then show False using assms(1) by (simp add: bit_xor_iff bit_drop_bit_eq)
  qed
  then have "drop_bit 1 x = 0" using zero by (simp add: reflected_step_def and_one_test)
  then have "\<not> bit x (Suc i)" for i using bit_drop_bit_eq [of 1 x] by (metis bit_0_eq bot_apply bot_bool_def comp_apply plus_1_eq_Suc)
  then show "x = 0" using \<open>\<not> bit x 0\<close> by (intro bit_word_eqI) (metis bit_0_eq bot_apply bot_bool_def not0_implies_Suc)
qed

lemma forward_step_inj:
  fixes p :: "'w::len word"
  assumes "bit p 0" "forward_step p a = forward_step p b"
  shows "a = b"
proof (rule linear_inj [of "forward_step p", OF forward_step_xor _ assms(2)])
  fix x assume zero: "forward_step p x = 0"
  have bits: "bit (push_bit 1 x XOR (if bit x (LENGTH('w) - 1) then p else 0)) i = False" for i
    using zero unfolding forward_step_bit by (metis bit_0_eq bot_apply bot_bool_def)
  have top: "\<not> bit x (LENGTH('w) - 1)"
    using bits [of 0] assms(1) unfolding bit_xor_iff bit_push_bit_iff by auto
  have "\<not> bit x i" if "i < LENGTH('w) - 1" for i
    using bits [of "Suc i"] top that unfolding bit_xor_iff bit_push_bit_iff by auto
  then show "x = 0" using top by (intro bit_word_eqI) (metis Suc_pred' bit_0_eq bot_apply bot_bool_def len_gt_0 less_SucE)
qed

lemma steps_inj:
  fixes f :: "'a \<Rightarrow> 'a"
  assumes "\<And>a b. f a = f b \<Longrightarrow> a = b" "(f ^^ k) a = (f ^^ k) b"
  shows "a = b"
  using assms(2)
proof (induction k)
  case (Suc k)
  then have "f ((f ^^ k) a) = f ((f ^^ k) b)" by simp
  then show ?case using assms(1) Suc.IH by blast
qed simp

section \<open>Whole messages\<close>

text \<open>
  What a checksum register promises: a run of bytes no wider than the register acts
  like one value placed into it, followed by shifts that lose nothing.
\<close>

locale crc_register =
  fixes update :: "'w::len word \<Rightarrow> 8 word \<Rightarrow> 'w word"
    and run :: "nat \<Rightarrow> 'w word \<Rightarrow> 'w word"
    and place :: "8 word list \<Rightarrow> 'w word"
  assumes wide: "8 \<le> LENGTH('w)"
    and absorbs: "8 * length bs \<le> LENGTH('w) \<Longrightarrow> foldl update crc bs = run (length bs) (crc XOR place bs)"
    and run_inj: "run n a = run n b \<Longrightarrow> a = b"
    and place_inj: "length xs = length ys \<Longrightarrow> 8 * length xs \<le> LENGTH('w) \<Longrightarrow> place xs = place ys \<Longrightarrow> xs = ys"
begin

lemma xor_right_inj: "(a :: 'w word) XOR c = b XOR c \<Longrightarrow> a = b"
  by (metis xor.assoc xor.right_neutral xor_self_eq)

lemma fold_inj: "foldl update a bs = foldl update b bs \<Longrightarrow> a = b"
proof (induction bs arbitrary: a b)
  case (Cons x bs)
  then have "update a x = update b x" by simp
  moreover have "update c x = run 1 (c XOR place [x])" for c using absorbs [of "[x]" c] wide by simp
  ultimately show ?case using run_inj xor_right_inj by metis
qed simp

lemma burst_detected:
  assumes "length xs = length ys" "8 * length xs \<le> LENGTH('w)" "xs \<noteq> ys"
  shows "crc_fold_bytes (pre @ xs @ post) initial final_xor update \<noteq> crc_fold_bytes (pre @ ys @ post) initial final_xor update"
proof
  let ?c = "foldl update initial pre"
  assume "crc_fold_bytes (pre @ xs @ post) initial final_xor update = crc_fold_bytes (pre @ ys @ post) initial final_xor update"
  then have "foldl update (foldl update ?c xs) post = foldl update (foldl update ?c ys) post"
    unfolding crc_fold_bytes_def foldl_append by (rule xor_right_inj)
  then have "foldl update ?c xs = foldl update ?c ys" by (rule fold_inj)
  then have "run (length xs) (?c XOR place xs) = run (length xs) (?c XOR place ys)"
    using absorbs [of xs ?c] absorbs [of ys ?c] assms(1,2) by simp
  then have "?c XOR place xs = ?c XOR place ys" by (rule run_inj)
  then have "place xs XOR ?c = place ys XOR ?c" by (simp only: xor.commute)
  then have "place xs = place ys" by (rule xor_right_inj)
  then show False using place_inj assms by blast
qed

end

lemma crc_parts:
  "crc_fold_bytes ys (crc_fold_bytes xs initial final_xor update XOR final_xor) final_xor update =
   crc_fold_bytes (xs @ ys) initial final_xor update"
  by (simp add: crc_fold_bytes_def xor.assoc)

lemma crc_string_length_append: "0 \<notin> set xs \<Longrightarrow> crc_string_length (xs @ 0 # rest) = Inr (length xs)"
  by (induction xs) auto

lemma crc_text_eq:
  "0 \<notin> set xs \<Longrightarrow> crc_fold_text (xs @ 0 # rest) initial final_xor update = Inr (crc_fold_bytes xs initial final_xor update)"
  by (simp add: crc_fold_text_def crc_fold_bytes_def crc_string_length_append)

text \<open>The value a run of bytes places into a register, first byte lowest or highest.\<close>

primrec low_bytes :: "8 word list \<Rightarrow> 'w::len word" where
  "low_bytes [] = 0"
| "low_bytes (b # bs) = ucast b XOR push_bit 8 (low_bytes bs)"

primrec high_bytes :: "8 word list \<Rightarrow> 'w::len word" where
  "high_bytes [] = 0"
| "high_bytes (b # bs) = push_bit (LENGTH('w) - 8) (ucast b) XOR drop_bit 8 (high_bytes bs)"

lemma low_bytes_bit: "bit (low_bytes bs :: 'w::len word) i \<Longrightarrow> i < 8 * length bs"
proof (induction bs arbitrary: i)
  case (Cons b bs)
  have "i < 8 \<or> 8 \<le> i \<and> bit (low_bytes bs :: 'w word) (i - 8)"
    using Cons.prems unfolding low_bytes.simps bit_xor_iff bit_push_bit_iff bit_ucast_iff by (auto dest: bit_imp_le_length)
  then show ?case using Cons.IH [of "i - 8"] by auto
qed simp

lemma high_bytes_bit: "bit (high_bytes bs :: 'w::len word) i \<Longrightarrow> 8 \<le> LENGTH('w) \<Longrightarrow> LENGTH('w) \<le> i + 8 * length bs"
proof (induction bs arbitrary: i)
  case (Cons b bs)
  have "LENGTH('w) - 8 \<le> i \<or> bit (high_bytes bs :: 'w word) (8 + i)"
    using Cons.prems(1) unfolding high_bytes.simps bit_xor_iff bit_push_bit_iff bit_drop_bit_eq comp_apply by auto
  then show ?case using Cons.IH [of "8 + i"] Cons.prems(2) by auto
qed simp

lemma reflected_absorbs:
  fixes crc :: "'w::len word"
  assumes "8 * length bs \<le> LENGTH('w)"
  shows "foldl (\<lambda>crc b. (reflected_step p ^^ 8) (crc XOR ucast b)) crc bs = (reflected_step p ^^ (8 * length bs)) (crc XOR low_bytes bs)"
  using assms
proof (induction bs arbitrary: crc)
  case (Cons b bs)
  let ?W = "low_bytes bs :: 'w word" and ?s = "reflected_step p"
  have "drop_bit 8 (push_bit 8 ?W) = ?W"
  proof (rule bit_word_eqI)
    fix i assume "i < LENGTH('w)"
    show "bit (drop_bit 8 (push_bit 8 ?W)) i = bit ?W i"
      unfolding bit_drop_bit_eq bit_push_bit_iff comp_apply using low_bytes_bit [of bs i, where 'w = 'w] Cons.prems by auto
  qed
  moreover have "(?s ^^ 8) (push_bit 8 ?W) = drop_bit 8 (push_bit 8 ?W)"
    by (rule reflected_steps_zeros) (unfold bit_push_bit_iff, auto)
  ultimately have shift: "(?s ^^ 8) (push_bit 8 ?W) = ?W" by simp
  have "foldl (\<lambda>crc b. (?s ^^ 8) (crc XOR ucast b)) crc (b # bs) = (?s ^^ (8 * length bs)) ((?s ^^ 8) (crc XOR ucast b) XOR ?W)"
    using Cons by simp
  also have "(?s ^^ 8) (crc XOR ucast b) XOR ?W = (?s ^^ 8) (crc XOR low_bytes (b # bs))"
    by (simp only: low_bytes.simps reflected_steps_xor xor.assoc shift)
  also have "(?s ^^ (8 * length bs)) ((?s ^^ 8) x) = (?s ^^ (8 * length (b # bs))) x" for x
    by (metis comp_apply funpow_add length_Cons mult_Suc_right add.commute)
  finally show ?case .
qed simp

lemma forward_absorbs:
  fixes crc :: "'w::len word"
  assumes "8 * length bs \<le> LENGTH('w)" "8 \<le> LENGTH('w)"
  shows "foldl (\<lambda>crc b. (forward_step p ^^ 8) (crc XOR push_bit (LENGTH('w) - 8) (ucast b))) crc bs =
    (forward_step p ^^ (8 * length bs)) (crc XOR high_bytes bs)"
  using assms(1)
proof (induction bs arbitrary: crc)
  case (Cons b bs)
  let ?W = "high_bytes bs :: 'w word" and ?s = "forward_step p" and ?n = "LENGTH('w) - 8"
  have "push_bit 8 (drop_bit 8 ?W) = ?W"
  proof (rule bit_word_eqI)
    fix i assume "i < LENGTH('w)"
    then show "bit (push_bit 8 (drop_bit 8 ?W)) i = bit ?W i"
      unfolding bit_drop_bit_eq bit_push_bit_iff comp_apply using high_bytes_bit [of bs i, where 'w = 'w] Cons.prems assms(2) by auto
  qed
  moreover have "(?s ^^ 8) (drop_bit 8 ?W) = push_bit 8 (drop_bit 8 ?W)"
    by (rule forward_steps_zeros [OF assms(2)]) (unfold bit_drop_bit_eq comp_apply, auto dest: bit_imp_le_length)
  ultimately have shift: "(?s ^^ 8) (drop_bit 8 ?W) = ?W" by simp
  have "foldl (\<lambda>crc b. (?s ^^ 8) (crc XOR push_bit ?n (ucast b))) crc (b # bs) =
      (?s ^^ (8 * length bs)) ((?s ^^ 8) (crc XOR push_bit ?n (ucast b)) XOR ?W)"
    using Cons by simp
  also have "(?s ^^ 8) (crc XOR push_bit ?n (ucast b)) XOR ?W = (?s ^^ 8) (crc XOR high_bytes (b # bs))"
    by (simp only: high_bytes.simps forward_steps_xor xor.assoc shift)
  also have "(?s ^^ (8 * length bs)) ((?s ^^ 8) x) = (?s ^^ (8 * length (b # bs))) x" for x
    by (metis comp_apply funpow_add length_Cons mult_Suc_right add.commute)
  finally show ?case .
qed simp

lemma low_bytes_inj:
  "length xs = length ys \<Longrightarrow> 8 * length xs \<le> LENGTH('w) \<Longrightarrow> (low_bytes xs :: 'w::len word) = low_bytes ys \<Longrightarrow> xs = ys"
proof (induction xs ys rule: list_induct2)
  case (Cons x xs y ys)
  have bits: "bit (low_bytes (x # xs) :: 'w word) i = bit (low_bytes (y # ys) :: 'w word) i" for i using Cons.prems(2) by simp
  have "bit x i = bit y i" if "i < 8" for i
    using bits [of i] that Cons.prems(1) unfolding low_bytes.simps bit_xor_iff bit_push_bit_iff bit_ucast_iff by auto
  then have "x = y" by (intro bit_word_eqI) simp
  have "bit (low_bytes xs :: 'w word) i = bit (low_bytes ys :: 'w word) i" for i
  proof (cases "8 + i < LENGTH('w)")
    case True
    then show ?thesis
      using bits [of "8 + i"] \<open>x = y\<close> unfolding low_bytes.simps bit_xor_iff bit_push_bit_iff by auto
  next
    case False
    then show ?thesis
      using low_bytes_bit [of xs i, where 'w = 'w] low_bytes_bit [of ys i, where 'w = 'w] Cons.prems(1) Cons.hyps by auto
  qed
  then show ?case using Cons.IH Cons.prems(1) \<open>x = y\<close> by (simp add: bit_eq_iff)
qed simp

lemma high_bytes_inj:
  "length xs = length ys \<Longrightarrow> 8 * length xs \<le> LENGTH('w) \<Longrightarrow> 8 \<le> LENGTH('w) \<Longrightarrow> (high_bytes xs :: 'w::len word) = high_bytes ys \<Longrightarrow> xs = ys"
proof (induction xs ys rule: list_induct2)
  case (Cons x xs y ys)
  let ?n = "LENGTH('w) - 8"
  have bits: "bit (high_bytes (x # xs) :: 'w word) i = bit (high_bytes (y # ys) :: 'w word) i" for i using Cons.prems(3) by simp
  have "bit x i = bit y i" if i: "i < 8" for i
  proof -
    have "\<not> bit w (8 + (?n + i))" for w :: "'w word" using Cons.prems(2) by (auto dest: bit_imp_le_length)
    then show ?thesis
      using bits [of "?n + i"] i Cons.prems(2)
      unfolding high_bytes.simps bit_xor_iff bit_push_bit_iff bit_drop_bit_eq comp_apply bit_ucast_iff by auto
  qed
  then have "x = y" by (intro bit_word_eqI) simp
  have "bit (high_bytes xs :: 'w word) i = bit (high_bytes ys :: 'w word) i" for i
  proof (cases "8 \<le> i")
    case True
    then show ?thesis
      using bits [of "i - 8"] \<open>x = y\<close> unfolding high_bytes.simps bit_xor_iff bit_drop_bit_eq comp_apply by auto
  next
    case False
    then show ?thesis
      using high_bytes_bit [of xs i, where 'w = 'w] high_bytes_bit [of ys i, where 'w = 'w] Cons.prems(1,2) Cons.hyps by auto
  qed
  then show ?case using Cons.IH Cons.prems(1,2) \<open>x = y\<close> by (simp add: bit_eq_iff)
qed simp

section \<open>The three registers\<close>

lemma crc8_steps: "crc8_update_byte table = (\<lambda>crc b. (forward_step crc8_polynomial ^^ 8) (crc XOR push_bit (LENGTH(8) - 8) (ucast b)))"
proof -
  have "(\<lambda>crc. if crc AND 0x80 \<noteq> 0 then push_bit 1 crc XOR crc8_polynomial else push_bit 1 crc) = forward_step crc8_polynomial"
    by (rule ext) (simp add: forward_step_def push_bit_of_1)
  then show ?thesis by (cases table) (simp_all add: fun_eq_iff crc8_update_byte_def forward_table del: funpow.simps)
qed

lemma crc16_steps: "crc16_update_byte table = (\<lambda>crc b. (forward_step crc16_polynomial ^^ 8) (crc XOR push_bit (LENGTH(16) - 8) (ucast b)))"
proof -
  have "(\<lambda>crc. if crc AND 0x8000 \<noteq> 0 then push_bit 1 crc XOR crc16_polynomial else push_bit 1 crc) = forward_step crc16_polynomial"
    by (rule ext) (simp add: forward_step_def push_bit_of_1)
  then show ?thesis by (cases table) (simp_all add: fun_eq_iff crc16_update_byte_def forward_table del: funpow.simps)
qed

lemma crc32_steps: "crc32_update_byte table = (\<lambda>crc b. (reflected_step crc32_polynomial ^^ 8) (crc XOR ucast b))"
proof -
  have "(\<lambda>crc. if crc AND 1 \<noteq> 0 then drop_bit 1 crc XOR crc32_polynomial else drop_bit 1 crc) = reflected_step crc32_polynomial"
    by (rule ext) (simp add: reflected_step_def)
  then show ?thesis by (cases table) (simp_all add: fun_eq_iff crc32_update_byte_def reflected_table del: funpow.simps)
qed

text \<open>Each polynomial has the term that makes one step of its register one to one.\<close>

lemma crc8_odd: "bit crc8_polynomial 0"
  by (simp add: crc8_polynomial_def bit_0)

lemma crc16_odd: "bit crc16_polynomial 0"
  by (simp add: crc16_polynomial_def bit_0)

lemma crc32_odd: "bit crc32_polynomial (LENGTH(32) - 1)"
  by code_simp

interpretation crc8_reg: crc_register "crc8_update_byte table" "\<lambda>n. forward_step crc8_polynomial ^^ (8 * n)" high_bytes
proof
  show "8 * length bs \<le> LENGTH(8) \<Longrightarrow> foldl (crc8_update_byte table) crc bs = (forward_step crc8_polynomial ^^ (8 * length bs)) (crc XOR high_bytes bs)" for bs crc
    unfolding crc8_steps by (rule forward_absorbs) simp_all
  show "(forward_step crc8_polynomial ^^ (8 * n)) a = (forward_step crc8_polynomial ^^ (8 * n)) b \<Longrightarrow> a = b" for n a b
    by (rule steps_inj [OF forward_step_inj [OF crc8_odd]])
  show "length xs = length ys \<Longrightarrow> 8 * length xs \<le> LENGTH(8) \<Longrightarrow> (high_bytes xs :: 8 word) = high_bytes ys \<Longrightarrow> xs = ys" for xs ys
    by (rule high_bytes_inj [where 'w = 8]) simp_all
qed simp

interpretation crc16_reg: crc_register "crc16_update_byte table" "\<lambda>n. forward_step crc16_polynomial ^^ (8 * n)" high_bytes
proof
  show "8 * length bs \<le> LENGTH(16) \<Longrightarrow> foldl (crc16_update_byte table) crc bs = (forward_step crc16_polynomial ^^ (8 * length bs)) (crc XOR high_bytes bs)" for bs crc
    unfolding crc16_steps by (rule forward_absorbs) simp_all
  show "(forward_step crc16_polynomial ^^ (8 * n)) a = (forward_step crc16_polynomial ^^ (8 * n)) b \<Longrightarrow> a = b" for n a b
    by (rule steps_inj [OF forward_step_inj [OF crc16_odd]])
  show "length xs = length ys \<Longrightarrow> 8 * length xs \<le> LENGTH(16) \<Longrightarrow> (high_bytes xs :: 16 word) = high_bytes ys \<Longrightarrow> xs = ys" for xs ys
    by (rule high_bytes_inj [where 'w = 16]) simp_all
qed simp

interpretation crc32_reg: crc_register "crc32_update_byte table" "\<lambda>n. reflected_step crc32_polynomial ^^ (8 * n)" low_bytes
proof
  show "8 * length bs \<le> LENGTH(32) \<Longrightarrow> foldl (crc32_update_byte table) crc bs = (reflected_step crc32_polynomial ^^ (8 * length bs)) (crc XOR low_bytes bs)" for bs crc
    unfolding crc32_steps by (rule reflected_absorbs)
  show "(reflected_step crc32_polynomial ^^ (8 * n)) a = (reflected_step crc32_polynomial ^^ (8 * n)) b \<Longrightarrow> a = b" for n a b
    by (rule steps_inj [OF reflected_step_inj [OF crc32_odd]])
  show "length xs = length ys \<Longrightarrow> 8 * length xs \<le> LENGTH(32) \<Longrightarrow> (low_bytes xs :: 32 word) = low_bytes ys \<Longrightarrow> xs = ys" for xs ys
    by (rule low_bytes_inj [where 'w = 32]) simp_all
qed simp

section \<open>Properties\<close>

text \<open>
  C35: the nibble tables and the bit-at-a-time loops compute the same checksum
  of every message from every parameters, for the three widths; a message
  taken in two calls, the second seeded with the first result undone by
  \<open>final_xor\<close>, has the checksum of one call over both parts; and the string
  overloads give the checksum of the bytes before the first NUL, reading
  nothing after it.
\<close>

theorem crc_equivalences:
  "crc8 True p8 xs = crc8 False p8 xs \<and>
   crc16 True p16 xs = crc16 False p16 xs \<and>
   crc32 True p32 xs = crc32 False p32 xs \<and>
   crc8 table \<lparr>crc_initial = crc8 table p8 xs XOR crc_final_xor p8, crc_final_xor = crc_final_xor p8\<rparr> ys = crc8 table p8 (xs @ ys) \<and>
   crc16 table \<lparr>crc_initial = crc16 table p16 xs XOR crc_final_xor p16, crc_final_xor = crc_final_xor p16\<rparr> ys = crc16 table p16 (xs @ ys) \<and>
   crc32 table \<lparr>crc_initial = crc32 table p32 xs XOR crc_final_xor p32, crc_final_xor = crc_final_xor p32\<rparr> ys = crc32 table p32 (xs @ ys) \<and>
   (0 \<notin> set xs \<longrightarrow>
     crc8_text table p8 (xs @ 0 # ys) = Inr (crc8 table p8 xs) \<and>
     crc16_text table p16 (xs @ 0 # ys) = Inr (crc16 table p16 xs) \<and>
     crc32_text table p32 (xs @ 0 # ys) = Inr (crc32 table p32 xs))"
  by (simp add: crc8_def crc16_def crc32_def crc8_steps crc16_steps crc32_steps crc_parts crc_text_eq
      crc8_text_def crc16_text_def crc32_text_def)

text \<open>
  The nine digits of the usual check message: the published check values of
  CRC-8, CRC-16/CCITT-FALSE and CRC-32.
\<close>

theorem crc_equivalences_witness:
  "let digits = [0x31, 0x32, 0x33, 0x34, 0x35, 0x36, 0x37, 0x38, 0x39] in
   0 \<notin> set digits \<and>
   crc8_text True crc8_params (digits @ [0, 7]) = Inr 0xF4 \<and>
   crc16_text True crc16_params (digits @ [0, 7]) = Inr 0x29B1 \<and>
   crc32_text True crc32_params (digits @ [0, 7]) = Inr 0xCBF43926"
proof -
  have check: "crc8 True crc8_params [0x31, 0x32, 0x33, 0x34, 0x35, 0x36, 0x37, 0x38, 0x39] = 0xF4"
    "crc16 True crc16_params [0x31, 0x32, 0x33, 0x34, 0x35, 0x36, 0x37, 0x38, 0x39] = 0x29B1"
    "crc32 True crc32_params [0x31, 0x32, 0x33, 0x34, 0x35, 0x36, 0x37, 0x38, 0x39] = 0xCBF43926"
    by code_simp+
  show ?thesis
    using crc_equivalences [of crc8_params "[0x31, 0x32, 0x33, 0x34, 0x35, 0x36, 0x37, 0x38, 0x39]" crc16_params crc32_params True "[7]"]
    by (simp add: check)
qed

text \<open>
  C36: an error burst no wider than the register is always detected. Two
  messages that differ only inside one run of whole bytes of that width, one
  byte for CRC-8, two for CRC-16, four for CRC-32, have different checksums,
  wherever the run lies in the message and with or without the tables.
\<close>

theorem crc_bursts_detected:
  assumes "length xs = length ys" and "xs \<noteq> ys"
  shows "(length xs \<le> 1 \<longrightarrow> crc8 table p8 (pre @ xs @ post) \<noteq> crc8 table p8 (pre @ ys @ post)) \<and>
         (length xs \<le> 2 \<longrightarrow> crc16 table p16 (pre @ xs @ post) \<noteq> crc16 table p16 (pre @ ys @ post)) \<and>
         (length xs \<le> 4 \<longrightarrow> crc32 table p32 (pre @ xs @ post) \<noteq> crc32 table p32 (pre @ ys @ post))"
  using assms crc8_reg.burst_detected [of xs ys] crc16_reg.burst_detected [of xs ys] crc32_reg.burst_detected [of xs ys]
  by (simp add: crc8_def crc16_def crc32_def)

theorem crc_bursts_detected_witness:
  "crc32 True crc32_params ([1] @ [0, 0, 0, 0] @ [9]) \<noteq> crc32 True crc32_params ([1] @ [0xFF, 0, 0, 0xFF] @ [9])"
  using crc_bursts_detected [of "[0, 0, 0, 0]" "[0xFF, 0, 0, 0xFF]" True undefined "[1]" "[9]" undefined crc32_params] by simp

end
