(* ===== verification/Byte_ring.thy ===== *)
theory Byte_ring
  imports Ticket
begin

text \<open>
  \<^verbatim>\<open>spsc_byte_ring.hpp\<close>: a lock-free stream of bytes between one producer and one consumer,
  with bulk copies and with spans into the storage. Each side reads the other's index
  with one acquire load; the value that load returned is an argument (\<open>head\<close> on the
  producer's side, \<open>tail\<close> on the consumer's). A span into the storage is its offset and
  its size; the size of a span a caller passes is a \<open>nat\<close>.
\<close>

section \<open>The ring\<close>

record (overloaded) 'w byte_ring =
  br_head :: "'w::len word"
  br_tail :: "'w word"
  br_storage :: "8 word list"

definition br_new :: "nat \<Rightarrow> 'w::len byte_ring" where
  "br_new cap = \<lparr>br_head = 0, br_tail = 0, br_storage = replicate cap 0\<rparr>"

section \<open>Producer\<close>

definition br_writable_size :: "nat \<Rightarrow> 'w::len word \<Rightarrow> 'w byte_ring \<Rightarrow> 'w word" where
  "br_writable_size cap head q = of_nat cap - (br_tail q - head)"

definition br_writable_run :: "nat \<Rightarrow> 'w::len word \<Rightarrow> 'w byte_ring \<Rightarrow> 'w word" where
  "br_writable_run cap head q =
     (let free_total = of_nat cap - (br_tail q - head);
          to_end = of_nat cap - (br_tail q AND (of_nat cap - 1))
      in if free_total < to_end then free_total else to_end)"

definition br_writable_span :: "nat \<Rightarrow> 'w::len word \<Rightarrow> 'w byte_ring \<Rightarrow> nat \<times> nat" where
  "br_writable_span cap head q = (ring_index cap (br_tail q), unat (br_writable_run cap head q))"

definition br_commit_write :: "nat \<Rightarrow> 'w::len word \<Rightarrow> 'w word \<Rightarrow> 'w byte_ring \<Rightarrow> 'w byte_ring outcome" where
  "br_commit_write cap head amount q =
     METL_HARDEN (amount \<le> br_writable_run cap head q) (Inr (q\<lparr>br_tail := br_tail q + amount\<rparr>))"

text \<open>\<^verbatim>\<open>storage_[(tail + i) & (Capacity - 1)] = source[i]\<close>\<close>

definition br_copy_in :: "nat \<Rightarrow> 'w::len word \<Rightarrow> 8 word list \<Rightarrow> nat \<Rightarrow> 8 word list \<Rightarrow> 8 word list outcome" where
  "br_copy_in cap tail source i storage =
     bnd (arr_get source i) (\<lambda>b. arr_set storage (ring_index cap (tail + of_nat i)) b)"

definition br_try_write ::
  "nat \<Rightarrow> 'w::len word \<Rightarrow> 8 word list \<Rightarrow> 'w byte_ring \<Rightarrow> (bool \<times> 'w byte_ring) outcome" where
  "br_try_write cap head source q =
     (let tail = br_tail q in
      if length source > unat (of_nat cap - (tail - head)) then Inr (False, q)
      else bnd (for_upto 0 (length source) (br_copy_in cap tail source) (br_storage q)) (\<lambda>storage.
           Inr (True, q\<lparr>br_storage := storage, br_tail := tail + of_nat (length source)\<rparr>)))"

definition br_write ::
  "hardening \<Rightarrow> nat \<Rightarrow> 'w::len word \<Rightarrow> 8 word list \<Rightarrow> 'w byte_ring \<Rightarrow> 'w byte_ring outcome" where
  "br_write h cap head source q =
     bnd (br_try_write cap head source q) (\<lambda>(written, q1). METL_ASSERT h written (Inr q1))"

section \<open>Consumer\<close>

definition br_readable_size :: "'w::len word \<Rightarrow> 'w byte_ring \<Rightarrow> 'w word" where
  "br_readable_size tail q = tail - br_head q"

definition br_readable_run :: "nat \<Rightarrow> 'w::len word \<Rightarrow> 'w byte_ring \<Rightarrow> 'w word" where
  "br_readable_run cap tail q =
     (let available = tail - br_head q;
          to_end = of_nat cap - (br_head q AND (of_nat cap - 1))
      in if available < to_end then available else to_end)"

definition br_readable_span :: "nat \<Rightarrow> 'w::len word \<Rightarrow> 'w byte_ring \<Rightarrow> nat \<times> nat" where
  "br_readable_span cap tail q = (ring_index cap (br_head q), unat (br_readable_run cap tail q))"

definition br_consume :: "'w::len word \<Rightarrow> 'w word \<Rightarrow> 'w byte_ring \<Rightarrow> 'w byte_ring outcome" where
  "br_consume tail amount q =
     METL_HARDEN (amount \<le> tail - br_head q) (Inr (q\<lparr>br_head := br_head q + amount\<rparr>))"

text \<open>\<^verbatim>\<open>destination[i] = storage_[(head + i) & (Capacity - 1)]\<close>\<close>

definition br_copy_out :: "nat \<Rightarrow> 'w::len word \<Rightarrow> 8 word list \<Rightarrow> nat \<Rightarrow> 8 word list \<Rightarrow> 8 word list outcome" where
  "br_copy_out cap head storage i destination =
     bnd (arr_get storage (ring_index cap (head + of_nat i))) (\<lambda>b. arr_set destination i b)"

text \<open>How many bytes a \<^verbatim>\<open>read\<close> into \<open>amount\<close> bytes copies.\<close>

definition br_read_count :: "'w::len word \<Rightarrow> nat \<Rightarrow> 'w byte_ring \<Rightarrow> nat" where
  "br_read_count tail amount q =
     (let available = unat (tail - br_head q) in if available < amount then available else amount)"

text \<open>The count, the destination and the ring.\<close>

definition br_read ::
  "nat \<Rightarrow> 'w::len word \<Rightarrow> 8 word list \<Rightarrow> 'w byte_ring \<Rightarrow> (nat \<times> 8 word list \<times> 'w byte_ring) outcome" where
  "br_read cap tail destination q =
     (let head = br_head q; n = br_read_count tail (length destination) q in
      bnd (for_upto 0 n (br_copy_out cap head (br_storage q)) destination) (\<lambda>destination1.
        Inr (n, destination1, q\<lparr>br_head := head + of_nat n\<rparr>)))"

section \<open>Either side\<close>

text \<open>The hints: functions of what two relaxed loads at different moments return.\<close>

definition br_size_approx :: "nat \<Rightarrow> 'w::len word \<Rightarrow> 'w word \<Rightarrow> 'w word" where
  "br_size_approx cap head tail = clamped_index_distance head tail (of_nat cap)"

definition br_empty :: "nat \<Rightarrow> 'w::len word \<Rightarrow> 'w word \<Rightarrow> bool" where
  "br_empty cap head tail \<longleftrightarrow> br_size_approx cap head tail = 0"

definition br_full :: "nat \<Rightarrow> 'w::len word \<Rightarrow> 'w word \<Rightarrow> bool" where
  "br_full cap head tail \<longleftrightarrow> br_size_approx cap head tail = of_nat cap"

definition br_clear :: "'w::len byte_ring \<Rightarrow> 'w byte_ring" where
  "br_clear q = q\<lparr>br_head := 0, br_tail := 0\<rparr>"

section \<open>The two threads\<close>

text \<open>The local variables of a running \<^verbatim>\<open>try_write\<close> and \<^verbatim>\<open>read\<close>.\<close>

record (overloaded) 'w byte_writer =
  bw_busy :: bool
  bw_source :: "8 word list"
  bw_tail :: "'w::len word"
  bw_i :: nat

record (overloaded) 'w byte_reader =
  rd_busy :: bool
  rd_count :: nat
  rd_destination :: "8 word list"
  rd_head :: "'w::len word"
  rd_i :: nat

record (overloaded) 'w byte_system =
  by_ring :: "'w::len byte_ring"
  by_writer :: "'w byte_writer"
  by_reader :: "'w byte_reader"

text \<open>
  What a step lets the outside see: bytes published by a copy or a commit, a write
  refused, bytes copied out or dropped, one byte seen through a readable span.
\<close>

datatype byte_event =
    Quiet | Wrote "8 word list" | Write_refused | Committed "8 word list"
  | Read_out "8 word list" | Dropped "8 word list" | Saw nat "8 word"

type_synonym 'w byte_result = "(byte_event \<times> 'w byte_system) outcome"

definition write_enter :: "nat \<Rightarrow> 'w::len word \<Rightarrow> 8 word list \<Rightarrow> 'w byte_system \<Rightarrow> 'w byte_result" where
  "write_enter cap head source s =
     (let tail = br_tail (by_ring s) in
      if length source > unat (of_nat cap - (tail - head)) then Inr (Write_refused, s)
      else Inr (Quiet, s\<lparr>by_writer := \<lparr>bw_busy = True, bw_source = source, bw_tail = tail, bw_i = 0\<rparr>\<rparr>))"

definition write_byte :: "nat \<Rightarrow> 'w::len byte_system \<Rightarrow> 'w byte_result" where
  "write_byte cap s =
     (let q = by_ring s; w = by_writer s in
      bnd (br_copy_in cap (bw_tail w) (bw_source w) (bw_i w) (br_storage q)) (\<lambda>storage.
        Inr (Quiet, s\<lparr>by_ring := q\<lparr>br_storage := storage\<rparr>, by_writer := w\<lparr>bw_i := bw_i w + 1\<rparr>\<rparr>)))"

definition write_publish :: "'w::len byte_system \<Rightarrow> 'w byte_result" where
  "write_publish s =
     (let q = by_ring s; w = by_writer s in
      Inr (Wrote (bw_source w),
           s\<lparr>by_ring := q\<lparr>br_tail := bw_tail w + of_nat (length (bw_source w))\<rparr>, by_writer := w\<lparr>bw_busy := False\<rparr>\<rparr>))"

text \<open>The caller stores a byte into the span it was handed.\<close>

definition fill_span :: "nat \<Rightarrow> 'w::len word \<Rightarrow> nat \<Rightarrow> 8 word \<Rightarrow> 'w byte_system \<Rightarrow> 'w byte_result" where
  "fill_span cap head j b s =
     (let q = by_ring s in
      bnd (arr_set (br_storage q) (fst (br_writable_span cap head q) + j) b) (\<lambda>storage.
        Inr (Quiet, s\<lparr>by_ring := q\<lparr>br_storage := storage\<rparr>\<rparr>)))"

text \<open>The bytes of the stream at \<open>n\<close> positions from an index on.\<close>

definition bytes_at :: "nat \<Rightarrow> 'w::len word \<Rightarrow> nat \<Rightarrow> 8 word list \<Rightarrow> 8 word list" where
  "bytes_at cap index n storage = map (\<lambda>k. storage ! ring_index cap (index + of_nat k)) [0..<n]"

definition commit_step :: "nat \<Rightarrow> 'w::len word \<Rightarrow> 'w word \<Rightarrow> 'w byte_system \<Rightarrow> 'w byte_result" where
  "commit_step cap head amount s =
     bnd (br_commit_write cap head amount (by_ring s)) (\<lambda>q.
       Inr (Committed (bytes_at cap (br_tail (by_ring s)) (unat amount) (br_storage (by_ring s))), s\<lparr>by_ring := q\<rparr>))"

definition read_enter :: "'w::len word \<Rightarrow> 8 word list \<Rightarrow> 'w byte_system \<Rightarrow> 'w byte_result" where
  "read_enter tail destination s =
     Inr (Quiet, s\<lparr>by_reader := \<lparr>rd_busy = True, rd_count = br_read_count tail (length destination) (by_ring s),
                                rd_destination = destination, rd_head = br_head (by_ring s), rd_i = 0\<rparr>\<rparr>)"

definition read_byte :: "nat \<Rightarrow> 'w::len byte_system \<Rightarrow> 'w byte_result" where
  "read_byte cap s =
     (let r = by_reader s in
      bnd (br_copy_out cap (rd_head r) (br_storage (by_ring s)) (rd_i r) (rd_destination r)) (\<lambda>destination.
        Inr (Quiet, s\<lparr>by_reader := r\<lparr>rd_destination := destination, rd_i := rd_i r + 1\<rparr>\<rparr>)))"

definition read_publish :: "'w::len byte_system \<Rightarrow> 'w byte_result" where
  "read_publish s =
     (let q = by_ring s; r = by_reader s in
      Inr (Read_out (take (rd_count r) (rd_destination r)),
           s\<lparr>by_ring := q\<lparr>br_head := rd_head r + of_nat (rd_count r)\<rparr>, by_reader := r\<lparr>rd_busy := False\<rparr>\<rparr>))"

definition look_span :: "nat \<Rightarrow> 'w::len word \<Rightarrow> nat \<Rightarrow> 'w byte_system \<Rightarrow> 'w byte_result" where
  "look_span cap tail j s =
     bnd (arr_get (br_storage (by_ring s)) (fst (br_readable_span cap tail (by_ring s)) + j)) (\<lambda>b. Inr (Saw j b, s))"

definition consume_step :: "nat \<Rightarrow> 'w::len word \<Rightarrow> 'w word \<Rightarrow> 'w byte_system \<Rightarrow> 'w byte_result" where
  "consume_step cap tail amount s =
     bnd (br_consume tail amount (by_ring s)) (\<lambda>q.
       Inr (Dropped (bytes_at cap (br_head (by_ring s)) (unat amount) (br_storage (by_ring s))), s\<lparr>by_ring := q\<rparr>))"

section \<open>All interleavings\<close>

text \<open>
  A load of the consumer's index can return a value that is older by \<open>d\<close>; the producer
  has not gone past it, as it never lets its own index get more than the capacity ahead
  of a value it has loaded. A load of the producer's index is never behind the
  consumer's own. This allows every value that coherence allows, and more.
\<close>

definition loads_head :: "nat \<Rightarrow> 'w::len byte_ring \<Rightarrow> 'w word \<Rightarrow> bool" where
  "loads_head cap q head \<longleftrightarrow> br_head q - head \<le> of_nat cap - (br_tail q - br_head q)"

definition loads_tail :: "'w::len byte_ring \<Rightarrow> 'w word \<Rightarrow> bool" where
  "loads_tail q tail \<longleftrightarrow> br_tail q - tail \<le> br_tail q - br_head q"

definition byte_start :: "nat \<Rightarrow> 'w::len byte_system" where
  "byte_start cap = \<lparr>by_ring = br_new cap,
     by_writer = \<lparr>bw_busy = False, bw_source = [], bw_tail = 0, bw_i = 0\<rparr>,
     by_reader = \<lparr>rd_busy = False, rd_count = 0, rd_destination = [], rd_head = 0, rd_i = 0\<rparr>\<rparr>"

inductive byte_step :: "nat \<Rightarrow> 'w::len byte_system \<Rightarrow> 'w byte_result \<Rightarrow> bool" for cap where
  Write_enter: "\<not> bw_busy (by_writer s) \<Longrightarrow> loads_head cap (by_ring s) head \<Longrightarrow>
    byte_step cap s (write_enter cap head source s)"
| Write_byte: "bw_busy (by_writer s) \<Longrightarrow> bw_i (by_writer s) < length (bw_source (by_writer s)) \<Longrightarrow>
    byte_step cap s (write_byte cap s)"
| Write_publish: "bw_busy (by_writer s) \<Longrightarrow> bw_i (by_writer s) = length (bw_source (by_writer s)) \<Longrightarrow>
    byte_step cap s (write_publish s)"
| Fill: "\<not> bw_busy (by_writer s) \<Longrightarrow> loads_head cap (by_ring s) head \<Longrightarrow>
    j < snd (br_writable_span cap head (by_ring s)) \<Longrightarrow> byte_step cap s (fill_span cap head j b s)"
| Commit: "\<not> bw_busy (by_writer s) \<Longrightarrow> loads_head cap (by_ring s) head \<Longrightarrow>
    byte_step cap s (commit_step cap head amount s)"
| Read_enter: "\<not> rd_busy (by_reader s) \<Longrightarrow> loads_tail (by_ring s) tail \<Longrightarrow>
    byte_step cap s (read_enter tail destination s)"
| Read_byte: "rd_busy (by_reader s) \<Longrightarrow> rd_i (by_reader s) < rd_count (by_reader s) \<Longrightarrow>
    byte_step cap s (read_byte cap s)"
| Read_publish: "rd_busy (by_reader s) \<Longrightarrow> rd_i (by_reader s) = rd_count (by_reader s) \<Longrightarrow>
    byte_step cap s (read_publish s)"
| Look: "\<not> rd_busy (by_reader s) \<Longrightarrow> loads_tail (by_ring s) tail \<Longrightarrow>
    j < snd (br_readable_span cap tail (by_ring s)) \<Longrightarrow> byte_step cap s (look_span cap tail j s)"
| Consume: "\<not> rd_busy (by_reader s) \<Longrightarrow> loads_tail (by_ring s) tail \<Longrightarrow>
    byte_step cap s (consume_step cap tail amount s)"

inductive byte_run :: "nat \<Rightarrow> byte_event list \<Rightarrow> 'w::len byte_system \<Rightarrow> bool" for cap where
  Start: "byte_run cap [] (byte_start cap)"
| Step: "byte_run cap evs s \<Longrightarrow> byte_step cap s (Inr (ev, s')) \<Longrightarrow> byte_run cap (evs @ [ev]) s'"

inductive_cases byte_stepE: "byte_step cap s r"

end
