(* ===== verification/Byte_ring_spec.thy ===== *)
theory Byte_ring_spec
  imports Byte_ring
begin

text \<open>
  What \<^verbatim>\<open>spsc_byte_ring.hpp\<close> promises: to both threads together, in every interleaving of
  their byte copies and spans, it is one bounded stream of bytes. The invariant counts the
  indices without wrap-around, \<open>H\<close> and \<open>T\<close>; the count starts at \<open>2 ^ LENGTH('w)\<close>, which is
  the index 0, so that an older value is never negative.
\<close>

section \<open>The stream\<close>

fun stream_step :: "nat \<Rightarrow> byte_event \<Rightarrow> 8 word list \<Rightarrow> 8 word list option" where
  "stream_step cap (Wrote bs) pending = (if length (pending @ bs) \<le> cap then Some (pending @ bs) else None)"
| "stream_step cap (Committed bs) pending = (if length (pending @ bs) \<le> cap then Some (pending @ bs) else None)"
| "stream_step cap (Read_out bs) pending =
     (if take (length bs) pending = bs then Some (drop (length bs) pending) else None)"
| "stream_step cap (Dropped bs) pending =
     (if take (length bs) pending = bs then Some (drop (length bs) pending) else None)"
| "stream_step cap (Saw j b) pending = (if j < length pending \<and> pending ! j = b then Some pending else None)"
| "stream_step cap Quiet pending = Some pending"
| "stream_step cap Write_refused pending = Some pending"

primrec stream_trace :: "nat \<Rightarrow> byte_event list \<Rightarrow> 8 word list \<Rightarrow> 8 word list option" where
  "stream_trace cap [] pending = Some pending"
| "stream_trace cap (ev # evs) pending = Option.bind (stream_step cap ev pending) (stream_trace cap evs)"

lemma stream_trace_snoc:
  "stream_trace cap (evs @ [ev]) pending = Option.bind (stream_trace cap evs pending) (stream_step cap ev)"
  by (induction evs arbitrary: pending) (auto split: Option.bind_splits)

section \<open>Indices\<close>

definition ring_ok :: "nat \<Rightarrow> nat \<Rightarrow> nat \<Rightarrow> 8 word list \<Rightarrow> 'w::len byte_ring \<Rightarrow> bool" where
  "ring_ok cap H T xs q \<longleftrightarrow>
     br_head q = of_nat H \<and> br_tail q = of_nat T \<and> cap \<le> H \<and> H \<le> T \<and> T \<le> H + cap \<and> length xs = T - H \<and>
     length (br_storage q) = cap \<and> (\<forall>k < T - H. br_storage q ! ((H + k) mod cap) = xs ! k)"

lemma ring_okD:
  assumes "ring_ok cap H T xs q"
  shows "br_head q = of_nat H" "br_tail q = of_nat T" "cap \<le> H" "H \<le> T" "T \<le> H + cap" "length xs = T - H"
    "length (br_storage q) = cap" "k < T - H \<Longrightarrow> br_storage q ! ((H + k) mod cap) = xs ! k"
  using assms by (auto simp: ring_ok_def)

lemma free_room:
  assumes "ring_capacity TYPE('w::len) cap" "H \<le> T" "T \<le> H + cap"
  shows "unat (of_nat cap - (of_nat T - of_nat H) :: 'w word) = H + cap - T"
proof -
  note b = ring_capacity_bounds [OF assms(1)]
  have "(of_nat cap - (of_nat T - of_nat H) :: 'w word) = of_nat (H + cap) - of_nat T" by simp
  moreover have "H + cap - T < 2 ^ LENGTH('w)" using assms b by linarith
  ultimately show ?thesis using unat_distance [of T "H + cap", where 'w = 'w] assms by (simp only:)
qed

lemma loads_headE:
  assumes "ring_capacity TYPE('w::len) cap" "ring_ok cap H T xs q" "loads_head cap q (head :: 'w word)"
  obtains H' where "head = of_nat H'" "H' \<le> H" "T \<le> H' + cap" "H' \<le> T"
proof -
  note r = ring_okD [OF assms(2)]
  let ?d = "of_nat H - head"
  have d: "unat ?d \<le> H + cap - T"
    using assms(3) free_room [OF assms(1) r(4,5)] by (simp add: loads_head_def r word_le_nat_alt)
  then have "unat ?d \<le> H" using r by linarith
  then have "(of_nat (H - unat ?d) :: 'w word) = of_nat H - ?d" by (simp add: of_nat_diff)
  then show ?thesis using that [of "H - unat ?d"] d r \<open>unat ?d \<le> H\<close> by simp
qed

lemma loads_tailE:
  assumes "ring_capacity TYPE('w::len) cap" "ring_ok cap H T xs q" "loads_tail q (tail :: 'w word)"
  obtains T' where "tail = of_nat T'" "H \<le> T'" "T' \<le> T"
proof -
  note r = ring_okD [OF assms(2)] and b = ring_capacity_bounds [OF assms(1)]
  let ?d = "of_nat T - tail"
  have "unat (of_nat T - of_nat H :: 'w word) = T - H" using r b by (intro unat_distance) auto
  then have d: "unat ?d \<le> T - H" using assms(3) by (simp add: loads_tail_def r word_le_nat_alt)
  then have "(of_nat (T - unat ?d) :: 'w word) = of_nat T - ?d" using r by (simp add: of_nat_diff)
  then show ?thesis using that [of "T - unat ?d"] d r by simp
qed

lemma to_end:
  assumes "ring_capacity TYPE('w::len) cap"
  shows "unat (of_nat cap - (of_nat n AND (of_nat cap - 1)) :: 'w word) = cap - n mod cap"
proof -
  note b = ring_capacity_bounds [OF assms]
  have "unat (of_nat n AND (of_nat cap - 1) :: 'w word) = n mod cap"
    using ring_index_of_nat [OF assms] by (simp add: ring_index_def)
  then have "(of_nat n AND (of_nat cap - 1) :: 'w word) = of_nat (n mod cap)" by (metis of_nat_unat ucast_id)
  moreover have "n mod cap \<le> cap" using b by (simp add: less_imp_le)
  ultimately show ?thesis using unat_distance [of "n mod cap" cap, where 'w = 'w] b by simp
qed

lemma shortest_run:
  "unat (if a < b then a else b) = min (unat a) (unat b)" for a b :: "'w::len word"
  by (simp add: word_less_nat_alt)

lemma writable_run_eq:
  assumes "ring_capacity TYPE('w::len) cap" "br_tail q = (of_nat T :: 'w word)" "H' \<le> T" "T \<le> H' + cap"
  shows "unat (br_writable_run cap (of_nat H') q) = min (H' + cap - T) (cap - T mod cap)"
  unfolding br_writable_run_def Let_def shortest_run assms(2)
  using free_room [OF assms(1,3,4)] to_end [OF assms(1)] by simp

lemma readable_run_eq:
  assumes "ring_capacity TYPE('w::len) cap" "br_head q = (of_nat H :: 'w word)" "H \<le> T'" "T' \<le> H + cap"
  shows "unat (br_readable_run cap (of_nat T') q) = min (T' - H) (cap - H mod cap)"
proof -
  have "unat (of_nat T' - of_nat H :: 'w word) = T' - H"
    using assms ring_capacity_bounds [OF assms(1)] by (intro unat_distance) auto
  then show ?thesis
    unfolding br_readable_run_def Let_def shortest_run assms(2) using to_end [OF assms(1)] by simp
qed

lemma ring_index_add:
  assumes "ring_capacity TYPE('w::len) cap"
  shows "ring_index cap (of_nat n + of_nat k :: 'w word) = (n + k) mod cap"
  using ring_index_of_nat [OF assms, of "n + k"] by simp

lemma in_run: "j < cap - n mod cap \<Longrightarrow> n mod cap + j = (n + j) mod cap" for j :: nat
  by (metis less_diff_conv add.commute mod_add_left_eq mod_less)

section \<open>The invariant\<close>

definition writer_ok :: "nat \<Rightarrow> nat \<Rightarrow> nat \<Rightarrow> 8 word list \<Rightarrow> 'w::len byte_writer \<Rightarrow> bool" where
  "writer_ok cap H T storage w \<longleftrightarrow>
     (bw_busy w \<longrightarrow> bw_tail w = of_nat T \<and> T + length (bw_source w) \<le> H + cap \<and> bw_i w \<le> length (bw_source w) \<and>
        (\<forall>k < bw_i w. storage ! ((T + k) mod cap) = bw_source w ! k))"

definition reader_ok :: "nat \<Rightarrow> nat \<Rightarrow> 8 word list \<Rightarrow> 'w::len byte_reader \<Rightarrow> bool" where
  "reader_ok H T xs r \<longleftrightarrow>
     (rd_busy r \<longrightarrow> rd_head r = of_nat H \<and> rd_count r \<le> T - H \<and> rd_i r \<le> rd_count r \<and>
        rd_count r \<le> length (rd_destination r) \<and> (\<forall>k < rd_i r. rd_destination r ! k = xs ! k))"

definition byte_inv :: "nat \<Rightarrow> nat \<Rightarrow> nat \<Rightarrow> 8 word list \<Rightarrow> 'w::len byte_system \<Rightarrow> bool" where
  "byte_inv cap H T xs s \<longleftrightarrow>
     ring_ok cap H T xs (by_ring s) \<and> writer_ok cap H T (br_storage (by_ring s)) (by_writer s) \<and> reader_ok H T xs (by_reader s)"

lemma byte_invD:
  assumes "byte_inv cap H T xs s"
  shows "ring_ok cap H T xs (by_ring s)" "writer_ok cap H T (br_storage (by_ring s)) (by_writer s)" "reader_ok H T xs (by_reader s)"
  using assms by (auto simp: byte_inv_def)

text \<open>What follows when a step returns.\<close>

definition keeps_stream :: "nat \<Rightarrow> 8 word list \<Rightarrow> 'w::len byte_result \<Rightarrow> bool" where
  "keeps_stream cap xs r \<longleftrightarrow>
     (\<exists>ev s' H' T' xs'. r = Inr (ev, s') \<and> stream_step cap ev xs = Some xs' \<and> byte_inv cap H' T' xs' s')"

lemma keeps_streamI:
  "stream_step cap ev xs = Some xs' \<Longrightarrow> byte_inv cap H' T' xs' s' \<Longrightarrow> keeps_stream cap xs (Inr (ev, s'))"
  by (auto simp: keeps_stream_def)

text \<open>A byte stored in the free part of the ring leaves the stream as it is.\<close>

lemma ring_ok_store:
  assumes "ring_ok cap H T xs q" "T \<le> n" "n < H + cap"
  shows "ring_ok cap H T xs (q\<lparr>br_storage := (br_storage q)[n mod cap := b]\<rparr>)"
proof -
  note r = ring_okD [OF assms(1)]
  have "(br_storage q)[n mod cap := b] ! ((H + k) mod cap) = xs ! k" if "k < T - H" for k
    using window_update [OF r(7), of H n "H + k" b] that assms r by auto
  then show ?thesis using r by (auto simp: ring_ok_def)
qed

lemma ring_ok_advance_tail:
  assumes "ring_ok cap H T xs q" "T + length bs \<le> H + cap" "\<forall>k < length bs. br_storage q ! ((T + k) mod cap) = bs ! k"
  shows "ring_ok cap H (T + length bs) (xs @ bs) (q\<lparr>br_tail := of_nat T + of_nat (length bs)\<rparr>)"
proof -
  note r = ring_okD [OF assms(1)]
  have "br_storage q ! ((H + k) mod cap) = (xs @ bs) ! k" if "k < T + length bs - H" for k
  proof (cases "k < T - H")
    case False
    then have "H + k = T + (k - (T - H))" "k - (T - H) < length bs" using that r by auto
    then show ?thesis using assms(3) r(6) False by (metis nth_append)
  qed (use r in \<open>auto simp: nth_append\<close>)
  then show ?thesis using r assms(2) by (auto simp: ring_ok_def)
qed

lemma ring_ok_advance_head:
  assumes "ring_ok cap H T xs q" "n \<le> T - H"
  shows "ring_ok cap (H + n) T (drop n xs) (q\<lparr>br_head := of_nat H + of_nat n\<rparr>)"
proof -
  note r = ring_okD [OF assms(1)]
  have "br_storage q ! ((H + n + k) mod cap) = drop n xs ! k" if "k < T - (H + n)" for k
    using r(8) [of "n + k"] r(4,6) that assms(2) by (simp add: add.assoc)
  then show ?thesis using r assms(2) by (auto simp: ring_ok_def)
qed

lemma writer_ok_advance_head: "writer_ok cap H T st w \<Longrightarrow> writer_ok cap (H + n) T st w"
  by (auto simp: writer_ok_def)

lemma reader_ok_advance_tail: "reader_ok H T xs r \<Longrightarrow> length xs = T - H \<Longrightarrow> reader_ok H (T + n) (xs @ bs) r"
  by (auto simp: reader_ok_def nth_append)

section \<open>Every step keeps it\<close>

lemma write_enter_keeps:
  fixes s :: "'w::len byte_system"
  assumes "ring_capacity TYPE('w) cap" "byte_inv cap H T xs s" "loads_head cap (by_ring s) head"
  shows "keeps_stream cap xs (write_enter cap head source s)"
proof -
  note i = byte_invD [OF assms(2)]
  note r = ring_okD [OF i(1)]
  obtain H' where H': "head = of_nat H'" "H' \<le> H" "T \<le> H' + cap" "H' \<le> T" using loads_headE [OF assms(1) i(1) assms(3)] .
  have free: "unat (of_nat cap - (br_tail (by_ring s) - head)) = H' + cap - T"
    using free_room [OF assms(1) H'(4,3)] H'(1) r(2) by simp
  have "byte_inv cap H T xs (s\<lparr>by_writer := \<lparr>bw_busy = True, bw_source = source, bw_tail = br_tail (by_ring s), bw_i = 0\<rparr>\<rparr>)"
    if "length source \<le> H' + cap - T"
    using i r H' that by (auto simp: byte_inv_def writer_ok_def)
  then show ?thesis
    unfolding write_enter_def Let_def free using assms(2) by (auto intro: keeps_streamI simp: not_less)
qed

lemma write_byte_keeps:
  fixes s :: "'w::len byte_system"
  assumes "ring_capacity TYPE('w) cap" "byte_inv cap H T xs s" "bw_busy (by_writer s)"
    and "bw_i (by_writer s) < length (bw_source (by_writer s))"
  shows "keeps_stream cap xs (write_byte cap s)"
proof -
  let ?w = "by_writer s" and ?q = "by_ring s"
  note i = byte_invD [OF assms(2)]
  note r = ring_okD [OF i(1)]
  let ?n = "T + bw_i ?w" and ?b = "bw_source ?w ! bw_i ?w"
  have w: "bw_tail ?w = of_nat T" "T + length (bw_source ?w) \<le> H + cap"
    "k < bw_i ?w \<Longrightarrow> br_storage ?q ! ((T + k) mod cap) = bw_source ?w ! k" for k
    using i(2) assms(3) by (auto simp: writer_ok_def)
  have n: "?n < H + cap" "?n mod cap < cap" using w(2) assms(4) ring_capacity_bounds(1) [OF assms(1)] by auto
  have eq: "write_byte cap s = Inr (Quiet,
      s\<lparr>by_ring := ?q\<lparr>br_storage := (br_storage ?q)[?n mod cap := ?b]\<rparr>, by_writer := ?w\<lparr>bw_i := bw_i ?w + 1\<rparr>\<rparr>)"
    using assms(4) n(2) r(7) by (simp add: write_byte_def Let_def br_copy_in_def w(1) ring_index_add [OF assms(1)])
  have "(br_storage ?q)[?n mod cap := ?b] ! ((T + k) mod cap) = bw_source ?w ! k" if "k < bw_i ?w + 1" for k
    using window_update [OF r(7), of H ?n "T + k" ?b] w(3) [of k] that n(1) r by (cases "k = bw_i ?w") auto
  then have "writer_ok cap H T ((br_storage ?q)[?n mod cap := ?b]) (?w\<lparr>bw_i := bw_i ?w + 1\<rparr>)"
    using w(1,2) assms(4) by (simp add: writer_ok_def)
  then have "byte_inv cap H T xs
      (s\<lparr>by_ring := ?q\<lparr>br_storage := (br_storage ?q)[?n mod cap := ?b]\<rparr>, by_writer := ?w\<lparr>bw_i := bw_i ?w + 1\<rparr>\<rparr>)"
    using i(3) ring_ok_store [OF i(1) _ n(1)] by (simp add: byte_inv_def)
  then show ?thesis unfolding eq by (rule keeps_streamI [rotated]) simp
qed

lemma write_publish_keeps:
  fixes s :: "'w::len byte_system"
  assumes "byte_inv cap H T xs s" "bw_busy (by_writer s)" "bw_i (by_writer s) = length (bw_source (by_writer s))"
  shows "keeps_stream cap xs (write_publish s)"
proof -
  let ?w = "by_writer s" and ?q = "by_ring s"
  note i = byte_invD [OF assms(1)]
  note r = ring_okD [OF i(1)]
  have w: "bw_tail ?w = of_nat T" "T + length (bw_source ?w) \<le> H + cap"
    "\<forall>k < length (bw_source ?w). br_storage ?q ! ((T + k) mod cap) = bw_source ?w ! k"
    using i(2) assms(2,3) by (auto simp: writer_ok_def)
  have "byte_inv cap H (T + length (bw_source ?w)) (xs @ bw_source ?w)
      (s\<lparr>by_ring := ?q\<lparr>br_tail := of_nat T + of_nat (length (bw_source ?w))\<rparr>, by_writer := ?w\<lparr>bw_busy := False\<rparr>\<rparr>)"
    using ring_ok_advance_tail [OF i(1) w(2,3)] reader_ok_advance_tail [OF i(3) r(6)] by (simp add: byte_inv_def writer_ok_def)
  moreover have "stream_step cap (Wrote (bw_source ?w)) xs = Some (xs @ bw_source ?w)" using w(2) r by simp
  ultimately show ?thesis unfolding write_publish_def Let_def w(1) by (rule keeps_streamI [rotated])
qed

lemma fill_span_keeps:
  fixes s :: "'w::len byte_system"
  assumes "ring_capacity TYPE('w) cap" "byte_inv cap H T xs s" "loads_head cap (by_ring s) head"
    and "\<not> bw_busy (by_writer s)" "j < snd (br_writable_span cap head (by_ring s))"
  shows "keeps_stream cap xs (fill_span cap head j b s)"
proof -
  let ?q = "by_ring s"
  note i = byte_invD [OF assms(2)]
  note r = ring_okD [OF i(1)]
  obtain H' where H': "head = of_nat H'" "H' \<le> H" "T \<le> H' + cap" "H' \<le> T" using loads_headE [OF assms(1) i(1) assms(3)] .
  have j: "j < H' + cap - T" "j < cap - T mod cap"
    using assms(5) writable_run_eq [OF assms(1) r(2) H'(4,3)] by (auto simp: br_writable_span_def H'(1))
  have n: "T + j < H + cap" "(T + j) mod cap < cap" using j H' ring_capacity_bounds(1) [OF assms(1)] by auto
  have eq: "fill_span cap head j b s = Inr (Quiet, s\<lparr>by_ring := ?q\<lparr>br_storage := (br_storage ?q)[(T + j) mod cap := b]\<rparr>\<rparr>)"
    using n(2) r(7) by (simp add: fill_span_def Let_def br_writable_span_def r(2) ring_index_of_nat [OF assms(1)] in_run [OF j(2)])
  have "byte_inv cap H T xs (s\<lparr>by_ring := ?q\<lparr>br_storage := (br_storage ?q)[(T + j) mod cap := b]\<rparr>\<rparr>)"
    using i(3) assms(4) ring_ok_store [OF i(1) _ n(1)] by (simp add: byte_inv_def writer_ok_def)
  then show ?thesis unfolding eq by (rule keeps_streamI [rotated]) simp
qed

lemma bytes_at_eq:
  assumes "ring_capacity TYPE('w::len) cap"
  shows "bytes_at cap (of_nat n :: 'w word) m st = map (\<lambda>k. st ! ((n + k) mod cap)) [0..<m]"
  by (simp add: bytes_at_def ring_index_add [OF assms])

lemma commit_keeps:
  fixes s :: "'w::len byte_system"
  assumes "ring_capacity TYPE('w) cap" "byte_inv cap H T xs s" "loads_head cap (by_ring s) head" "\<not> bw_busy (by_writer s)"
    and "amount \<le> br_writable_run cap head (by_ring s)"
  shows "keeps_stream cap xs (commit_step cap head amount s)"
proof -
  let ?q = "by_ring s"
  note i = byte_invD [OF assms(2)]
  note r = ring_okD [OF i(1)]
  obtain H' where H': "head = of_nat H'" "H' \<le> H" "T \<le> H' + cap" "H' \<le> T" using loads_headE [OF assms(1) i(1) assms(3)] .
  have "unat amount \<le> H' + cap - T"
    using assms(5) writable_run_eq [OF assms(1) r(2) H'(4,3)] by (simp add: word_le_nat_alt H'(1))
  then have room: "T + unat amount \<le> H + cap" using H' by linarith
  define bs where "bs = bytes_at cap (br_tail ?q) (unat amount) (br_storage ?q)"
  have bs: "length bs = unat amount" "\<forall>k < length bs. br_storage ?q ! ((T + k) mod cap) = bs ! k"
    by (simp_all add: bs_def r(2) bytes_at_eq [OF assms(1)])
  have amount: "of_nat (length bs) = amount" using bs(1) by simp
  have "ring_ok cap H (T + length bs) (xs @ bs) (?q\<lparr>br_tail := of_nat T + of_nat (length bs)\<rparr>)"
    by (rule ring_ok_advance_tail [OF i(1) _ bs(2)]) (use room bs(1) in simp)
  then have "byte_inv cap H (T + length bs) (xs @ bs) (s\<lparr>by_ring := ?q\<lparr>br_tail := of_nat T + amount\<rparr>\<rparr>)"
    using assms(4) reader_ok_advance_tail [OF i(3) r(6)] unfolding amount by (simp add: byte_inv_def writer_ok_def)
  moreover have "stream_step cap (Committed bs) xs = Some (xs @ bs)" using room bs(1) r by simp
  ultimately have "keeps_stream cap xs (Inr (Committed bs, s\<lparr>by_ring := ?q\<lparr>br_tail := of_nat T + amount\<rparr>\<rparr>))"
    by (rule keeps_streamI [rotated])
  then show ?thesis using assms(5) by (simp add: commit_step_def br_commit_write_def bs_def r(2))
qed

lemma read_enter_keeps:
  fixes s :: "'w::len byte_system"
  assumes "ring_capacity TYPE('w) cap" "byte_inv cap H T xs s" "loads_tail (by_ring s) tail"
  shows "keeps_stream cap xs (read_enter tail destination s)"
proof -
  note i = byte_invD [OF assms(2)]
  note r = ring_okD [OF i(1)]
  obtain T' where T': "tail = of_nat T'" "H \<le> T'" "T' \<le> T" using loads_tailE [OF assms(1) i(1) assms(3)] .
  have "unat (of_nat T' - of_nat H :: 'w word) = T' - H"
    using r T' ring_capacity_bounds [OF assms(1)] by (intro unat_distance) auto
  then have n: "br_read_count tail (length destination) (by_ring s) = min (T' - H) (length destination)"
    by (simp add: br_read_count_def Let_def T'(1) r(1))
  show ?thesis
    unfolding read_enter_def
    by (rule keeps_streamI [where H' = H and T' = T and xs' = xs])
      (use i r T' n in \<open>auto simp: byte_inv_def reader_ok_def\<close>)
qed

lemma read_byte_keeps:
  fixes s :: "'w::len byte_system"
  assumes "ring_capacity TYPE('w) cap" "byte_inv cap H T xs s" "rd_busy (by_reader s)"
    and "rd_i (by_reader s) < rd_count (by_reader s)"
  shows "keeps_stream cap xs (read_byte cap s)"
proof -
  let ?r = "by_reader s" and ?q = "by_ring s"
  note i = byte_invD [OF assms(2)]
  note r = ring_okD [OF i(1)]
  have d: "rd_head ?r = of_nat H" "rd_count ?r \<le> T - H" "rd_count ?r \<le> length (rd_destination ?r)"
    "k < rd_i ?r \<Longrightarrow> rd_destination ?r ! k = xs ! k" for k
    using i(3) assms(3) by (auto simp: reader_ok_def)
  have n: "(H + rd_i ?r) mod cap < cap" using ring_capacity_bounds(1) [OF assms(1)] by auto
  have b: "br_storage ?q ! ((H + rd_i ?r) mod cap) = xs ! rd_i ?r" using r(8) assms(4) d(2) by simp
  have eq: "read_byte cap s = Inr (Quiet,
      s\<lparr>by_reader := ?r\<lparr>rd_destination := (rd_destination ?r)[rd_i ?r := xs ! rd_i ?r], rd_i := rd_i ?r + 1\<rparr>\<rparr>)"
    using assms(4) d(3) n r(7) b by (simp add: read_byte_def Let_def br_copy_out_def d(1) ring_index_add [OF assms(1)])
  show ?thesis
    unfolding eq
    by (rule keeps_streamI [where H' = H and T' = T and xs' = xs])
      (use i d assms(4) in \<open>auto simp: byte_inv_def reader_ok_def nth_list_update less_Suc_eq\<close>)
qed

lemma read_publish_keeps:
  fixes s :: "'w::len byte_system"
  assumes "byte_inv cap H T xs s" "rd_busy (by_reader s)" "rd_i (by_reader s) = rd_count (by_reader s)"
  shows "keeps_stream cap xs (read_publish s)"
proof -
  let ?r = "by_reader s" and ?q = "by_ring s" and ?n = "rd_count (by_reader s)"
  note i = byte_invD [OF assms(1)]
  note r = ring_okD [OF i(1)]
  have d: "rd_head ?r = of_nat H" "?n \<le> T - H" "?n \<le> length (rd_destination ?r)"
    "k < ?n \<Longrightarrow> rd_destination ?r ! k = xs ! k" for k
    using i(3) assms(2,3) by (auto simp: reader_ok_def)
  have out: "take ?n (rd_destination ?r) = take ?n xs" using d r by (intro nth_equalityI) auto
  have "byte_inv cap (H + ?n) T (drop ?n xs)
      (s\<lparr>by_ring := ?q\<lparr>br_head := of_nat H + of_nat ?n\<rparr>, by_reader := ?r\<lparr>rd_busy := False\<rparr>\<rparr>)"
    using ring_ok_advance_head [OF i(1) d(2)] writer_ok_advance_head [OF i(2)] by (simp add: byte_inv_def reader_ok_def)
  moreover have "stream_step cap (Read_out (take ?n xs)) xs = Some (drop ?n xs)" using d(2) r by (simp add: min_absorb2)
  ultimately show ?thesis unfolding read_publish_def Let_def d(1) out by (rule keeps_streamI [rotated])
qed

lemma look_span_keeps:
  fixes s :: "'w::len byte_system"
  assumes "ring_capacity TYPE('w) cap" "byte_inv cap H T xs s" "loads_tail (by_ring s) tail"
    and "j < snd (br_readable_span cap tail (by_ring s))"
  shows "keeps_stream cap xs (look_span cap tail j s)"
proof -
  let ?q = "by_ring s"
  note i = byte_invD [OF assms(2)]
  note r = ring_okD [OF i(1)]
  obtain T' where T': "tail = of_nat T'" "H \<le> T'" "T' \<le> T" using loads_tailE [OF assms(1) i(1) assms(3)] .
  have "T' \<le> H + cap" using T' r by linarith
  then have j: "j < T' - H" "j < cap - H mod cap"
    using assms(4) readable_run_eq [OF assms(1) r(1) T'(2)] by (auto simp: br_readable_span_def T'(1))
  have n: "(H + j) mod cap < cap" using ring_capacity_bounds(1) [OF assms(1)] by auto
  have "look_span cap tail j s = Inr (Saw j (xs ! j), s)"
    using n r(7) r(8) [of j] j(1) T'(3)
    by (simp add: look_span_def br_readable_span_def r(1) ring_index_of_nat [OF assms(1)] in_run [OF j(2)])
  moreover have "stream_step cap (Saw j (xs ! j)) xs = Some xs" using j(1) T'(3) r(6) by simp
  ultimately show ?thesis using keeps_streamI [OF _ assms(2)] by simp
qed

lemma consume_keeps:
  fixes s :: "'w::len byte_system"
  assumes "ring_capacity TYPE('w) cap" "byte_inv cap H T xs s" "loads_tail (by_ring s) tail" "\<not> rd_busy (by_reader s)"
    and "amount \<le> tail - br_head (by_ring s)"
  shows "keeps_stream cap xs (consume_step cap tail amount s)"
proof -
  let ?q = "by_ring s" and ?n = "unat amount"
  note i = byte_invD [OF assms(2)]
  note r = ring_okD [OF i(1)]
  obtain T' where T': "tail = of_nat T'" "H \<le> T'" "T' \<le> T" using loads_tailE [OF assms(1) i(1) assms(3)] .
  have "unat (of_nat T' - of_nat H :: 'w word) = T' - H"
    using r T' ring_capacity_bounds [OF assms(1)] by (intro unat_distance) auto
  then have n: "?n \<le> T - H" using assms(5) T' by (simp add: word_le_nat_alt r(1))
  have out: "bytes_at cap (br_head ?q) ?n (br_storage ?q) = take ?n xs"
    unfolding r(1) bytes_at_eq [OF assms(1)] using r n by (intro nth_equalityI) auto
  have "byte_inv cap (H + ?n) T (drop ?n xs) (s\<lparr>by_ring := ?q\<lparr>br_head := of_nat H + of_nat ?n\<rparr>\<rparr>)"
    using assms(4) ring_ok_advance_head [OF i(1) n] writer_ok_advance_head [OF i(2)] by (simp add: byte_inv_def reader_ok_def)
  moreover have "stream_step cap (Dropped (take ?n xs)) xs = Some (drop ?n xs)" using n r by (simp add: min_absorb2)
  ultimately have "keeps_stream cap xs (Inr (Dropped (take ?n xs), s\<lparr>by_ring := ?q\<lparr>br_head := of_nat H + of_nat ?n\<rparr>\<rparr>))"
    by (rule keeps_streamI [rotated])
  then show ?thesis using assms(5) out by (simp add: consume_step_def br_consume_def r(1))
qed

lemma commit_fails: "br_writable_run cap head (by_ring s) < amount \<Longrightarrow> commit_step cap head amount s = Inl Check_failed"
  by (simp add: commit_step_def br_commit_write_def METL_HARDEN_def not_le)

lemma consume_fails: "tail - br_head (by_ring s) < amount \<Longrightarrow> consume_step cap tail amount s = Inl Check_failed"
  by (simp add: consume_step_def br_consume_def METL_HARDEN_def not_le)

lemma byte_step_keeps:
  fixes s :: "'w::len byte_system"
  assumes "ring_capacity TYPE('w) cap" "byte_inv cap H T xs s" "byte_step cap s r"
  shows "keeps_stream cap xs r \<or> r = Inl Check_failed \<and>
    ((\<exists>head amount. loads_head cap (by_ring s) head \<and> br_writable_run cap head (by_ring s) < amount \<and>
        r = commit_step cap head amount s) \<or>
     (\<exists>tail amount. loads_tail (by_ring s) tail \<and> tail - br_head (by_ring s) < amount \<and>
        r = consume_step cap tail amount s))"
  using assms(3)
proof (cases rule: byte_step.cases)
  case (Write_enter head source)
  then show ?thesis using write_enter_keeps [OF assms(1,2)] by simp
next
  case Write_byte
  then show ?thesis using write_byte_keeps [OF assms(1,2)] by simp
next
  case Write_publish
  then show ?thesis using write_publish_keeps [OF assms(2)] by simp
next
  case (Fill head j b)
  then show ?thesis using fill_span_keeps [OF assms(1,2)] by simp
next
  case (Commit head amount)
  show ?thesis
  proof (cases "amount \<le> br_writable_run cap head (by_ring s)")
    case True
    then show ?thesis using Commit commit_keeps [OF assms(1,2) Commit(3,2)] by simp
  next
    case False
    then have "br_writable_run cap head (by_ring s) < amount" by simp
    then show ?thesis using Commit commit_fails by metis
  qed
next
  case (Read_enter tail destination)
  then show ?thesis using read_enter_keeps [OF assms(1,2)] by simp
next
  case Read_byte
  then show ?thesis using read_byte_keeps [OF assms(1,2)] by simp
next
  case Read_publish
  then show ?thesis using read_publish_keeps [OF assms(2)] by simp
next
  case (Look tail j)
  then show ?thesis using look_span_keeps [OF assms(1,2)] by simp
next
  case (Consume tail amount)
  show ?thesis
  proof (cases "amount \<le> tail - br_head (by_ring s)")
    case True
    then show ?thesis using Consume consume_keeps [OF assms(1,2) Consume(3,2)] by simp
  next
    case False
    then have "tail - br_head (by_ring s) < amount" by simp
    then show ?thesis using Consume consume_fails by metis
  qed
qed

lemma byte_start_inv:
  assumes "ring_capacity TYPE('w::len) cap"
  shows "byte_inv cap (2 ^ LENGTH('w)) (2 ^ LENGTH('w)) [] (byte_start cap :: 'w byte_system)"
  using ring_capacity_bounds [OF assms]
  by (simp add: byte_inv_def byte_start_def ring_ok_def br_new_def writer_ok_def reader_ok_def)

lemma byte_run_inv:
  fixes s :: "'w::len byte_system"
  assumes "byte_run cap evs s" "ring_capacity TYPE('w) cap"
  shows "\<exists>H T xs. stream_trace cap evs [] = Some xs \<and> byte_inv cap H T xs s"
  using assms(1)
proof (induction rule: byte_run.induct)
  case Start
  then show ?case using byte_start_inv [OF assms(2)] by auto
next
  case (Step evs s ev s')
  then obtain H T xs where inv: "stream_trace cap evs [] = Some xs" "byte_inv cap H T xs s" by blast
  have "keeps_stream cap xs (Inr (ev, s'))" using byte_step_keeps [OF assms(2) inv(2) Step.hyps(2)] by simp
  then show ?case using inv(1) by (auto simp: keeps_stream_def stream_trace_snoc)
qed

section \<open>Undisturbed calls\<close>

definition br_repr :: "nat \<Rightarrow> 8 word list \<Rightarrow> 'w::len byte_ring \<Rightarrow> bool" where
  "br_repr cap xs q \<longleftrightarrow> (\<exists>H T. ring_ok cap H T xs q)"

lemma br_repr_bounds: "br_repr cap xs q \<Longrightarrow> length xs \<le> cap"
  by (auto simp: br_repr_def ring_ok_def)

lemma br_new_repr:
  assumes "ring_capacity TYPE('w::len) cap"
  shows "br_repr cap [] (br_new cap :: 'w byte_ring)"
  using byte_invD(1) [OF byte_start_inv [OF assms]] by (auto simp: br_repr_def byte_start_def)

lemma br_clear_repr:
  fixes q :: "'w::len byte_ring"
  assumes "ring_capacity TYPE('w) cap" "br_repr cap xs q"
  shows "br_repr cap [] (br_clear q)"
proof -
  obtain H T where "ring_ok cap H T xs q" using assms(2) by (auto simp: br_repr_def)
  then have "ring_ok cap (2 ^ LENGTH('w)) (2 ^ LENGTH('w)) [] (br_clear q)"
    using ring_capacity_bounds [OF assms(1)] by (simp add: ring_ok_def br_clear_def)
  then show ?thesis by (auto simp: br_repr_def)
qed

lemma br_try_write_law:
  fixes q :: "'w::len byte_ring"
  assumes "ring_capacity TYPE('w) cap" "br_repr cap xs q"
  shows "if length xs + length source \<le> cap
    then \<exists>q'. br_try_write cap (br_head q) source q = Inr (True, q') \<and> br_repr cap (xs @ source) q'
    else br_try_write cap (br_head q) source q = Inr (False, q)"
proof -
  obtain H T where ok: "ring_ok cap H T xs q" using assms(2) by (auto simp: br_repr_def)
  note r = ring_okD [OF ok]
  have free: "unat (of_nat cap - (of_nat T - of_nat H) :: 'w word) = cap - length xs"
    using free_room [OF assms(1) r(4,5)] r by simp
  show ?thesis
  proof (cases "length xs + length source \<le> cap")
    case True
    let ?Q = "\<lambda>i st. ring_ok cap H T xs (q\<lparr>br_storage := st\<rparr>) \<and> (\<forall>k < i. st ! ((T + k) mod cap) = source ! k)"
    have loop: "\<exists>st'. br_copy_in cap (of_nat T :: 'w word) source i st = Inr st' \<and> ?Q (Suc i) st'"
      if i: "i < length source" and Q: "?Q i st" for i st
    proof -
      have st: "length st = cap" using ring_okD(7) [OF conjunct1 [OF Q]] by simp
      have n: "T + i < H + cap" "(T + i) mod cap < cap" using i True r ring_capacity_bounds(1) [OF assms(1)] by auto
      have "br_copy_in cap (of_nat T :: 'w word) source i st = Inr (st[(T + i) mod cap := source ! i])"
        using i n(2) st by (simp add: br_copy_in_def ring_index_add [OF assms(1)])
      moreover have "ring_ok cap H T xs (q\<lparr>br_storage := st[(T + i) mod cap := source ! i]\<rparr>)"
        using ring_ok_store [OF conjunct1 [OF Q] _ n(1), of "source ! i"] by simp
      moreover have "st[(T + i) mod cap := source ! i] ! ((T + k) mod cap) = source ! k" if "k < Suc i" for k
        using window_update [OF st, of H "T + i" "T + k" "source ! i"] Q that n(1) r by (cases "k = i") auto
      ultimately show ?thesis by blast
    qed
    have "\<exists>st. for_upto 0 (length source) (br_copy_in cap (of_nat T :: 'w word) source) (br_storage q) = Inr st \<and> ?Q (length source) st"
      by (rule for_upto_inv [where Q = ?Q]) (use loop ok in \<open>simp_all\<close>)
    then obtain st where st: "for_upto 0 (length source) (br_copy_in cap (of_nat T :: 'w word) source) (br_storage q) = Inr st"
        "ring_ok cap H T xs (q\<lparr>br_storage := st\<rparr>)" "\<forall>k < length source. st ! ((T + k) mod cap) = source ! k"
      by blast
    have "ring_ok cap H (T + length source) (xs @ source)
        ((q\<lparr>br_storage := st\<rparr>)\<lparr>br_tail := of_nat T + of_nat (length source)\<rparr>)"
      using True r st(3) by (intro ring_ok_advance_tail [OF st(2)]) auto
    then show ?thesis
      using True st(1) free by (auto simp: br_try_write_def Let_def r(1,2) br_repr_def not_less)
  next
    case False
    then show ?thesis using free br_repr_bounds [OF assms(2)] by (simp add: br_try_write_def Let_def r(1,2))
  qed
qed

lemma br_read_law:
  fixes q :: "'w::len byte_ring"
  assumes "ring_capacity TYPE('w) cap" "br_repr cap xs q"
  shows "\<exists>q'. br_read cap (br_tail q) destination q =
      Inr (min (length xs) (length destination),
           take (length destination) xs @ drop (length xs) destination, q') \<and>
    br_repr cap (drop (length destination) xs) q'"
proof -
  obtain H T where ok: "ring_ok cap H T xs q" using assms(2) by (auto simp: br_repr_def)
  note r = ring_okD [OF ok]
  let ?n = "min (length xs) (length destination)"
  let ?f = "\<lambda>i. take i xs @ drop i destination"
  have "unat (of_nat T - of_nat H :: 'w word) = T - H"
    using r ring_capacity_bounds [OF assms(1)] by (intro unat_distance) auto
  then have n: "br_read_count (br_tail q) (length destination) q = ?n"
    by (simp add: br_read_count_def Let_def r)
  have "for_upto 0 ?n (br_copy_out cap (of_nat H :: 'w word) (br_storage q)) (?f 0) = Inr (?f ?n)"
  proof (rule for_upto_states [where f = ?f])
    fix k assume k: "0 \<le> k" "k < ?n"
    have "(H + k) mod cap < cap" using ring_capacity_bounds(1) [OF assms(1)] by auto
    moreover have "br_storage q ! ((H + k) mod cap) = xs ! k" using k r(6) by (intro r(8)) auto
    moreover have "drop k destination = destination ! k # drop (Suc k) destination"
      using k by (simp add: Cons_nth_drop_Suc)
    then have "(?f k)[k := xs ! k] = ?f (Suc k)"
      using k by (simp add: list_update_append take_Suc_conv_app_nth)
    ultimately show "br_copy_out cap (of_nat H :: 'w word) (br_storage q) k (?f k) = Inr (?f (Suc k))"
      using k r(7) by (simp add: br_copy_out_def ring_index_add [OF assms(1)])
  qed simp
  moreover have "take ?n xs @ drop ?n destination = take (length destination) xs @ drop (length xs) destination"
    by (simp add: min_def)
  moreover have "drop ?n xs = drop (length destination) xs" by (simp add: min_def)
  moreover have "br_repr cap (drop ?n xs) (q\<lparr>br_head := of_nat H + of_nat ?n\<rparr>)"
    using ring_ok_advance_head [OF ok, of ?n] r by (auto simp: br_repr_def)
  ultimately show ?thesis unfolding br_read_def Let_def n by (simp add: r(1) del: of_nat_min)
qed

lemma fresh_load:
  "loads_head cap q (br_head q)" "loads_tail q (br_tail q)"
  by (simp_all add: loads_head_def loads_tail_def)

lemma br_sizes:
  fixes q :: "'w::len byte_ring"
  assumes "ring_capacity TYPE('w) cap" "br_repr cap xs q"
  shows "unat (br_writable_size cap (br_head q) q) = cap - length xs" (is ?W)
    and "unat (br_readable_size (br_tail q) q) = length xs" (is ?R)
    and "loads_head cap q head \<Longrightarrow> unat (br_writable_size cap head q) \<le> cap - length xs"
    and "loads_tail q tail \<Longrightarrow> unat (br_readable_size tail q) \<le> length xs"
    and "unat (br_size_approx cap (br_head q) (br_tail q)) = length xs"
proof -
  obtain H T where ok: "ring_ok cap H T xs q" using assms(2) by (auto simp: br_repr_def)
  note r = ring_okD [OF ok] and b = ring_capacity_bounds [OF assms(1)]
  show ?W using free_room [OF assms(1) r(4,5)] r by (simp add: br_writable_size_def)
  have available: "unat (of_nat T' - of_nat H :: 'w word) = T' - H" if "H \<le> T'" "T' \<le> T" for T'
    using r b that by (intro unat_distance) auto
  then show ?R using r by (simp add: br_readable_size_def)
  show "unat (br_writable_size cap head q) \<le> cap - length xs" if load: "loads_head cap q head"
  proof -
    obtain H' where H': "head = of_nat H'" "H' \<le> H" "T \<le> H' + cap" "H' \<le> T" using loads_headE [OF assms(1) ok load] .
    have "unat (br_writable_size cap head q) = H' + cap - T"
      using free_room [OF assms(1) H'(4,3)] H'(1) r(2) by (simp add: br_writable_size_def)
    then show ?thesis using H' r by linarith
  qed
  show "unat (br_readable_size tail q) \<le> length xs" if load: "loads_tail q tail"
  proof -
    obtain T' where T': "tail = of_nat T'" "H \<le> T'" "T' \<le> T" using loads_tailE [OF assms(1) ok load] .
    have "unat (br_readable_size tail q) = T' - H" using available [OF T'(2,3)] by (simp add: br_readable_size_def T'(1) r(1))
    then show ?thesis using T' r by linarith
  qed
  have "unat (clamped_index_distance (of_nat H) (of_nat T) (of_nat cap) :: 'w word) = min (T - H) cap"
    using r b by (intro clamped_index_distance_exact) linarith+
  then show "unat (br_size_approx cap (br_head q) (br_tail q)) = length xs" using r by (simp add: br_size_approx_def)
qed

lemma br_spans:
  fixes q :: "'w::len byte_ring"
  assumes "ring_capacity TYPE('w) cap" "br_repr cap xs q"
  shows "snd (br_writable_span cap (br_head q) q) = 0 \<longleftrightarrow> length xs = cap"
    and "snd (br_readable_span cap (br_tail q) q) = 0 \<longleftrightarrow> xs = []"
    and "(case br_readable_span cap (br_tail q) q of (at, n) \<Rightarrow> take n (drop at (br_storage q)) = take n xs \<and> n \<le> length xs \<and> at + n \<le> cap)"
    and "(case br_writable_span cap (br_head q) q of (at, n) \<Rightarrow> n \<le> cap - length xs \<and> at + n \<le> cap)"
proof -
  obtain H T where ok: "ring_ok cap H T xs q" using assms(2) by (auto simp: br_repr_def)
  note r = ring_okD [OF ok] and b = ring_capacity_bounds [OF assms(1)]
  have m: "H mod cap < cap" "T mod cap < cap" using b by auto
  have run: "unat (br_writable_run cap (br_head q) q) = min (cap - length xs) (cap - T mod cap)"
    using writable_run_eq [OF assms(1) r(2,4,5)] r by (simp add: add.commute)
  have run': "unat (br_readable_run cap (br_tail q) q) = min (length xs) (cap - H mod cap)"
    using readable_run_eq [OF assms(1) r(1,4,5)] r by simp
  have at: "ring_index cap (br_tail q) = T mod cap" "ring_index cap (br_head q) = H mod cap"
    by (simp_all add: r ring_index_of_nat [OF assms(1)])
  have fits: "H mod cap + min n (cap - H mod cap) \<le> cap" "T mod cap + min n (cap - T mod cap) \<le> cap" for n
    using m by linarith+
  show "snd (br_writable_span cap (br_head q) q) = 0 \<longleftrightarrow> length xs = cap"
    using run m br_repr_bounds [OF assms(2)] by (auto simp: br_writable_span_def)
  show "snd (br_readable_span cap (br_tail q) q) = 0 \<longleftrightarrow> xs = []"
    unfolding br_readable_span_def snd_conv run' using m(1) by (auto simp: min_def)
  let ?n = "min (length xs) (cap - H mod cap)"
  have "take ?n (drop (H mod cap) (br_storage q)) = take ?n xs"
    using r m(1) in_run [of _ cap H] by (intro nth_equalityI) auto
  then show "(case br_readable_span cap (br_tail q) q of (at, n) \<Rightarrow> take n (drop at (br_storage q)) = take n xs \<and> n \<le> length xs \<and> at + n \<le> cap)"
    unfolding br_readable_span_def run' at using fits by simp
  show "(case br_writable_span cap (br_head q) q of (at, n) \<Rightarrow> n \<le> cap - length xs \<and> at + n \<le> cap)"
    unfolding br_writable_span_def run at using fits by simp
qed

lemma br_size_bounded: "ring_capacity TYPE('w::len) cap \<Longrightarrow> unat (br_size_approx cap head tail :: 'w word) \<le> cap"
  unfolding br_size_approx_def by (intro clamped_index_distance_bounded) (rule ring_capacity_bounds(4))

lemma br_empty_full:
  fixes q :: "'w::len byte_ring"
  assumes "ring_capacity TYPE('w) cap" "br_repr cap xs q"
  shows "br_empty cap (br_head q) (br_tail q) \<longleftrightarrow> xs = []" "br_full cap (br_head q) (br_tail q) \<longleftrightarrow> length xs = cap"
proof -
  note size = br_sizes(5) [OF assms]
  have "unat (of_nat cap :: 'w word) = cap"
    using ring_capacity_bounds(4) [OF assms(1)] by (simp add: unsigned_of_nat take_bit_nat_eq_self)
  then show "br_full cap (br_head q) (br_tail q) \<longleftrightarrow> length xs = cap" using size by (metis br_full_def unsigned_word_eqI)
  show "br_empty cap (br_head q) (br_tail q) \<longleftrightarrow> xs = []" using size by (metis br_empty_def length_0_conv unat_eq_zero)
qed

lemma br_write_law:
  fixes q :: "'w::len byte_ring"
  assumes "ring_capacity TYPE('w) cap" "br_repr cap xs q"
  shows "if length xs + length source \<le> cap
      then \<exists>q'. br_try_write cap (br_head q) source q = Inr (True, q') \<and> br_write h cap (br_head q) source q = Inr q' \<and>
                br_repr cap (xs @ source) q'
      else br_try_write cap (br_head q) source q = Inr (False, q) \<and>
           (h \<noteq> METL_HARDENING_NONE \<longrightarrow> br_write h cap (br_head q) source q = Inl Check_failed)"
  using br_try_write_law [OF assms, of source] by (auto simp: br_write_def METL_ASSERT_active)

lemma br_consume_law:
  fixes q :: "'w::len byte_ring"
  assumes "ring_capacity TYPE('w) cap" "br_repr cap xs q"
  shows "if unat amount \<le> length xs
      then \<exists>q'. br_consume (br_tail q) amount q = Inr q' \<and> br_repr cap (drop (unat amount) xs) q'
      else br_consume (br_tail q) amount q = Inl Check_failed"
proof -
  obtain H T where ok: "ring_ok cap H T xs q" using assms(2) by (auto simp: br_repr_def)
  note r = ring_okD [OF ok]
  have le: "amount \<le> br_tail q - br_head q \<longleftrightarrow> unat amount \<le> length xs"
    using br_sizes(2) [OF assms] by (simp add: br_readable_size_def word_le_nat_alt)
  have "br_repr cap (drop (unat amount) xs) (q\<lparr>br_head := br_head q + amount\<rparr>)" if "unat amount \<le> length xs"
    using ring_ok_advance_head [OF ok, of "unat amount"] that r by (auto simp: br_repr_def)
  then show ?thesis by (auto simp: br_consume_def le)
qed

section \<open>Properties\<close>

text \<open>
  C37: In every interleaving of one writing and one reading thread, byte by byte, with
  loads of the other side's index that may be old and with spans filled, committed,
  read and consumed in place, an \<^verbatim>\<open>spsc_byte_ring\<close> is one stream of at most \<open>cap\<close> bytes: what
  is read or seen or dropped is exactly what was written or committed, in order, each
  byte once. \<^verbatim>\<open>writable_size\<close> and \<^verbatim>\<open>readable_size\<close> never report too much, and no step
  touches memory outside the storage: a step returns, or it is a commit or a
  consumption of too many bytes, which the check stops.
\<close>

theorem byte_ring_all_interleavings:
  fixes s :: "'w::len byte_system"
  assumes "ring_capacity TYPE('w) cap" and "byte_run cap evs s"
  shows "\<exists>xs. stream_trace cap evs [] = Some xs \<and> length xs \<le> cap \<and>
     (\<forall>head. loads_head cap (by_ring s) head \<longrightarrow> unat (br_writable_size cap head (by_ring s)) \<le> cap - length xs) \<and>
     (\<forall>tail. loads_tail (by_ring s) tail \<longrightarrow> unat (br_readable_size tail (by_ring s)) \<le> length xs) \<and>
     (\<forall>r. byte_step cap s r \<longrightarrow>
        (\<exists>ev s' ys. r = Inr (ev, s') \<and> stream_step cap ev xs = Some ys) \<or>
        r = Inl Check_failed \<and>
          ((\<exists>head amount. loads_head cap (by_ring s) head \<and> br_writable_run cap head (by_ring s) < amount \<and>
              r = commit_step cap head amount s) \<or>
           (\<exists>tail amount. loads_tail (by_ring s) tail \<and> tail - br_head (by_ring s) < amount \<and>
              r = consume_step cap tail amount s)))"
proof -
  obtain H T xs where inv: "stream_trace cap evs [] = Some xs" "byte_inv cap H T xs s"
    using byte_run_inv [OF assms(2,1)] by blast
  have repr: "br_repr cap xs (by_ring s)" using byte_invD(1) [OF inv(2)] by (auto simp: br_repr_def)
  show ?thesis
    using inv(1) br_sizes(3,4) [OF assms(1) repr] br_repr_bounds [OF repr] byte_step_keeps [OF assms(1) inv(2)] unfolding keeps_stream_def by blast
qed

text \<open>A byte committed in place and seen through the other side's span.\<close>

theorem byte_ring_all_interleavings_witness:
  "\<exists>s :: 32 byte_system. byte_run 4 [Committed [0], Saw 0 0] s \<and>
     (\<exists>xs. stream_trace 4 [Committed [0], Saw 0 0] [] = Some xs \<and> length xs \<le> 4)"
proof -
  have cap: "ring_capacity TYPE(32) 4" by (simp add: ring_capacity_def power_of_two_def)
  let ?s = "(byte_start 4 :: 32 byte_system)\<lparr>by_ring := (br_new 4)\<lparr>br_tail := 1\<rparr>\<rparr>"
  have "commit_step 4 0 1 (byte_start 4 :: 32 byte_system) = Inr (Committed [0], ?s)"
    by (simp add: commit_step_def br_commit_write_def br_writable_run_def byte_start_def br_new_def bytes_at_def ring_index_def)
  then have "byte_step 4 (byte_start 4 :: 32 byte_system) (Inr (Committed [0], ?s))"
    using byte_step.Commit [of "byte_start 4 :: 32 byte_system" 4 0 1] by (simp add: byte_start_def br_new_def loads_head_def)
  from byte_run.Step [OF byte_run.Start this] have "byte_run 4 [Committed [0]] ?s" by simp
  moreover have "look_span 4 1 0 ?s = Inr (Saw 0 0, ?s)"
    by (simp add: look_span_def br_readable_span_def br_new_def byte_start_def ring_index_def)
  then have "byte_step 4 ?s (Inr (Saw 0 0, ?s))"
    using byte_step.Look [of ?s 1 0 4]
    by (simp add: byte_start_def br_new_def loads_tail_def br_readable_span_def br_readable_run_def)
  ultimately have run: "byte_run 4 [Committed [0], Saw 0 0] ?s" using byte_run.Step by fastforce
  from byte_ring_all_interleavings [OF cap run] show ?thesis using run by blast
qed

text \<open>
  C38: The operations of an \<^verbatim>\<open>spsc_byte_ring\<close> that holds \<open>xs\<close>, undisturbed and on every branch: \<^verbatim>\<open>try_write\<close>
  appends everything or, when it does not fit, nothing; \<^verbatim>\<open>write\<close> stops the program
  instead; \<^verbatim>\<open>read\<close> copies out as much as there is and there is room for, leaving the
  rest of the destination alone; the sizes are exact, and whatever the two loads of
  \<^verbatim>\<open>size_approx\<close> return it is at most the capacity; a readable span shows the
  first bytes held; a span is empty only when the ring is full or empty; \<^verbatim>\<open>consume\<close>
  drops and \<^verbatim>\<open>clear\<close> empties.
\<close>

theorem byte_ring_operations:
  fixes q :: "'w::len byte_ring"
  assumes "ring_capacity TYPE('w) cap" and "br_repr cap xs q"
  shows "(if length xs + length source \<le> cap
      then \<exists>q'. br_try_write cap (br_head q) source q = Inr (True, q') \<and> br_write h cap (br_head q) source q = Inr q' \<and>
                br_repr cap (xs @ source) q'
      else br_try_write cap (br_head q) source q = Inr (False, q) \<and>
           (h \<noteq> METL_HARDENING_NONE \<longrightarrow> br_write h cap (br_head q) source q = Inl Check_failed)) \<and>
     (\<exists>q'. br_read cap (br_tail q) destination q =
             Inr (min (length xs) (length destination), take (length destination) xs @ drop (length xs) destination, q') \<and>
           br_repr cap (drop (length destination) xs) q') \<and>
     unat (br_writable_size cap (br_head q) q) = cap - length xs \<and> unat (br_readable_size (br_tail q) q) = length xs \<and>
     (br_empty cap (br_head q) (br_tail q) \<longleftrightarrow> xs = []) \<and> (br_full cap (br_head q) (br_tail q) \<longleftrightarrow> length xs = cap) \<and>
     (\<forall>head tail :: 'w word. unat (br_size_approx cap head tail) \<le> cap) \<and>
     (snd (br_writable_span cap (br_head q) q) = 0 \<longleftrightarrow> length xs = cap) \<and>
     (snd (br_readable_span cap (br_tail q) q) = 0 \<longleftrightarrow> xs = []) \<and>
     (case br_readable_span cap (br_tail q) q of (at, n) \<Rightarrow>
        take n (drop at (br_storage q)) = take n xs \<and> n \<le> length xs \<and> at + n \<le> cap) \<and>
     (if unat amount \<le> length xs
      then \<exists>q'. br_consume (br_tail q) amount q = Inr q' \<and> br_repr cap (drop (unat amount) xs) q'
      else br_consume (br_tail q) amount q = Inl Check_failed) \<and>
     br_repr cap [] (br_clear q)"
  using br_write_law [OF assms, of source h] br_read_law [OF assms, of destination] br_sizes(1,2) [OF assms]
    br_empty_full [OF assms] br_size_bounded [OF assms(1)] br_spans(1,2,3) [OF assms] br_consume_law [OF assms, of amount] br_clear_repr [OF assms]
  by simp

theorem byte_ring_operations_witness:
  "\<exists>q :: 16 byte_ring. br_try_write 4 0 [1, 2, 3] (br_new 4) = Inr (True, q) \<and>
     (\<exists>q'. br_read 4 (br_tail q) [9, 9, 9, 9] q = Inr (3, [1, 2, 3, 9], q') \<and> br_repr 4 [] q')"
proof -
  have cap: "ring_capacity TYPE(16) 4" by (simp add: ring_capacity_def power_of_two_def)
  have "br_head (br_new 4 :: 16 byte_ring) = 0" by (simp add: br_new_def)
  then obtain q :: "16 byte_ring" where q: "br_try_write 4 0 [1, 2, 3] (br_new 4) = Inr (True, q)" "br_repr 4 [1, 2, 3] q"
    using byte_ring_operations [OF cap br_new_repr [OF cap], of "[1, 2, 3]" METL_HARDENING_NONE "[]" 0] by auto
  have "\<exists>q'. br_read 4 (br_tail q) [9, 9, 9, 9] q = Inr (3, [1, 2, 3, 9], q') \<and> br_repr 4 [] q'"
    using byte_ring_operations [OF cap q(2), of "[]" METL_HARDENING_NONE "[9, 9, 9, 9]" 0] by (simp add: eval_nat_numeral)
  then show ?thesis using q(1) by blast
qed

end
