(* ===== verification/Spec2Isabelle.thy ===== *)
theory Spec2Isabelle
  imports Ring_spec Unordered_map_whole Fixed_vector_spec Priority_queue_spec Flat_whole
    Handle_pool_spec Number_text Mpmc_whole Crc Byte_ring_spec
begin

text \<open>
  A verification development for \<^verbatim>\<open>metl\<close>, a header-only C++17 library of
  fixed-capacity containers, pools, queues and small algorithms for embedded
  targets (\<^verbatim>\<open>src/include/metl\<close>).

  \<^bold>\<open>Conventions.\<close> A method is a function that takes the object's state (a record
  with the data members) and returns the new one. The result type is an
  \<open>outcome\<close>: \<open>Inr\<close> a value, or \<open>Inl\<close> a failure, which is either \<open>Check_failed\<close>
  (the program ended in a library check) or a use of storage that C++ leaves
  undefined. \<^verbatim>\<open>METL_HARDENING\<close> is the argument \<open>h\<close>. Template parameters are
  arguments: \<^verbatim>\<open>Capacity\<close> is \<open>cap\<close>. An element constructor is a value of
  type \<open>ctor\<close>, which either builds an element or throws; the result of a call
  that can let an exception out is a \<open>call\<close>. Where one call runs several
  constructors, each has an outcome of its own: the move of \<^verbatim>\<open>push_overwrite\<close>
  (\<open>move_ctor\<close>), the elements of \<^verbatim>\<open>resize\<close> (a function of the index). A move produces
  the value; the moved-from object is only destroyed or assigned to afterwards, and so
  its value is not kept. Where it can be seen again it is an argument: \<open>husk\<close> is what a
  throwing move leaves of an element of a flat container, and \<open>gone_hash\<close>, \<open>gone_eq\<close>
  are what moving a table leaves of its functors. A \<^verbatim>\<open>size_t\<close> that indexes an array
  in memory is a \<open>nat\<close>; one that wraps is a word, of any width for the lock-free queues.

  \<^bold>\<open>Theories.\<close>
  \<^item> \<open>Prelude\<close>: outcomes, powers of two and masks, list lemmas.
  \<^item> \<open>Config\<close>: the check macros of \<^verbatim>\<open>config.hpp\<close>.
  \<^item> \<open>Slots\<close>: raw element storage, shared by all containers.
  \<^item> \<open>Fifo\<close>: the contract of a bounded queue (locale \<open>bounded_fifo\<close>).
  \<^item> \<open>Ring\<close>, \<open>Ring_spec\<close>: \<^verbatim>\<open>detail/ring_core.hpp\<close>, \<^verbatim>\<open>ring_buffer.hpp\<close>,
    \<^verbatim>\<open>fixed_deque.hpp\<close>, \<^verbatim>\<open>fixed_queue.hpp\<close>, and what they promise.
  \<^item> \<open>Bits\<close>: \<^verbatim>\<open>bit.hpp\<close>. \<open>Bitset\<close>: \<^verbatim>\<open>detail/bitset.hpp\<close>. \<open>Hash\<close>: \<^verbatim>\<open>hash.hpp\<close>.
  \<^item> \<open>Unordered_map\<close>: \<^verbatim>\<open>static_unordered_map.hpp\<close>, over bitsets for the slot states.
    \<open>Probing\<close> holds the table invariant, \<open>Unordered_map_correct\<close> the single operations,
    \<open>Rebuild\<close> the in-place rebuild, \<open>Map_spec\<close> the contract of a bounded map (locale
    \<open>bounded_map\<close>), \<open>Unordered_map_spec\<close> its interpretation, \<open>Unordered_map_whole\<close>
    the operations on whole tables.
  \<^item> \<open>Packed\<close>: storage filled from the front, with the relocation loops.
    \<open>Fixed_vector\<close>, \<open>Fixed_vector_spec\<close>: \<^verbatim>\<open>fixed_vector.hpp\<close> and \<^verbatim>\<open>fixed_stack.hpp\<close> against
    lists.
  \<^item> \<open>Throwing\<close>: calls into caller code that may throw, chosen by a \<open>fuse\<close>;
    \<open>Vector_actions\<close>: such actions on a vector. \<open>Order\<close>: strict weak orderings (locale
    \<open>strict_weak_order\<close>). \<open>Heap_lists\<close>, \<open>Priority_queue\<close>, \<open>Priority_queue_spec\<close>:
    \<^verbatim>\<open>fixed_priority_queue.hpp\<close> against multisets, with throwing comparators and moves.
  \<^item> \<open>Flat\<close>, \<open>Flat_containers\<close>: \<^verbatim>\<open>flat_map.hpp\<close> and \<^verbatim>\<open>flat_set.hpp\<close>, over one sorted array.
    \<open>Flat_correct\<close> has searching and relocation, \<open>Flat_laws\<close> the operations, \<open>Flat_spec\<close> the
    interpretation of \<open>bounded_map\<close>, \<open>Flat_whole\<close> whole containers and the properties.
  \<^item> \<open>Handle\<close>: \<^verbatim>\<open>versioned_handle.hpp\<close> at every width. \<open>Handle_pool\<close>, \<open>Handle_pool_spec\<close>:
    \<^verbatim>\<open>handle_pool.hpp\<close>, its free list through the storage, and the lifetime of handles.
  \<^item> \<open>Format\<close>, \<open>Parse\<close>: \<^verbatim>\<open>format.hpp\<close> and \<^verbatim>\<open>parse.hpp\<close>; \<open>Number_text\<close>: exactness and the
    round trip.
  \<^item> \<open>Ticket\<close>: \<^verbatim>\<open>detail/index_distance.hpp\<close>, counters that wrap. \<open>Channel\<close>: the contract of a
    bounded channel (locale \<open>bounded_channel\<close>). \<open>Spsc_queue\<close>, \<open>Spsc_spec\<close>: \<^verbatim>\<open>spsc_queue.hpp\<close> in
    every interleaving of its two threads. \<open>Mpmc_queue\<close>: \<^verbatim>\<open>mpmc_queue.hpp\<close>; \<open>Mpmc_spec\<close> has the
    invariant of its cells and tickets, \<open>Mpmc_steps\<close> shows that every step keeps it, \<open>Mpmc_runs\<close>
    lifts this to all runs, \<open>Mpmc_whole\<close> has undisturbed calls and the properties.
  \<^item> \<open>Byte_ring\<close>, \<open>Byte_ring_spec\<close>: \<^verbatim>\<open>spsc_byte_ring.hpp\<close>, undisturbed and in every interleaving of
    its byte copies and spans, against a bounded stream of bytes.
  \<^item> \<open>Crc\<close>: \<^verbatim>\<open>detail/crc.hpp\<close>, \<^verbatim>\<open>crc8.hpp\<close>, \<^verbatim>\<open>crc16.hpp\<close>, \<^verbatim>\<open>crc32.hpp\<close>, with and without tables;
    the registers share the locale \<open>crc_register\<close>.

  \<^bold>\<open>Threads.\<close> The operations of the lock-free queues are cut into steps at their
  accesses to shared memory, and a run is any interleaving of steps. A load may return
  an older value than the newest; which ones is said at each step relation. Memory
  orders are not represented otherwise: a thread that has seen an index also sees the
  elements stored before it, as the release and acquire pairs of the code provide. A
  step of \<open>mq_step\<close> that compares tickets has the premise \<open>timely\<close>: the thread has not been
  overtaken by half the range of \<^verbatim>\<open>size_t\<close>. The size queries are functions of the two values
  they load, for which the theorems assume nothing or only that each was once current.

  \<^bold>\<open>Fuel.\<close> Loops over a counter are recursions with a termination proof. The loops of the
  in-place rebuild have fuel taken from the number of buckets, and the theorem on the
  rebuild shows that it is never used up. The retry loops of \<^verbatim>\<open>mpmc_queue\<close> are partial
  functions, and the theorem on lock-freedom shows that they return when undisturbed. A \<open>fuse\<close> chooses which call
  into caller code throws; the theorems hold for every fuse.

  \<^bold>\<open>Where the code and its documentation differ.\<close> \<open>push_overwrite_throw_evicts\<close> and
  \<open>resize_throw_keeps_built\<close> evaluate calls that throw and leave a container neither unchanged nor
  empty. \<open>flat_map_throw_breaks_order\<close> evaluates an insertion whose first move, which is
  not inside the \<^verbatim>\<open>try\<close>, leaves a map out of order.

  \<^bold>\<open>Not modelled.\<close>
  \<^item> Throwing hashers, key comparisons and comparators of the maps, and throwing copies
    and swaps of elements, with the handlers in \<^verbatim>\<open>swap\<close> and in the rebuild that clear; the
    shifts of \<^verbatim>\<open>fixed_vector\<close> itself are modelled for moves that do not throw.
  \<^item> Addresses: whether a range lies in a vector's own storage is a tag, and
    \<^verbatim>\<open>this == &other\<close> is an argument. So the intrusive containers, the allocators and
    \<^verbatim>\<open>object_pool\<close>, which hand out or link addresses, are left out.
  \<^item> Lookup with other key types, which repeats the lookups; \<^verbatim>\<open>static_unordered_set\<close>, which
    repeats \<^verbatim>\<open>static_unordered_map\<close>; \<^verbatim>\<open>fixed_string\<close>.
  \<^item> \<^verbatim>\<open>hash_key\<close> with hashers other than \<^verbatim>\<open>std::hash\<close> of an integer, and \<^verbatim>\<open>fnv1a_hash\<close> of the
    bytes of an arbitrary object.
  \<^item> Hardware and platform access, type erasure, coroutines, compile-time tables and the
    value wrappers \<^verbatim>\<open>optional\<close>, \<^verbatim>\<open>expected\<close> and \<^verbatim>\<open>span\<close>, for which the model uses options, sums and
    lists.
\<close>

section \<open>Properties across components\<close>

text \<open>
  C33: The sorted and the hashed map cannot be told apart: a \<^verbatim>\<open>flat_map\<close> and a
  \<^verbatim>\<open>static_unordered_map\<close> of the same capacity, whose comparator and key equality agree
  on which keys are the same, return the same results in every sequence of
  lookups, insertions, insert-or-assigns and erasures.
\<close>

theorem maps_indistinguishable:
  fixes calls :: "('k, 'v) map_call list"
  assumes "strict_weak_order lt" "valid_capacity cap" "\<forall>a b. same_rank lt a b \<longrightarrow> hash a = hash b"
  shows "bnd (map_run (fm_ops cap assignable) calls (flat_empty cap lt)) (\<lambda>p. Inr (fst p)) =
     bnd (map_run (um_ops rb cap) calls (um_empty_with cap hash (same_rank lt))) (\<lambda>p. Inr (fst p))"
proof -
  have equiv: "equivp (same_rank lt)"
    using strict_weak_order.equivp_equiv [OF assms(1)] strict_weak_order.same_rank_equiv [OF assms(1)] by simp
  have "fm_abs cap lt (flat_empty cap lt) (\<lambda>_. None :: 'v option) 0"
    unfolding flat_empty_of
    by (rule fm_absI) (use assms in \<open>auto simp: flat_sorted_def fm_contents_def flat_lookup_def\<close>)
  moreover have "um_abs cap (same_rank lt) (um_empty_with cap hash (same_rank lt)) (\<lambda>_. None :: 'v option) 0"
    using assms equiv by (intro um_empty_abs) auto
  ultimately show ?thesis
    by (simp only: fm_map.run_observes_spec um_map.run_observes_spec)
qed

theorem maps_indistinguishable_witness:
  "bnd (map_run (fm_ops 2 True) [Try_emplace 5 (50 :: nat), Erase 5, Find (5 :: nat)] (flat_empty 2 std_less)) (\<lambda>p. Inr (fst p)) =
   bnd (map_run (um_ops False 2) [Try_emplace 5 (50 :: nat), Erase 5, Find (5 :: nat)] (um_empty_with 2 (\<lambda>_. 7) (same_rank std_less)))
     (\<lambda>p. Inr (fst p))"
  by (rule maps_indistinguishable [OF std_less.strict_weak_order_axioms]) (simp_all add: valid_capacity_def)

text \<open>
  C34: To a client whose calls do not overlap, a new \<^verbatim>\<open>spsc_queue\<close> and a new \<^verbatim>\<open>mpmc_queue\<close> are
  the same bounded first-in first-out channel: every sequence of \<^verbatim>\<open>try_push\<close> and \<^verbatim>\<open>try_pop\<close>
  calls returns what the channel of that capacity returns, for every width of
  \<^verbatim>\<open>size_t\<close>, and never stops the program.
\<close>

theorem lock_free_queues_are_channels:
  assumes "ring_capacity TYPE('w::len) cap"
  shows "bnd (channel_run (sq_try_push cap) (sq_try_pop cap) calls (sq_new cap :: ('a, 'w) spsc_queue)) (\<lambda>p. Inr (fst p)) =
       Inr (channel_spec cap calls []) \<and>
     bnd (mq_new cap) (\<lambda>q :: ('a, 'w) mpmc_queue.
       bnd (channel_run (mq_try_push h cap) (mq_try_pop h cap) calls q) (\<lambda>p. Inr (fst p))) =
       Inr (channel_spec cap calls [])"
proof -
  obtain q :: "('a, 'w) mpmc_queue" where q: "mq_new cap = Inr q" using mq_new_eq by blast
  show ?thesis
    using spsc_channel.run_observes_channel [OF sq_new_repr [OF assms], of calls]
      mpmc_channel.run_observes_channel [OF mq_new_repr [OF assms q], of h calls] q by auto
qed

theorem lock_free_queues_are_channels_witness:
  "bnd (channel_run (sq_try_push 2) (sq_try_pop 2) [Send (7 :: nat), Send 8, Send 9, Receive] (sq_new 2 :: (nat, 32) spsc_queue))
     (\<lambda>p. Inr (fst p)) = Inr [Sent True, Sent True, Sent False, Received (Some 7)]"
proof -
  have "ring_capacity TYPE(32) 2" by (simp add: ring_capacity_def power_of_two_def)
  from lock_free_queues_are_channels [OF this, of "[Send (7 :: nat), Send 8, Send 9, Receive]" METL_HARDENING_NONE]
  show ?thesis by simp
qed

end
